(* ===== verification/LosPrelude.thy ===== *)
theory LosPrelude
  imports "HOL-Library.Word" "HOL-Library.Monad_Syntax"
begin

text \<open>
  Shared vocabulary of the development: names for the machine integer types of
  the kernel's C code, the collections of rewrite rules that the component
  proofs hand to the simplifier, the tests of status flags, the
  count-leading-zeros instruction, and list and option facts that several
  components use.

  Conventions.  A kernel operation that may dereference NULL, fail a LOS_ASSERT
  (an endless loop in the C code) or call LOS_Panic is a function into an
  \<open>option\<close>; \<open>None\<close> means that the operation does not return.  Status codes are
  the unsigned 32-bit numbers of the headers.
\<close>

unbundle bit_operations_syntax

type_synonym u8 = "8 word"
type_synonym u16 = "16 word"
type_synonym u32 = "32 word"
type_synonym u64 = "64 word"
type_synonym i32 = "32 word"

named_theorems flag_simps \<open>tests, updates and clears of status flags as bits\<close>
named_theorems los_defs \<open>straight-line kernel operations to unfold\<close>
named_theorems list_laws \<open>laws of the doubly linked lists\<close>

text \<open>A failing check: the C code does not get past it.\<close>

definition los_assert :: "bool \<Rightarrow> unit option" where
  "los_assert b = (if b then Some () else None)"

text \<open>The CLZ instruction (__builtin_clz) on a 32-bit word.\<close>

primrec clz_from :: "nat \<Rightarrow> u32 \<Rightarrow> nat" where
  "clz_from 0 w = 32"
| "clz_from (Suc n) w = (if bit w n then 31 - n else clz_from n w)"

definition CLZ :: "u32 \<Rightarrow> nat" where
  "CLZ w = clz_from 32 w"

text \<open>LOS_Align: rounds an address up to a power-of-two boundary.\<close>

definition LOS_Align :: "u32 \<Rightarrow> u32 \<Rightarrow> u32" where
  "LOS_Align addr boundary =
     (addr + (if addr + (boundary - 1) > addr then boundary - 1 else 0)) AND NOT (boundary - 1)"

lemma los_assert_True [simp]: "los_assert True = Some ()"
  by (simp add: los_assert_def)

lemma los_assert_iff [simp]: "los_assert b = Some u \<longleftrightarrow> b"
  by (simp add: los_assert_def)

lemma bind_los_assert: "b \<Longrightarrow> los_assert b \<bind> f = f ()"
  by (simp add: los_assert_def)

lemma bind_Some_iff: "(x \<bind> f) = Some y \<longleftrightarrow> (\<exists>z. x = Some z \<and> f z = Some y)"
  by (cases x) simp_all

lemma clz_from_less: "bit w k \<Longrightarrow> k < n \<Longrightarrow> n \<le> 32 \<Longrightarrow>
    clz_from n w < 32 \<and> bit w (31 - clz_from n w) \<and> clz_from n w \<le> 31 - k"
proof (induction n)
  case 0
  then show ?case by simp
next
  case (Suc n)
  show ?case
  proof (cases "bit w n")
    case True
    with Suc.prems show ?thesis by auto
  next
    case False
    with Suc.prems have "k < n" by (metis less_antisym)
    with Suc False show ?thesis by simp
  qed
qed

lemma CLZ_bit:
  assumes "w \<noteq> 0"
  shows "CLZ w < 32" "bit w (31 - CLZ w)"
proof -
  from assms obtain k where k: "bit w k" by (auto simp: bit_eq_iff)
  then have "k < 32" using bit_imp_le_length by fastforce
  with clz_from_less [OF k, of 32] show "CLZ w < 32" "bit w (31 - CLZ w)"
    by (simp_all add: CLZ_def)
qed

lemma CLZ_le:
  assumes "bit w (31 - p)" "p < 32"
  shows "CLZ w \<le> p"
  using clz_from_less [OF assms(1), of 32] assms(2) by (simp add: CLZ_def)

lemma sorted_map_cong: "sorted (map f xs) \<Longrightarrow> (\<And>x. x \<in> set xs \<Longrightarrow> g x = f x) \<Longrightarrow> sorted (map g xs)"
  by (induction xs) auto

text \<open>Tests of one flag of a status word, and of the unions of flags the kernel tests.\<close>

lemma and_union_eq_0: "(x :: 'a::len word) AND (a OR b) = 0 \<longleftrightarrow> x AND a = 0 \<and> x AND b = 0"
  by (auto simp: bit_eq_iff bit_simps)

lemma flag16_test [flag_simps]:
  "(x :: u16) AND 1 = 0 \<longleftrightarrow> \<not> bit x 0"
  "x AND 2 = 0 \<longleftrightarrow> \<not> bit x 1"
  "x AND 4 = 0 \<longleftrightarrow> \<not> bit x 2"
  "x AND 8 = 0 \<longleftrightarrow> \<not> bit x 3"
  "x AND 0x10 = 0 \<longleftrightarrow> \<not> bit x 4"
  "x AND 0x20 = 0 \<longleftrightarrow> \<not> bit x 5"
  "x AND 0x40 = 0 \<longleftrightarrow> \<not> bit x 6"
  "x AND 0x80 = 0 \<longleftrightarrow> \<not> bit x 7"
  "x AND 0x100 = 0 \<longleftrightarrow> \<not> bit x 8"
  "x AND 0x800 = 0 \<longleftrightarrow> \<not> bit x 11"
  "x AND 0x1000 = 0 \<longleftrightarrow> \<not> bit x 12"
  "x AND 0x4000 = 0 \<longleftrightarrow> \<not> bit x 14"
  "x AND 0x8000 = 0 \<longleftrightarrow> \<not> bit x 15"
  using and_exp_eq_0_iff_not_bit [of x 0] and_exp_eq_0_iff_not_bit [of x 1]
    and_exp_eq_0_iff_not_bit [of x 2] and_exp_eq_0_iff_not_bit [of x 3]
    and_exp_eq_0_iff_not_bit [of x 4] and_exp_eq_0_iff_not_bit [of x 5]
    and_exp_eq_0_iff_not_bit [of x 6] and_exp_eq_0_iff_not_bit [of x 7]
    and_exp_eq_0_iff_not_bit [of x 8] and_exp_eq_0_iff_not_bit [of x 11]
    and_exp_eq_0_iff_not_bit [of x 12] and_exp_eq_0_iff_not_bit [of x 14]
    and_exp_eq_0_iff_not_bit [of x 15]
  by simp_all

declare bit_and_iff [flag_simps] bit_or_iff [flag_simps] bit_not_iff [flag_simps]

lemma flag16_union_test [flag_simps]:
  "(x :: u16) AND (a OR b) = 0 \<longleftrightarrow> x AND a = 0 \<and> x AND b = 0"
  by (rule and_union_eq_0)

lemma bit_exp16: "k < 16 \<Longrightarrow> bit (2 ^ k :: u16) n \<longleftrightarrow> n = k"
  by (simp only: bit_exp_iff possible_bit_word) auto

lemma flag16_bit [flag_simps]:
  "bit (1 :: u16) n \<longleftrightarrow> n = 0" "bit (2 :: u16) n \<longleftrightarrow> n = 1" "bit (4 :: u16) n \<longleftrightarrow> n = 2"
  "bit (8 :: u16) n \<longleftrightarrow> n = 3" "bit (0x10 :: u16) n \<longleftrightarrow> n = 4" "bit (0x20 :: u16) n \<longleftrightarrow> n = 5"
  "bit (0x40 :: u16) n \<longleftrightarrow> n = 6" "bit (0x80 :: u16) n \<longleftrightarrow> n = 7" "bit (0x100 :: u16) n \<longleftrightarrow> n = 8"
  "bit (0x800 :: u16) n \<longleftrightarrow> n = 11" "bit (0x4000 :: u16) n \<longleftrightarrow> n = 14" "bit (0x8000 :: u16) n \<longleftrightarrow> n = 15"
  using bit_exp16 [of 0 n] bit_exp16 [of 1 n] bit_exp16 [of 2 n] bit_exp16 [of 3 n] bit_exp16 [of 4 n]
    bit_exp16 [of 5 n] bit_exp16 [of 6 n] bit_exp16 [of 7 n] bit_exp16 [of 8 n] bit_exp16 [of 11 n]
    bit_exp16 [of 14 n] bit_exp16 [of 15 n]
  by simp_all

lemma flag16_masks [flag_simps]:
  "bit (0xAA :: u16) n \<longleftrightarrow> n = 1 \<or> n = 3 \<or> n = 5 \<or> n = 7"
  "bit (0xA8 :: u16) n \<longleftrightarrow> n = 3 \<or> n = 5 \<or> n = 7"
  "bit (0xA0 :: u16) n \<longleftrightarrow> n = 5 \<or> n = 7"
proof -
  have "(0xAA :: u16) = 2 OR 8 OR 0x20 OR 0x80" "(0xA8 :: u16) = 8 OR 0x20 OR 0x80" "(0xA0 :: u16) = 0x20 OR 0x80"
    by simp_all
  then show "bit (0xAA :: u16) n \<longleftrightarrow> n = 1 \<or> n = 3 \<or> n = 5 \<or> n = 7"
    "bit (0xA8 :: u16) n \<longleftrightarrow> n = 3 \<or> n = 5 \<or> n = 7" "bit (0xA0 :: u16) n \<longleftrightarrow> n = 5 \<or> n = 7"
    by (simp_all only: bit_or_iff flag16_bit)
qed

lemma flag16_masks_test [flag_simps]:
  "(x :: u16) AND 0xA0 = 0 \<longleftrightarrow> \<not> bit x 5 \<and> \<not> bit x 7"
  "x AND 0x28 = 0 \<longleftrightarrow> \<not> bit x 3 \<and> \<not> bit x 5"
  "x AND 0x10B = 0 \<longleftrightarrow> \<not> bit x 0 \<and> \<not> bit x 1 \<and> \<not> bit x 3 \<and> \<not> bit x 8"
  using and_union_eq_0 [of x "0x20" "0x80"] and_union_eq_0 [of x 8 "0x20"]
    and_union_eq_0 [of x 1 "0x10A"] and_union_eq_0 [of x 2 "0x108"] and_union_eq_0 [of x 8 "0x100"]
  by (simp_all add: flag16_test)

text \<open>The complements of the masks, in the form the simplifier gives them.\<close>

lemma bit_exp_int: "bit (2 ^ k :: int) n \<longleftrightarrow> n = k"
  by (simp only: bit_exp_iff) auto

lemma flag_int_bit [flag_simps]:
  "bit (1 :: int) n \<longleftrightarrow> n = 0"
  "bit (2 :: int) n \<longleftrightarrow> n = 1"
  "bit (4 :: int) n \<longleftrightarrow> n = 2"
  "bit (8 :: int) n \<longleftrightarrow> n = 3"
  "bit (16 :: int) n \<longleftrightarrow> n = 4"
  "bit (32 :: int) n \<longleftrightarrow> n = 5"
  "bit (64 :: int) n \<longleftrightarrow> n = 6"
  "bit (128 :: int) n \<longleftrightarrow> n = 7"
  "bit (256 :: int) n \<longleftrightarrow> n = 8"
  "bit (2048 :: int) n \<longleftrightarrow> n = 11"
  "bit (16384 :: int) n \<longleftrightarrow> n = 14"
  "bit (32768 :: int) n \<longleftrightarrow> n = 15"
  using bit_exp_int [of 0 n] bit_exp_int [of 1 n] bit_exp_int [of 2 n] bit_exp_int [of 3 n] bit_exp_int [of 4 n] bit_exp_int [of 5 n] bit_exp_int [of 6 n] bit_exp_int [of 7 n] bit_exp_int [of 8 n] bit_exp_int [of 11 n] bit_exp_int [of 14 n] bit_exp_int [of 15 n]
  by simp_all

lemma bit_exp_nat: "bit (2 ^ k :: nat) n \<longleftrightarrow> n = k"
  by (simp only: bit_exp_iff) auto

lemma flag_nat_bit [flag_simps]:
  "bit (1 :: nat) n \<longleftrightarrow> n = 0"
  "bit (2 :: nat) n \<longleftrightarrow> n = 1"
  "bit (4 :: nat) n \<longleftrightarrow> n = 2"
  "bit (8 :: nat) n \<longleftrightarrow> n = 3"
  "bit (16 :: nat) n \<longleftrightarrow> n = 4"
  "bit (32 :: nat) n \<longleftrightarrow> n = 5"
  "bit (64 :: nat) n \<longleftrightarrow> n = 6"
  "bit (128 :: nat) n \<longleftrightarrow> n = 7"
  "bit (256 :: nat) n \<longleftrightarrow> n = 8"
  "bit (2048 :: nat) n \<longleftrightarrow> n = 11"
  "bit (16384 :: nat) n \<longleftrightarrow> n = 14"
  "bit (32768 :: nat) n \<longleftrightarrow> n = 15"
  using bit_exp_nat [of 0 n] bit_exp_nat [of 1 n] bit_exp_nat [of 2 n] bit_exp_nat [of 3 n] bit_exp_nat [of 4 n] bit_exp_nat [of 5 n] bit_exp_nat [of 6 n] bit_exp_nat [of 7 n] bit_exp_nat [of 8 n] bit_exp_nat [of 11 n] bit_exp_nat [of 14 n] bit_exp_nat [of 15 n]
  by simp_all

lemma flag_int_not [flag_simps]:
  "bit (- 2 :: int) n \<longleftrightarrow> \<not> (n = 0)"
  "bit (- 3 :: int) n \<longleftrightarrow> \<not> (n = 1)"
  "bit (- 5 :: int) n \<longleftrightarrow> \<not> (n = 2)"
  "bit (- 9 :: int) n \<longleftrightarrow> \<not> (n = 3)"
  "bit (- 17 :: int) n \<longleftrightarrow> \<not> (n = 4)"
  "bit (- 33 :: int) n \<longleftrightarrow> \<not> (n = 5)"
  "bit (- 65 :: int) n \<longleftrightarrow> \<not> (n = 6)"
  "bit (- 129 :: int) n \<longleftrightarrow> \<not> (n = 7)"
  "bit (- 257 :: int) n \<longleftrightarrow> \<not> (n = 8)"
  "bit (- 2049 :: int) n \<longleftrightarrow> \<not> (n = 11)"
  "bit (- 16385 :: int) n \<longleftrightarrow> \<not> (n = 14)"
  "bit (- 32769 :: int) n \<longleftrightarrow> \<not> (n = 15)"
  "bit (- 171 :: int) n \<longleftrightarrow> \<not> (n = 1 \<or> n = 3 \<or> n = 5 \<or> n = 7)"
  "bit (- 169 :: int) n \<longleftrightarrow> \<not> (n = 3 \<or> n = 5 \<or> n = 7)"
  "bit (- 161 :: int) n \<longleftrightarrow> \<not> (n = 5 \<or> n = 7)"
proof -
  have sum:
    "(170 :: int) = 2 OR 8 OR 32 OR 128"
    "(168 :: int) = 8 OR 32 OR 128"
    "(160 :: int) = 32 OR 128"
    by simp_all
  have eqs:
    "(- 2 :: int) = NOT 1"
    "(- 3 :: int) = NOT 2"
    "(- 5 :: int) = NOT 4"
    "(- 9 :: int) = NOT 8"
    "(- 17 :: int) = NOT 16"
    "(- 33 :: int) = NOT 32"
    "(- 65 :: int) = NOT 64"
    "(- 129 :: int) = NOT 128"
    "(- 257 :: int) = NOT 256"
    "(- 2049 :: int) = NOT 2048"
    "(- 16385 :: int) = NOT 16384"
    "(- 32769 :: int) = NOT 32768"
    "(- 171 :: int) = NOT 170"
    "(- 169 :: int) = NOT 168"
    "(- 161 :: int) = NOT 160"
    by simp_all
  show
    "bit (- 2 :: int) n \<longleftrightarrow> \<not> (n = 0)"
    "bit (- 3 :: int) n \<longleftrightarrow> \<not> (n = 1)"
    "bit (- 5 :: int) n \<longleftrightarrow> \<not> (n = 2)"
    "bit (- 9 :: int) n \<longleftrightarrow> \<not> (n = 3)"
    "bit (- 17 :: int) n \<longleftrightarrow> \<not> (n = 4)"
    "bit (- 33 :: int) n \<longleftrightarrow> \<not> (n = 5)"
    "bit (- 65 :: int) n \<longleftrightarrow> \<not> (n = 6)"
    "bit (- 129 :: int) n \<longleftrightarrow> \<not> (n = 7)"
    "bit (- 257 :: int) n \<longleftrightarrow> \<not> (n = 8)"
    "bit (- 2049 :: int) n \<longleftrightarrow> \<not> (n = 11)"
    "bit (- 16385 :: int) n \<longleftrightarrow> \<not> (n = 14)"
    "bit (- 32769 :: int) n \<longleftrightarrow> \<not> (n = 15)"
    "bit (- 171 :: int) n \<longleftrightarrow> \<not> (n = 1 \<or> n = 3 \<or> n = 5 \<or> n = 7)"
    "bit (- 169 :: int) n \<longleftrightarrow> \<not> (n = 3 \<or> n = 5 \<or> n = 7)"
    "bit (- 161 :: int) n \<longleftrightarrow> \<not> (n = 5 \<or> n = 7)"
    unfolding eqs bit_not_int_iff sum bit_or_iff flag_int_bit by simp_all
qed

lemma bit_le16: "bit (w :: u16) n \<Longrightarrow> n < 16"
  using bit_imp_le_length by fastforce

text \<open>Bit \<open>31 - p\<close> of the ready bitmap, the mask \<open>PRIQUEUE_PRIOR0_BIT >> p\<close>.\<close>

lemma bit_prior_mask:
  "p < 32 \<Longrightarrow> bit (drop_bit p (0x80000000 :: u32)) k \<longleftrightarrow> k = 31 - p"
proof -
  assume p: "p < 32"
  have eq: "(0x80000000 :: u32) = 2 ^ 31" by simp
  have "bit (2 ^ 31 :: u32) j \<longleftrightarrow> j = 31" for j
    by (simp only: bit_exp_iff possible_bit_word) auto
  then show ?thesis
    using p by (simp only: eq bit_drop_bit_eq comp_def) linarith
qed

lemma unat_lt16: "unat (w :: u16) < 65536"
proof -
  have "unat w < 2 ^ LENGTH(16)" by (rule unsigned_less)
  then show ?thesis by simp
qed

lemma unat_Suc16: "unat (w :: u16) < unat (v :: u16) \<Longrightarrow> unat (w + 1) = unat w + 1"
  using unat_lt16 [of v] by (simp add: unat_word_ariths)

lemma unat_pred16: "0 < unat (w :: u16) \<Longrightarrow> unat (w - 1) = unat w - 1"
  by (simp add: unat_minus_one unat_gt_0)

lemma ucast_of_nat16: "i < 65536 \<Longrightarrow> (ucast (of_nat i :: u16) :: u32) = of_nat i"
  by (rule word_unat_eq_iff [THEN iffD2]) (simp add: unsigned_ucast_eq unsigned_of_nat take_bit_eq_mod)

end
