(* ===== verification/LosList.thy ===== *)
theory LosList
  imports LosPrelude
begin

text \<open>
  The circular doubly linked lists of utils/los_list.h on an explicit pointer
  heap.  A heap maps the name of every LOS_DL_LIST structure to its two
  pointers, \<open>None\<close> being NULL; the operations write the pointers in the order
  the C code writes them and fail where it would dereference NULL.

  \<open>dl_rep h L\<close> says that the heap \<open>h\<close> holds, for every list head in the domain
  of \<open>L\<close>, exactly the list that \<open>L\<close> names, all of them disjoint.  The laws at
  the end give each operation's effect on \<open>L\<close>; the locale \<open>node_lists\<close> is the
  interface through which the wait lists of the kernel are used.
\<close>

record 'n dl_heap =
  pstPrev :: "'n \<Rightarrow> 'n option"
  pstNext :: "'n \<Rightarrow> 'n option"

definition set_pstNext :: "'n \<Rightarrow> 'n option \<Rightarrow> 'n dl_heap \<Rightarrow> 'n dl_heap" where
  "set_pstNext x v h = h\<lparr>pstNext := (pstNext h)(x := v)\<rparr>"

definition set_pstPrev :: "'n \<Rightarrow> 'n option \<Rightarrow> 'n dl_heap \<Rightarrow> 'n dl_heap" where
  "set_pstPrev x v h = h\<lparr>pstPrev := (pstPrev h)(x := v)\<rparr>"

definition LOS_ListInit :: "'n \<Rightarrow> 'n dl_heap \<Rightarrow> 'n dl_heap" where
  "LOS_ListInit lst h = set_pstPrev lst (Some lst) (set_pstNext lst (Some lst) h)"

definition LOS_ListAdd :: "'n \<Rightarrow> 'n \<Rightarrow> 'n dl_heap \<Rightarrow> 'n dl_heap option" where
  "LOS_ListAdd lst node h =
     (let h1 = set_pstNext node (pstNext h lst) h;
          h2 = set_pstPrev node (Some lst) h1
      in do {
        nx \<leftarrow> pstNext h2 lst;
        let h3 = set_pstPrev nx (Some node) h2;
        Some (set_pstNext lst (Some node) h3)
      })"

definition LOS_ListTailInsert :: "'n \<Rightarrow> 'n \<Rightarrow> 'n dl_heap \<Rightarrow> 'n dl_heap option" where
  "LOS_ListTailInsert lst node h = do { p \<leftarrow> pstPrev h lst; LOS_ListAdd p node h }"

definition LOS_ListHeadInsert :: "'n \<Rightarrow> 'n \<Rightarrow> 'n dl_heap \<Rightarrow> 'n dl_heap option" where
  "LOS_ListHeadInsert lst node h = LOS_ListAdd lst node h"

definition LOS_ListUnlink :: "'n \<Rightarrow> 'n dl_heap \<Rightarrow> 'n dl_heap option" where
  "LOS_ListUnlink node h = do {
     nx \<leftarrow> pstNext h node;
     let h1 = set_pstPrev nx (pstPrev h node) h;
     pv \<leftarrow> pstPrev h1 node;
     Some (set_pstNext pv (pstNext h1 node) h1)
   }"

definition LOS_ListDelete :: "'n \<Rightarrow> 'n dl_heap \<Rightarrow> 'n dl_heap option" where
  "LOS_ListDelete node h = do {
     h2 \<leftarrow> LOS_ListUnlink node h;
     let h3 = set_pstNext node None h2;
     Some (set_pstPrev node None h3)
   }"

definition LOS_ListDelInit :: "'n \<Rightarrow> 'n dl_heap \<Rightarrow> 'n dl_heap option" where
  "LOS_ListDelInit lst h = do { h2 \<leftarrow> LOS_ListUnlink lst h; Some (LOS_ListInit lst h2) }"

definition LOS_ListEmpty :: "'n \<Rightarrow> 'n dl_heap \<Rightarrow> bool" where
  "LOS_ListEmpty node h \<longleftrightarrow> pstNext h node = Some node"

subsection \<open>Representation of lists\<close>

fun links :: "'n dl_heap \<Rightarrow> 'n list \<Rightarrow> bool" where
  "links h (x # y # zs) \<longleftrightarrow> pstNext h x = Some y \<and> pstPrev h y = Some x \<and> links h (y # zs)"
| "links h _ \<longleftrightarrow> True"

definition dll :: "'n dl_heap \<Rightarrow> 'n \<Rightarrow> 'n list \<Rightarrow> bool" where
  "dll h q xs \<longleftrightarrow> links h (q # xs @ [q]) \<and> distinct (q # xs)"

definition covered :: "('n \<Rightarrow> 'n list option) \<Rightarrow> 'n set" where
  "covered L = {n. \<exists>q xs. L q = Some xs \<and> n \<in> set (q # xs)}"

definition dl_rep :: "'n dl_heap \<Rightarrow> ('n \<Rightarrow> 'n list option) \<Rightarrow> bool" where
  "dl_rep h L \<longleftrightarrow>
     (\<forall>q xs. L q = Some xs \<longrightarrow> dll h q xs) \<and>
     (\<forall>q xs q' xs'. L q = Some xs \<and> L q' = Some xs' \<and> q \<noteq> q' \<longrightarrow>
        set (q # xs) \<inter> set (q' # xs') = {})"

text \<open>
  Clients use the lists as queues: \<open>insert_all\<close> appends nodes in order, and
  \<open>drain\<close> takes nodes from the front until the list is empty or \<open>k\<close> are taken.
\<close>

definition list_front :: "'n \<Rightarrow> 'n dl_heap \<Rightarrow> 'n option" where
  "list_front q h = (if LOS_ListEmpty q h then None else pstNext h q)"

primrec insert_all :: "('n \<Rightarrow> 'n \<Rightarrow> 'h \<Rightarrow> 'h option) \<Rightarrow> 'n \<Rightarrow> 'n list \<Rightarrow> 'h \<Rightarrow> 'h option" where
  "insert_all ins q [] h = Some h"
| "insert_all ins q (n # ns) h = do { h' \<leftarrow> ins q n h; insert_all ins q ns h' }"

primrec drain :: "('n \<Rightarrow> 'h \<Rightarrow> 'n option) \<Rightarrow> ('n \<Rightarrow> 'h \<Rightarrow> 'h option) \<Rightarrow> nat \<Rightarrow> 'n \<Rightarrow> 'h \<Rightarrow> ('n list \<times> 'h) option" where
  "drain fr del 0 q h = Some ([], h)"
| "drain fr del (Suc k) q h = (case fr q h of
     None \<Rightarrow> Some ([], h)
   | Some n \<Rightarrow> do { h' \<leftarrow> del n h; (ns, h'') \<leftarrow> drain fr del k q h'; Some (n # ns, h'') })"

lemma set_pst_sel [simp]:
  "pstNext (set_pstNext x v h) = (pstNext h)(x := v)"
  "pstPrev (set_pstNext x v h) = pstPrev h"
  "pstPrev (set_pstPrev x v h) = (pstPrev h)(x := v)"
  "pstNext (set_pstPrev x v h) = pstNext h"
  by (simp_all add: set_pstNext_def set_pstPrev_def)

lemma links_append: "links h (xs @ y # ys) \<longleftrightarrow> links h (xs @ [y]) \<and> links h (y # ys)"
proof (induction xs)
  case Nil
  then show ?case by simp
next
  case (Cons a xs)
  then show ?case by (cases xs) auto
qed

lemma links_cong:
  "\<lbrakk> \<And>x. x \<in> set (butlast ys) \<Longrightarrow> pstNext h' x = pstNext h x;
     \<And>x. x \<in> set (tl ys) \<Longrightarrow> pstPrev h' x = pstPrev h x \<rbrakk> \<Longrightarrow> links h' ys = links h ys"
proof (induction ys)
  case Nil
  then show ?case by simp
next
  case (Cons a ys)
  show ?case
  proof (cases ys)
    case Nil
    then show ?thesis by simp
  next
    case (Cons b zs)
    have "links h' ys = links h ys"
    proof (rule Cons.IH)
      show "\<And>x. x \<in> set (butlast ys) \<Longrightarrow> pstNext h' x = pstNext h x"
        using Cons.prems(1) Cons by simp
      show "\<And>x. x \<in> set (tl ys) \<Longrightarrow> pstPrev h' x = pstPrev h x"
        using Cons.prems(2) Cons by simp
    qed
    then show ?thesis using Cons.prems Cons by simp
  qed
qed

lemma dll_cong:
  assumes "\<And>x. x \<in> set (q # xs) \<Longrightarrow> pstNext h' x = pstNext h x"
    and "\<And>x. x \<in> set (q # xs) \<Longrightarrow> pstPrev h' x = pstPrev h x"
  shows "dll h' q xs = dll h q xs"
proof -
  have "links h' (q # xs @ [q]) = links h (q # xs @ [q])"
  proof (rule links_cong)
    fix x assume "x \<in> set (butlast (q # xs @ [q]))"
    then have "x \<in> set (q # xs)" by (simp add: butlast_append split: if_splits)
    then show "pstNext h' x = pstNext h x" by (rule assms(1))
  next
    fix x assume "x \<in> set (tl (q # xs @ [q]))"
    then have "x \<in> set (q # xs)" by auto
    then show "pstPrev h' x = pstPrev h x" by (rule assms(2))
  qed
  then show ?thesis by (simp add: dll_def)
qed


subsection \<open>Insertion and removal in one list\<close>

lemma LOS_ListAdd_eq:
  assumes "pstNext h p = Some nx" "p \<noteq> n"
  shows "LOS_ListAdd p n h =
    Some (set_pstNext p (Some n) (set_pstPrev nx (Some n)
      (set_pstPrev n (Some p) (set_pstNext n (Some nx) h))))"
  using assms by (simp add: LOS_ListAdd_def Let_def)

lemma cycle_split: "q # (xs @ ys) @ [q] = butlast (q # xs) @ last (q # xs) # ys @ [q]"
  by (cases xs rule: rev_cases) simp_all

lemma dll_split:
  assumes "dll h q (xs @ ys)"
  shows "links h (q # xs)" "pstNext h (last (q # xs)) = Some (hd (ys @ [q]))"
    "pstPrev h (hd (ys @ [q])) = Some (last (q # xs))" "links h (ys @ [q])"
proof -
  have cyc: "q # (xs @ ys) @ [q] = butlast (q # xs) @ last (q # xs) # ys @ [q]"
    by (rule cycle_split)
  have "links h (butlast (q # xs) @ last (q # xs) # ys @ [q])"
    using assms unfolding dll_def cyc [symmetric] by simp
  then have 1: "links h (butlast (q # xs) @ [last (q # xs)])"
    and 2: "links h (last (q # xs) # ys @ [q])"
    using links_append by metis+
  show "links h (q # xs)" using 1 by (simp only: append_butlast_last_id list.distinct not_False_eq_True)
  show "pstNext h (last (q # xs)) = Some (hd (ys @ [q]))"
    "pstPrev h (hd (ys @ [q])) = Some (last (q # xs))" "links h (ys @ [q])"
    using 2 by (cases ys; simp)+
qed

lemma dll_join:
  assumes "links h (q # xs)" "pstNext h (last (q # xs)) = Some (hd (ys @ [q]))"
    "pstPrev h (hd (ys @ [q])) = Some (last (q # xs))" "links h (ys @ [q])"
    "distinct (q # xs @ ys)"
  shows "dll h q (xs @ ys)"
proof -
  have cyc: "q # (xs @ ys) @ [q] = butlast (q # xs) @ last (q # xs) # ys @ [q]"
    by (rule cycle_split)
  have 1: "links h (butlast (q # xs) @ [last (q # xs)])"
    using assms(1) by (simp only: append_butlast_last_id list.distinct not_False_eq_True)
  have 2: "links h (last (q # xs) # ys @ [q])"
    using assms(2-4) by (cases ys) simp_all
  have "links h (q # (xs @ ys) @ [q])"
    unfolding cyc using 1 2 links_append by metis
  with assms(5) show ?thesis by (simp add: dll_def)
qed

lemma in_butlast_distinct: "distinct ys \<Longrightarrow> x \<in> set (butlast ys) \<Longrightarrow> x \<in> set ys \<and> x \<noteq> last ys"
  by (cases ys rule: rev_cases) auto

lemma LOS_ListAdd_dll:
  assumes d: "dll h q (xs @ ys)" and n: "n \<notin> set (q # xs @ ys)"
  obtains h' where "LOS_ListAdd (last (q # xs)) n h = Some h'" "dll h' q (xs @ n # ys)"
    "\<And>m. m \<notin> set (q # xs @ ys) \<Longrightarrow> m \<noteq> n \<Longrightarrow> pstNext h' m = pstNext h m \<and> pstPrev h' m = pstPrev h m"
proof -
  let ?p = "last (q # xs)" and ?nx = "hd (ys @ [q])"
  note sp = dll_split [OF d]
  have dist: "distinct (q # xs @ ys)" using d by (simp add: dll_def)
  have p_in: "?p \<in> set (q # xs)" by (rule last_in_set) simp
  have nx_in: "?nx \<in> set (q # ys)" by (cases ys) simp_all
  have pn: "?p \<noteq> n" using n p_in by auto
  have nxn: "?nx \<noteq> n" using n nx_in by auto
  define h' where "h' = set_pstNext ?p (Some n) (set_pstPrev ?nx (Some n)
      (set_pstPrev n (Some ?p) (set_pstNext n (Some ?nx) h)))"
  have nxt: "pstNext h' = (pstNext h)(n \<mapsto> ?nx, ?p \<mapsto> n)"
    and prv: "pstPrev h' = (pstPrev h)(n \<mapsto> ?p, ?nx \<mapsto> n)"
    by (simp_all add: h'_def)
  have add: "LOS_ListAdd ?p n h = Some h'"
    unfolding h'_def by (rule LOS_ListAdd_eq [OF sp(2) pn])
  have l1: "links h' (q # xs) = links h (q # xs)"
  proof (rule links_cong)
    fix x assume x: "x \<in> set (butlast (q # xs))"
    then have "x \<in> set (q # xs)" "x \<noteq> ?p" using in_butlast_distinct [of "q # xs" x] dist by auto
    then show "pstNext h' x = pstNext h x" using n unfolding nxt by auto
  next
    fix x assume x: "x \<in> set (tl (q # xs))"
    then have "x \<noteq> n" "x \<notin> set (q # ys)" using n dist by auto
    then show "pstPrev h' x = pstPrev h x" using nx_in unfolding prv by auto
  qed
  have l2: "links h' (ys @ [q]) = links h (ys @ [q])"
  proof (rule links_cong)
    fix x assume "x \<in> set (butlast (ys @ [q]))"
    then have "x \<in> set ys" by simp
    then have "x \<noteq> n" "x \<notin> set (q # xs)" using n dist by auto
    then show "pstNext h' x = pstNext h x" using p_in unfolding nxt by auto
  next
    fix x assume "x \<in> set (tl (ys @ [q]))"
    then have "x \<noteq> n" "x \<noteq> ?nx" using n dist by (cases ys; auto)+
    then show "pstPrev h' x = pstPrev h x" unfolding prv by simp
  qed
  have "dll h' q (xs @ n # ys)"
  proof (rule dll_join)
    show "links h' (q # xs)" using sp(1) l1 by simp
    show "pstNext h' (last (q # xs)) = Some (hd ((n # ys) @ [q]))" by (simp only: nxt) simp
    show "pstPrev h' (hd ((n # ys) @ [q])) = Some (last (q # xs))"
      using nxn by (simp only: prv) simp
    have "pstNext h' n = Some ?nx" using pn by (simp only: nxt) simp
    moreover have "pstPrev h' ?nx = Some n" by (simp only: prv) simp
    ultimately show "links h' ((n # ys) @ [q])" using sp(4) l2 by (cases ys) simp_all
    show "distinct (q # xs @ n # ys)" using dist n by auto
  qed
  moreover have "pstNext h' m = pstNext h m \<and> pstPrev h' m = pstPrev h m"
    if "m \<notin> set (q # xs @ ys)" "m \<noteq> n" for m
  proof -
    have "m \<noteq> ?p" "m \<noteq> ?nx" using that p_in nx_in by auto
    then show ?thesis using that unfolding nxt prv by simp
  qed
  ultimately show thesis using that add by blast
qed


lemma LOS_ListDelete_dll:
  assumes d: "dll h q (xs @ n # ys)"
  obtains h' where "LOS_ListDelete n h = Some h'" "dll h' q (xs @ ys)"
    "pstNext h' n = None" "pstPrev h' n = None"
    "\<And>m. m \<notin> set (q # xs @ n # ys) \<Longrightarrow> pstNext h' m = pstNext h m \<and> pstPrev h' m = pstPrev h m"
proof -
  let ?pv = "last (q # xs)" and ?nx = "hd (ys @ [q])"
  note sp = dll_split [OF d]
  have sp4: "pstNext h n = Some ?nx" "pstPrev h ?nx = Some n" "links h (ys @ [q])"
    using sp(4) by (cases ys; simp)+
  have dist: "distinct (q # xs @ n # ys)" using d by (simp add: dll_def)
  have p_in: "?pv \<in> set (q # xs)" by (rule last_in_set) simp
  have nx_in: "?nx \<in> set (q # ys)" by (cases ys) simp_all
  have pn: "?pv \<noteq> n" using dist p_in by auto
  have nxn: "?nx \<noteq> n" using dist nx_in by auto
  define h' where "h' = set_pstPrev n None (set_pstNext n None
      (set_pstNext ?pv (Some ?nx) (set_pstPrev ?nx (Some ?pv) h)))"
  have nxt: "pstNext h' = (pstNext h)(?pv \<mapsto> ?nx, n := None)"
    and prv: "pstPrev h' = (pstPrev h)(?nx \<mapsto> ?pv, n := None)"
    by (simp_all add: h'_def)
  have "pstPrev h n = Some ?pv" using sp(3) by simp
  then have del: "LOS_ListDelete n h = Some h'"
    unfolding h'_def LOS_ListDelete_def LOS_ListUnlink_def using sp4(1) nxn by simp
  have l1: "links h' (q # xs) = links h (q # xs)"
  proof (rule links_cong)
    fix x assume x: "x \<in> set (butlast (q # xs))"
    then have "x \<in> set (q # xs)" "x \<noteq> ?pv" using in_butlast_distinct [of "q # xs" x] dist by auto
    then show "pstNext h' x = pstNext h x" using dist unfolding nxt by auto
  next
    fix x assume x: "x \<in> set (tl (q # xs))"
    then have "x \<noteq> n" "x \<notin> set (q # ys)" using dist by auto
    then show "pstPrev h' x = pstPrev h x" using nx_in unfolding prv by auto
  qed
  have l2: "links h' (ys @ [q]) = links h (ys @ [q])"
  proof (rule links_cong)
    fix x assume "x \<in> set (butlast (ys @ [q]))"
    then have "x \<in> set ys" by simp
    then have "x \<noteq> n" "x \<notin> set (q # xs)" using dist by auto
    then show "pstNext h' x = pstNext h x" using p_in unfolding nxt by auto
  next
    fix x assume "x \<in> set (tl (ys @ [q]))"
    then have "x \<noteq> n" "x \<noteq> ?nx" using dist by (cases ys; auto)+
    then show "pstPrev h' x = pstPrev h x" unfolding prv by simp
  qed
  have "dll h' q (xs @ ys)"
  proof (rule dll_join)
    show "links h' (q # xs)" using sp(1) l1 by simp
    show "pstNext h' ?pv = Some ?nx" using pn by (simp only: nxt) simp
    show "pstPrev h' ?nx = Some ?pv" using nxn by (simp only: prv) simp
    show "links h' (ys @ [q])" using sp4(3) l2 by simp
    show "distinct (q # xs @ ys)" using dist by auto
  qed
  moreover have "pstNext h' m = pstNext h m \<and> pstPrev h' m = pstPrev h m"
    if "m \<notin> set (q # xs @ n # ys)" for m
  proof -
    have "m \<noteq> ?pv" "m \<noteq> ?nx" "m \<noteq> n" using that p_in nx_in by auto
    then show ?thesis unfolding nxt prv by simp
  qed
  moreover have "pstNext h' n = None" "pstPrev h' n = None" by (simp_all only: nxt prv) simp_all
  ultimately show thesis using that del by blast
qed

subsection \<open>Laws on a heap of disjoint lists\<close>

lemma dl_rep_dll: "dl_rep h L \<Longrightarrow> L q = Some xs \<Longrightarrow> dll h q xs"
  by (simp add: dl_rep_def)

lemma dl_rep_disjoint:
  "\<lbrakk> dl_rep h L; L q = Some xs; L q' = Some xs'; q \<noteq> q' \<rbrakk> \<Longrightarrow> set (q # xs) \<inter> set (q' # xs') = {}"
  unfolding dl_rep_def by blast

lemma dl_rep_distinct: "dl_rep h L \<Longrightarrow> L q = Some xs \<Longrightarrow> distinct (q # xs)"
  using dl_rep_dll by (fastforce simp: dll_def)

lemma covered_head: "L q = Some xs \<Longrightarrow> q \<in> covered L"
  unfolding covered_def by auto

lemma covered_elem: "L q = Some xs \<Longrightarrow> n \<in> set xs \<Longrightarrow> n \<in> covered L"
  unfolding covered_def by auto

lemma dl_rep_unique:
  "\<lbrakk> dl_rep h L; L q = Some xs; L q' = Some xs'; n \<in> set xs; n \<in> set xs' \<rbrakk> \<Longrightarrow> q = q'"
  using dl_rep_disjoint [of h L q xs q' xs'] by auto

lemma dl_rep_head_not_elem:
  "\<lbrakk> dl_rep h L; L q = Some xs; L q' = Some xs' \<rbrakk> \<Longrightarrow> q' \<notin> set xs"
  using dl_rep_disjoint [of h L q xs q' xs'] dl_rep_distinct [of h L q xs] by (cases "q = q'") auto

lemma dl_rep_change:
  assumes R: "dl_rep h L" and q: "dll h' q zs"
    and sub: "\<And>q' xs'. q' \<noteq> q \<Longrightarrow> L q' = Some xs' \<Longrightarrow> set (q' # xs') \<inter> set (q # zs) = {}"
    and frame: "\<And>q' xs' m. q' \<noteq> q \<Longrightarrow> L q' = Some xs' \<Longrightarrow> m \<in> set (q' # xs') \<Longrightarrow>
                  pstNext h' m = pstNext h m \<and> pstPrev h' m = pstPrev h m"
  shows "dl_rep h' (L(q \<mapsto> zs))"
  unfolding dl_rep_def
proof (intro conjI allI impI)
  fix q' xs assume a: "(L(q \<mapsto> zs)) q' = Some xs"
  show "dll h' q' xs"
  proof (cases "q' = q")
    case True
    with a q show ?thesis by simp
  next
    case False
    with a have l: "L q' = Some xs" by simp
    have "dll h' q' xs = dll h q' xs"
      by (rule dll_cong) (use frame [OF False l] in auto)
    with dl_rep_dll [OF R l] show ?thesis by simp
  qed
next
  fix q1 xs1 q2 xs2
  assume a: "(L(q \<mapsto> zs)) q1 = Some xs1 \<and> (L(q \<mapsto> zs)) q2 = Some xs2 \<and> q1 \<noteq> q2"
  consider "q1 = q" | "q2 = q" | "q1 \<noteq> q" "q2 \<noteq> q" by blast
  then show "set (q1 # xs1) \<inter> set (q2 # xs2) = {}"
  proof cases
    case 1
    with a sub [of q2 xs2] show ?thesis by auto
  next
    case 2
    with a sub [of q1 xs1] show ?thesis by auto
  next
    case 3
    with a dl_rep_disjoint [OF R, of q1 xs1 q2 xs2] show ?thesis by auto
  qed
qed


lemma list_add_after:
  assumes R: "dl_rep h L" and q: "L q = Some (xs @ ys)" and n: "n \<notin> covered L"
  obtains h' where "LOS_ListAdd (last (q # xs)) n h = Some h'" "dl_rep h' (L(q \<mapsto> xs @ n # ys))"
    "\<And>m. m \<notin> insert n (covered L) \<Longrightarrow> pstNext h' m = pstNext h m \<and> pstPrev h' m = pstPrev h m"
proof -
  have n': "n \<notin> set (q # xs @ ys)" using n q by (auto dest: covered_head covered_elem)
  obtain h' where h': "LOS_ListAdd (last (q # xs)) n h = Some h'" "dll h' q (xs @ n # ys)"
    and fr: "\<And>m. m \<notin> set (q # xs @ ys) \<Longrightarrow> m \<noteq> n \<Longrightarrow>
      pstNext h' m = pstNext h m \<and> pstPrev h' m = pstPrev h m"
    using LOS_ListAdd_dll [OF dl_rep_dll [OF R q] n'] by blast
  have "dl_rep h' (L(q \<mapsto> xs @ n # ys))"
  proof (rule dl_rep_change [OF R h'(2)])
    fix q' xs' assume q': "q' \<noteq> q" "L q' = Some xs'"
    have nn: "n \<notin> set (q' # xs')" using n q' by (auto dest: covered_head covered_elem)
    then show "set (q' # xs') \<inter> set (q # xs @ n # ys) = {}"
      using dl_rep_disjoint [OF R q'(2) q q'(1)] by auto
    fix m assume "m \<in> set (q' # xs')"
    then show "pstNext h' m = pstNext h m \<and> pstPrev h' m = pstPrev h m"
      using nn dl_rep_disjoint [OF R q'(2) q q'(1)] by (intro fr) auto
  qed
  moreover have "m \<notin> set (q # xs @ ys) \<and> m \<noteq> n" if "m \<notin> insert n (covered L)" for m
    using that q by (auto dest: covered_head covered_elem)
  ultimately show thesis using that h'(1) fr by blast
qed

lemma list_tail_insert:
  assumes R: "dl_rep h L" and q: "L q = Some xs" and n: "n \<notin> covered L"
  obtains h' where "LOS_ListTailInsert q n h = Some h'" "dl_rep h' (L(q \<mapsto> xs @ [n]))"
    "\<And>m. m \<notin> insert n (covered L) \<Longrightarrow> pstNext h' m = pstNext h m \<and> pstPrev h' m = pstPrev h m"
proof -
  have "pstPrev h q = Some (last (q # xs))"
    using dll_split(3) [of h q xs "[]"] dl_rep_dll [OF R q] by simp
  then have "LOS_ListTailInsert q n h = LOS_ListAdd (last (q # xs)) n h"
    by (simp add: LOS_ListTailInsert_def)
  with list_add_after [OF R, of q xs "[]" n] q n that show thesis by (metis append_Nil2)
qed

lemma list_head_insert:
  assumes R: "dl_rep h L" and q: "L q = Some xs" and n: "n \<notin> covered L"
  obtains h' where "LOS_ListAdd q n h = Some h'" "dl_rep h' (L(q \<mapsto> n # xs))"
    "\<And>m. m \<notin> insert n (covered L) \<Longrightarrow> pstNext h' m = pstNext h m \<and> pstPrev h' m = pstPrev h m"
  using list_add_after [OF R, of q "[]" xs n] q n that by auto

lemma list_delete:
  assumes R: "dl_rep h L" and q: "L q = Some xs" and n: "n \<in> set xs"
  obtains h' where "LOS_ListDelete n h = Some h'" "dl_rep h' (L(q \<mapsto> remove1 n xs))"
    "pstNext h' n = None" "pstPrev h' n = None"
    "\<And>m. m \<notin> covered L \<Longrightarrow> pstNext h' m = pstNext h m \<and> pstPrev h' m = pstPrev h m"
proof -
  obtain as bs where xs: "xs = as @ n # bs" and nas: "n \<notin> set as"
    using split_list_first [OF n] by blast
  have rm: "remove1 n xs = as @ bs" unfolding xs using nas by (simp add: remove1_append)
  obtain h' where h': "LOS_ListDelete n h = Some h'" "dll h' q (as @ bs)"
      "pstNext h' n = None" "pstPrev h' n = None"
    and fr: "\<And>m. m \<notin> set (q # xs) \<Longrightarrow> pstNext h' m = pstNext h m \<and> pstPrev h' m = pstPrev h m"
    using LOS_ListDelete_dll [OF dl_rep_dll [OF R q, unfolded xs]] unfolding xs by metis
  have "dl_rep h' (L(q \<mapsto> as @ bs))"
  proof (rule dl_rep_change [OF R h'(2)])
    fix q' xs' assume q': "q' \<noteq> q" "L q' = Some xs'"
    show "set (q' # xs') \<inter> set (q # as @ bs) = {}"
      using dl_rep_disjoint [OF R q'(2) q q'(1)] unfolding xs by auto
    fix m assume "m \<in> set (q' # xs')"
    then show "pstNext h' m = pstNext h m \<and> pstPrev h' m = pstPrev h m"
      using dl_rep_disjoint [OF R q'(2) q q'(1)] by (intro fr) auto
  qed
  moreover have "m \<notin> set (q # xs)" if "m \<notin> covered L" for m
    using that q by (auto dest: covered_head covered_elem)
  ultimately show thesis using that [OF h'(1)] h' fr rm by simp
qed

lemma list_init:
  assumes R: "dl_rep h L" and n: "q \<notin> covered L \<or> L q = Some []"
  shows "dl_rep (LOS_ListInit q h) (L(q \<mapsto> []))"
proof (rule dl_rep_change [OF R])
  show "dll (LOS_ListInit q h) q []" by (simp add: dll_def LOS_ListInit_def)
  fix q' xs' assume q': "q' \<noteq> q" "L q' = Some xs'"
  then have nn: "q \<notin> set (q' # xs')"
    using n dl_rep_disjoint [OF R, of q' xs' q] by (auto dest: covered_head covered_elem)
  then show "set (q' # xs') \<inter> set [q] = {}" by simp
  fix m assume "m \<in> set (q' # xs')"
  with nn show "pstNext (LOS_ListInit q h) m = pstNext h m \<and> pstPrev (LOS_ListInit q h) m = pstPrev h m"
    by (auto simp: LOS_ListInit_def)
qed

lemma list_drop: "dl_rep h L \<Longrightarrow> dl_rep h (L(q := None))"
  unfolding dl_rep_def by (auto split: if_splits)

lemma list_first: "dl_rep h L \<Longrightarrow> L q = Some xs \<Longrightarrow> pstNext h q = Some (hd (xs @ [q]))"
  using dll_split(2) [of h q "[]" xs] dl_rep_dll by fastforce

lemma list_last: "dl_rep h L \<Longrightarrow> L q = Some xs \<Longrightarrow> pstPrev h q = Some (last (q # xs))"
  using dll_split(3) [of h q xs "[]"] dl_rep_dll by fastforce

lemma list_next:
  assumes "dl_rep h L" "L q = Some (xs @ x # ys)"
  shows "pstNext h x = Some (hd (ys @ [q]))"
  using dll_split(2) [of h q "xs @ [x]" ys] dl_rep_dll [OF assms] by simp

lemma list_prev:
  assumes "dl_rep h L" "L q = Some (xs @ x # ys)"
  shows "pstPrev h x = Some (last (q # xs))"
  using dll_split(3) [of h q xs "x # ys"] dl_rep_dll [OF assms] by simp

lemma list_empty:
  assumes "dl_rep h L" "L q = Some xs"
  shows "LOS_ListEmpty q h \<longleftrightarrow> xs = []"
proof -
  have "hd (xs @ [q]) = q \<longleftrightarrow> xs = []"
    using dl_rep_distinct [OF assms] by (cases xs) auto
  then show ?thesis by (simp add: LOS_ListEmpty_def list_first [OF assms])
qed

declare list_first [list_laws] list_last [list_laws] list_empty [list_laws]

lemma covered_upd_in: "m \<in> covered (L(q \<mapsto> zs)) \<Longrightarrow> m \<in> covered L \<or> m = q \<or> m \<in> set zs"
  unfolding covered_def by (auto split: if_splits)

lemma covered_after_delete:
  assumes R: "dl_rep h L" and q: "L q = Some xs" and n: "n \<in> set xs"
  shows "n \<notin> covered (L(q \<mapsto> remove1 n xs))"
proof
  assume "n \<in> covered (L(q \<mapsto> remove1 n xs))"
  then obtain q' ys where a: "(L(q \<mapsto> remove1 n xs)) q' = Some ys" "n \<in> set (q' # ys)"
    unfolding covered_def by blast
  have d: "distinct (q # xs)" using dl_rep_distinct [OF R q] .
  show False
  proof (cases "q' = q")
    case True
    with a d n show False by auto
  next
    case False
    with a(1) have l: "L q' = Some ys" by simp
    from dl_rep_disjoint [OF R l q False] a(2) n show False by auto
  qed
qed


subsection \<open>Lists as queues\<close>

locale node_lists =
  fixes rep :: "'h \<Rightarrow> ('n \<Rightarrow> 'n list option) \<Rightarrow> bool"
    and ins :: "'n \<Rightarrow> 'n \<Rightarrow> 'h \<Rightarrow> 'h option"
    and del :: "'n \<Rightarrow> 'h \<Rightarrow> 'h option"
    and front :: "'n \<Rightarrow> 'h \<Rightarrow> 'n option"
  assumes ins_law: "\<lbrakk> rep h L; L q = Some xs; n \<notin> covered L \<rbrakk> \<Longrightarrow>
      \<exists>h'. ins q n h = Some h' \<and> rep h' (L(q \<mapsto> xs @ [n]))"
    and del_law: "\<lbrakk> rep h L; L q = Some xs; n \<in> set xs \<rbrakk> \<Longrightarrow>
      \<exists>h'. del n h = Some h' \<and> rep h' (L(q \<mapsto> remove1 n xs))"
    and front_law: "\<lbrakk> rep h L; L q = Some xs \<rbrakk> \<Longrightarrow>
      front q h = (case xs of [] \<Rightarrow> None | x # _ \<Rightarrow> Some x)"
begin

lemma insert_all_law:
  "\<lbrakk> rep h L; L q = Some xs; distinct ns; set ns \<inter> covered L = {} \<rbrakk> \<Longrightarrow>
    \<exists>h'. insert_all ins q ns h = Some h' \<and> rep h' (L(q \<mapsto> xs @ ns))"
proof (induction ns arbitrary: h L xs)
  case Nil
  then show ?case by (simp add: fun_upd_idem)
next
  case (Cons n ns)
  then obtain h1 where h1: "ins q n h = Some h1" "rep h1 (L(q \<mapsto> xs @ [n]))"
    using ins_law [of h L q xs n] by auto
  have "set ns \<inter> covered (L(q \<mapsto> xs @ [n])) = {}"
  proof (rule equals0I)
    fix m assume m: "m \<in> set ns \<inter> covered (L(q \<mapsto> xs @ [n]))"
    then consider "m \<in> covered L" | "m = q" | "m \<in> set xs" | "m = n"
      using covered_upd_in [of m L q "xs @ [n]"] by auto
    then show False
      using m Cons.prems by cases (auto dest: covered_head covered_elem)
  qed
  then have "\<exists>h'. insert_all ins q ns h1 = Some h' \<and>
      rep h' ((L(q \<mapsto> xs @ [n]))(q \<mapsto> (xs @ [n]) @ ns))"
    by (intro Cons.IH [OF h1(2)]) (use Cons.prems(3) in \<open>simp_all add: fun_upd_def\<close>)
  then have "\<exists>h'. insert_all ins q ns h1 = Some h' \<and> rep h' (L(q \<mapsto> xs @ n # ns))" by simp
  with h1(1) show ?case by (simp add: fun_upd_def)
qed

lemma drain_law:
  "\<lbrakk> rep h L; L q = Some xs; length xs \<le> k \<rbrakk> \<Longrightarrow>
    \<exists>h'. drain front del k q h = Some (xs, h') \<and> rep h' (L(q \<mapsto> []))"
proof (induction k arbitrary: h L xs)
  case 0
  then show ?case by (simp add: fun_upd_idem)
next
  case (Suc k)
  show ?case
  proof (cases xs)
    case Nil
    with Suc.prems front_law [of h L q xs] show ?thesis by (simp add: fun_upd_idem)
  next
    case (Cons x zs)
    with Suc.prems del_law [of h L q xs x] obtain h1
      where h1: "del x h = Some h1" "rep h1 (L(q \<mapsto> zs))" by auto
    have "\<exists>h2. drain front del k q h1 = Some (zs, h2) \<and> rep h2 ((L(q \<mapsto> zs))(q \<mapsto> []))"
      by (intro Suc.IH [OF h1(2)]) (use Suc.prems(3) Cons in simp_all)
    then obtain h2 where "drain front del k q h1 = Some (zs, h2)" "rep h2 (L(q \<mapsto> []))" by auto
    with Suc.prems front_law [of h L q xs] Cons h1 show ?thesis by (simp add: fun_upd_def)
  qed
qed

lemma fifo_law:
  assumes "rep h L" "L q = Some xs" "distinct ns" "set ns \<inter> covered L = {}"
  shows "\<exists>h' h''. insert_all ins q ns h = Some h' \<and>
           drain front del (length (xs @ ns)) q h' = Some (xs @ ns, h'') \<and> rep h'' (L(q \<mapsto> []))"
proof -
  from insert_all_law [OF assms] obtain h'
    where h': "insert_all ins q ns h = Some h'" "rep h' (L(q \<mapsto> xs @ ns))" by blast
  from drain_law [OF h'(2), of q "xs @ ns" "length (xs @ ns)"] h'(1) show ?thesis by auto
qed

end

interpretation dlq: node_lists dl_rep LOS_ListTailInsert LOS_ListDelete list_front
proof
  fix h :: "'a dl_heap" and L q xs n
  assume a: "dl_rep h L" "L q = Some xs" "n \<notin> covered L"
  show "\<exists>h'. LOS_ListTailInsert q n h = Some h' \<and> dl_rep h' (L(q \<mapsto> xs @ [n]))"
    using list_tail_insert [OF a] by metis
next
  fix h :: "'a dl_heap" and L q xs n
  assume a: "dl_rep h L" "L q = Some xs" "n \<in> set xs"
  show "\<exists>h'. LOS_ListDelete n h = Some h' \<and> dl_rep h' (L(q \<mapsto> remove1 n xs))"
    using list_delete [OF a] by metis
next
  fix h :: "'a dl_heap" and L q xs
  assume a: "dl_rep h L" "L q = Some xs"
  show "list_front q h = (case xs of [] \<Rightarrow> None | x # _ \<Rightarrow> Some x)"
    using list_first [OF a] list_empty [OF a] by (simp add: list_front_def split: list.splits)
qed

end
