(* ===== verification/LosTick.thy ===== *)
theory LosTick
  imports LosPrelude
begin

text \<open>
  Time keeping: kernel/src/los_tick.c, the conversion macros of
  kernel/include/los_tick.h and the tick timer driver
  arch/arm/cortex-m4/gcc/los_timer.c, in the configuration of the board
  (LOSCFG_BASE_CORE_TICK_WTIMER = 0).  The counter of the emulated SysTick
  device is its reload register, so time advances when the timer is reloaded
  and when a tick is handled.
\<close>

abbreviation (input) LOSCFG_BASE_CORE_TICK_PER_SECOND :: nat where "LOSCFG_BASE_CORE_TICK_PER_SECOND \<equiv> 100"
abbreviation (input) LOSCFG_BASE_CORE_TICK_PER_SECOND_MINI :: nat where "LOSCFG_BASE_CORE_TICK_PER_SECOND_MINI \<equiv> 1000"
abbreviation (input) LOSCFG_BASE_CORE_TICK_RESPONSE_MAX :: u64 where "LOSCFG_BASE_CORE_TICK_RESPONSE_MAX \<equiv> 0xFFFFFF"
abbreviation (input) OS_SYS_CLOCK :: u32 where "OS_SYS_CLOCK \<equiv> 25000000"
abbreviation (input) LOSCFG_PLATFORM_HWI_LIMIT :: nat where "LOSCFG_PLATFORM_HWI_LIMIT \<equiv> 128"
abbreviation (input) OS_NULL_INT :: u32 where "OS_NULL_INT \<equiv> 0xFFFFFFFF"
abbreviation (input) LOS_ERRNO_SYS_CLOCK_INVALID :: u32 where "LOS_ERRNO_SYS_CLOCK_INVALID \<equiv> 0x02000011"
abbreviation (input) LOS_ERRNO_SYS_HOOK_IS_NULL :: u32 where "LOS_ERRNO_SYS_HOOK_IS_NULL \<equiv> 0x02000016"
abbreviation (input) LOS_ERRNO_TICK_PER_SEC_TOO_SMALL :: u32 where "LOS_ERRNO_TICK_PER_SEC_TOO_SMALL \<equiv> 0x02000402"
abbreviation (input) LOS_OK :: u32 where "LOS_OK \<equiv> 0"
abbreviation (input) LOS_NOK :: u32 where "LOS_NOK \<equiv> 0xFFFFFFFF"

record tick_state =
  g_cyclesPerTick :: u32
  g_sysClock :: u32
  g_sysTimerIsInit :: bool
  g_tickTimerStartTime :: u64
  g_tickTimerBase :: u64
  g_oldTickTimerBase :: u64
  g_tickTimerBaseUpdate :: bool
  timer_freq :: u32
  timer_periodMax :: u64
  g_SysTickLoad :: u32

subsection \<open>The timer driver\<close>

definition SysTickStart :: "tick_state \<Rightarrow> u32 \<times> tick_state" where
  "SysTickStart k =
     (let k1 = k\<lparr>timer_freq := OS_SYS_CLOCK\<rparr>
      in if LOSCFG_BASE_CORE_TICK_RESPONSE_MAX - 1 > 0xFFFFFF
         then (LOS_ERRNO_TICK_PER_SEC_TOO_SMALL, k1)
         else (LOS_OK, k1))"

definition SysTickReload :: "u64 \<Rightarrow> tick_state \<Rightarrow> u64 \<times> tick_state" where
  "SysTickReload nextResponseTime k =
     (let next = (if nextResponseTime > timer_periodMax k then timer_periodMax k else nextResponseTime)
      in (next, k\<lparr>g_SysTickLoad := ucast (next - 1)\<rparr>))"

text \<open>The result is the cycle count; the second component is what is stored through \<open>period\<close>.\<close>

definition SysTickCycleGet :: "tick_state \<Rightarrow> u64 \<times> u32" where
  "SysTickCycleGet k = (ucast (g_SysTickLoad k - 1), g_SysTickLoad k)"

subsection \<open>System time\<close>

definition OsUpdateSysTimeBase :: "tick_state \<Rightarrow> tick_state" where
  "OsUpdateSysTimeBase k =
     (let k1 = (if \<not> g_tickTimerBaseUpdate k
                then k\<lparr>g_tickTimerBase := g_tickTimerBase k + ucast (snd (SysTickCycleGet k))\<rparr>
                else k)
      in k1\<lparr>g_tickTimerBaseUpdate := False\<rparr>)"

definition OsTickTimerBaseReset :: "u64 \<Rightarrow> tick_state \<Rightarrow> tick_state option" where
  "OsTickTimerBaseReset currTime k = do {
     los_assert (currTime \<ge> g_tickTimerBase k);
     Some (k\<lparr>g_tickTimerBase := currTime\<rparr>)
   }"

definition LOS_SysCycleGet :: "tick_state \<Rightarrow> (u64 \<times> tick_state) option" where
  "LOS_SysCycleGet k =
     (let (time, period) = SysTickCycleGet k;
          schedTime = g_tickTimerBase k + time;
          (schedTime, k1) =
            (if schedTime < g_oldTickTimerBase k
             then let k0 = k\<lparr>g_tickTimerBase := g_tickTimerBase k + ucast period\<rparr>
                  in (g_tickTimerBase k0 + time, k0\<lparr>g_tickTimerBaseUpdate := True\<rparr>)
             else (schedTime, k))
      in do {
        los_assert (schedTime \<ge> g_oldTickTimerBase k1);
        Some (schedTime, k1\<lparr>g_oldTickTimerBase := schedTime\<rparr>)
      })"

definition OsTickTimerReload :: "u64 \<Rightarrow> tick_state \<Rightarrow> (u64 \<times> tick_state) option" where
  "OsTickTimerReload period k = do {
     (now, k1) \<leftarrow> LOS_SysCycleGet k;
     Some (SysTickReload period (k1\<lparr>g_tickTimerBase := now\<rparr>))
   }"

text \<open>
  OsTickTimerInit with the built-in driver, whose function pointers are all
  set; SysTick\_IRQn is 15 - 16 = -1, below the interrupt limit.
\<close>

definition OsTickTimerInit :: "tick_state \<Rightarrow> u32 \<times> tick_state" where
  "OsTickTimerInit k =
     (let (ret, k1) = SysTickStart k
      in if ret \<noteq> LOS_OK then (ret, k1)
         else if timer_freq k1 = 0 \<or> unat (timer_freq k1) < LOSCFG_BASE_CORE_TICK_PER_SECOND
         then (LOS_ERRNO_SYS_CLOCK_INVALID, k1)
         else (LOS_OK, k1\<lparr>g_sysClock := timer_freq k1,
                          g_cyclesPerTick := timer_freq k1 div 100,
                          g_sysTimerIsInit := True\<rparr>))"

definition OsTickSysTimerStartTimeSet :: "u64 \<Rightarrow> tick_state \<Rightarrow> tick_state" where
  "OsTickSysTimerStartTimeSet currTime k = k\<lparr>g_tickTimerStartTime := currTime\<rparr>"

text \<open>The second argument of a division; the C code traps on zero.\<close>

definition divisor :: "'a::zero \<Rightarrow> 'a option" where
  "divisor d = (if d = 0 then None else Some d)"

definition OsTimeConvertFreq :: "u64 \<Rightarrow> u32 \<Rightarrow> u32 \<Rightarrow> u64 option" where
  "OsTimeConvertFreq time oldFreq newFreq =
     (if oldFreq \<ge> newFreq
      then do { d \<leftarrow> divisor newFreq; e \<leftarrow> divisor (ucast (oldFreq div d)); Some (time div e) }
      else do { d \<leftarrow> divisor oldFreq; Some (time * ucast (newFreq div d)) })"

definition OS_CYCLE_PER_TICK :: "tick_state \<Rightarrow> u32" where
  "OS_CYCLE_PER_TICK k = g_sysClock k div 100"

definition OS_SYS_TICK_TO_CYCLE :: "u32 \<Rightarrow> tick_state \<Rightarrow> u64" where
  "OS_SYS_TICK_TO_CYCLE ticks k = (ucast ticks * ucast (g_sysClock k)) div 100"

definition OS_SYS_CYCLE_TO_TICK :: "u64 \<Rightarrow> tick_state \<Rightarrow> u64 option" where
  "OS_SYS_CYCLE_TO_TICK cycle k = do { d \<leftarrow> divisor (ucast (g_sysClock k)); Some (cycle * 100 div d) }"

definition OS_SYS_CYCLE_TO_NS :: "u64 \<Rightarrow> u32 \<Rightarrow> u64 option" where
  "OS_SYS_CYCLE_TO_NS cycle freq = do {
     d \<leftarrow> divisor (ucast freq);
     Some (cycle div d * 1000000000 + (cycle mod d * 1000000000 div d))
   }"

definition LOS_TickCountGet :: "tick_state \<Rightarrow> (u64 \<times> tick_state) option" where
  "LOS_TickCountGet k = do {
     (now, k1) \<leftarrow> LOS_SysCycleGet k;
     t \<leftarrow> OS_SYS_CYCLE_TO_TICK (now - g_tickTimerStartTime k1) k1;
     Some (t, k1)
   }"

definition LOS_CyclePerTickGet :: "tick_state \<Rightarrow> u32" where
  "LOS_CyclePerTickGet k = g_cyclesPerTick k"

definition LOS_MS2Tick :: "u32 \<Rightarrow> u32" where
  "LOS_MS2Tick millisec =
     (if millisec = OS_NULL_INT then OS_NULL_INT
      else ucast ((ucast millisec * 100 :: u64) div 1000))"

definition LOS_Tick2MS :: "u32 \<Rightarrow> u32" where
  "LOS_Tick2MS ticks = ucast ((ucast ticks * 1000 :: u64) div 100)"

definition LOS_CurrNanosec :: "tick_state \<Rightarrow> (u64 \<times> tick_state) option" where
  "LOS_CurrNanosec k = do {
     (now, k1) \<leftarrow> LOS_SysCycleGet k;
     d \<leftarrow> divisor (ucast (g_sysClock k1 div 1000000));
     Some (now * 1000 div d, k1)
   }"

subsection \<open>Reading and programming the clock\<close>

definition now_of :: "tick_state \<Rightarrow> u64" where
  "now_of k = g_tickTimerBase k + ucast (g_SysTickLoad k - 1)"

text \<open>The clock has not gone back, and it is \<open>n\<close> timer periods away from half of the 64-bit range.\<close>

definition tick_ok :: "nat \<Rightarrow> tick_state \<Rightarrow> bool" where
  "tick_ok n k \<longleftrightarrow> g_oldTickTimerBase k \<le> now_of k \<and> unat (g_tickTimerBase k) + (n + 1) * 2 ^ 32 \<le> 2 ^ 63"

lemma unat_ucast32: "unat (ucast (w :: u32) :: u64) = unat w"
proof -
  have "unat w < 2 ^ LENGTH(32)" by (rule unsigned_less)
  then show ?thesis by (simp add: unsigned_ucast_eq take_bit_eq_mod)
qed

lemma unat_lt32: "unat (w :: u32) < 2 ^ 32"
proof -
  have "unat w < 2 ^ LENGTH(32)" by (rule unsigned_less)
  then show ?thesis by simp
qed

lemma now_of_nat:
  assumes "unat (g_tickTimerBase k) + 2 ^ 32 \<le> 2 ^ 64"
  shows "unat (now_of k) = unat (g_tickTimerBase k) + unat (g_SysTickLoad k - 1)"
proof -
  have "unat (g_SysTickLoad k - 1) < 2 ^ 32" by (rule unat_lt32)
  then have "unat (g_tickTimerBase k) + unat (ucast (g_SysTickLoad k - 1) :: u64) < 2 ^ 64"
    using assms by (simp add: unat_ucast32)
  then show ?thesis unfolding now_of_def
    by (subst unat_add_lem [THEN iffD1]) (simp_all add: unat_ucast32)
qed

lemma sys_cycle_law:
  assumes "tick_ok n k"
  shows "LOS_SysCycleGet k = Some (now_of k, k\<lparr>g_oldTickTimerBase := now_of k\<rparr>)"
proof -
  have le: "g_oldTickTimerBase k \<le> now_of k" using assms by (simp add: tick_ok_def)
  then have "\<not> now_of k < g_oldTickTimerBase k" by (rule leD)
  with le show ?thesis
    by (simp add: LOS_SysCycleGet_def SysTickCycleGet_def now_of_def Let_def bind_los_assert)
qed

lemma now_of_upd [simp]:
  "now_of (k\<lparr>g_oldTickTimerBase := x\<rparr>) = now_of k"
  by (simp add: now_of_def)

lemma tick_ok_read: "tick_ok n k \<Longrightarrow> tick_ok n (k\<lparr>g_oldTickTimerBase := now_of k\<rparr>)"
  by (simp add: tick_ok_def)

lemma tick_ok_mono: "tick_ok n k \<Longrightarrow> m \<le> n \<Longrightarrow> tick_ok m k"
  unfolding tick_ok_def by (auto intro: order_trans [rotated])

lemma reload_law:
  assumes t: "tick_ok (Suc n) k"
  obtains v k' where "OsTickTimerReload p k = Some (v, k')" "tick_ok n k'" "now_of k \<le> now_of k'"
    "g_tickTimerBase k' = now_of k" "g_sysClock k' = g_sysClock k"
proof -
  define v where "v = (if p > timer_periodMax k then timer_periodMax k else p)"
  define k' where "k' = k\<lparr>g_oldTickTimerBase := now_of k, g_tickTimerBase := now_of k, g_SysTickLoad := ucast (v - 1)\<rparr>"
  have O: "OsTickTimerReload p k = Some (v, k')"
    using sys_cycle_law [OF t] by (simp add: OsTickTimerReload_def SysTickReload_def v_def k'_def Let_def)
  have b: "unat (g_tickTimerBase k) + 2 ^ 32 \<le> 2 ^ 64" using t by (simp add: tick_ok_def)
  have "unat (g_SysTickLoad k - 1) < 2 ^ 32" by (rule unat_lt32)
  then have nb: "unat (now_of k) + (n + 1) * 2 ^ 32 \<le> 2 ^ 63"
    using t now_of_nat [OF b] by (simp add: tick_ok_def)
  have b': "unat (g_tickTimerBase k') + 2 ^ 32 \<le> 2 ^ 64" using nb by (simp add: k'_def)
  have le: "now_of k \<le> now_of k'"
    using now_of_nat [OF b'] by (simp add: word_le_nat_alt k'_def)
  have "tick_ok n k'" using nb le by (simp add: tick_ok_def k'_def)
  then show thesis by (rule that [OF O _ le]) (simp_all add: k'_def)
qed

lemma tick_to_cycle_nat:
  "unat (OS_SYS_TICK_TO_CYCLE ticks k) = unat ticks * unat (g_sysClock k) div 100"
proof -
  have "unat ticks * unat (g_sysClock k) < 2 ^ 32 * 2 ^ 32"
    by (rule mult_strict_mono') (rule unat_lt32 | simp)+
  then have "unat (ucast ticks * ucast (g_sysClock k) :: u64) = unat ticks * unat (g_sysClock k)"
    by (simp add: unat_word_ariths unat_ucast32)
  then show ?thesis by (simp add: OS_SYS_TICK_TO_CYCLE_def unat_div)
qed

text \<open>A deadline of any number of ticks from now does not wrap around.\<close>

lemma deadline_nat:
  assumes t: "tick_ok n k"
  shows "unat (now_of k + OS_SYS_TICK_TO_CYCLE ticks k) = unat (now_of k) + unat ticks * unat (g_sysClock k) div 100"
    "unat (now_of k) + unat ticks * unat (g_sysClock k) div 100 < 2 ^ 64 - 1"
proof -
  have l: "unat (g_SysTickLoad k - 1) < 2 ^ 32" by (rule unat_lt32)
  have b: "unat (g_tickTimerBase k) + 2 ^ 32 \<le> 2 ^ 63" using t by (simp add: tick_ok_def)
  then have "unat (now_of k) < 2 ^ 63" using now_of_nat [of k] l by simp
  moreover have "unat ticks * unat (g_sysClock k) < 2 ^ 32 * 2 ^ 32"
    by (rule mult_strict_mono') (rule unat_lt32 | simp)+
  ultimately show B: "unat (now_of k) + unat ticks * unat (g_sysClock k) div 100 < 2 ^ 64 - 1" by simp
  then show "unat (now_of k + OS_SYS_TICK_TO_CYCLE ticks k) = unat (now_of k) + unat ticks * unat (g_sysClock k) div 100"
    by (simp add: unat_word_ariths tick_to_cycle_nat)
qed

lemma deadline_valid:
  assumes "tick_ok n k"
  shows "now_of k + OS_SYS_TICK_TO_CYCLE ticks k \<noteq> 0xFFFFFFFFFFFFFFFF"
    "now_of k \<le> now_of k + OS_SYS_TICK_TO_CYCLE ticks k"
  using deadline_nat [OF assms, of ticks] by (auto simp: word_le_nat_alt)

text \<open>The tick moves the base by the period that has passed.\<close>

lemma update_base_law:
  assumes t: "tick_ok (Suc n) k"
  shows "tick_ok n (OsUpdateSysTimeBase k)" "now_of k \<le> now_of (OsUpdateSysTimeBase k)"
proof -
  let ?k = "OsUpdateSysTimeBase k"
  have ld: "unat (g_SysTickLoad k) < 2 ^ 32" by (rule unat_lt32)
  have b: "unat (g_tickTimerBase k) + (n + 2) * 2 ^ 32 \<le> 2 ^ 63" using t by (simp add: tick_ok_def)
  have S: "g_SysTickLoad ?k = g_SysTickLoad k" "g_oldTickTimerBase ?k = g_oldTickTimerBase k"
    by (simp_all add: OsUpdateSysTimeBase_def)
  have B: "unat (g_tickTimerBase k) \<le> unat (g_tickTimerBase ?k)" "unat (g_tickTimerBase ?k) < unat (g_tickTimerBase k) + 2 ^ 32"
  proof -
    have "unat (g_tickTimerBase k + ucast (g_SysTickLoad k)) = unat (g_tickTimerBase k) + unat (g_SysTickLoad k)"
      using b ld by (simp add: unat_word_ariths unat_ucast32)
    then show "unat (g_tickTimerBase k) \<le> unat (g_tickTimerBase ?k)" "unat (g_tickTimerBase ?k) < unat (g_tickTimerBase k) + 2 ^ 32"
      using ld by (simp_all add: OsUpdateSysTimeBase_def SysTickCycleGet_def)
  qed
  show le: "now_of k \<le> now_of ?k"
    using now_of_nat [of k] now_of_nat [of ?k] b B by (simp add: word_le_nat_alt S)
  show "tick_ok n ?k"
    using t le B b by (auto simp: tick_ok_def S)
qed

end
