(* ===== verification/LosState.thy ===== *)
theory LosState
  imports LosList LosTick
begin

text \<open>
  The kernel's data: the control blocks of kernel/include as records, the names
  of all LOS_DL_LIST structures as the datatype \<open>node\<close>, and the global variables
  of kernel/src as one record.  An array of control blocks is a function from
  the index; a pointer to a control block is its index, NULL is \<open>None\<close>.

  The field \<open>responseTime\<close> of SortLinkList is kept per node, because the same
  structure is embedded in task control blocks and in timers.  Some fields
  describe the environment: \<open>os_int_active\<close> (an interrupt handler runs),
  \<open>pmMode\<close> (the answer of OsIsPmMode, always false without power management),
  \<open>mallocs\<close> (the addresses malloc will hand out; an empty list is an exhausted
  heap), \<open>text_addr\<close> (where the linker puts the functions whose address the code
  takes) and \<open>cfg_swtmr\<close> (the compile-time switch LOSCFG_BASE_CORE_SWTMR).
\<close>

subsection \<open>Constants of the headers\<close>

abbreviation (input) OS_TASK_STATUS_UNUSED :: u16 where "OS_TASK_STATUS_UNUSED \<equiv> 0x0001"
abbreviation (input) OS_TASK_STATUS_SUSPEND :: u16 where "OS_TASK_STATUS_SUSPEND \<equiv> 0x0002"
abbreviation (input) OS_TASK_STATUS_READY :: u16 where "OS_TASK_STATUS_READY \<equiv> 0x0004"
abbreviation (input) OS_TASK_STATUS_PEND :: u16 where "OS_TASK_STATUS_PEND \<equiv> 0x0008"
abbreviation (input) OS_TASK_STATUS_RUNNING :: u16 where "OS_TASK_STATUS_RUNNING \<equiv> 0x0010"
abbreviation (input) OS_TASK_STATUS_DELAY :: u16 where "OS_TASK_STATUS_DELAY \<equiv> 0x0020"
abbreviation (input) OS_TASK_STATUS_TIMEOUT :: u16 where "OS_TASK_STATUS_TIMEOUT \<equiv> 0x0040"
abbreviation (input) OS_TASK_STATUS_PEND_TIME :: u16 where "OS_TASK_STATUS_PEND_TIME \<equiv> 0x0080"
abbreviation (input) OS_TASK_STATUS_EXIT :: u16 where "OS_TASK_STATUS_EXIT \<equiv> 0x0100"
abbreviation (input) OS_TASK_FLAG_STACK_FREE :: u16 where "OS_TASK_FLAG_STACK_FREE \<equiv> 0x0800"
abbreviation (input) OS_TASK_FLAG_SYSTEM_TASK :: u16 where "OS_TASK_FLAG_SYSTEM_TASK \<equiv> 0x1000"
abbreviation (input) OS_TASK_FLAG_SIGNAL :: u16 where "OS_TASK_FLAG_SIGNAL \<equiv> 0x2000"
abbreviation (input) OS_TASK_FLAG_FREEZE :: u16 where "OS_TASK_FLAG_FREEZE \<equiv> 0x4000"
abbreviation (input) OS_TASK_FLAG_JOINABLE :: u16 where "OS_TASK_FLAG_JOINABLE \<equiv> 0x8000"

abbreviation (input) OS_INVALID :: u32 where "OS_INVALID \<equiv> 0xFFFFFFFF"
abbreviation (input) OS_ERROR :: u32 where "OS_ERROR \<equiv> 0xFFFFFFFF"
abbreviation (input) LOS_WAIT_FOREVER :: u32 where "LOS_WAIT_FOREVER \<equiv> 0xFFFFFFFF"
abbreviation (input) LOS_ERRTYPE_ERROR :: u32 where "LOS_ERRTYPE_ERROR \<equiv> 0x02000000"
abbreviation (input) OS_SORT_LINK_INVALID_TIME :: u64 where "OS_SORT_LINK_INVALID_TIME \<equiv> 0xFFFFFFFFFFFFFFFF"
abbreviation (input) OS_SORT_LINK_UINT64_MAX :: u64 where "OS_SORT_LINK_UINT64_MAX \<equiv> 0xFFFFFFFFFFFFFFFF"
abbreviation (input) OS_SCHED_MAX_RESPONSE_TIME :: u64 where "OS_SCHED_MAX_RESPONSE_TIME \<equiv> 0xFFFFFFFFFFFFFFFF"
abbreviation (input) OS_PRIORITY_QUEUE_NUM :: nat where "OS_PRIORITY_QUEUE_NUM \<equiv> 32"
abbreviation (input) OS_TASK_PRIORITY_LOWEST :: u16 where "OS_TASK_PRIORITY_LOWEST \<equiv> 31"
abbreviation (input) OS_TASK_MAGIC_WORD :: u32 where "OS_TASK_MAGIC_WORD \<equiv> 0xCCCCCCCC"
abbreviation (input) OS_TASK_STACK_INIT :: u32 where "OS_TASK_STACK_INIT \<equiv> 0xCACACACA"

subsection \<open>List nodes\<close>

text \<open>An event control block of the application, or the one embedded in a task control block.\<close>

datatype evref = EvCB nat | EvTask nat

datatype node =
    NPend nat          \<comment> \<open>pendList of a task control block\<close>
  | NSort nat          \<comment> \<open>sortList.sortLinkNode of a task control block\<close>
  | NJoin nat          \<comment> \<open>joinList of a task control block\<close>
  | NEvent evref       \<comment> \<open>stEventList of an event control block\<close>
  | NPri nat           \<comment> \<open>g_priQueueList[p]\<close>
  | NFreeTask          \<comment> \<open>g_losFreeTask\<close>
  | NRecycle           \<comment> \<open>g_taskRecycleList\<close>
  | NTaskSort          \<comment> \<open>g_taskSortLink\<close>
  | NSwtmrSort         \<comment> \<open>g_swtmrSortLink\<close>
  | NSwtmr nat         \<comment> \<open>stSortList.sortLinkNode of a timer\<close>
  | NSem nat           \<comment> \<open>semList of a semaphore\<close>
  | NUnusedSem         \<comment> \<open>g_unusedSemList\<close>
  | NMux nat           \<comment> \<open>muxList of a mutex\<close>
  | NUnusedMux         \<comment> \<open>g_unusedMuxList\<close>
  | NQRead nat         \<comment> \<open>readWriteList[OS_QUEUE_READ] of a queue\<close>
  | NQWrite nat        \<comment> \<open>readWriteList[OS_QUEUE_WRITE] of a queue\<close>
  | NQMem nat          \<comment> \<open>memList of a queue\<close>
  | NFreeQueue         \<comment> \<open>g_freeQueueList\<close>

subsection \<open>Control blocks\<close>

record LosTaskCB =
  stackPointer :: u32
  taskStatus :: u16
  priority :: u16
  timeSlice :: i32
  waitTimes :: u32
  startTime :: u64
  stackSize :: u32
  topOfStack :: u32
  taskID :: u32
  taskEntry :: u32
  taskSem :: "nat option"
  taskMux :: "nat option"
  arg :: u32
  taskName :: u32
  joinRetval :: u32
  eventMask :: u32
  eventMode :: u32
  msg :: u32

record LosSemCB =
  semStat :: u16
  semCount :: u16
  maxSemCount :: u16
  semID :: u16

record LosMuxCB =
  muxStat :: u8
  muxCount :: u16
  muxID :: u32
  owner :: "nat option"
  mux_priority :: u16

record LosQueueCB =
  queue_buf :: u32
  queueName :: u32
  queueState :: u16
  queueLen :: u16
  queueSize :: u16
  queueID :: u16
  queueHead :: u16
  queueTail :: u16
  readableCnt :: u16
  writableCnt :: u16

record SWTMR_CTRL_S =
  tm_next :: "nat option"
  ucState :: u8
  ucMode :: u8
  ucOverrun :: u8
  usTimerID :: u32
  uwInterval :: u32
  tm_arg :: u32
  pfnHandler :: u32
  tm_startTime :: u64

text \<open>The functions whose addresses are stored or compared.\<close>

datatype text_sym = Sym_OsIdleTask | Sym_OsTaskEntry | Sym_ArchSysExit | Sym_OsSwtmrTask

text \<open>
  The answer of a call that may block: a return value, or \<open>Wait k\<close> when the
  caller has been put to sleep and goes on with \<open>k\<close> when it next runs.
\<close>

datatype 'k res = Ret u32 | Wait 'k

subsection \<open>Global variables\<close>

record kstate =
  dl :: "node dl_heap"
  responseTime :: "node \<Rightarrow> u64"
  tk :: tick_state
  g_taskCBArray :: "nat \<Rightarrow> LosTaskCB"
  runTask :: "nat option"
  newTask :: "nat option"
  g_losTaskLock :: u16
  g_taskMaxNum :: u32
  g_idleTaskID :: u32
  g_taskScheduled :: bool
  g_queueBitmap :: u32
  g_schedResponseID :: u32
  g_tickIntLock :: u16
  g_schedResponseTime :: u64
  g_schedTimeSlice :: i32
  g_schedTimeSliceMin :: i32
  g_schedTickMinPeriod :: u32
  g_tickResponsePrecision :: u32
  uwEventID :: "evref \<Rightarrow> u32"
  g_allSem :: "nat \<Rightarrow> LosSemCB"
  g_allMux :: "nat \<Rightarrow> LosMuxCB"
  g_allQueue :: "nat \<Rightarrow> LosQueueCB"
  g_swtmrCBArray :: "nat \<Rightarrow> SWTMR_CTRL_S"
  g_swtmrFreeList :: "nat option"
  g_swtmrHandlerQueue :: u32
  g_swtmrTaskID :: u32
  byteMem :: "u32 \<Rightarrow> u8"
  stackMem :: "u32 \<Rightarrow> u32 option"
  mallocs :: "u32 list"
  freed :: "u32 list"
  os_int_active :: bool
  pmMode :: bool
  cfg_swtmr :: bool
  text_addr :: "text_sym \<Rightarrow> u32"

abbreviation tcb :: "kstate \<Rightarrow> nat \<Rightarrow> LosTaskCB" where
  "tcb s t \<equiv> g_taskCBArray s t"

abbreviation status :: "kstate \<Rightarrow> nat \<Rightarrow> u16" where
  "status s t \<equiv> taskStatus (g_taskCBArray s t)"

definition upd_tcb :: "nat \<Rightarrow> (LosTaskCB \<Rightarrow> LosTaskCB) \<Rightarrow> kstate \<Rightarrow> kstate" where
  "upd_tcb t f s = s\<lparr>g_taskCBArray := (g_taskCBArray s)(t := f (g_taskCBArray s t))\<rparr>"

definition or_status :: "nat \<Rightarrow> u16 \<Rightarrow> kstate \<Rightarrow> kstate" where
  "or_status t m = upd_tcb t (\<lambda>c. c\<lparr>taskStatus := taskStatus c OR m\<rparr>)"

definition clr_status :: "nat \<Rightarrow> u16 \<Rightarrow> kstate \<Rightarrow> kstate" where
  "clr_status t m = upd_tcb t (\<lambda>c. c\<lparr>taskStatus := taskStatus c AND NOT m\<rparr>)"

definition set_response :: "node \<Rightarrow> u64 \<Rightarrow> kstate \<Rightarrow> kstate" where
  "set_response n v s = s\<lparr>responseTime := (responseTime s)(n := v)\<rparr>"

text \<open>The list operations on the kernel's heap.\<close>

definition k_ListInit :: "node \<Rightarrow> kstate \<Rightarrow> kstate" where
  "k_ListInit n s = s\<lparr>dl := LOS_ListInit n (dl s)\<rparr>"

definition k_ListAdd :: "node \<Rightarrow> node \<Rightarrow> kstate \<Rightarrow> kstate option" where
  "k_ListAdd q n s = map_option (\<lambda>h. s\<lparr>dl := h\<rparr>) (LOS_ListAdd q n (dl s))"

definition k_ListTailInsert :: "node \<Rightarrow> node \<Rightarrow> kstate \<Rightarrow> kstate option" where
  "k_ListTailInsert q n s = map_option (\<lambda>h. s\<lparr>dl := h\<rparr>) (LOS_ListTailInsert q n (dl s))"

definition k_ListDelete :: "node \<Rightarrow> kstate \<Rightarrow> kstate option" where
  "k_ListDelete n s = map_option (\<lambda>h. s\<lparr>dl := h\<rparr>) (LOS_ListDelete n (dl s))"

abbreviation k_ListEmpty :: "node \<Rightarrow> kstate \<Rightarrow> bool" where
  "k_ListEmpty n s \<equiv> LOS_ListEmpty n (dl s)"

text \<open>LOS_DL_LIST_ENTRY to the enclosing structure; another kind of node is a wild pointer.\<close>

fun OS_TCB_FROM_PENDLIST :: "node \<Rightarrow> nat option" where
  "OS_TCB_FROM_PENDLIST (NPend t) = Some t"
| "OS_TCB_FROM_PENDLIST _ = None"

fun SORT_ENTRY :: "node \<Rightarrow> node option" where
  "SORT_ENTRY (NSort t) = Some (NSort t)"
| "SORT_ENTRY (NSwtmr i) = Some (NSwtmr i)"
| "SORT_ENTRY _ = None"

definition OS_TCB_FROM_TID :: "u32 \<Rightarrow> nat" where
  "OS_TCB_FROM_TID tid = unat tid"

text \<open>The system clock as the scheduler reads it (OsGetCurrSchedTimeCycle).\<close>

definition OsGetCurrSchedTimeCycle :: "kstate \<Rightarrow> (u64 \<times> kstate) option" where
  "OsGetCurrSchedTimeCycle s = map_option (\<lambda>(t, k). (t, s\<lparr>tk := k\<rparr>)) (LOS_SysCycleGet (tk s))"

definition k_OsTickTimerReload :: "u64 \<Rightarrow> kstate \<Rightarrow> (u64 \<times> kstate) option" where
  "k_OsTickTimerReload p s = map_option (\<lambda>(t, k). (t, s\<lparr>tk := k\<rparr>)) (OsTickTimerReload p (tk s))"

text \<open>
  LOS_MemAlloc and LOS_MemFree call malloc and free.  malloc hands out the next
  address of \<open>mallocs\<close>; free(NULL) does nothing.
\<close>

definition LOS_MemAlloc :: "kstate \<Rightarrow> u32 \<times> kstate" where
  "LOS_MemAlloc s = (case mallocs s of [] \<Rightarrow> (0, s) | a # as \<Rightarrow> (a, s\<lparr>mallocs := as\<rparr>))"

definition LOS_MemFree :: "u32 \<Rightarrow> kstate \<Rightarrow> kstate" where
  "LOS_MemFree p s = (if p = 0 then s else s\<lparr>freed := p # freed s\<rparr>)"

lemma k_List_eq:
  "LOS_ListAdd q n (dl s) = Some h \<Longrightarrow> k_ListAdd q n s = Some (s\<lparr>dl := h\<rparr>)"
  "LOS_ListTailInsert q n (dl s) = Some h \<Longrightarrow> k_ListTailInsert q n s = Some (s\<lparr>dl := h\<rparr>)"
  "LOS_ListDelete n (dl s) = Some h \<Longrightarrow> k_ListDelete n s = Some (s\<lparr>dl := h\<rparr>)"
  by (simp_all add: k_ListAdd_def k_ListTailInsert_def k_ListDelete_def)

lemmas k_ListAdd_eq = k_List_eq(1)

declare upd_tcb_def [los_defs] or_status_def [los_defs] clr_status_def [los_defs]
  set_response_def [los_defs] k_ListInit_def [los_defs]

end
