(* ===== verification/LosSortlink.thy ===== *)
theory LosSortlink
  imports LosState
begin

text \<open>
  The timeout lists of kernel/src/los_sortlink.c and
  kernel/include/los_sortlink.h: nodes in the order of their response times.
  The do-while loops over the pointers are partial functions; that they return
  is part of the laws proved below.
\<close>

abbreviation (input) OS_SORT_LINK_TASK :: u32 where "OS_SORT_LINK_TASK \<equiv> 1"
abbreviation (input) OS_SORT_LINK_SWTMR :: u32 where "OS_SORT_LINK_SWTMR \<equiv> 2"

definition OsSortLinkInit :: "node \<Rightarrow> kstate \<Rightarrow> u32 \<times> kstate" where
  "OsSortLinkInit head s = (LOS_OK, k_ListInit head s)"

text \<open>The do-while loop of OsAddNode2SortLink, from the tail towards the head.\<close>

partial_function (option) sort_insert_loop :: "node \<Rightarrow> node \<Rightarrow> kstate \<Rightarrow> kstate option" where
  "sort_insert_loop prevNode node s = do {
     listSorted \<leftarrow> SORT_ENTRY prevNode;
     if responseTime s listSorted \<le> responseTime s node
     then k_ListAdd prevNode node s
     else do { p \<leftarrow> pstPrev (dl s) prevNode; sort_insert_loop p node s }
   }"

definition OsAddNode2SortLink :: "node \<Rightarrow> node \<Rightarrow> kstate \<Rightarrow> kstate option" where
  "OsAddNode2SortLink head node s =
     (if k_ListEmpty head s then k_ListAdd head node s
      else do {
        first \<leftarrow> pstNext (dl s) head;
        listSorted \<leftarrow> SORT_ENTRY first;
        if responseTime s listSorted > responseTime s node then k_ListAdd head node s
        else if responseTime s listSorted = responseTime s node then k_ListAdd first node s
        else do { prevNode \<leftarrow> pstPrev (dl s) head; sort_insert_loop prevNode node s }
      })"

definition OsGetSortLinkAttribute :: "u32 \<Rightarrow> kstate \<Rightarrow> node option" where
  "OsGetSortLinkAttribute type s =
     (if type = OS_SORT_LINK_TASK then Some NTaskSort
      else if cfg_swtmr s \<and> type = OS_SORT_LINK_SWTMR then Some NSwtmrSort
      else None)"

text \<open>OsAdd2SortLink panics on an unknown type of list.\<close>

definition OsAdd2SortLink :: "node \<Rightarrow> u64 \<Rightarrow> u32 \<Rightarrow> u32 \<Rightarrow> kstate \<Rightarrow> kstate option" where
  "OsAdd2SortLink node start waitTicks type s = do {
     head \<leftarrow> (if type = OS_SORT_LINK_TASK then Some NTaskSort
              else if cfg_swtmr s \<and> type = OS_SORT_LINK_SWTMR then Some NSwtmrSort
              else None);
     let s = set_response node (start + OS_SYS_TICK_TO_CYCLE waitTicks (tk s)) s;
     OsAddNode2SortLink head node s
   }"

definition OsSchedResetSchedResponseTime :: "u64 \<Rightarrow> kstate \<Rightarrow> kstate" where
  "OsSchedResetSchedResponseTime t s =
     (if t \<le> g_schedResponseTime s
      then s\<lparr>g_schedResponseTime := OS_SCHED_MAX_RESPONSE_TIME\<rparr> else s)"

definition OsDeleteNodeSortLink :: "node \<Rightarrow> kstate \<Rightarrow> kstate option" where
  "OsDeleteNodeSortLink node s = do {
     s \<leftarrow> k_ListDelete node s;
     Some (set_response node OS_SORT_LINK_INVALID_TIME s)
   }"

definition OsDeleteSortLink :: "node \<Rightarrow> kstate \<Rightarrow> kstate option" where
  "OsDeleteSortLink node s =
     (if responseTime s node \<noteq> OS_SORT_LINK_INVALID_TIME
      then OsDeleteNodeSortLink node (OsSchedResetSchedResponseTime (responseTime s node) s)
      else Some s)"

text \<open>The do-while loop of SortLinkNodeTimeUpdate.\<close>

partial_function (option) sort_update_loop :: "node \<Rightarrow> node \<Rightarrow> u32 \<Rightarrow> kstate \<Rightarrow> kstate option" where
  "sort_update_loop head nextNode oldFreq s = do {
     listSorted \<leftarrow> SORT_ENTRY nextNode;
     t \<leftarrow> OsTimeConvertFreq (responseTime s listSorted) oldFreq (g_sysClock (tk s));
     let s = set_response listSorted t s;
     nx \<leftarrow> pstNext (dl s) nextNode;
     if nx \<noteq> head then sort_update_loop head nx oldFreq s else Some s
   }"

definition SortLinkNodeTimeUpdate :: "node \<Rightarrow> u32 \<Rightarrow> kstate \<Rightarrow> kstate option" where
  "SortLinkNodeTimeUpdate head oldFreq s =
     (if k_ListEmpty head s then Some s
      else do { nx \<leftarrow> pstNext (dl s) head; sort_update_loop head nx oldFreq s })"

definition OsSortLinkResponseTimeConvertFreq :: "u32 \<Rightarrow> kstate \<Rightarrow> kstate option" where
  "OsSortLinkResponseTimeConvertFreq oldFreq s = do {
     s \<leftarrow> SortLinkNodeTimeUpdate NTaskSort oldFreq s;
     if cfg_swtmr s then SortLinkNodeTimeUpdate NSwtmrSort oldFreq s else Some s
   }"

definition OsSortLinkGetTargetExpireTime :: "u64 \<Rightarrow> node \<Rightarrow> kstate \<Rightarrow> u64" where
  "OsSortLinkGetTargetExpireTime currTime node s =
     (if currTime \<ge> responseTime s node then 0 else responseTime s node - currTime)"

definition OsSortLinkGetNextExpireTime :: "node \<Rightarrow> kstate \<Rightarrow> (u64 \<times> kstate) option" where
  "OsSortLinkGetNextExpireTime head s =
     (if k_ListEmpty head s then Some (0, s)
      else do {
        first \<leftarrow> pstNext (dl s) head;
        listSorted \<leftarrow> SORT_ENTRY first;
        (now, s) \<leftarrow> OsGetCurrSchedTimeCycle s;
        Some (OsSortLinkGetTargetExpireTime now listSorted s, s)
      })"

definition OsSortLinkGetRemainTime :: "u64 \<Rightarrow> node \<Rightarrow> kstate \<Rightarrow> u64" where
  "OsSortLinkGetRemainTime currTime node s =
     (if currTime \<ge> responseTime s node then 0 else responseTime s node - currTime)"

definition GetSortLinkNextExpireTime :: "node \<Rightarrow> u64 \<Rightarrow> u32 \<Rightarrow> kstate \<Rightarrow> u64 option" where
  "GetSortLinkNextExpireTime head start tickPrecision s =
     (if k_ListEmpty head s then Some (OS_SORT_LINK_UINT64_MAX - ucast tickPrecision)
      else do {
        first \<leftarrow> pstNext (dl s) head;
        listSorted \<leftarrow> SORT_ENTRY first;
        if responseTime s listSorted \<le> start + ucast tickPrecision
        then Some (start + ucast tickPrecision)
        else Some (responseTime s listSorted)
      })"

definition OsGetNextExpireTime :: "u64 \<Rightarrow> u32 \<Rightarrow> kstate \<Rightarrow> u64 option" where
  "OsGetNextExpireTime start tickPrecision s = do {
     taskExpireTime \<leftarrow> GetSortLinkNextExpireTime NTaskSort start tickPrecision s;
     swtmrExpireTime \<leftarrow>
       (if cfg_swtmr s then GetSortLinkNextExpireTime NSwtmrSort start tickPrecision s
        else Some taskExpireTime);
     Some (if taskExpireTime < swtmrExpireTime then taskExpireTime else swtmrExpireTime)
   }"

text \<open>
  Reference definition of the insertion: where OsAddNode2SortLink puts a node in
  a list that is sorted by \<open>t\<close>.
\<close>

definition sort_ins :: "(node \<Rightarrow> u64) \<Rightarrow> node \<Rightarrow> node list \<Rightarrow> node list" where
  "sort_ins t n xs = (case xs of
     [] \<Rightarrow> [n]
   | x # ys \<Rightarrow>
       if t x > t n then n # xs
       else if t x = t n then x # n # ys
       else rev (dropWhile (\<lambda>y. t y > t n) (rev xs)) @ n # rev (takeWhile (\<lambda>y. t y > t n) (rev xs)))"

definition is_sort :: "node \<Rightarrow> bool" where
  "is_sort n \<longleftrightarrow> SORT_ENTRY n = Some n"

lemma set_sort_ins [simp]: "set (sort_ins t n xs) = insert n (set xs)"
proof -
  have "set (dropWhile P zs) \<union> set (takeWhile P zs) = set zs" for P and zs :: "node list"
    by (metis set_append sup_commute takeWhile_dropWhile_id)
  from this [of "\<lambda>y. t y > t n" "rev xs"] show ?thesis
    by (auto simp: sort_ins_def split: list.splits)
qed

lemma sorted_sort_ins:
  assumes "sorted (map t xs)"
  shows "sorted (map t (sort_ins t n xs))"
proof (cases xs)
  case Nil
  then show ?thesis by (simp add: sort_ins_def)
next
  case (Cons x ys)
  let ?P = "\<lambda>y. t y > t n"
  let ?as = "rev (dropWhile ?P (rev xs))" and ?bs = "rev (takeWhile ?P (rev xs))"
  have split: "xs = ?as @ ?bs"
    by (metis rev_append rev_rev_ident takeWhile_dropWhile_id)
  have srt: "sorted (map t (?as @ ?bs))" using assms split by metis
  have bs: "\<forall>b \<in> set ?bs. t n \<le> t b" by (auto dest: set_takeWhileD)
  have as: "\<forall>a \<in> set ?as. t a \<le> t n"
  proof (cases "dropWhile ?P (rev xs)")
    case Nil
    show ?thesis unfolding Nil by simp
  next
    case (Cons a as)
    then have a: "\<not> t n < t a" using hd_dropWhile [of ?P "rev xs"] by auto
    have "sorted (map t (rev as @ [a]))"
      using srt Cons by (simp add: sorted_append)
    with a Cons show ?thesis by (auto simp: sorted_append)
  qed
  have ins: "sorted (map t (?as @ n # ?bs))"
    using srt as bs by (auto simp: sorted_append)
  show ?thesis using assms ins Cons by (auto simp: sort_ins_def)
qed

lemma sort_ins_split: "\<exists>as bs. xs = as @ bs \<and> sort_ins t n xs = as @ n # bs"
proof (cases xs)
  case Nil
  then show ?thesis by (simp add: sort_ins_def)
next
  case (Cons x ys)
  let ?P = "\<lambda>y. t y > t n"
  have split: "xs = rev (dropWhile ?P (rev xs)) @ rev (takeWhile ?P (rev xs))"
    by (metis rev_append rev_rev_ident takeWhile_dropWhile_id)
  consider "t x > t n" | "t x = t n" | "\<not> t x > t n" "t x \<noteq> t n" by blast
  then show ?thesis
  proof cases
    case 1
    then show ?thesis using Cons by (intro exI [of _ "[]"] exI [of _ xs]) (simp add: sort_ins_def)
  next
    case 2
    then show ?thesis using Cons by (intro exI [of _ "[x]"] exI [of _ ys]) (simp add: sort_ins_def)
  next
    case 3
    have "sort_ins t n xs = rev (dropWhile ?P (rev xs)) @ n # rev (takeWhile ?P (rev xs))"
      using 3 unfolding sort_ins_def Cons by simp
    with split show ?thesis by blast
  qed
qed

lemma SORT_ENTRY_iff: "SORT_ENTRY n = Some m \<longleftrightarrow> m = n \<and> ((\<exists>t. n = NSort t) \<or> (\<exists>i. n = NSwtmr i))"
  by (cases n) auto

lemma sort_insert_loop_law:
  assumes "dl_rep (dl s) L" "n \<notin> covered L"
  shows "\<lbrakk> L q = Some (ys @ zs); \<forall>x \<in> set ys. is_sort x; \<exists>y \<in> set ys. responseTime s y \<le> responseTime s n \<rbrakk> \<Longrightarrow>
    \<exists>h'. sort_insert_loop (last (q # ys)) n s = Some (s\<lparr>dl := h'\<rparr>) \<and>
      dl_rep h' (L(q \<mapsto> rev (dropWhile (\<lambda>y. responseTime s y > responseTime s n) (rev ys)) @ n #
                     rev (takeWhile (\<lambda>y. responseTime s y > responseTime s n) (rev ys)) @ zs))"
proof (induction ys arbitrary: zs rule: rev_induct)
  case Nil
  then show ?case by simp
next
  case (snoc y ys)
  have y: "SORT_ENTRY y = Some y" using snoc.prems(2) by (simp add: is_sort_def)
  show ?case
  proof (cases "responseTime s y \<le> responseTime s n")
    case True
    obtain h' where "LOS_ListAdd (last (q # ys @ [y])) n (dl s) = Some h'"
        "dl_rep h' (L(q \<mapsto> (ys @ [y]) @ n # zs))"
      using list_add_after [OF assms(1), of q "ys @ [y]" zs n] snoc.prems(1) assms(2) by auto
    moreover have "\<not> responseTime s n < responseTime s y" using True by (rule leD)
    ultimately show ?thesis using True y
      by (subst sort_insert_loop.simps) (auto simp: k_ListAdd_eq)
  next
    case False
    have p: "pstPrev (dl s) y = Some (last (q # ys))"
      using list_prev [OF assms(1), of q ys y zs] snoc.prems(1) by simp
    have "\<exists>h'. sort_insert_loop (last (q # ys)) n s = Some (s\<lparr>dl := h'\<rparr>) \<and>
      dl_rep h' (L(q \<mapsto> rev (dropWhile (\<lambda>y. responseTime s y > responseTime s n) (rev ys)) @ n #
                     rev (takeWhile (\<lambda>y. responseTime s y > responseTime s n) (rev ys)) @ y # zs))"
      using snoc.prems False by (intro snoc.IH) auto
    with False y p show ?thesis
      by (subst sort_insert_loop.simps) auto
  qed
qed

lemma OsAddNode2SortLink_law:
  assumes R: "dl_rep (dl s) L" and q: "L q = Some xs" and n: "n \<notin> covered L"
    and sn: "\<forall>x \<in> set xs. is_sort x"
  obtains h' where "OsAddNode2SortLink q n s = Some (s\<lparr>dl := h'\<rparr>)"
    "dl_rep h' (L(q \<mapsto> sort_ins (responseTime s) n xs))"
proof (cases xs)
  case Nil
  obtain h' where h: "LOS_ListAdd q n (dl s) = Some h'" "dl_rep h' (L(q \<mapsto> n # xs))"
    using list_head_insert [OF R q n] by blast
  show thesis
    by (rule that [of h'])
       (use h Nil list_empty [OF R q] in \<open>simp_all add: OsAddNode2SortLink_def k_ListAdd_eq sort_ins_def\<close>)
next
  case (Cons x ys)
  have x: "SORT_ENTRY x = Some x" using sn Cons by (simp add: is_sort_def)
  have first: "pstNext (dl s) q = Some x" using list_first [OF R q] Cons by simp
  have last: "pstPrev (dl s) q = Some (last (q # xs))" using list_last [OF R q] .
  have ne: "\<not> k_ListEmpty q s" using list_empty [OF R q] Cons by simp
  consider "responseTime s x > responseTime s n" | "responseTime s x = responseTime s n"
    | "responseTime s x < responseTime s n" by fastforce
  then show thesis
  proof cases
    case 1
    obtain h' where h: "LOS_ListAdd q n (dl s) = Some h'" "dl_rep h' (L(q \<mapsto> n # xs))"
      using list_head_insert [OF R q n] by blast
    show thesis
      by (rule that [of h'])
         (use h ne first x 1 Cons in \<open>simp_all add: OsAddNode2SortLink_def k_ListAdd_eq sort_ins_def\<close>)
  next
    case 2
    obtain h' where h: "LOS_ListAdd x n (dl s) = Some h'" "dl_rep h' (L(q \<mapsto> x # n # ys))"
      using list_add_after [OF R, of q "[x]" ys n] q n Cons by auto
    show thesis
      by (rule that [of h'])
         (use h ne first x 2 Cons in \<open>simp_all add: OsAddNode2SortLink_def k_ListAdd_eq sort_ins_def\<close>)
  next
    case 3
    have "\<exists>y \<in> set xs. responseTime s y \<le> responseTime s n" using 3 Cons by auto
    with sort_insert_loop_law [OF R n, of q xs "[]"] q sn obtain h'
      where h: "sort_insert_loop (last (q # xs)) n s = Some (s\<lparr>dl := h'\<rparr>)"
        "dl_rep h' (L(q \<mapsto> rev (dropWhile (\<lambda>y. responseTime s y > responseTime s n) (rev xs)) @ n #
                     rev (takeWhile (\<lambda>y. responseTime s y > responseTime s n) (rev xs))))" by auto
    have eq: "sort_ins (responseTime s) n xs = rev (dropWhile (\<lambda>y. responseTime s y > responseTime s n) (rev xs)) @ n #
                     rev (takeWhile (\<lambda>y. responseTime s y > responseTime s n) (rev xs))"
      using less_imp_neq [OF 3] less_not_sym [OF 3] unfolding sort_ins_def Cons by simp
    show thesis
    proof (rule that [of h'])
      show "OsAddNode2SortLink q n s = Some (s\<lparr>dl := h'\<rparr>)"
        using h(1) ne first last x less_imp_neq [OF 3] less_not_sym [OF 3]
        by (simp add: OsAddNode2SortLink_def)
      show "dl_rep h' (L(q \<mapsto> sort_ins (responseTime s) n xs))"
        unfolding eq by (rule h(2))
    qed
  qed
qed

end
