(* ===== verification/LosSched.thy ===== *)
theory LosSched
  imports LosSortlink
begin

text \<open>
  The scheduler, kernel/src/los_sched.c, and the context switch of
  sub/LiteOS_RTOS_FE.c: ready queues by priority with their bitmap, the timeout
  list, time slices, and the operations that move a task between running,
  ready, pending, delayed and suspended.
\<close>

abbreviation (input) PRIQUEUE_PRIOR0_BIT :: u32 where "PRIQUEUE_PRIOR0_BIT \<equiv> 0x80000000"

definition OsTimeSliceUpdate :: "nat \<Rightarrow> u64 \<Rightarrow> kstate \<Rightarrow> kstate option" where
  "OsTimeSliceUpdate t currTime s = do {
     los_assert (currTime \<ge> startTime (tcb s t));
     let incTime = (ucast (currTime - startTime (tcb s t)) :: i32);
     let s = (if taskID (tcb s t) \<noteq> g_idleTaskID s
              then upd_tcb t (\<lambda>c. c\<lparr>timeSlice := timeSlice c - incTime\<rparr>) s else s);
     Some (upd_tcb t (\<lambda>c. c\<lparr>startTime := currTime\<rparr>) s)
   }"

definition OsSchedSetNextExpireTime :: "u32 \<Rightarrow> u64 \<Rightarrow> kstate \<Rightarrow> kstate option" where
  "OsSchedSetNextExpireTime responseID taskEndTime s = do {
     (currTime, s) \<leftarrow> OsGetCurrSchedTimeCycle s;
     nextExpireTime \<leftarrow> OsGetNextExpireTime currTime (g_tickResponsePrecision s) s;
     let isTimeSlice = (nextExpireTime > taskEndTime \<and>
                        nextExpireTime - taskEndTime > ucast (g_schedTickMinPeriod s));
     let nextExpireTime = (if isTimeSlice then taskEndTime else nextExpireTime);
     if g_schedResponseTime s \<le> nextExpireTime \<or>
        g_schedResponseTime s - nextExpireTime < ucast (g_tickResponsePrecision s)
     then Some s
     else do {
       let s = s\<lparr>g_schedResponseID := (if isTimeSlice then responseID else OS_INVALID)\<rparr>;
       let nextResponseTime = nextExpireTime - currTime;
       let nextResponseTime = (if nextResponseTime < ucast (g_tickResponsePrecision s)
                               then ucast (g_tickResponsePrecision s) else nextResponseTime);
       (reload, s) \<leftarrow> k_OsTickTimerReload nextResponseTime s;
       Some (s\<lparr>g_schedResponseTime := currTime + reload\<rparr>)
     }
   }"

definition OsSchedUpdateExpireTime :: "kstate \<Rightarrow> kstate option" where
  "OsSchedUpdateExpireTime s =
     (if \<not> g_taskScheduled s \<or> g_tickIntLock s \<noteq> 0 then Some s
      else do {
        run \<leftarrow> runTask s;
        let endTime =
          (if taskID (tcb s run) \<noteq> g_idleTaskID s \<and> \<not> pmMode s
           then startTime (tcb s run) +
                scast (if timeSlice (tcb s run) \<le>s g_schedTimeSliceMin s
                       then g_schedTimeSlice s else timeSlice (tcb s run))
           else OS_SCHED_MAX_RESPONSE_TIME - ucast (g_tickResponsePrecision s));
        OsSchedSetNextExpireTime (taskID (tcb s run)) endTime s
      })"

definition set_queue_bit :: "nat \<Rightarrow> kstate \<Rightarrow> kstate" where
  "set_queue_bit p s = s\<lparr>g_queueBitmap := g_queueBitmap s OR drop_bit p PRIQUEUE_PRIOR0_BIT\<rparr>"

definition clr_queue_bit :: "nat \<Rightarrow> kstate \<Rightarrow> kstate" where
  "clr_queue_bit p s = s\<lparr>g_queueBitmap := g_queueBitmap s AND NOT (drop_bit p PRIQUEUE_PRIOR0_BIT)\<rparr>"

definition OsSchedPriQueueEnHead :: "node \<Rightarrow> nat \<Rightarrow> kstate \<Rightarrow> kstate option" where
  "OsSchedPriQueueEnHead item prio s =
     k_ListAdd (NPri prio) item
       (if k_ListEmpty (NPri prio) s then set_queue_bit prio s else s)"

definition OsSchedPriQueueEnTail :: "node \<Rightarrow> nat \<Rightarrow> kstate \<Rightarrow> kstate option" where
  "OsSchedPriQueueEnTail item prio s =
     k_ListTailInsert (NPri prio) item
       (if k_ListEmpty (NPri prio) s then set_queue_bit prio s else s)"

definition OsSchedPriQueueDelete :: "node \<Rightarrow> nat \<Rightarrow> kstate \<Rightarrow> kstate option" where
  "OsSchedPriQueueDelete item prio s = do {
     s \<leftarrow> k_ListDelete item s;
     Some (if k_ListEmpty (NPri prio) s then clr_queue_bit prio s else s)
   }"

definition OsSchedTaskEnQueue :: "nat \<Rightarrow> kstate \<Rightarrow> kstate option" where
  "OsSchedTaskEnQueue t s = do {
     los_assert (status s t AND OS_TASK_STATUS_READY = 0);
     s \<leftarrow> (if taskID (tcb s t) \<noteq> g_idleTaskID s
          then if g_schedTimeSliceMin s <s timeSlice (tcb s t)
               then OsSchedPriQueueEnHead (NPend t) (unat (priority (tcb s t))) s
               else let s = upd_tcb t (\<lambda>c. c\<lparr>timeSlice := g_schedTimeSlice s\<rparr>) s
                    in OsSchedPriQueueEnTail (NPend t) (unat (priority (tcb s t))) s
          else Some s);
     let s = clr_status t (OS_TASK_STATUS_PEND OR OS_TASK_STATUS_SUSPEND OR
                           OS_TASK_STATUS_DELAY OR OS_TASK_STATUS_PEND_TIME) s;
     Some (or_status t OS_TASK_STATUS_READY s)
   }"

definition OsSchedTaskDeQueue :: "nat \<Rightarrow> kstate \<Rightarrow> kstate option" where
  "OsSchedTaskDeQueue t s =
     (if status s t AND OS_TASK_STATUS_READY \<noteq> 0
      then do {
        s \<leftarrow> (if taskID (tcb s t) \<noteq> g_idleTaskID s
             then OsSchedPriQueueDelete (NPend t) (unat (priority (tcb s t))) s
             else Some s);
        Some (clr_status t OS_TASK_STATUS_READY s)
      }
      else Some s)"

text \<open>The result says whether \<open>needSchedule\<close> was set.\<close>

definition OsSchedWakePendTimeTask :: "nat \<Rightarrow> kstate \<Rightarrow> (bool \<times> kstate) option" where
  "OsSchedWakePendTimeTask t s =
     (let tempStatus = status s t
      in if tempStatus AND (OS_TASK_STATUS_PEND OR OS_TASK_STATUS_DELAY) \<noteq> 0
         then do {
           let s = clr_status t (OS_TASK_STATUS_PEND OR OS_TASK_STATUS_PEND_TIME OR OS_TASK_STATUS_DELAY) s;
           s \<leftarrow> (if tempStatus AND OS_TASK_STATUS_PEND \<noteq> 0
                then do {
                  let s = or_status t OS_TASK_STATUS_TIMEOUT s;
                  s \<leftarrow> k_ListDelete (NPend t) s;
                  Some (upd_tcb t (\<lambda>c. c\<lparr>taskMux := None, taskSem := None\<rparr>) s)
                }
                else Some s);
           if tempStatus AND OS_TASK_STATUS_SUSPEND = 0
           then do { s \<leftarrow> OsSchedTaskEnQueue t s; Some (True, s) }
           else Some (False, s)
         }
         else Some (False, s))"

text \<open>The while loop of OsSchedScanTimerList, at the node \<open>sortList\<close>.\<close>

fun TCB_FROM_SORT :: "node \<Rightarrow> nat option" where
  "TCB_FROM_SORT (NSort t) = Some t"
| "TCB_FROM_SORT _ = None"

partial_function (option) scan_timer_loop ::
    "node \<Rightarrow> u64 \<Rightarrow> bool \<Rightarrow> kstate \<Rightarrow> (bool \<times> kstate) option" where
  "scan_timer_loop sortList currTime needSchedule s =
     (if responseTime s sortList \<le> currTime
      then do {
        t \<leftarrow> TCB_FROM_SORT sortList;
        s \<leftarrow> OsDeleteNodeSortLink (NSort t) s;
        (need, s) \<leftarrow> OsSchedWakePendTimeTask t s;
        let needSchedule = (needSchedule \<or> need);
        if k_ListEmpty NTaskSort s then Some (needSchedule, s)
        else do {
          n \<leftarrow> pstNext (dl s) NTaskSort;
          e \<leftarrow> SORT_ENTRY n;
          scan_timer_loop e currTime needSchedule s
        }
      }
      else Some (needSchedule, s))"

definition OsSchedScanTimerList :: "kstate \<Rightarrow> (bool \<times> kstate) option" where
  "OsSchedScanTimerList s =
     (if k_ListEmpty NTaskSort s then Some (False, s)
      else do {
        n \<leftarrow> pstNext (dl s) NTaskSort;
        sortList \<leftarrow> SORT_ENTRY n;
        (currTime, s) \<leftarrow> OsGetCurrSchedTimeCycle s;
        scan_timer_loop sortList currTime False s
      })"

definition OsSchedTaskExit :: "nat \<Rightarrow> kstate \<Rightarrow> kstate option" where
  "OsSchedTaskExit t s = do {
     s \<leftarrow> (if status s t AND OS_TASK_STATUS_READY \<noteq> 0 then OsSchedTaskDeQueue t s
          else if status s t AND OS_TASK_STATUS_PEND \<noteq> 0
          then do { s \<leftarrow> k_ListDelete (NPend t) s; Some (clr_status t OS_TASK_STATUS_PEND s) }
          else Some s);
     s \<leftarrow> (if status s t AND (OS_TASK_STATUS_DELAY OR OS_TASK_STATUS_PEND_TIME) \<noteq> 0
          then do {
            s \<leftarrow> OsDeleteSortLink (NSort t) s;
            Some (clr_status t (OS_TASK_STATUS_DELAY OR OS_TASK_STATUS_PEND_TIME) s)
          }
          else Some s);
     Some (or_status t OS_TASK_STATUS_EXIT s)
   }"

definition OsSchedYield :: "kstate \<Rightarrow> kstate option" where
  "OsSchedYield s = do { run \<leftarrow> runTask s; Some (upd_tcb run (\<lambda>c. c\<lparr>timeSlice := 0\<rparr>) s) }"

definition OsSchedDelay :: "nat \<Rightarrow> u32 \<Rightarrow> kstate \<Rightarrow> kstate" where
  "OsSchedDelay run tick s =
     upd_tcb run (\<lambda>c. c\<lparr>waitTimes := tick\<rparr>) (or_status run OS_TASK_STATUS_DELAY s)"

definition OsSchedTaskWait :: "node \<Rightarrow> u32 \<Rightarrow> kstate \<Rightarrow> kstate option" where
  "OsSchedTaskWait lst ticks s = do {
     run \<leftarrow> runTask s;
     let s = or_status run OS_TASK_STATUS_PEND s;
     s \<leftarrow> k_ListTailInsert lst (NPend run) s;
     if ticks \<noteq> LOS_WAIT_FOREVER
     then Some (upd_tcb run (\<lambda>c. c\<lparr>waitTimes := ticks\<rparr>) (or_status run OS_TASK_STATUS_PEND_TIME s))
     else Some s
   }"

definition OsSchedTaskWake :: "nat \<Rightarrow> kstate \<Rightarrow> kstate option" where
  "OsSchedTaskWake t s = do {
     s \<leftarrow> k_ListDelete (NPend t) s;
     let s = clr_status t OS_TASK_STATUS_PEND s;
     s \<leftarrow> (if status s t AND OS_TASK_STATUS_PEND_TIME \<noteq> 0
          then do {
            s \<leftarrow> OsDeleteSortLink (NSort t) s;
            Some (clr_status t OS_TASK_STATUS_PEND_TIME s)
          }
          else Some s);
     if status s t AND OS_TASK_STATUS_SUSPEND = 0 \<and> status s t AND OS_TASK_STATUS_RUNNING = 0
     then OsSchedTaskEnQueue t s
     else Some s
   }"

definition OsSchedFreezeTask :: "nat \<Rightarrow> kstate \<Rightarrow> kstate option" where
  "OsSchedFreezeTask t s = do {
     let time = responseTime s (NSort t);
     s \<leftarrow> OsDeleteSortLink (NSort t) s;
     let s = set_response (NSort t) time s;
     Some (or_status t OS_TASK_FLAG_FREEZE s)
   }"

definition OsSchedUnfreezeTask :: "nat \<Rightarrow> kstate \<Rightarrow> kstate option" where
  "OsSchedUnfreezeTask t s = do {
     let s = clr_status t OS_TASK_FLAG_FREEZE s;
     (currTime, s) \<leftarrow> OsGetCurrSchedTimeCycle s;
     let time = responseTime s (NSort t);
     if time > currTime
     then do {
       d \<leftarrow> divisor (ucast (OS_CYCLE_PER_TICK (tk s)));
       let remainTick = (ucast ((time - currTime + d - 1) div d) :: u32);
       OsAdd2SortLink (NSort t) currTime remainTick OS_SORT_LINK_TASK s
     }
     else do {
       let s = set_response (NSort t) OS_SORT_LINK_INVALID_TIME s;
       s \<leftarrow> (if status s t AND OS_TASK_STATUS_PEND \<noteq> 0 then k_ListDelete (NPend t) s else Some s);
       Some (clr_status t (OS_TASK_STATUS_DELAY OR OS_TASK_STATUS_PEND_TIME OR OS_TASK_STATUS_PEND) s)
     }
   }"

definition OsSchedSuspend :: "nat \<Rightarrow> kstate \<Rightarrow> kstate option" where
  "OsSchedSuspend t s = do {
     s \<leftarrow> (if status s t AND OS_TASK_STATUS_READY \<noteq> 0 then OsSchedTaskDeQueue t s else Some s);
     s \<leftarrow> (if status s t AND (OS_TASK_STATUS_PEND_TIME OR OS_TASK_STATUS_DELAY) \<noteq> 0 \<and> pmMode s
          then OsSchedFreezeTask t s else Some s);
     Some (or_status t OS_TASK_STATUS_SUSPEND s)
   }"

definition OsSchedResume :: "nat \<Rightarrow> kstate \<Rightarrow> (bool \<times> kstate) option" where
  "OsSchedResume t s = do {
     s \<leftarrow> (if status s t AND OS_TASK_FLAG_FREEZE \<noteq> 0 then OsSchedUnfreezeTask t s else Some s);
     let s = clr_status t OS_TASK_STATUS_SUSPEND s;
     if status s t AND (OS_TASK_STATUS_DELAY OR OS_TASK_STATUS_PEND) = 0
     then do { s \<leftarrow> OsSchedTaskEnQueue t s; Some (True, s) }
     else Some (False, s)
   }"

definition OsSchedModifyTaskSchedParam :: "nat \<Rightarrow> u16 \<Rightarrow> kstate \<Rightarrow> (bool \<times> kstate) option" where
  "OsSchedModifyTaskSchedParam t prio s =
     (if status s t AND OS_TASK_STATUS_READY \<noteq> 0
      then do {
        s \<leftarrow> OsSchedTaskDeQueue t s;
        let s = upd_tcb t (\<lambda>c. c\<lparr>priority := prio\<rparr>) s;
        s \<leftarrow> OsSchedTaskEnQueue t s;
        Some (True, s)
      }
      else let s = upd_tcb t (\<lambda>c. c\<lparr>priority := prio\<rparr>) s
           in Some (status s t AND OS_TASK_STATUS_RUNNING \<noteq> 0, s))"

definition OsSchedSetIdleTaskSchedParam :: "nat \<Rightarrow> kstate \<Rightarrow> kstate option" where
  "OsSchedSetIdleTaskSchedParam idle s = OsSchedTaskEnQueue idle s"

definition OsTaskNextSwitchTimeGet :: "kstate \<Rightarrow> (u32 \<times> kstate) option" where
  "OsTaskNextSwitchTimeGet s = do {
     (ticks, s) \<leftarrow> OsSortLinkGetNextExpireTime NTaskSort s;
     Some (ucast ticks, s)
   }"

definition OsSchedGetNextExpireTime :: "u64 \<Rightarrow> kstate \<Rightarrow> u64 option" where
  "OsSchedGetNextExpireTime start s = OsGetNextExpireTime start (g_tickResponsePrecision s) s"

text \<open>The body of the loop of TaskSchedTimeConvertFreq, and the loop from \<open>loopNum\<close>.\<close>

definition task_convert_freq :: "u32 \<Rightarrow> nat \<Rightarrow> kstate \<Rightarrow> kstate option" where
  "task_convert_freq oldFreq t s =
     (if status s t AND OS_TASK_STATUS_UNUSED \<noteq> 0 then Some s
      else do {
        slice \<leftarrow> (if 0 <s timeSlice (tcb s t)
                 then map_option ucast
                        (OsTimeConvertFreq (scast (timeSlice (tcb s t))) oldFreq (g_sysClock (tk s)))
                 else Some 0);
        let s = upd_tcb t (\<lambda>c. c\<lparr>timeSlice := slice\<rparr>) s;
        if status s t AND OS_TASK_STATUS_RUNNING \<noteq> 0
        then do {
          start \<leftarrow> OsTimeConvertFreq (startTime (tcb s t)) oldFreq (g_sysClock (tk s));
          Some (upd_tcb t (\<lambda>c. c\<lparr>startTime := start\<rparr>) s)
        }
        else Some s
      })"

primrec convert_freq_tasks :: "u32 \<Rightarrow> nat list \<Rightarrow> kstate \<Rightarrow> kstate option" where
  "convert_freq_tasks oldFreq [] s = Some s"
| "convert_freq_tasks oldFreq (t # ts) s = do { s \<leftarrow> task_convert_freq oldFreq t s; convert_freq_tasks oldFreq ts s }"

definition TaskSchedTimeConvertFreq :: "u32 \<Rightarrow> kstate \<Rightarrow> kstate option" where
  "TaskSchedTimeConvertFreq oldFreq s = convert_freq_tasks oldFreq [0..<unat (g_taskMaxNum s)] s"

definition SchedTimeBaseInit :: "kstate \<Rightarrow> kstate" where
  "SchedTimeBaseInit s =
     (let clock = g_sysClock (tk s);
          minPeriod = clock div 1000
      in s\<lparr>g_schedResponseTime := OS_SCHED_MAX_RESPONSE_TIME,
           g_schedTickMinPeriod := minPeriod,
           g_tickResponsePrecision := minPeriod * 75 div 100,
           g_schedTimeSlice := ucast ((ucast clock * 20000 :: u64) div 1000000),
           g_schedTimeSliceMin := ucast ((ucast clock * 50 :: u64) div 1000000)\<rparr>)"

definition OsSchedTimeConvertFreq :: "u32 \<Rightarrow> kstate \<Rightarrow> kstate option" where
  "OsSchedTimeConvertFreq oldFreq s = do {
     let s = SchedTimeBaseInit s;
     s \<leftarrow> TaskSchedTimeConvertFreq oldFreq s;
     s \<leftarrow> OsSortLinkResponseTimeConvertFreq oldFreq s;
     OsSchedUpdateExpireTime s
   }"

definition OsSchedInit :: "kstate \<Rightarrow> u32 \<times> kstate" where
  "OsSchedInit s =
     (let s = foldl (\<lambda>s p. k_ListInit (NPri p) s) s [0..<OS_PRIORITY_QUEUE_NUM];
          s = s\<lparr>g_queueBitmap := 0\<rparr>
      in case OsGetSortLinkAttribute OS_SORT_LINK_TASK s of
           None \<Rightarrow> (LOS_NOK, s)
         | Some head \<Rightarrow> (LOS_OK, SchedTimeBaseInit (snd (OsSortLinkInit head s))))"

definition OsGetTopTask :: "kstate \<Rightarrow> nat option" where
  "OsGetTopTask s =
     (if g_queueBitmap s \<noteq> 0
      then do { n \<leftarrow> pstNext (dl s) (NPri (CLZ (g_queueBitmap s))); OS_TCB_FROM_PENDLIST n }
      else Some (OS_TCB_FROM_TID (g_idleTaskID s)))"

text \<open>OsSwtmrResponseTimeReset is the argument \<open>swtmrReset\<close>; it is called only with software timers.\<close>

definition OsSchedStart :: "(u64 \<Rightarrow> kstate \<Rightarrow> kstate option) \<Rightarrow> kstate \<Rightarrow> kstate option" where
  "OsSchedStart swtmrReset s = do {
     new \<leftarrow> OsGetTopTask s;
     let s = or_status new OS_TASK_STATUS_RUNNING s;
     let s = s\<lparr>newTask := Some new\<rparr>;
     let s = s\<lparr>runTask := newTask s\<rparr>;
     (now, s) \<leftarrow> OsGetCurrSchedTimeCycle s;
     let s = upd_tcb new (\<lambda>c. c\<lparr>startTime := now\<rparr>) s;
     s \<leftarrow> OsSchedTaskDeQueue new s;
     let s = s\<lparr>tk := OsTickSysTimerStartTimeSet (startTime (tcb s new)) (tk s)\<rparr>;
     s \<leftarrow> (if cfg_swtmr s then swtmrReset (startTime (tcb s new)) s else Some s);
     let s = s\<lparr>g_taskScheduled := True, g_schedResponseTime := OS_SCHED_MAX_RESPONSE_TIME,
               g_schedResponseID := OS_INVALID\<rparr>;
     OsSchedSetNextExpireTime (taskID (tcb s new))
       (startTime (tcb s new) + scast (timeSlice (tcb s new))) s
   }"

text \<open>
  OsTaskSwitchCheck reads the magic word at the top of the running task's
  stack and asserts that it is intact; the check of the new task's stack
  pointer only reports.
\<close>

definition OsTaskSwitchCheck :: "kstate \<Rightarrow> unit option" where
  "OsTaskSwitchCheck s = do {
     run \<leftarrow> runTask s;
     w \<leftarrow> stackMem s (topOfStack (tcb s run));
     los_assert (w = OS_TASK_MAGIC_WORD)
   }"

abbreviation (input) OS_TASK_BLOCKED_STATUS :: u16 where
  "OS_TASK_BLOCKED_STATUS \<equiv> OS_TASK_STATUS_PEND OR OS_TASK_STATUS_SUSPEND OR
     OS_TASK_STATUS_EXIT OR OS_TASK_STATUS_UNUSED"

definition sched_put_back :: "nat \<Rightarrow> kstate \<Rightarrow> kstate option" where
  "sched_put_back run s =
     (if status s run AND (OS_TASK_STATUS_PEND_TIME OR OS_TASK_STATUS_DELAY) \<noteq> 0
      then OsAdd2SortLink (NSort run) (startTime (tcb s run)) (waitTimes (tcb s run)) OS_SORT_LINK_TASK s
      else if status s run AND OS_TASK_BLOCKED_STATUS = 0
      then OsSchedTaskEnQueue run s
      else Some s)"

definition sched_mark_switch :: "nat \<Rightarrow> nat \<Rightarrow> kstate \<Rightarrow> kstate option" where
  "sched_mark_switch run new s =
     (if run \<noteq> new
      then do {
        OsTaskSwitchCheck s;
        let s = clr_status run OS_TASK_STATUS_RUNNING s;
        let s = or_status new OS_TASK_STATUS_RUNNING s;
        Some (upd_tcb new (\<lambda>c. c\<lparr>startTime := startTime (tcb s run)\<rparr>) s)
      }
      else Some s)"

definition OsSchedTaskSwitch :: "kstate \<Rightarrow> (bool \<times> kstate) option" where
  "OsSchedTaskSwitch s = do {
     run \<leftarrow> runTask s;
     (now, s) \<leftarrow> OsGetCurrSchedTimeCycle s;
     s \<leftarrow> OsTimeSliceUpdate run now s;
     s \<leftarrow> sched_put_back run s;
     new \<leftarrow> OsGetTopTask s;
     let s = s\<lparr>newTask := Some new\<rparr>;
     s \<leftarrow> sched_mark_switch run new s;
     s \<leftarrow> OsSchedTaskDeQueue new s;
     let endTime = (if taskID (tcb s new) \<noteq> g_idleTaskID s
                    then startTime (tcb s new) + scast (timeSlice (tcb s new))
                    else OS_SCHED_MAX_RESPONSE_TIME - ucast (g_tickResponsePrecision s));
     let s = (if g_schedResponseID s = taskID (tcb s run)
              then s\<lparr>g_schedResponseTime := OS_SCHED_MAX_RESPONSE_TIME\<rparr> else s);
     s \<leftarrow> OsSchedSetNextExpireTime (taskID (tcb s new)) endTime s;
     Some (run \<noteq> new, s)
   }"

text \<open>ArchTaskSchedule; the hand-over between the host threads is not part of the state.\<close>

definition ArchTaskSchedule :: "kstate \<Rightarrow> kstate option" where
  "ArchTaskSchedule s = do {
     (isSwitch, s) \<leftarrow> OsSchedTaskSwitch s;
     Some (if isSwitch then s\<lparr>runTask := newTask s\<rparr> else s)
   }"

definition LOS_SchedTickTimeoutNsGet :: "kstate \<Rightarrow> (u64 \<times> kstate) option" where
  "LOS_SchedTickTimeoutNsGet s = do {
     let time = g_schedResponseTime s;
     (currTime, s) \<leftarrow> OsGetCurrSchedTimeCycle s;
     ns \<leftarrow> OS_SYS_CYCLE_TO_NS (if time > currTime then time - currTime else 0) (g_sysClock (tk s));
     Some (ns, s)
   }"

text \<open>The function registered by OsSchedSwtmrScanRegister is the argument \<open>g_swtmrScan\<close>.\<close>

definition LOS_SchedTickHandler ::
    "(kstate \<Rightarrow> (bool \<times> kstate) option) option \<Rightarrow> kstate \<Rightarrow> kstate option" where
  "LOS_SchedTickHandler g_swtmrScan s =
     (if \<not> g_taskScheduled s then Some s
      else do {
        (tickStartTime, s) \<leftarrow> OsGetCurrSchedTimeCycle s;
        s \<leftarrow> (if g_schedResponseID s = OS_INVALID
             then do {
               let s = s\<lparr>g_tickIntLock := g_tickIntLock s + 1\<rparr>;
               s \<leftarrow> (case g_swtmrScan of None \<Rightarrow> Some s | Some scan \<Rightarrow> map_option snd (scan s));
               (_, s) \<leftarrow> OsSchedScanTimerList s;
               Some (s\<lparr>g_tickIntLock := g_tickIntLock s - 1\<rparr>)
             }
             else Some s);
        run \<leftarrow> runTask s;
        s \<leftarrow> OsTimeSliceUpdate run tickStartTime s;
        (now, s) \<leftarrow> OsGetCurrSchedTimeCycle s;
        let s = upd_tcb run (\<lambda>c. c\<lparr>startTime := now\<rparr>) s;
        let s = s\<lparr>g_schedResponseTime := OS_SCHED_MAX_RESPONSE_TIME\<rparr>;
        if g_losTaskLock s = 0 then ArchTaskSchedule s else OsSchedUpdateExpireTime s
      })"

definition LOS_Schedule :: "kstate \<Rightarrow> kstate option" where
  "LOS_Schedule s =
     (if g_taskScheduled s \<and> g_losTaskLock s = 0 then ArchTaskSchedule s else Some s)"

definition OsTickHandler ::
    "(kstate \<Rightarrow> (bool \<times> kstate) option) option \<Rightarrow> kstate \<Rightarrow> kstate option" where
  "OsTickHandler g_swtmrScan s = LOS_SchedTickHandler g_swtmrScan (s\<lparr>tk := OsUpdateSysTimeBase (tk s)\<rparr>)"

text \<open>
  LOS_SysTickClockFreqAdjust; \<open>freq\<close> is what the caller's frequency handler
  returns, \<open>None\<close> a NULL handler.
\<close>

definition LOS_SysTickClockFreqAdjust :: "u32 option \<Rightarrow> kstate \<Rightarrow> (u32 \<times> kstate) option" where
  "LOS_SysTickClockFreqAdjust freqHandler s = (case freqHandler of
     None \<Rightarrow> Some (LOS_ERRNO_SYS_HOOK_IS_NULL, s)
   | Some freq \<Rightarrow> do {
       let oldFreq = g_sysClock (tk s);
       (currTimeCycle, k) \<leftarrow> LOS_SysCycleGet (tk s);
       if freq = 0 \<or> freq = g_sysClock k then Some (LOS_ERRNO_SYS_CLOCK_INVALID, s\<lparr>tk := k\<rparr>)
       else do {
         let k = snd (SysTickReload LOSCFG_BASE_CORE_TICK_RESPONSE_MAX k);
         base \<leftarrow> OsTimeConvertFreq currTimeCycle oldFreq freq;
         old \<leftarrow> OsTimeConvertFreq (g_oldTickTimerBase k) oldFreq freq;
         start \<leftarrow> OsTimeConvertFreq (g_tickTimerStartTime k) oldFreq freq;
         let k = k\<lparr>g_tickTimerBase := base, g_oldTickTimerBase := old, g_tickTimerStartTime := start,
                   timer_freq := freq, g_sysClock := freq, g_cyclesPerTick := freq div 100\<rparr>;
         s \<leftarrow> OsSchedTimeConvertFreq oldFreq (s\<lparr>tk := k\<rparr>);
         Some (LOS_OK, s)
       }
     })"

end
