(* ===== verification/LosSchedInv.thy ===== *)
theory LosSchedInv
  imports LosSched
begin

text \<open>
  The invariant of the scheduler and what each of its operations does to it.

  \<open>L\<close> names the contents of every list of the kernel.  \<open>glob_ok\<close> says that the
  pointers represent \<open>L\<close>, that every list holds the kind of nodes it is for,
  that the bitmap has a bit exactly for the non-empty ready queues and that the
  timeout list is sorted.  \<open>task_ok\<close> relates the status word of one task to the
  lists its nodes are in.  \<open>sched_inv\<close> is both, for all tasks; \<open>but t\<close> is the
  invariant while one task \<open>t\<close> is being moved, with no promise about \<open>t\<close>.
\<close>

abbreviation (input) is_unused :: "u16 \<Rightarrow> bool" where "is_unused st \<equiv> bit st 0"
abbreviation (input) is_suspend :: "u16 \<Rightarrow> bool" where "is_suspend st \<equiv> bit st 1"
abbreviation (input) is_ready :: "u16 \<Rightarrow> bool" where "is_ready st \<equiv> bit st 2"
abbreviation (input) is_pend :: "u16 \<Rightarrow> bool" where "is_pend st \<equiv> bit st 3"
abbreviation (input) is_running :: "u16 \<Rightarrow> bool" where "is_running st \<equiv> bit st 4"
abbreviation (input) is_delay :: "u16 \<Rightarrow> bool" where "is_delay st \<equiv> bit st 5"
abbreviation (input) is_timeout :: "u16 \<Rightarrow> bool" where "is_timeout st \<equiv> bit st 6"
abbreviation (input) is_pend_time :: "u16 \<Rightarrow> bool" where "is_pend_time st \<equiv> bit st 7"
abbreviation (input) is_exit :: "u16 \<Rightarrow> bool" where "is_exit st \<equiv> bit st 8"
abbreviation (input) is_freeze :: "u16 \<Rightarrow> bool" where "is_freeze st \<equiv> bit st 14"

definition mem :: "(node \<Rightarrow> node list option) \<Rightarrow> node \<Rightarrow> node \<Rightarrow> bool" where
  "mem L q n \<longleftrightarrow> (\<exists>xs. L q = Some xs \<and> n \<in> set xs)"

fun wait_head :: "node \<Rightarrow> bool" where
  "wait_head (NJoin _) = True"
| "wait_head (NEvent _) = True"
| "wait_head (NSem _) = True"
| "wait_head (NMux _) = True"
| "wait_head (NQRead _) = True"
| "wait_head (NQWrite _) = True"
| "wait_head (NQMem _) = True"
| "wait_head _ = False"

fun is_pri :: "node \<Rightarrow> bool" where
  "is_pri (NPri _) = True"
| "is_pri _ = False"

text \<open>Which kind of node a list holds.\<close>

fun holds :: "node \<Rightarrow> node \<Rightarrow> bool" where
  "holds q (NPend t) = (wait_head q \<or> is_pri q \<or> q = NFreeTask \<or> q = NRecycle)"
| "holds q (NSort t) = (q = NTaskSort)"
| "holds q (NSwtmr i) = (q = NSwtmrSort)"
| "holds q (NSem i) = (q = NUnusedSem)"
| "holds q (NMux i) = (q = NUnusedMux)"
| "holds q (NQWrite i) = (q = NFreeQueue)"
| "holds q _ = False"

definition glob_ok :: "kstate \<Rightarrow> (node \<Rightarrow> node list option) \<Rightarrow> bool" where
  "glob_ok s L \<longleftrightarrow>
     dl_rep (dl s) L \<and>
     (\<forall>q n. mem L q n \<longrightarrow> holds q n) \<and>
     (\<forall>t. L (NPend t) = None \<and> L (NSort t) = None \<and> L (NSwtmr t) = None) \<and>
     (\<forall>p. (L (NPri p) \<noteq> None) = (p < 32)) \<and>
     (\<forall>p<32. bit (g_queueBitmap s) (31 - p) \<longleftrightarrow> L (NPri p) \<noteq> Some []) \<and>
     L NTaskSort \<noteq> None \<and> sorted (map (responseTime s) (the (L NTaskSort))) \<and>
     L NFreeTask \<noteq> None \<and> L NRecycle \<noteq> None \<and>
     (cfg_swtmr s \<longrightarrow> L NSwtmrSort \<noteq> None)"

definition ready :: "kstate \<Rightarrow> nat \<Rightarrow> bool" where
  "ready s t \<longleftrightarrow> is_ready (status s t) \<and> taskID (tcb s t) \<noteq> g_idleTaskID s"

definition delayed :: "kstate \<Rightarrow> nat \<Rightarrow> bool" where
  "delayed s t \<longleftrightarrow> (is_delay (status s t) \<or> is_pend_time (status s t)) \<and> \<not> is_running (status s t)"

text \<open>Which flags exclude each other.\<close>

definition flags_ok :: "u16 \<Rightarrow> bool" where
  "flags_ok st \<longleftrightarrow>
     (is_pend_time st \<longrightarrow> is_pend st) \<and>
     (is_pend st \<longrightarrow> \<not> is_delay st) \<and>
     (is_ready st \<longrightarrow> \<not> is_pend st \<and> \<not> is_delay st \<and> \<not> is_running st \<and> \<not> is_suspend st \<and>
                    \<not> is_unused st \<and> \<not> is_exit st) \<and>
     (is_unused st \<or> is_exit st \<longrightarrow> \<not> is_pend st \<and> \<not> is_delay st) \<and>
     \<not> is_freeze st"

text \<open>What being in the list \<open>q\<close> means for the status of a task.\<close>

definition loc_ok :: "kstate \<Rightarrow> nat \<Rightarrow> node \<Rightarrow> bool" where
  "loc_ok s t q \<longleftrightarrow>
     (\<forall>p. q = NPri p \<longrightarrow> ready s t \<and> unat (priority (tcb s t)) = p) \<and>
     (q = NFreeTask \<or> q = NRecycle \<longrightarrow> is_unused (status s t)) \<and>
     (wait_head q \<longrightarrow> is_pend (status s t))"

definition task_ok :: "kstate \<Rightarrow> (node \<Rightarrow> node list option) \<Rightarrow> nat \<Rightarrow> bool" where
  "task_ok s L t \<longleftrightarrow>
     flags_ok (status s t) \<and>
     (\<forall>q. mem L q (NPend t) \<longrightarrow> loc_ok s t q) \<and>
     (ready s t \<longrightarrow> mem L (NPri (unat (priority (tcb s t)))) (NPend t)) \<and>
     (is_pend (status s t) \<longrightarrow> (\<exists>q. wait_head q \<and> mem L q (NPend t))) \<and>
     (mem L NTaskSort (NSort t) \<longleftrightarrow> delayed s t) \<and>
     (\<not> is_unused (status s t) \<longrightarrow>
        (responseTime s (NSort t) \<noteq> OS_SORT_LINK_INVALID_TIME \<longleftrightarrow> delayed s t)) \<and>
     (is_running (status s t) \<and> \<not> is_unused (status s t) \<longrightarrow> runTask s = Some t) \<and>
     (\<not> is_unused (status s t) \<longrightarrow> unat (priority (tcb s t)) < 32) \<and>
     (taskID (tcb s t) = g_idleTaskID s \<longrightarrow>
        t = OS_TCB_FROM_TID (g_idleTaskID s) \<and>
        \<not> is_pend (status s t) \<and> \<not> is_delay (status s t) \<and> \<not> is_unused (status s t) \<and>
        \<not> is_suspend (status s t) \<and> \<not> is_exit (status s t))"

definition but :: "nat \<Rightarrow> kstate \<Rightarrow> (node \<Rightarrow> node list option) \<Rightarrow> bool" where
  "but t s L \<longleftrightarrow> glob_ok s L \<and> (\<forall>u. u \<noteq> t \<longrightarrow> task_ok s L u)"

definition run_ok :: "kstate \<Rightarrow> bool" where
  "run_ok s \<longleftrightarrow> (\<exists>r. runTask s = Some r \<and> is_running (status s r))"

definition sched_inv :: "kstate \<Rightarrow> (node \<Rightarrow> node list option) \<Rightarrow> bool" where
  "sched_inv s L \<longleftrightarrow> glob_ok s L \<and> (\<forall>t. task_ok s L t) \<and> run_ok s"

subsection \<open>Basic consequences\<close>

lemma mem_upd [simp]: "mem (L(q \<mapsto> zs)) q' n \<longleftrightarrow> (if q' = q then n \<in> set zs else mem L q' n)"
  by (simp add: mem_def)

lemma mem_covered: "mem L q n \<Longrightarrow> n \<in> covered L"
  unfolding mem_def covered_def by auto

lemma not_covered_elem:
  "\<lbrakk> glob_ok s L; \<forall>q. \<not> mem L q n; (\<exists>t. n = NPend t) \<or> (\<exists>t. n = NSort t) \<rbrakk> \<Longrightarrow> n \<notin> covered L"
  unfolding glob_ok_def covered_def mem_def by auto

lemma glob_ok_rep: "glob_ok s L \<Longrightarrow> dl_rep (dl s) L"
  by (simp add: glob_ok_def)

lemma glob_ok_holds: "glob_ok s L \<Longrightarrow> mem L q n \<Longrightarrow> holds q n"
  by (simp add: glob_ok_def)

lemma holds_NPend_cases:
  assumes "glob_ok s L" "mem L q (NPend t)"
  obtains "wait_head q" | p where "q = NPri p" | "q = NFreeTask" | "q = NRecycle"
  using glob_ok_holds [OF assms] by (cases q) auto

lemma mem_unique:
  assumes "glob_ok s L" "mem L q n" "mem L q' n"
  shows "q = q'"
  using dl_rep_unique [OF glob_ok_rep [OF assms(1)]] assms(2,3) unfolding mem_def by blast

lemma glob_ok_upd:
  assumes g: "glob_ok s L" and R: "dl_rep (dl s') (L(q \<mapsto> zs))" and q: "L q \<noteq> None"
    and h: "\<And>n. n \<in> set zs \<Longrightarrow> holds q n"
    and bm: "\<And>p. p < 32 \<Longrightarrow> bit (g_queueBitmap s') (31 - p) =
               (if q = NPri p then zs \<noteq> [] else bit (g_queueBitmap s) (31 - p))"
    and st: "q = NTaskSort \<Longrightarrow> sorted (map (responseTime s') zs)"
    and rt: "\<And>n. q \<noteq> NTaskSort \<Longrightarrow> mem L NTaskSort n \<Longrightarrow> responseTime s' n = responseTime s n"
    and cf: "cfg_swtmr s' = cfg_swtmr s"
  shows "glob_ok s' (L(q \<mapsto> zs))"
  unfolding glob_ok_def
proof (intro conjI allI impI)
  show "dl_rep (dl s') (L(q \<mapsto> zs))" by (rule R)
  show "holds q' n" if "mem (L(q \<mapsto> zs)) q' n" for q' n
    using that h g by (auto simp: glob_ok_def split: if_splits)
  show "(L(q \<mapsto> zs)) (NPend t) = None" "(L(q \<mapsto> zs)) (NSort t) = None" "(L(q \<mapsto> zs)) (NSwtmr t) = None" for t
    using g q by (auto simp: glob_ok_def)
  show "((L(q \<mapsto> zs)) (NPri p) \<noteq> None) = (p < 32)" for p
    using g q by (auto simp: glob_ok_def)
  show "bit (g_queueBitmap s') (31 - p) = ((L(q \<mapsto> zs)) (NPri p) \<noteq> Some [])" if "p < 32" for p
    using bm [OF that] g that by (auto simp: glob_ok_def)
  show "(L(q \<mapsto> zs)) NTaskSort \<noteq> None" "(L(q \<mapsto> zs)) NFreeTask \<noteq> None" "(L(q \<mapsto> zs)) NRecycle \<noteq> None"
    using g by (auto simp: glob_ok_def)
  show "(L(q \<mapsto> zs)) NSwtmrSort \<noteq> None" if "cfg_swtmr s'"
    using g that cf by (auto simp: glob_ok_def)
  show "sorted (map (responseTime s') (the ((L(q \<mapsto> zs)) NTaskSort)))"
  proof (cases "q = NTaskSort")
    case True
    with st show ?thesis by simp
  next
    case False
    obtain xs where xs: "L NTaskSort = Some xs" using g by (auto simp: glob_ok_def)
    have "sorted (map (responseTime s) xs)" using g xs by (simp add: glob_ok_def)
    then have "sorted (map (responseTime s') xs)"
      by (rule sorted_map_cong) (use rt [OF False] xs in \<open>simp add: mem_def\<close>)
    with False xs show ?thesis by simp
  qed
qed

lemma glob_ok_cong:
  assumes "glob_ok s L" "dl s' = dl s" "g_queueBitmap s' = g_queueBitmap s" "cfg_swtmr s' = cfg_swtmr s"
    "\<And>n. mem L NTaskSort n \<Longrightarrow> responseTime s' n = responseTime s n"
  shows "glob_ok s' L"
proof -
  obtain xs where xs: "L NTaskSort = Some xs" using assms(1) by (auto simp: glob_ok_def)
  have "sorted (map (responseTime s) xs)" using assms(1) xs by (simp add: glob_ok_def)
  then have "sorted (map (responseTime s') xs)"
    by (rule sorted_map_cong) (use assms(5) xs in \<open>simp add: mem_def\<close>)
  with assms(1-4) xs show ?thesis by (simp add: glob_ok_def)
qed

lemma task_ok_cong:
  assumes "tcb s' u = tcb s u" "responseTime s' (NSort u) = responseTime s (NSort u)"
    "runTask s' = runTask s" "g_idleTaskID s' = g_idleTaskID s"
    "\<And>q. mem L' q (NPend u) = mem L q (NPend u)"
    "mem L' NTaskSort (NSort u) = mem L NTaskSort (NSort u)"
  shows "task_ok s' L' u = task_ok s L u"
  unfolding task_ok_def loc_ok_def ready_def delayed_def using assms by simp

text \<open>The two membership conditions of \<open>task_ok_cong\<close> when only nodes of task \<open>t\<close> move.\<close>

definition same_but :: "nat \<Rightarrow> (node \<Rightarrow> node list option) \<Rightarrow> (node \<Rightarrow> node list option) \<Rightarrow> bool" where
  "same_but t L L' \<longleftrightarrow> (\<forall>q n. n \<noteq> NPend t \<and> n \<noteq> NSort t \<longrightarrow> mem L' q n = mem L q n)"

lemma but_change:
  assumes "but t s L" "glob_ok s' L'" "same_but t L L'"
    "\<And>u. u \<noteq> t \<Longrightarrow> tcb s' u = tcb s u"
    "\<And>u. u \<noteq> t \<Longrightarrow> responseTime s' (NSort u) = responseTime s (NSort u)"
    "runTask s' = runTask s" "g_idleTaskID s' = g_idleTaskID s"
  shows "but t s' L'"
  using assms task_ok_cong [of s' _ s L' L] unfolding but_def same_but_def by auto

lemma but_upd:
  assumes "but t s L" "dl s' = dl s" "g_queueBitmap s' = g_queueBitmap s" "cfg_swtmr s' = cfg_swtmr s"
    "\<And>u. u \<noteq> t \<Longrightarrow> tcb s' u = tcb s u" "responseTime s' = responseTime s"
    "runTask s' = runTask s" "g_idleTaskID s' = g_idleTaskID s"
  shows "but t s' L"
  by (rule but_change [OF assms(1)])
     (use assms glob_ok_cong [of s L s'] in \<open>auto simp: same_but_def but_def\<close>)

lemma but_upd_tcb [simp]:
  "but t s L \<Longrightarrow> but t (upd_tcb t f s) L"
  "but t s L \<Longrightarrow> but t (or_status t m s) L"
  "but t s L \<Longrightarrow> but t (clr_status t m s) L"
  by (rule but_upd; simp add: los_defs)+

lemma sched_inv_but: "sched_inv s L \<Longrightarrow> but t s L"
  by (simp add: sched_inv_def but_def)

lemma but_close: "but t s L \<Longrightarrow> task_ok s L t \<Longrightarrow> run_ok s \<Longrightarrow> sched_inv s L"
  unfolding sched_inv_def but_def by metis

text \<open>The lists without some nodes.\<close>

definition strips :: "node set \<Rightarrow> (node \<Rightarrow> node list option) \<Rightarrow> node \<Rightarrow> node list option" where
  "strips N L q = map_option (filter (\<lambda>m. m \<notin> N)) (L q)"

lemma mem_strips: "mem (strips N L) q m \<longleftrightarrow> mem L q m \<and> m \<notin> N"
  by (auto simp: mem_def strips_def)

lemma strips_strips: "strips A (strips B L) = strips (A \<union> B) L"
proof
  fix q show "strips A (strips B L) q = strips (A \<union> B) L q"
    by (cases "L q") (auto simp: strips_def intro!: filter_cong)
qed

lemma strips_eq: "(\<And>n. mem L q n \<Longrightarrow> n \<notin> N) \<Longrightarrow> strips N L q = L q"
  by (cases "L q") (auto simp: strips_def mem_def)

lemma strips_Some: "L q = Some xs \<Longrightarrow> strips N L q = Some (filter (\<lambda>m. m \<notin> N) xs)"
  by (simp add: strips_def)

lemma remove_strips:
  assumes "glob_ok s L" "mem L q n"
  shows "L(q \<mapsto> remove1 n (the (L q))) = strips {n} L"
proof
  fix q'
  obtain xs where xs: "L q = Some xs" using assms(2) by (auto simp: mem_def)
  have "distinct xs" using dl_rep_distinct [OF glob_ok_rep [OF assms(1)] xs] by simp
  then have "remove1 n xs = filter (\<lambda>m. m \<notin> {n}) xs" by (auto simp: distinct_remove1_removeAll removeAll_filter_not_eq intro!: filter_cong)
  then show "(L(q \<mapsto> remove1 n (the (L q)))) q' = strips {n} L q'"
    using mem_unique [OF assms, of q'] xs by (auto simp: strips_Some intro!: strips_eq [symmetric])
qed

subsection \<open>Moving the nodes of one task\<close>

lemma glob_ok_pri: "glob_ok s L \<Longrightarrow> p < 32 \<Longrightarrow> \<exists>xs. L (NPri p) = Some xs"
  unfolding glob_ok_def by (metis option.exhaust)

lemma glob_ok_bit: "glob_ok s L \<Longrightarrow> p < 32 \<Longrightarrow> bit (g_queueBitmap s) (31 - p) \<longleftrightarrow> L (NPri p) \<noteq> Some []"
  by (simp add: glob_ok_def)

lemma mem_remove1:
  assumes "glob_ok s L" "L q = Some xs"
  shows "mem (L(q \<mapsto> remove1 n xs)) q' m \<longleftrightarrow> mem L q' m \<and> \<not> (q' = q \<and> m = n)"
proof -
  have "distinct xs" using dl_rep_distinct [OF glob_ok_rep [OF assms(1)] assms(2)] by simp
  with assms(2) show ?thesis by (auto simp: mem_def)
qed

lemma glob_delete:
  assumes g: "glob_ok s L" and m: "mem L q n" and np: "\<not> is_pri q"
  obtains h' L' where "k_ListDelete n s = Some (s\<lparr>dl := h'\<rparr>)" "glob_ok (s\<lparr>dl := h'\<rparr>) L'"
    "L' = L(q \<mapsto> remove1 n (the (L q)))"
    "\<And>q' m. mem L' q' m \<longleftrightarrow> mem L q' m \<and> m \<noteq> n"
proof -
  obtain xs where xs: "L q = Some xs" "n \<in> set xs" using m by (auto simp: mem_def)
  obtain h' where h: "LOS_ListDelete n (dl s) = Some h'" "dl_rep h' (L(q \<mapsto> remove1 n xs))"
    using list_delete [OF glob_ok_rep [OF g] xs] by blast
  have A: "glob_ok (s\<lparr>dl := h'\<rparr>) (L(q \<mapsto> remove1 n xs))"
  proof (rule glob_ok_upd [OF g])
    show "holds q k" if "k \<in> set (remove1 n xs)" for k
      using that xs glob_ok_holds [OF g, of q k] notin_set_remove1 unfolding mem_def by fastforce
    show "sorted (map (responseTime (s\<lparr>dl := h'\<rparr>)) (remove1 n xs))" if "q = NTaskSort"
      using that g xs by (simp add: glob_ok_def sorted_remove1 sorted_map_remove1)
  qed (use h xs np in auto)
  have B: "mem (L(q \<mapsto> remove1 n xs)) q' k \<longleftrightarrow> mem L q' k \<and> k \<noteq> n" for q' k
    using mem_remove1 [OF g xs(1)] mem_unique [OF g m, of q'] by metis
  show thesis
    by (rule that [OF k_List_eq(3) [OF h(1)] A _ B]) (simp add: xs(1))
qed

lemma but_delete_pend:
  assumes b: "but t s L" and m: "mem L q (NPend t)" and np: "\<not> is_pri q"
  obtains h' L' where "k_ListDelete (NPend t) s = Some (s\<lparr>dl := h'\<rparr>)" "but t (s\<lparr>dl := h'\<rparr>) L'"
    "L' = L(q \<mapsto> remove1 (NPend t) (the (L q)))"
    "\<And>q' m. mem L' q' m \<longleftrightarrow> mem L q' m \<and> m \<noteq> NPend t"
proof -
  have g: "glob_ok s L" using b by (simp add: but_def)
  obtain h' L' where h: "k_ListDelete (NPend t) s = Some (s\<lparr>dl := h'\<rparr>)" "glob_ok (s\<lparr>dl := h'\<rparr>) L'"
    "L' = L(q \<mapsto> remove1 (NPend t) (the (L q)))"
    and m': "\<And>q' m. mem L' q' m \<longleftrightarrow> mem L q' m \<and> m \<noteq> NPend t"
    using glob_delete [OF g m np] by blast
  have "but t (s\<lparr>dl := h'\<rparr>) L'"
    by (rule but_change [OF b h(2)]) (simp_all add: same_but_def m')
  with h m' that show thesis by blast
qed

lemma but_delete_sort:
  assumes b: "but t s L" and m: "mem L NTaskSort (NSort t)"
  obtains s' h' L' where "OsDeleteNodeSortLink (NSort t) s = Some s'"
    "s' = s\<lparr>dl := h', responseTime := (responseTime s)(NSort t := OS_SORT_LINK_INVALID_TIME)\<rparr>"
    "but t s' L'" "L' = L(NTaskSort \<mapsto> remove1 (NSort t) (the (L NTaskSort)))"
    "\<And>q' m. mem L' q' m \<longleftrightarrow> mem L q' m \<and> m \<noteq> NSort t"
proof -
  have g: "glob_ok s L" using b by (simp add: but_def)
  obtain h' L' where h: "k_ListDelete (NSort t) s = Some (s\<lparr>dl := h'\<rparr>)" "glob_ok (s\<lparr>dl := h'\<rparr>) L'"
    "L' = L(NTaskSort \<mapsto> remove1 (NSort t) (the (L NTaskSort)))"
    and m': "\<And>q' m. mem L' q' m \<longleftrightarrow> mem L q' m \<and> m \<noteq> NSort t"
    using glob_delete [OF g m] by auto
  let ?s' = "s\<lparr>dl := h', responseTime := (responseTime s)(NSort t := OS_SORT_LINK_INVALID_TIME)\<rparr>"
  have g': "glob_ok ?s' L'"
    by (rule glob_ok_cong [OF h(2)]) (auto simp: m')
  have "but t ?s' L'"
    by (rule but_change [OF b g']) (simp_all add: same_but_def m')
  moreover have "OsDeleteNodeSortLink (NSort t) s = Some ?s'"
    using h(1) by (simp add: OsDeleteNodeSortLink_def set_response_def)
  ultimately show thesis using h m' that by blast
qed

lemma prior_bit_simps:
  assumes "p < 32" "p' < 32"
  shows "bit (b OR drop_bit p (0x80000000 :: u32)) (31 - p') \<longleftrightarrow> bit b (31 - p') \<or> p' = p"
    "bit (b AND NOT (drop_bit p (0x80000000 :: u32))) (31 - p') \<longleftrightarrow> bit b (31 - p') \<and> p' \<noteq> p"
proof -
  have "31 - p' = 31 - p \<longleftrightarrow> p' = p" "31 - p' < 32" using assms by auto
  then show "bit (b OR drop_bit p (0x80000000 :: u32)) (31 - p') \<longleftrightarrow> bit b (31 - p') \<or> p' = p"
    "bit (b AND NOT (drop_bit p (0x80000000 :: u32))) (31 - p') \<longleftrightarrow> bit b (31 - p') \<and> p' \<noteq> p"
    by (simp_all only: bit_or_iff bit_and_iff bit_not_iff bit_prior_mask [OF assms(1)] possible_bit_word) auto
qed

lemma but_pri_delete:
  assumes b: "but t s L" and m: "mem L (NPri p) (NPend t)"
  obtains s' h' bm L' where "OsSchedPriQueueDelete (NPend t) p s = Some s'"
    "s' = s\<lparr>dl := h', g_queueBitmap := bm\<rparr>" "but t s' L'"
    "L' = L(NPri p \<mapsto> remove1 (NPend t) (the (L (NPri p))))"
    "\<And>q' m. mem L' q' m \<longleftrightarrow> mem L q' m \<and> m \<noteq> NPend t"
proof -
  have g: "glob_ok s L" using b by (simp add: but_def)
  obtain xs where xs: "L (NPri p) = Some xs" "NPend t \<in> set xs" using m by (auto simp: mem_def)
  have p: "p < 32" using g xs(1) by (auto simp: glob_ok_def)
  let ?L = "L(NPri p \<mapsto> remove1 (NPend t) xs)"
  obtain h' where h: "LOS_ListDelete (NPend t) (dl s) = Some h'" "dl_rep h' ?L"
    using list_delete [OF glob_ok_rep [OF g] xs] by blast
  define bm where "bm = (if remove1 (NPend t) xs = []
      then g_queueBitmap s AND NOT (drop_bit p 0x80000000) else g_queueBitmap s)"
  let ?s = "s\<lparr>dl := h', g_queueBitmap := bm\<rparr>"
  have e: "LOS_ListEmpty (NPri p) h' \<longleftrightarrow> remove1 (NPend t) xs = []"
    using list_empty [OF h(2), of "NPri p"] by simp
  have op: "OsSchedPriQueueDelete (NPend t) p s = Some ?s"
    using k_List_eq(3) [OF h(1)] e by (simp add: OsSchedPriQueueDelete_def clr_queue_bit_def bm_def)
  have ne: "bit (g_queueBitmap s) (31 - p)" using glob_ok_bit [OF g p] xs by auto
  have g': "glob_ok ?s ?L"
  proof (rule glob_ok_upd [OF g])
    show "holds (NPri p) k" if "k \<in> set (remove1 (NPend t) xs)" for k
      using that xs glob_ok_holds [OF g, of "NPri p" k] notin_set_remove1 unfolding mem_def by fastforce
    show "bit (g_queueBitmap ?s) (31 - p') =
        (if NPri p = NPri p' then remove1 (NPend t) xs \<noteq> [] else bit (g_queueBitmap s) (31 - p'))"
      if "p' < 32" for p'
      using ne prior_bit_simps(2) [OF p that] by (auto simp: bm_def)
  qed (use h xs in auto)
  have m': "mem ?L q' k \<longleftrightarrow> mem L q' k \<and> k \<noteq> NPend t" for q' k
    using mem_remove1 [OF g xs(1)] mem_unique [OF g m, of q'] by metis
  have "but t ?s ?L"
    by (rule but_change [OF b g']) (simp_all add: same_but_def m' del: mem_upd)
  then show thesis using that [OF op refl] m' xs(1) by simp
qed

lemma but_pri_insert:
  assumes b: "but t s L" and n: "\<forall>q. \<not> mem L q (NPend t)" and p: "p < 32"
    and zs: "zs = NPend t # the (L (NPri p)) \<and> op = OsSchedPriQueueEnHead \<or>
             zs = the (L (NPri p)) @ [NPend t] \<and> op = OsSchedPriQueueEnTail"
  obtains s' h' bm L' where "op (NPend t) p s = Some s'"
    "s' = s\<lparr>dl := h', g_queueBitmap := bm\<rparr>" "but t s' L'" "L' = L(NPri p \<mapsto> zs)"
    "\<And>q' m. mem L' q' m \<longleftrightarrow> mem L q' m \<or> (q' = NPri p \<and> m = NPend t)"
proof -
  have g: "glob_ok s L" using b by (simp add: but_def)
  have nc: "NPend t \<notin> covered L" by (rule not_covered_elem [OF g n]) blast
  obtain xs where xs: "L (NPri p) = Some xs" using glob_ok_pri [OF g p] by blast
  have e: "k_ListEmpty (NPri p) s \<longleftrightarrow> xs = []" using list_empty [OF glob_ok_rep [OF g] xs] .
  define bm where "bm = (if xs = [] then g_queueBitmap s OR drop_bit p 0x80000000 else g_queueBitmap s)"
  have bit: "bit bm (31 - p') \<longleftrightarrow> bit (g_queueBitmap s) (31 - p') \<or> p' = p" if "p' < 32" for p'
    using glob_ok_bit [OF g p] xs prior_bit_simps(1) [OF p that] by (auto simp: bm_def)
  obtain h' where h: "op (NPend t) p s = Some (s\<lparr>dl := h', g_queueBitmap := bm\<rparr>)" "dl_rep h' (L(NPri p \<mapsto> zs))"
    using zs
  proof
    assume a: "zs = NPend t # the (L (NPri p)) \<and> op = OsSchedPriQueueEnHead"
    obtain h' where "LOS_ListAdd (NPri p) (NPend t) (dl s) = Some h'" "dl_rep h' (L(NPri p \<mapsto> NPend t # xs))"
      using list_head_insert [OF glob_ok_rep [OF g] xs nc] by blast
    then show thesis using that [of h'] a e xs
      by (auto simp: OsSchedPriQueueEnHead_def set_queue_bit_def bm_def k_ListAdd_def)
  next
    assume a: "zs = the (L (NPri p)) @ [NPend t] \<and> op = OsSchedPriQueueEnTail"
    obtain h' where "LOS_ListTailInsert (NPri p) (NPend t) (dl s) = Some h'" "dl_rep h' (L(NPri p \<mapsto> xs @ [NPend t]))"
      using list_tail_insert [OF glob_ok_rep [OF g] xs nc] by blast
    then show thesis using that [of h'] a e xs
      by (auto simp: OsSchedPriQueueEnTail_def set_queue_bit_def bm_def k_ListTailInsert_def)
  qed
  let ?s = "s\<lparr>dl := h', g_queueBitmap := bm\<rparr>" and ?L = "L(NPri p \<mapsto> zs)"
  have zs': "set zs = insert (NPend t) (set xs)" "zs \<noteq> []" using zs xs by auto
  have m': "mem ?L q' k \<longleftrightarrow> mem L q' k \<or> (q' = NPri p \<and> k = NPend t)" for q' k
    using xs zs' by (auto simp: mem_def)
  have g': "glob_ok ?s ?L"
  proof (rule glob_ok_upd [OF g])
    show "holds (NPri p) k" if "k \<in> set zs" for k
      using that zs'(1) xs glob_ok_holds [OF g, of "NPri p" k] by (auto simp: mem_def)
    show "bit (g_queueBitmap ?s) (31 - p') =
        (if NPri p = NPri p' then zs \<noteq> [] else bit (g_queueBitmap s) (31 - p'))" if "p' < 32" for p'
      using bit [OF that] zs'(2) by auto
  qed (use h xs in auto)
  have "but t ?s ?L"
    by (rule but_change [OF b g']) (simp_all add: same_but_def m' del: mem_upd)
  then show thesis using that [OF h(1) refl] m' by simp
qed

lemma but_wait_insert:
  assumes b: "but t s L" and n: "\<forall>q. \<not> mem L q (NPend t)" and q: "L q = Some xs" and w: "wait_head q"
  obtains h' L' where "k_ListTailInsert q (NPend t) s = Some (s\<lparr>dl := h'\<rparr>)"
    "but t (s\<lparr>dl := h'\<rparr>) L'" "L' = L(q \<mapsto> xs @ [NPend t])"
    "\<And>q' m. mem L' q' m \<longleftrightarrow> mem L q' m \<or> (q' = q \<and> m = NPend t)"
proof -
  have g: "glob_ok s L" using b by (simp add: but_def)
  have nc: "NPend t \<notin> covered L" by (rule not_covered_elem [OF g n]) blast
  obtain h' where h: "LOS_ListTailInsert q (NPend t) (dl s) = Some h'" "dl_rep h' (L(q \<mapsto> xs @ [NPend t]))"
    using list_tail_insert [OF glob_ok_rep [OF g] q nc] by blast
  let ?s = "s\<lparr>dl := h'\<rparr>" and ?L = "L(q \<mapsto> xs @ [NPend t])"
  have m': "mem ?L q' k \<longleftrightarrow> mem L q' k \<or> (q' = q \<and> k = NPend t)" for q' k
    using q by (auto simp: mem_def)
  have g': "glob_ok ?s ?L"
  proof (rule glob_ok_upd [OF g])
    show "holds q k" if "k \<in> set (xs @ [NPend t])" for k
      using that w q glob_ok_holds [OF g, of q k] by (auto simp: mem_def)
  qed (use h q w in auto)
  have "but t ?s ?L"
    by (rule but_change [OF b g']) (simp_all add: same_but_def m' del: mem_upd)
  then show thesis using that [of h' ?L] k_List_eq(2) [OF h(1)] m' by simp
qed

lemma but_sort_insert:
  assumes b: "but t s L" and n: "\<forall>q. \<not> mem L q (NSort t)"
  obtains s' h' L' where "OsAdd2SortLink (NSort t) start ticks OS_SORT_LINK_TASK s = Some s'"
    "s' = s\<lparr>dl := h', responseTime := (responseTime s)(NSort t := start + OS_SYS_TICK_TO_CYCLE ticks (tk s))\<rparr>"
    "but t s' L'"
    "L' = L(NTaskSort \<mapsto> sort_ins (responseTime s') (NSort t) (the (L NTaskSort)))"
    "\<And>q' m. mem L' q' m \<longleftrightarrow> mem L q' m \<or> (q' = NTaskSort \<and> m = NSort t)"
proof -
  have g: "glob_ok s L" using b by (simp add: but_def)
  have nc: "NSort t \<notin> covered L" by (rule not_covered_elem [OF g n]) blast
  obtain xs where xs: "L NTaskSort = Some xs" using g by (auto simp: glob_ok_def)
  let ?r = "(responseTime s)(NSort t := start + OS_SYS_TICK_TO_CYCLE ticks (tk s))"
  let ?s1 = "s\<lparr>responseTime := ?r\<rparr>"
  have sn: "\<forall>x \<in> set xs. is_sort x"
  proof
    fix x assume "x \<in> set xs"
    then have "holds NTaskSort x" using glob_ok_holds [OF g, of NTaskSort x] xs by (auto simp: mem_def)
    then show "is_sort x" by (cases x) (auto simp: is_sort_def)
  qed
  obtain h' where h: "OsAddNode2SortLink NTaskSort (NSort t) ?s1 = Some (?s1\<lparr>dl := h'\<rparr>)"
      "dl_rep h' (L(NTaskSort \<mapsto> sort_ins ?r (NSort t) xs))"
    using OsAddNode2SortLink_law [of ?s1 L NTaskSort xs "NSort t"] glob_ok_rep [OF g] xs nc sn by auto
  let ?s = "s\<lparr>dl := h', responseTime := ?r\<rparr>" and ?L = "L(NTaskSort \<mapsto> sort_ins ?r (NSort t) xs)"
  have m': "mem ?L q' k \<longleftrightarrow> mem L q' k \<or> (q' = NTaskSort \<and> k = NSort t)" for q' k
    using xs by (auto simp: mem_def)
  have nin: "NSort t \<notin> set xs" using n xs by (auto simp: mem_def)
  have srt: "sorted (map ?r xs)"
    by (rule sorted_map_cong [of "responseTime s"]) (use g xs nin in \<open>auto simp: glob_ok_def\<close>)
  have g': "glob_ok ?s ?L"
  proof (rule glob_ok_upd [OF g])
    show "holds NTaskSort k" if "k \<in> set (sort_ins ?r (NSort t) xs)" for k
      using that xs glob_ok_holds [OF g, of NTaskSort k] by (auto simp: mem_def)
    show "sorted (map (responseTime ?s) (sort_ins ?r (NSort t) xs))"
      using sorted_sort_ins [OF srt, of "NSort t"] by simp
  qed (use h xs in auto)
  have A: "but t ?s ?L"
    by (rule but_change [OF b g']) (simp_all add: same_but_def m' del: mem_upd)
  have O: "OsAdd2SortLink (NSort t) start ticks OS_SORT_LINK_TASK s = Some ?s"
    using h(1) by (simp add: OsAdd2SortLink_def set_response_def)
  show thesis by (rule that [OF O refl A _ m']) (simp add: xs)
qed

subsection \<open>Enqueueing and dequeueing\<close>

definition enq_tcb :: "kstate \<Rightarrow> LosTaskCB \<Rightarrow> LosTaskCB" where
  "enq_tcb s c = c\<lparr>timeSlice := (if g_schedTimeSliceMin s <s timeSlice c then timeSlice c else g_schedTimeSlice s),
                   taskStatus := (taskStatus c AND NOT 0xAA) OR OS_TASK_STATUS_READY\<rparr>"

lemma enq_tcb_sel [simp]:
  "priority (enq_tcb s c) = priority c" "taskID (enq_tcb s c) = taskID c"
  "taskStatus (enq_tcb s c) = (taskStatus c AND NOT 0xAA) OR OS_TASK_STATUS_READY"
  "startTime (enq_tcb s c) = startTime c" "topOfStack (enq_tcb s c) = topOfStack c"
  by (simp_all add: enq_tcb_def)

lemma enqueue_law:
  assumes b: "but t s L" and n: "\<forall>q. \<not> mem L q (NPend t)"
    and p: "unat (priority (tcb s t)) < 32" and i: "taskID (tcb s t) \<noteq> g_idleTaskID s"
    and nr: "\<not> is_ready (status s t)"
  obtains s' h' bm L' where "OsSchedTaskEnQueue t s = Some s'"
    "s' = s\<lparr>dl := h', g_queueBitmap := bm, g_taskCBArray := (g_taskCBArray s)(t := enq_tcb s (tcb s t))\<rparr>"
    "but t s' L'"
    "L' = L(NPri (unat (priority (tcb s t))) \<mapsto>
       (if g_schedTimeSliceMin s <s timeSlice (tcb s t)
        then NPend t # the (L (NPri (unat (priority (tcb s t)))))
        else the (L (NPri (unat (priority (tcb s t))))) @ [NPend t]))"
    "\<And>q' m. mem L' q' m \<longleftrightarrow> mem L q' m \<or> (q' = NPri (unat (priority (tcb s t))) \<and> m = NPend t)"
proof (cases "g_schedTimeSliceMin s <s timeSlice (tcb s t)")
  case True
  let ?p = "unat (priority (tcb s t))"
  obtain s1 h' bm L' where 1: "OsSchedPriQueueEnHead (NPend t) ?p s = Some s1"
    "s1 = s\<lparr>dl := h', g_queueBitmap := bm\<rparr>" "but t s1 L'" "L' = L(NPri ?p \<mapsto> NPend t # the (L (NPri ?p)))"
    and m: "\<And>q' m. mem L' q' m \<longleftrightarrow> mem L q' m \<or> (q' = NPri ?p \<and> m = NPend t)"
    by (rule but_pri_insert [OF b n p disjI1 [OF conjI [OF refl refl]]]) (rule that; assumption)
  let ?s = "s\<lparr>dl := h', g_queueBitmap := bm, g_taskCBArray := (g_taskCBArray s)(t := enq_tcb s (tcb s t))\<rparr>"
  have O: "OsSchedTaskEnQueue t s = Some ?s"
    using 1(1,2) True i nr
    by (simp add: OsSchedTaskEnQueue_def bind_los_assert flag_simps los_defs enq_tcb_def)
  have B: "but t ?s L'" by (rule but_upd [OF 1(3)]) (simp_all add: 1(2))
  show thesis by (rule that [OF O refl B _ m]) (use 1(4) True in simp)
next
  case False
  let ?p = "unat (priority (tcb s t))"
  let ?s0 = "upd_tcb t (\<lambda>c. c\<lparr>timeSlice := g_schedTimeSlice s\<rparr>) s"
  have b0: "but t ?s0 L" using b by simp
  obtain s1 h' bm L' where 1: "OsSchedPriQueueEnTail (NPend t) ?p ?s0 = Some s1"
    "s1 = ?s0\<lparr>dl := h', g_queueBitmap := bm\<rparr>" "but t s1 L'" "L' = L(NPri ?p \<mapsto> the (L (NPri ?p)) @ [NPend t])"
    and m: "\<And>q' m. mem L' q' m \<longleftrightarrow> mem L q' m \<or> (q' = NPri ?p \<and> m = NPend t)"
    by (rule but_pri_insert [OF b0 n p disjI2 [OF conjI [OF refl refl]]]) (rule that; assumption)
  let ?s = "s\<lparr>dl := h', g_queueBitmap := bm, g_taskCBArray := (g_taskCBArray s)(t := enq_tcb s (tcb s t))\<rparr>"
  have pe: "priority (tcb ?s0 t) = priority (tcb s t)" by (simp add: upd_tcb_def)
  have O: "OsSchedTaskEnQueue t s = Some ?s"
    using 1(1,2) False i nr
    by (simp add: OsSchedTaskEnQueue_def bind_los_assert flag_simps pe)
       (simp add: los_defs enq_tcb_def)
  have B: "but t ?s L'" by (rule but_upd [OF 1(3)]) (simp_all add: 1(2) upd_tcb_def)
  show thesis by (rule that [OF O refl B _ m]) (use 1(4) False in simp)
qed

lemma enqueue_idle:
  assumes "taskID (tcb s t) = g_idleTaskID s" "\<not> is_ready (status s t)"
  shows "OsSchedTaskEnQueue t s = Some (or_status t OS_TASK_STATUS_READY (clr_status t 0xAA s))"
  using assms by (simp add: OsSchedTaskEnQueue_def bind_los_assert flag_simps)

lemma dequeue_law:
  assumes b: "but t s L" and m: "mem L (NPri (unat (priority (tcb s t)))) (NPend t)"
    and r: "is_ready (status s t)" and i: "taskID (tcb s t) \<noteq> g_idleTaskID s"
  obtains s' h' bm L' where "OsSchedTaskDeQueue t s = Some s'"
    "s' = s\<lparr>dl := h', g_queueBitmap := bm, g_taskCBArray := (g_taskCBArray s)(t :=
            (tcb s t)\<lparr>taskStatus := status s t AND NOT OS_TASK_STATUS_READY\<rparr>)\<rparr>"
    "but t s' L'"
    "L' = L(NPri (unat (priority (tcb s t))) \<mapsto> remove1 (NPend t) (the (L (NPri (unat (priority (tcb s t)))))))"
    "\<And>q' m. mem L' q' m \<longleftrightarrow> mem L q' m \<and> m \<noteq> NPend t"
proof -
  let ?p = "unat (priority (tcb s t))"
  obtain s1 h' bm L' where 1: "OsSchedPriQueueDelete (NPend t) ?p s = Some s1"
    "s1 = s\<lparr>dl := h', g_queueBitmap := bm\<rparr>" "but t s1 L'"
    "L' = L(NPri ?p \<mapsto> remove1 (NPend t) (the (L (NPri ?p))))"
    and m': "\<And>q' m. mem L' q' m \<longleftrightarrow> mem L q' m \<and> m \<noteq> NPend t"
    by (rule but_pri_delete [OF b m]) (rule that; assumption)
  let ?s = "s\<lparr>dl := h', g_queueBitmap := bm, g_taskCBArray := (g_taskCBArray s)(t :=
            (tcb s t)\<lparr>taskStatus := status s t AND NOT OS_TASK_STATUS_READY\<rparr>)\<rparr>"
  have O: "OsSchedTaskDeQueue t s = Some ?s"
    using 1(1,2) r i by (simp add: OsSchedTaskDeQueue_def flag_simps los_defs)
  have B: "but t ?s L'" by (rule but_upd [OF 1(3)]) (simp_all add: 1(2))
  show thesis by (rule that [OF O refl B 1(4) m'])
qed

lemma dequeue_not_ready: "\<not> is_ready (status s t) \<Longrightarrow> OsSchedTaskDeQueue t s = Some s"
  by (simp add: OsSchedTaskDeQueue_def flag_simps)

lemma task_ok_ready:
  assumes "flags_ok (status s t)" "ready s t" "unat (priority (tcb s t)) < 32"
    "\<And>q. mem L q (NPend t) \<longleftrightarrow> q = NPri (unat (priority (tcb s t)))"
    "\<not> mem L NTaskSort (NSort t)" "responseTime s (NSort t) = OS_SORT_LINK_INVALID_TIME"
  shows "task_ok s L t"
  using assms unfolding task_ok_def loc_ok_def delayed_def ready_def flags_ok_def by auto

text \<open>A task that is in no list and no longer blocked becomes ready.\<close>

lemma enqueue_inv:
  assumes b: "but t s L" and n: "\<forall>q. \<not> mem L q (NPend t)" and ns: "\<not> mem L NTaskSort (NSort t)"
    and rt: "responseTime s (NSort t) = OS_SORT_LINK_INVALID_TIME"
    and p: "unat (priority (tcb s t)) < 32" and i: "taskID (tcb s t) \<noteq> g_idleTaskID s"
    and st: "\<not> is_ready (status s t)" "\<not> is_running (status s t)" "\<not> is_unused (status s t)"
      "\<not> is_exit (status s t)" "\<not> is_freeze (status s t)"
    and run: "run_ok s"
  obtains s' h' bm L' where "OsSchedTaskEnQueue t s = Some s'"
    "s' = s\<lparr>dl := h', g_queueBitmap := bm, g_taskCBArray := (g_taskCBArray s)(t := enq_tcb s (tcb s t))\<rparr>"
    "sched_inv s' L'"
    "L' = L(NPri (unat (priority (tcb s t))) \<mapsto>
       (if g_schedTimeSliceMin s <s timeSlice (tcb s t)
        then NPend t # the (L (NPri (unat (priority (tcb s t)))))
        else the (L (NPri (unat (priority (tcb s t))))) @ [NPend t]))"
    "\<And>q' m. mem L' q' m \<longleftrightarrow> mem L q' m \<or> (q' = NPri (unat (priority (tcb s t))) \<and> m = NPend t)"
proof -
  let ?p = "unat (priority (tcb s t))"
  obtain s' h' bm L' where 1: "OsSchedTaskEnQueue t s = Some s'"
    "s' = s\<lparr>dl := h', g_queueBitmap := bm, g_taskCBArray := (g_taskCBArray s)(t := enq_tcb s (tcb s t))\<rparr>"
    "but t s' L'"
    "L' = L(NPri ?p \<mapsto> (if g_schedTimeSliceMin s <s timeSlice (tcb s t)
        then NPend t # the (L (NPri ?p)) else the (L (NPri ?p)) @ [NPend t]))"
    and m: "\<And>q' m. mem L' q' m \<longleftrightarrow> mem L q' m \<or> (q' = NPri ?p \<and> m = NPend t)"
    by (rule enqueue_law [OF b n p i st(1)]) (rule that; assumption)
  have T: "task_ok s' L' t"
  proof (rule task_ok_ready)
    show "flags_ok (status s' t)" using st by (simp add: 1(2) flags_ok_def flag_simps)
    show "ready s' t" using i by (simp add: 1(2) ready_def flag_simps)
    show "unat (priority (tcb s' t)) < 32" using p by (simp add: 1(2))
    show "mem L' q (NPend t) \<longleftrightarrow> q = NPri (unat (priority (tcb s' t)))" for q
      using n by (simp add: m 1(2))
    show "\<not> mem L' NTaskSort (NSort t)" using ns by (simp add: m)
    show "responseTime s' (NSort t) = OS_SORT_LINK_INVALID_TIME" using rt by (simp add: 1(2))
  qed
  have "run_ok s'" using run st(2) by (auto simp: run_ok_def 1(2))
  from but_close [OF 1(3) T this] show thesis by (rule that [OF 1(1,2) _ 1(4) m])
qed

subsection \<open>Frames\<close>

text \<open>
  What the list-moving operations leave alone: everything but the heap, the
  bitmap, the next response time and, of one task, its response time, status,
  time slice and the object it waits for.
\<close>

definition core :: "LosTaskCB \<Rightarrow> LosTaskCB" where
  "core c = c\<lparr>taskStatus := 0, timeSlice := 0, taskSem := None, taskMux := None\<rparr>"

definition kcore :: "kstate \<Rightarrow> kstate" where
  "kcore s = s\<lparr>dl := \<lparr>pstPrev = \<lambda>_. None, pstNext = \<lambda>_. None\<rparr>, responseTime := \<lambda>_. 0, g_queueBitmap := 0,
               g_schedResponseTime := 0, g_taskCBArray := \<lambda>_. tcb s 0\<rparr>"

definition frame :: "nat \<Rightarrow> kstate \<Rightarrow> kstate \<Rightarrow> bool" where
  "frame t s s' \<longleftrightarrow>
     (\<exists>a. kcore s' = (kcore s)\<lparr>g_taskCBArray := a\<rparr>) \<and>
     (\<forall>u. u \<noteq> t \<longrightarrow> tcb s' u = tcb s u) \<and>
     (\<forall>n. n \<noteq> NSort t \<longrightarrow> responseTime s' n = responseTime s n) \<and>
     core (tcb s' t) = core (tcb s t)"

lemma core_sel:
  assumes "core c = core d"
  shows "priority c = priority d" "taskID c = taskID d" "startTime c = startTime d"
    "topOfStack c = topOfStack d" "waitTimes c = waitTimes d" "eventMask c = eventMask d"
    "eventMode c = eventMode d" "stackSize c = stackSize d" "joinRetval c = joinRetval d" "msg c = msg d"
  using assms [THEN arg_cong [of _ _ priority]] assms [THEN arg_cong [of _ _ taskID]]
    assms [THEN arg_cong [of _ _ startTime]] assms [THEN arg_cong [of _ _ topOfStack]]
    assms [THEN arg_cong [of _ _ waitTimes]] assms [THEN arg_cong [of _ _ eventMask]]
    assms [THEN arg_cong [of _ _ eventMode]] assms [THEN arg_cong [of _ _ stackSize]]
    assms [THEN arg_cong [of _ _ joinRetval]] assms [THEN arg_cong [of _ _ msg]]
  by (simp_all add: core_def)

lemma kcore_sel:
  assumes k: "kcore s' = (kcore s)\<lparr>g_taskCBArray := a\<rparr>"
  shows "runTask s' = runTask s" "newTask s' = newTask s" "tk s' = tk s" "g_idleTaskID s' = g_idleTaskID s"
    "g_taskMaxNum s' = g_taskMaxNum s" "g_losTaskLock s' = g_losTaskLock s"
    "g_taskScheduled s' = g_taskScheduled s" "g_schedTimeSlice s' = g_schedTimeSlice s"
    "g_schedTimeSliceMin s' = g_schedTimeSliceMin s" "cfg_swtmr s' = cfg_swtmr s" "pmMode s' = pmMode s"
    "g_tickResponsePrecision s' = g_tickResponsePrecision s" "g_schedTickMinPeriod s' = g_schedTickMinPeriod s"
    "g_schedResponseID s' = g_schedResponseID s" "g_tickIntLock s' = g_tickIntLock s"
    "stackMem s' = stackMem s" "os_int_active s' = os_int_active s" "mallocs s' = mallocs s" "freed s' = freed s"
    "byteMem s' = byteMem s"
    "uwEventID s' = uwEventID s" "g_allSem s' = g_allSem s" "g_allMux s' = g_allMux s" "g_allQueue s' = g_allQueue s"
proof -
  note e = arg_cong [OF k]
  show "runTask s' = runTask s" "newTask s' = newTask s" "tk s' = tk s" "g_idleTaskID s' = g_idleTaskID s"
    "g_taskMaxNum s' = g_taskMaxNum s" "g_losTaskLock s' = g_losTaskLock s"
    "g_taskScheduled s' = g_taskScheduled s" "g_schedTimeSlice s' = g_schedTimeSlice s"
    using e [of runTask] e [of newTask] e [of tk] e [of g_idleTaskID] e [of g_taskMaxNum]
      e [of g_losTaskLock] e [of g_taskScheduled] e [of g_schedTimeSlice] by (simp_all add: kcore_def)
  show "g_schedTimeSliceMin s' = g_schedTimeSliceMin s" "cfg_swtmr s' = cfg_swtmr s" "pmMode s' = pmMode s"
    "g_tickResponsePrecision s' = g_tickResponsePrecision s" "g_schedTickMinPeriod s' = g_schedTickMinPeriod s"
    "g_schedResponseID s' = g_schedResponseID s" "g_tickIntLock s' = g_tickIntLock s"
    "stackMem s' = stackMem s"
    using e [of g_schedTimeSliceMin] e [of cfg_swtmr] e [of pmMode] e [of g_tickResponsePrecision]
      e [of g_schedTickMinPeriod] e [of g_schedResponseID] e [of g_tickIntLock] e [of stackMem]
    by (simp_all add: kcore_def)
  show "os_int_active s' = os_int_active s" "mallocs s' = mallocs s" "freed s' = freed s"
    "byteMem s' = byteMem s" "uwEventID s' = uwEventID s" "g_allSem s' = g_allSem s"
    "g_allMux s' = g_allMux s" "g_allQueue s' = g_allQueue s"
    using e [of os_int_active] e [of mallocs] e [of freed] e [of byteMem] e [of uwEventID] e [of g_allSem]
      e [of g_allMux] e [of g_allQueue] by (simp_all add: kcore_def)
qed

lemma frame_kcore: "frame t s s' \<Longrightarrow> kcore s' = (kcore s)\<lparr>g_taskCBArray := g_taskCBArray (kcore s')\<rparr>"
  unfolding frame_def by auto

lemmas frame_sel = kcore_sel [OF frame_kcore]

text \<open>The same for a set of tasks.\<close>

definition frames :: "nat set \<Rightarrow> kstate \<Rightarrow> kstate \<Rightarrow> bool" where
  "frames T s s' \<longleftrightarrow>
     (\<exists>a. kcore s' = (kcore s)\<lparr>g_taskCBArray := a\<rparr>) \<and>
     (\<forall>u. u \<notin> T \<longrightarrow> tcb s' u = tcb s u) \<and>
     (\<forall>n. n \<notin> NSort ` T \<longrightarrow> responseTime s' n = responseTime s n) \<and>
     (\<forall>u. core (tcb s' u) = core (tcb s u))"

lemma frames_kcore: "frames T s s' \<Longrightarrow> kcore s' = (kcore s)\<lparr>g_taskCBArray := g_taskCBArray (kcore s')\<rparr>"
  unfolding frames_def by auto

lemmas frames_sel = kcore_sel [OF frames_kcore]

lemma frame_tcb: "frame t s s' \<Longrightarrow> u \<noteq> t \<Longrightarrow> tcb s' u = tcb s u"
  by (simp add: frame_def)

lemma frame_core: "frame t s s' \<Longrightarrow> core (tcb s' u) = core (tcb s u)"
  by (cases "u = t") (simp_all add: frame_def)

lemmas frame_core_sel = core_sel [OF frame_core]

lemma frame_refl [simp]: "frame t s s"
  unfolding frame_def by (simp, rule exI [of _ "g_taskCBArray (kcore s)"], simp)

lemma frame_trans: "frame t s s' \<Longrightarrow> frame t s' s'' \<Longrightarrow> frame t s s''"
  unfolding frame_def by auto

lemma frame_upd:
  "frame t s (upd_tcb t (\<lambda>c. c\<lparr>taskStatus := f c\<rparr>) s)"
  "frame t s (or_status t m s)" "frame t s (clr_status t m s)"
  "frame t s (s\<lparr>dl := h, g_queueBitmap := bm, g_taskCBArray := (g_taskCBArray s)(t := enq_tcb s (tcb s t))\<rparr>)"
  "frame t s (s\<lparr>dl := h, g_queueBitmap := bm,
     g_taskCBArray := (g_taskCBArray s)(t := (tcb s t)\<lparr>taskStatus := st\<rparr>)\<rparr>)"
  "frame t s (s\<lparr>dl := h\<rparr>)"
  "frame t s (s\<lparr>g_schedResponseTime := x\<rparr>)"
  "frame t s (s\<lparr>dl := h, responseTime := (responseTime s)(NSort t := r)\<rparr>)"
  "frame t s (upd_tcb t (\<lambda>c. c\<lparr>taskMux := None, taskSem := None\<rparr>) s)"
  unfolding frame_def kcore_def core_def los_defs enq_tcb_def by auto

text \<open>What a switch or a wake-up leaves of a task: all but its status, its time slice and its start time.\<close>

definition sw_core :: "LosTaskCB \<Rightarrow> LosTaskCB" where
  "sw_core c = c\<lparr>taskStatus := 0, timeSlice := 0, startTime := 0\<rparr>"

lemma sw_core_sel:
  assumes "sw_core c = sw_core d"
  shows "priority c = priority d" "taskID c = taskID d" "topOfStack c = topOfStack d"
    "waitTimes c = waitTimes d" "eventMask c = eventMask d" "eventMode c = eventMode d"
    "stackSize c = stackSize d" "joinRetval c = joinRetval d" "msg c = msg d"
    "taskSem c = taskSem d" "taskMux c = taskMux d"
  using assms [THEN arg_cong [of _ _ priority]] assms [THEN arg_cong [of _ _ taskID]]
    assms [THEN arg_cong [of _ _ topOfStack]] assms [THEN arg_cong [of _ _ waitTimes]]
    assms [THEN arg_cong [of _ _ eventMask]] assms [THEN arg_cong [of _ _ eventMode]]
    assms [THEN arg_cong [of _ _ stackSize]] assms [THEN arg_cong [of _ _ joinRetval]]
    assms [THEN arg_cong [of _ _ msg]] assms [THEN arg_cong [of _ _ taskSem]] assms [THEN arg_cong [of _ _ taskMux]]
  by (simp_all add: sw_core_def)

lemma sw_core_self [simp]:
  "sw_core (c\<lparr>startTime := a\<rparr>) = sw_core c" "sw_core (c\<lparr>taskStatus := b\<rparr>) = sw_core c"
  "sw_core (c\<lparr>timeSlice := d\<rparr>) = sw_core c"
  by (cases c; simp add: sw_core_def)+

subsection \<open>Waiting and waking\<close>

lemma sched_inv_task: "sched_inv s L \<Longrightarrow> task_ok s L t"
  by (simp add: sched_inv_def)

lemma sched_inv_glob: "sched_inv s L \<Longrightarrow> glob_ok s L"
  by (simp add: sched_inv_def)

lemma sched_inv_flags: "sched_inv s L \<Longrightarrow> flags_ok (status s t)"
  using sched_inv_task [of s L t] by (simp add: task_ok_def)

lemma inv_wait_member:
  assumes "sched_inv s L" "wait_head q" "mem L q (NPend t)"
  shows "is_pend (status s t)"
  using sched_inv_task [OF assms(1), of t] assms(2,3) unfolding task_ok_def loc_ok_def by blast

lemma inv_pend:
  assumes I: "sched_inv s L" and p: "is_pend (status s t)"
  shows "\<not> is_ready (status s t)" "\<not> is_delay (status s t)" "\<not> is_unused (status s t)" "\<not> is_exit (status s t)"
    "\<not> is_freeze (status s t)" "taskID (tcb s t) \<noteq> g_idleTaskID s" "unat (priority (tcb s t)) < 32"
  using sched_inv_task [OF I, of t] p unfolding task_ok_def flags_ok_def by auto

lemma inv_sort:
  assumes I: "sched_inv s L" and p: "\<not> is_unused (status s t)"
  shows "responseTime s (NSort t) \<noteq> OS_SORT_LINK_INVALID_TIME \<longleftrightarrow> mem L NTaskSort (NSort t)"
    "mem L NTaskSort (NSort t) \<longleftrightarrow> delayed s t"
  using sched_inv_task [OF I, of t] p unfolding task_ok_def by auto

lemma inv_free:
  assumes I: "sched_inv s L" and "\<not> ready s t" "\<not> is_pend (status s t)" "\<not> is_unused (status s t)"
  shows "\<not> mem L q (NPend t)"
proof
  assume m: "mem L q (NPend t)"
  have "loc_ok s t q" using sched_inv_task [OF I, of t] m unfolding task_ok_def by blast
  with assms(2-4) holds_NPend_cases [OF sched_inv_glob [OF I] m] show False
    unfolding loc_ok_def by metis
qed

lemma inv_running:
  assumes I: "sched_inv s L" and r: "runTask s = Some t"
  shows "is_running (status s t)" "\<not> is_ready (status s t)" "\<not> delayed s t"
proof -
  show 1: "is_running (status s t)" using I r unfolding sched_inv_def run_ok_def by auto
  show "\<not> is_ready (status s t)" using sched_inv_flags [OF I, of t] 1 unfolding flags_ok_def by auto
  show "\<not> delayed s t" using 1 unfolding delayed_def by simp
qed

lemma delete_sort_link_law:
  assumes b: "but t s L"
    and m: "responseTime s (NSort t) \<noteq> OS_SORT_LINK_INVALID_TIME \<longleftrightarrow> mem L NTaskSort (NSort t)"
  obtains s' L' where "OsDeleteSortLink (NSort t) s = Some s'" "but t s' L'" "frame t s s'"
    "tcb s' t = tcb s t" "responseTime s' (NSort t) = OS_SORT_LINK_INVALID_TIME"
    "\<And>q' m. mem L' q' m \<longleftrightarrow> mem L q' m \<and> (q' = NTaskSort \<longrightarrow> m \<noteq> NSort t)"
    "\<And>q. q \<noteq> NTaskSort \<Longrightarrow> L' q = L q"
proof (cases "mem L NTaskSort (NSort t)")
  case False
  with m have r: "responseTime s (NSort t) = OS_SORT_LINK_INVALID_TIME" by blast
  have O: "OsDeleteSortLink (NSort t) s = Some s" using r by (simp add: OsDeleteSortLink_def)
  have M: "mem L q' k \<longleftrightarrow> mem L q' k \<and> (q' = NTaskSort \<longrightarrow> k \<noteq> NSort t)" for q' k using False by auto
  show thesis by (rule that [OF O b frame_refl refl r M refl])
next
  case True
  define s0 where "s0 = OsSchedResetSchedResponseTime (responseTime s (NSort t)) s"
  have s0: "s0 = s\<lparr>g_schedResponseTime := g_schedResponseTime s0\<rparr>"
    by (simp add: s0_def OsSchedResetSchedResponseTime_def)
  have s0sel: "dl s0 = dl s" "responseTime s0 = responseTime s" "g_taskCBArray s0 = g_taskCBArray s"
    "runTask s0 = runTask s" "g_idleTaskID s0 = g_idleTaskID s" "g_queueBitmap s0 = g_queueBitmap s"
    "cfg_swtmr s0 = cfg_swtmr s"
    by (subst s0, simp)+
  have b0: "but t s0 L" by (rule but_upd [OF b]) (simp_all add: s0sel)
  obtain s' h' L' where 1: "OsDeleteNodeSortLink (NSort t) s0 = Some s'"
    "s' = s0\<lparr>dl := h', responseTime := (responseTime s0)(NSort t := OS_SORT_LINK_INVALID_TIME)\<rparr>"
    "but t s' L'" "L' = L(NTaskSort \<mapsto> remove1 (NSort t) (the (L NTaskSort)))"
    and M: "\<And>q' m. mem L' q' m \<longleftrightarrow> mem L q' m \<and> m \<noteq> NSort t"
    by (rule but_delete_sort [OF b0 True]) (rule that; assumption)
  have O: "OsDeleteSortLink (NSort t) s = Some s'"
    using 1(1) True m by (simp add: OsDeleteSortLink_def s0_def)
  have "frame t s s0" by (subst s0) (rule frame_upd)
  then have F: "frame t s s'" unfolding 1(2) by (rule frame_trans) (rule frame_upd)
  have M': "mem L' q' k \<longleftrightarrow> mem L q' k \<and> (q' = NTaskSort \<longrightarrow> k \<noteq> NSort t)" for q' k
    using M glob_ok_holds [of s L q' "NSort t"] b by (auto simp: but_def)
  show thesis
    by (rule that [OF O 1(3) F _ _ M']) (simp_all add: 1(2) 1(4) s0sel)
qed

text \<open>OsSchedTaskWait: the running task is appended to the wait list.\<close>

lemma task_wait_law:
  assumes I: "sched_inv s L" and r: "runTask s = Some t" and q: "L q = Some xs" "wait_head q"
    and st: "\<not> is_pend (status s t)" "\<not> is_delay (status s t)" "\<not> is_unused (status s t)" "\<not> is_exit (status s t)"
    and i: "taskID (tcb s t) \<noteq> g_idleTaskID s"
  obtains s' h' where "OsSchedTaskWait q ticks s = Some s'"
    "s' = s\<lparr>dl := h', g_taskCBArray := (g_taskCBArray s)(t :=
        (if ticks = LOS_WAIT_FOREVER then (tcb s t)\<lparr>taskStatus := status s t OR OS_TASK_STATUS_PEND\<rparr>
         else (tcb s t)\<lparr>taskStatus := (status s t OR OS_TASK_STATUS_PEND) OR OS_TASK_STATUS_PEND_TIME, waitTimes := ticks\<rparr>))\<rparr>"
    "sched_inv s' (L(q \<mapsto> xs @ [NPend t]))"
proof -
  note run = inv_running [OF I r]
  have b: "but t (or_status t OS_TASK_STATUS_PEND s) L" using sched_inv_but [OF I] by simp
  have n: "\<forall>q. \<not> mem L q (NPend t)" using inv_free [OF I _ st(1,3)] run(2) by (simp add: ready_def)
  obtain h' L' where 1: "k_ListTailInsert q (NPend t) (or_status t OS_TASK_STATUS_PEND s) =
      Some (or_status t OS_TASK_STATUS_PEND s\<lparr>dl := h'\<rparr>)"
    "but t (or_status t OS_TASK_STATUS_PEND s\<lparr>dl := h'\<rparr>) L'" "L' = L(q \<mapsto> xs @ [NPend t])"
    and M: "\<And>q' m. mem L' q' m \<longleftrightarrow> mem L q' m \<or> (q' = q \<and> m = NPend t)"
    by (rule but_wait_insert [OF b n q]) (rule that; assumption)
  let ?s = "s\<lparr>dl := h', g_taskCBArray := (g_taskCBArray s)(t :=
        (if ticks = LOS_WAIT_FOREVER then (tcb s t)\<lparr>taskStatus := status s t OR OS_TASK_STATUS_PEND\<rparr>
         else (tcb s t)\<lparr>taskStatus := (status s t OR OS_TASK_STATUS_PEND) OR OS_TASK_STATUS_PEND_TIME, waitTimes := ticks\<rparr>))\<rparr>"
  have O: "OsSchedTaskWait q ticks s = Some ?s"
    using 1(1) r by (simp add: OsSchedTaskWait_def los_defs)
  have B: "but t ?s L'" by (rule but_upd [OF 1(2)]) (simp_all add: los_defs)
  have tk: "task_ok s L t" by (rule sched_inv_task [OF I])
  have T: "task_ok ?s L' t"
    unfolding task_ok_def
  proof (intro conjI allI impI)
    show "flags_ok (status ?s t)" using tk st run by (simp add: task_ok_def flags_ok_def flag_simps)
    show "loc_ok ?s t q'" if "mem L' q' (NPend t)" for q'
      using that n q(2) by (auto simp: M loc_ok_def flag_simps)
    show "\<exists>q'. wait_head q' \<and> mem L' q' (NPend t)" using q(2) M by auto
    show "mem L' NTaskSort (NSort t) = delayed ?s t"
      using tk run(1) by (simp add: M task_ok_def delayed_def flag_simps)
    show "(responseTime ?s (NSort t) \<noteq> OS_SORT_LINK_INVALID_TIME) = delayed ?s t"
      using tk run(1) st(3) by (simp add: task_ok_def delayed_def flag_simps)
  qed (use tk run r i st in \<open>auto simp: task_ok_def ready_def flag_simps split: if_splits\<close>)
  have R: "run_ok ?s" using r run(1) by (simp add: run_ok_def flag_simps)
  from but_close [OF B T R] show thesis using that [OF O refl] 1(3) by simp
qed


lemma or_clr_sel [simp]:
  "tcb (or_status t m s) u = (if u = t then (tcb s t)\<lparr>taskStatus := status s t OR m\<rparr> else tcb s u)"
  "tcb (clr_status t m s) u = (if u = t then (tcb s t)\<lparr>taskStatus := status s t AND NOT m\<rparr> else tcb s u)"
  "responseTime (or_status t m s) = responseTime s" "responseTime (clr_status t m s) = responseTime s"
  "runTask (or_status t m s) = runTask s" "runTask (clr_status t m s) = runTask s"
  "g_idleTaskID (or_status t m s) = g_idleTaskID s" "g_idleTaskID (clr_status t m s) = g_idleTaskID s"
  by (simp_all add: los_defs)

lemma run_ok_frame: "run_ok s \<Longrightarrow> frame t s s' \<Longrightarrow> is_running (status s' t) = is_running (status s t) \<Longrightarrow> run_ok s'"
  unfolding run_ok_def using frame_sel(1) [of t s s'] frame_tcb [of t s s'] by metis

lemma sched_inv_run_ok: "sched_inv s L \<Longrightarrow> run_ok s"
  by (simp add: sched_inv_def)

text \<open>A task that is in no list but keeps a blocked or running status.\<close>

lemma task_ok_idle_nodes:
  assumes "flags_ok (status s t)" "\<not> is_ready (status s t)" "\<not> is_pend (status s t)" "\<not> delayed s t"
    "\<And>q. \<not> mem L q (NPend t)" "\<not> mem L NTaskSort (NSort t)"
    "responseTime s (NSort t) = OS_SORT_LINK_INVALID_TIME"
    "is_running (status s t) \<and> \<not> is_unused (status s t) \<longrightarrow> runTask s = Some t"
    "unat (priority (tcb s t)) < 32" "taskID (tcb s t) \<noteq> g_idleTaskID s"
  shows "task_ok s L t"
  using assms unfolding task_ok_def ready_def by auto

lemma task_wake_law:
  assumes I: "sched_inv s L" and w: "wait_head q" and q: "L q = Some xs" and m: "NPend t \<in> set xs"
  obtains s' L' where "OsSchedTaskWake t s = Some s'" "sched_inv s' L'" "frame t s s'"
    "\<And>q'. \<not> is_pri q' \<Longrightarrow> q' \<noteq> NTaskSort \<Longrightarrow> L' q' = (if q' = q then Some (remove1 (NPend t) xs) else L q')"
    "\<And>k. k \<noteq> 2 \<Longrightarrow> bit (status s' t) k = (bit (status s t) k \<and> k \<noteq> 3 \<and> k \<noteq> 7)"
    "is_ready (status s' t) \<longleftrightarrow> \<not> is_suspend (status s t) \<and> \<not> is_running (status s t)"
    "sw_core (tcb s' t) = sw_core (tcb s t)"
proof -
  have mq: "mem L q (NPend t)" using q m by (auto simp: mem_def)
  have pend: "is_pend (status s t)" by (rule inv_wait_member [OF I w mq])
  note P = inv_pend [OF I pend] and S = inv_sort [OF I inv_pend(3) [OF I pend]]
  have np: "\<not> is_pri q" using w by (cases q) auto
  obtain h1 L1 where 1: "k_ListDelete (NPend t) s = Some (s\<lparr>dl := h1\<rparr>)" "but t (s\<lparr>dl := h1\<rparr>) L1"
    "L1 = L(q \<mapsto> remove1 (NPend t) (the (L q)))"
    and M1: "\<And>q' m. mem L1 q' m \<longleftrightarrow> mem L q' m \<and> m \<noteq> NPend t"
    by (rule but_delete_pend [OF sched_inv_but [OF I] mq np]) (rule that; assumption)
  let ?s1 = "clr_status t OS_TASK_STATUS_PEND (s\<lparr>dl := h1\<rparr>)"
  have F1: "frame t s ?s1" by (rule frame_trans [OF frame_upd(6) frame_upd(3)])
  have b1: "but t ?s1 L1" using 1(2) by simp
  have link: "responseTime ?s1 (NSort t) \<noteq> OS_SORT_LINK_INVALID_TIME \<longleftrightarrow> mem L1 NTaskSort (NSort t)"
    using S(1) by (simp add: M1)
  obtain s2 L2 where 2: "(if status ?s1 t AND OS_TASK_STATUS_PEND_TIME \<noteq> 0
          then do { s \<leftarrow> OsDeleteSortLink (NSort t) ?s1; Some (clr_status t OS_TASK_STATUS_PEND_TIME s) }
          else Some ?s1) = Some s2"
    "but t s2 L2" "frame t ?s1 s2" "status s2 t = status ?s1 t AND NOT 0x80" 
    "responseTime s2 (NSort t) = OS_SORT_LINK_INVALID_TIME" "\<not> mem L2 NTaskSort (NSort t)"
    "sw_core (tcb s2 t) = sw_core (tcb s t)"
    and M2: "\<And>q'. mem L2 q' (NPend t) \<longleftrightarrow> mem L1 q' (NPend t)"
    and Q2: "\<And>q. q \<noteq> NTaskSort \<Longrightarrow> L2 q = L1 q"
  proof (cases "is_pend_time (status s t)")
    case True
    obtain s' L' where 3: "OsDeleteSortLink (NSort t) ?s1 = Some s'" "but t s' L'" "frame t ?s1 s'"
      "tcb s' t = tcb ?s1 t" "responseTime s' (NSort t) = OS_SORT_LINK_INVALID_TIME"
      and M3: "\<And>q' m. mem L' q' m \<longleftrightarrow> mem L1 q' m \<and> (q' = NTaskSort \<longrightarrow> m \<noteq> NSort t)"
      and Q3: "\<And>q. q \<noteq> NTaskSort \<Longrightarrow> L' q = L1 q"
      by (rule delete_sort_link_law [OF b1 link]) (rule that; assumption)
    show thesis
      by (rule that [of "clr_status t OS_TASK_STATUS_PEND_TIME s'" L'])
         (use True 3 M3 Q3 frame_trans [OF 3(3) frame_upd(3)] in \<open>simp_all add: flag_simps\<close>)
  next
    case False
    have nd: "\<not> delayed s t" using False P(2) by (simp add: delayed_def)
    have z: "status ?s1 t = status ?s1 t AND NOT 0x80"
      using False by (intro bit_eqI) (auto simp: flag_simps)
    show thesis
      by (rule that [of ?s1 L1])
         (use False b1 S nd z M1 link in \<open>simp_all add: flag_simps\<close>)
  qed
  have F2: "frame t s s2" by (rule frame_trans [OF F1 2(3)])
  have st2: "bit (status s2 t) k = (bit (status s t) k \<and> k \<noteq> 3 \<and> k \<noteq> 7)" for k
    using 2(4) by (auto simp: flag_simps dest: bit_le16)
  note C2 = frame_core_sel [OF F2, of t] and K2 = frame_sel [OF F2]
  have Q: "L2 q' = (if q' = q then Some (remove1 (NPend t) xs) else L q')" if "q' \<noteq> NTaskSort" for q'
    using Q2 [OF that] q by (simp add: 1(3))
  have rn: "is_running (status s2 t) \<longleftrightarrow> is_running (status s t)" by (simp add: st2)
  have run2: "run_ok s2" by (rule run_ok_frame [OF sched_inv_run_ok [OF I] F2 rn])
  have n2: "\<forall>q'. \<not> mem L2 q' (NPend t)" by (simp add: M2 M1)
  have unf: "OsSchedTaskWake t s =
      (if status s2 t AND OS_TASK_STATUS_SUSPEND = 0 \<and> status s2 t AND OS_TASK_STATUS_RUNNING = 0
       then OsSchedTaskEnQueue t s2 else Some s2)"
    unfolding OsSchedTaskWake_def using 1(1) 2(1) by (simp only: Option.bind.bind_lunit Let_def)
  show thesis
  proof (cases "is_suspend (status s t) \<or> is_running (status s t)")
    case True
    have fl: "flags_ok (status s2 t)"
      using sched_inv_flags [OF I, of t] P(1-5) by (simp add: flags_ok_def st2)
    have T: "task_ok s2 L2 t"
      by (rule task_ok_idle_nodes)
         (use fl n2 2(5,6) P K2 C2 sched_inv_task [OF I, of t] in
            \<open>simp_all add: st2 delayed_def task_ok_def\<close>)
    show thesis
      by (rule that [OF _ but_close [OF 2(2) T run2] F2 Q])
         (use True unf P(1) 2(7) in \<open>auto simp: st2 flag_simps\<close>)
  next
    case False
    have E: "unat (priority (tcb s2 t)) < 32" "taskID (tcb s2 t) \<noteq> g_idleTaskID s2"
      "\<not> is_ready (status s2 t)" "\<not> is_running (status s2 t)" "\<not> is_unused (status s2 t)"
      "\<not> is_exit (status s2 t)" "\<not> is_freeze (status s2 t)"
      using P False by (simp_all add: st2 C2 K2)
    obtain s' h' bm L' where 4: "OsSchedTaskEnQueue t s2 = Some s'"
      "s' = s2\<lparr>dl := h', g_queueBitmap := bm, g_taskCBArray := (g_taskCBArray s2)(t := enq_tcb s2 (tcb s2 t))\<rparr>"
      "sched_inv s' L'"
      "L' = L2(NPri (unat (priority (tcb s2 t))) \<mapsto>
         (if g_schedTimeSliceMin s2 <s timeSlice (tcb s2 t)
          then NPend t # the (L2 (NPri (unat (priority (tcb s2 t)))))
          else the (L2 (NPri (unat (priority (tcb s2 t))))) @ [NPend t]))"
      by (rule enqueue_inv [OF 2(2) n2 2(6) 2(5) E run2]) (rule that; assumption)
    have F: "frame t s s'" unfolding 4(2) by (rule frame_trans [OF F2 frame_upd(4)])
    have Q': "L' q' = (if q' = q then Some (remove1 (NPend t) xs) else L q')"
      if "\<not> is_pri q'" "q' \<noteq> NTaskSort" for q'
      using Q [of q'] that 4(4) by (cases q') auto
    have st': "bit (status s' t) k = (bit (status s t) k \<and> k \<noteq> 3 \<and> k \<noteq> 7)" if "k \<noteq> 2" for k
      using that False P(2) by (auto simp: 4(2) flag_simps st2 dest: bit_le16)
    have rd: "is_ready (status s' t) \<longleftrightarrow> \<not> is_suspend (status s t) \<and> \<not> is_running (status s t)"
      using False by (simp add: 4(2) flag_simps)
    have O: "OsSchedTaskWake t s = Some s'" using unf False 4(1) by (simp add: st2 flag_simps)
    have C: "sw_core (tcb s' t) = sw_core (tcb s t)" using 2(7) by (simp add: 4(2) enq_tcb_def)
    show thesis by (rule that [OF O 4(3) F Q' st' rd C])
  qed
qed

subsection \<open>Exit, suspension, resumption and change of priority\<close>

text \<open>The first half of OsSchedTaskExit: the task leaves the ready queue or the list it waits in.\<close>

lemma detach_pend_law:
  assumes I: "sched_inv s L" and nu: "\<not> is_unused (status s t)" and i: "taskID (tcb s t) \<noteq> g_idleTaskID s"
  obtains s1 L1 where
    "(if status s t AND OS_TASK_STATUS_READY \<noteq> 0 then OsSchedTaskDeQueue t s
      else if status s t AND OS_TASK_STATUS_PEND \<noteq> 0
      then do { s \<leftarrow> k_ListDelete (NPend t) s; Some (clr_status t OS_TASK_STATUS_PEND s) }
      else Some s) = Some s1"
    "but t s1 L1" "frame t s s1" "\<And>k. bit (status s1 t) k = (bit (status s t) k \<and> k \<noteq> 2 \<and> k \<noteq> 3)"
    "responseTime s1 = responseTime s" "L1 = strips {NPend t} L"
proof -
  have b: "but t s L" by (rule sched_inv_but [OF I])
  have tk: "task_ok s L t" by (rule sched_inv_task [OF I])
  consider (rd) "is_ready (status s t)" | (pd) "\<not> is_ready (status s t)" "is_pend (status s t)"
    | (no) "\<not> is_ready (status s t)" "\<not> is_pend (status s t)" by blast
  then show thesis
  proof cases
    case rd
    have m: "mem L (NPri (unat (priority (tcb s t)))) (NPend t)"
      using tk rd i by (simp add: task_ok_def ready_def)
    have np: "\<not> is_pend (status s t)" using tk rd by (simp add: task_ok_def flags_ok_def)
    obtain s' h' bm L' where 1: "OsSchedTaskDeQueue t s = Some s'"
      "s' = s\<lparr>dl := h', g_queueBitmap := bm, g_taskCBArray := (g_taskCBArray s)(t :=
            (tcb s t)\<lparr>taskStatus := status s t AND NOT OS_TASK_STATUS_READY\<rparr>)\<rparr>"
      "but t s' L'"
      "L' = L(NPri (unat (priority (tcb s t))) \<mapsto> remove1 (NPend t) (the (L (NPri (unat (priority (tcb s t)))))))"
      and M: "\<And>q' m. mem L' q' m \<longleftrightarrow> mem L q' m \<and> m \<noteq> NPend t"
      by (rule dequeue_law [OF b m rd i]) (rule that; assumption)
    have F: "frame t s s'" unfolding 1(2) by (rule frame_upd)
    have st: "bit (status s' t) k = (bit (status s t) k \<and> k \<noteq> 2 \<and> k \<noteq> 3)" for k
      using np by (auto simp: 1(2) flag_simps dest: bit_le16)
    have Q: "L' = strips {NPend t} L" using remove_strips [OF sched_inv_glob [OF I] m] by (simp add: 1(4))
    show thesis
      by (rule that [OF _ 1(3) F st _ Q]) (use rd 1 in \<open>simp_all add: flag_simps\<close>)
  next
    case pd
    obtain q where q: "wait_head q" "mem L q (NPend t)" using tk pd by (auto simp: task_ok_def)
    have np: "\<not> is_pri q" using q by (cases q) auto
    obtain h1 L1 where 1: "k_ListDelete (NPend t) s = Some (s\<lparr>dl := h1\<rparr>)" "but t (s\<lparr>dl := h1\<rparr>) L1"
      "L1 = L(q \<mapsto> remove1 (NPend t) (the (L q)))"
      and M1: "\<And>q' m. mem L1 q' m \<longleftrightarrow> mem L q' m \<and> m \<noteq> NPend t"
      by (rule but_delete_pend [OF b q(2) np]) (rule that; assumption)
    let ?s1 = "clr_status t OS_TASK_STATUS_PEND (s\<lparr>dl := h1\<rparr>)"
    have F1: "frame t s ?s1" by (rule frame_trans [OF frame_upd(6) frame_upd(3)])
    have st: "bit (status ?s1 t) k = (bit (status s t) k \<and> k \<noteq> 2 \<and> k \<noteq> 3)" for k
      using pd by (auto simp: flag_simps dest: bit_le16)
    have Q: "L1 = strips {NPend t} L" using remove_strips [OF sched_inv_glob [OF I] q(2)] by (simp add: 1(3))
    show thesis
      by (rule that [OF _ _ F1 st _ Q]) (use pd 1 in \<open>simp_all add: flag_simps\<close>)
  next
    case no
    have st: "bit (status s t) k = (bit (status s t) k \<and> k \<noteq> 2 \<and> k \<noteq> 3)" for k using no by auto
    have nm: "\<not> mem L q (NPend t)" for q
      using inv_free [OF I _ no(2) nu] no(1) by (simp add: ready_def)
    have Q: "L = strips {NPend t} L" using nm by (intro ext, subst strips_eq) auto
    show thesis
      by (rule that [OF _ b frame_refl st _ Q]) (use no in \<open>simp_all add: flag_simps\<close>)
  qed
qed

lemma task_exit_law:
  assumes I: "sched_inv s L" and nu: "\<not> is_unused (status s t)" and i: "taskID (tcb s t) \<noteq> g_idleTaskID s"
  obtains s' L' where "OsSchedTaskExit t s = Some s'" "sched_inv s' L'" "frame t s s'"
    "\<And>k. bit (status s' t) k = (k = 8 \<or> (bit (status s t) k \<and> k \<noteq> 2 \<and> k \<noteq> 3 \<and> k \<noteq> 5 \<and> k \<noteq> 7))"
    "\<And>q. \<not> mem L' q (NPend t)" "\<And>q. \<not> mem L' q (NSort t)"
    "\<And>q. q \<noteq> NTaskSort \<Longrightarrow> L' q = strips {NPend t} L q"
proof -
  note S = inv_sort [OF I nu]
  obtain s1 L1 where 1: "(if status s t AND OS_TASK_STATUS_READY \<noteq> 0 then OsSchedTaskDeQueue t s
      else if status s t AND OS_TASK_STATUS_PEND \<noteq> 0
      then do { s \<leftarrow> k_ListDelete (NPend t) s; Some (clr_status t OS_TASK_STATUS_PEND s) }
      else Some s) = Some s1"
    "but t s1 L1" "frame t s s1" and st1: "\<And>k. bit (status s1 t) k = (bit (status s t) k \<and> k \<noteq> 2 \<and> k \<noteq> 3)"
    and r1: "responseTime s1 = responseTime s" and Q1: "L1 = strips {NPend t} L"
    by (rule detach_pend_law [OF I nu i]) (rule that; assumption)
  have n1: "\<not> mem L1 q (NPend t)" for q by (simp add: Q1 mem_strips)
  have M1: "mem L1 q n = mem L q n" if "n \<noteq> NPend t" for q n using that by (simp add: Q1 mem_strips)
  have link: "responseTime s1 (NSort t) \<noteq> OS_SORT_LINK_INVALID_TIME \<longleftrightarrow> mem L1 NTaskSort (NSort t)"
    using S(1) by (simp add: M1 r1)
  obtain s2 L2 where 2: "(if status s1 t AND (OS_TASK_STATUS_DELAY OR OS_TASK_STATUS_PEND_TIME) \<noteq> 0
          then do {
            s \<leftarrow> OsDeleteSortLink (NSort t) s1;
            Some (clr_status t (OS_TASK_STATUS_DELAY OR OS_TASK_STATUS_PEND_TIME) s)
          }
          else Some s1) = Some s2"
    "but t s2 L2" "frame t s1 s2" "responseTime s2 (NSort t) = OS_SORT_LINK_INVALID_TIME"
    "\<not> mem L2 NTaskSort (NSort t)"
    and st2: "\<And>k. bit (status s2 t) k = (bit (status s1 t) k \<and> k \<noteq> 5 \<and> k \<noteq> 7)"
    and M2: "\<And>q n. n \<noteq> NSort t \<Longrightarrow> mem L2 q n = mem L1 q n"
    and Q2: "\<And>q. q \<noteq> NTaskSort \<Longrightarrow> L2 q = L1 q"
  proof (cases "is_delay (status s1 t) \<or> is_pend_time (status s1 t)")
    case True
    obtain s' L' where 3: "OsDeleteSortLink (NSort t) s1 = Some s'" "but t s' L'" "frame t s1 s'"
      "tcb s' t = tcb s1 t" "responseTime s' (NSort t) = OS_SORT_LINK_INVALID_TIME"
      and M3: "\<And>q' m. mem L' q' m \<longleftrightarrow> mem L1 q' m \<and> (q' = NTaskSort \<longrightarrow> m \<noteq> NSort t)"
      and Q3: "\<And>q. q \<noteq> NTaskSort \<Longrightarrow> L' q = L1 q"
      by (rule delete_sort_link_law [OF 1(2) link]) (rule that; assumption)
    let ?s2 = "clr_status t (OS_TASK_STATUS_DELAY OR OS_TASK_STATUS_PEND_TIME) s'"
    have st: "bit (status ?s2 t) k = (bit (status s1 t) k \<and> k \<noteq> 5 \<and> k \<noteq> 7)" for k
      by (auto simp: 3(4) flag_simps dest: bit_le16)
    show thesis
      by (rule that [OF _ _ frame_trans [OF 3(3) frame_upd(3)] _ _ st, of L'])
         (use True 3 M3 Q3 in \<open>simp_all add: flag_simps\<close>)
  next
    case False
    have nd: "\<not> delayed s t" using False by (simp add: delayed_def st1)
    have st: "bit (status s1 t) k = (bit (status s1 t) k \<and> k \<noteq> 5 \<and> k \<noteq> 7)" for k using False by auto
    show thesis
      by (rule that [OF _ 1(2) frame_refl _ _ st])
         (use False S nd M1 r1 in \<open>simp_all add: flag_simps\<close>)
  qed
  let ?s = "or_status t OS_TASK_STATUS_EXIT s2"
  have F: "frame t s ?s" by (rule frame_trans [OF frame_trans [OF 1(3) 2(3)] frame_upd(2)])
  have st: "bit (status ?s t) k = (k = 8 \<or> (bit (status s t) k \<and> k \<noteq> 2 \<and> k \<noteq> 3 \<and> k \<noteq> 5 \<and> k \<noteq> 7))" for k
    by (auto simp: flag_simps st2 st1)
  have O: "OsSchedTaskExit t s = Some ?s"
    unfolding OsSchedTaskExit_def using 1(1) 2(1) by (simp only: Option.bind.bind_lunit)
  have n2: "\<not> mem L2 q (NPend t)" for q using M2 n1 by simp
  have T: "task_ok ?s L2 t"
  proof (rule task_ok_idle_nodes)
    show "flags_ok (status ?s t)" using sched_inv_flags [OF I, of t] nu unfolding flags_ok_def st by simp
    show "\<not> is_ready (status ?s t)" "\<not> is_pend (status ?s t)" "\<not> delayed ?s t"
      unfolding delayed_def st by simp_all
    show "is_running (status ?s t) \<and> \<not> is_unused (status ?s t) \<longrightarrow> runTask ?s = Some t"
      "unat (priority (tcb ?s t)) < 32" "taskID (tcb ?s t) \<noteq> g_idleTaskID ?s"
      using sched_inv_task [OF I, of t] nu i
      unfolding st frame_sel [OF F] frame_core_sel [OF F, of t] by (simp_all add: task_ok_def)
  qed (use n2 2(4,5) in simp_all)
  have R: "run_ok ?s" by (rule run_ok_frame [OF sched_inv_run_ok [OF I] F]) (simp add: st del: or_clr_sel)
  have B: "but t ?s L2" using 2(2) by simp
  have ns: "\<not> mem L2 q (NSort t)" for q
    using 2(2,5) glob_ok_holds [of s2 L2 q "NSort t"] unfolding but_def by auto
  show thesis by (rule that [OF O but_close [OF B T R] F st n2 ns]) (simp add: Q2 Q1)
qed

lemma inv_ready:
  assumes I: "sched_inv s L" and r: "is_ready (status s t)"
  shows "\<not> is_pend (status s t)" "\<not> is_delay (status s t)" "\<not> is_unused (status s t)" "\<not> is_exit (status s t)"
    "\<not> is_freeze (status s t)" "\<not> is_running (status s t)" "\<not> is_suspend (status s t)" "\<not> delayed s t"
    "unat (priority (tcb s t)) < 32"
  using sched_inv_task [OF I, of t] r unfolding task_ok_def flags_ok_def delayed_def by auto

lemma inv_ready_mem:
  assumes "sched_inv s L" "ready s t"
  shows "mem L (NPri (unat (priority (tcb s t)))) (NPend t)"
  using sched_inv_task [OF assms(1), of t] assms(2) unfolding task_ok_def by blast

text \<open>Taking a ready task out of its queue leaves it in no list at all.\<close>

lemma dequeue_ready_law:
  assumes I: "sched_inv s L" and r: "ready s t"
  obtains s' L' where "OsSchedTaskDeQueue t s = Some s'" "but t s' L'" "frame t s s'"
    "tcb s' t = (tcb s t)\<lparr>taskStatus := status s t AND NOT OS_TASK_STATUS_READY\<rparr>"
    "\<And>k. bit (status s' t) k = (bit (status s t) k \<and> k \<noteq> 2)"
    "\<And>q. \<not> mem L' q (NPend t)" "\<And>q. \<not> mem L' q (NSort t)"
    "responseTime s' (NSort t) = OS_SORT_LINK_INVALID_TIME" "run_ok s'"
    "\<And>q. q \<noteq> NPri (unat (priority (tcb s t))) \<Longrightarrow> L' q = L q"
proof -
  have rd: "is_ready (status s t)" and i: "taskID (tcb s t) \<noteq> g_idleTaskID s" using r by (simp_all add: ready_def)
  note R = inv_ready [OF I rd]
  obtain s' h' bm L' where 1: "OsSchedTaskDeQueue t s = Some s'"
    "s' = s\<lparr>dl := h', g_queueBitmap := bm, g_taskCBArray := (g_taskCBArray s)(t :=
            (tcb s t)\<lparr>taskStatus := status s t AND NOT OS_TASK_STATUS_READY\<rparr>)\<rparr>"
    "but t s' L'"
    "L' = L(NPri (unat (priority (tcb s t))) \<mapsto> remove1 (NPend t) (the (L (NPri (unat (priority (tcb s t)))))))"
    and M: "\<And>q' m. mem L' q' m \<longleftrightarrow> mem L q' m \<and> m \<noteq> NPend t"
    by (rule dequeue_law [OF sched_inv_but [OF I] inv_ready_mem [OF I r] rd i]) (rule that; assumption)
  have F: "frame t s s'" unfolding 1(2) by (rule frame_upd)
  have st: "bit (status s' t) k = (bit (status s t) k \<and> k \<noteq> 2)" for k
    by (auto simp: 1(2) flag_simps dest: bit_le16)
  have ns: "\<not> mem L' q (NSort t)" for q
    using inv_sort(2) [OF I R(3)] R(8) glob_ok_holds [OF sched_inv_glob [OF I], of q "NSort t"] by (auto simp: M)
  have rt: "responseTime s' (NSort t) = OS_SORT_LINK_INVALID_TIME"
    using inv_sort [OF I R(3)] R(8) by (auto simp: 1(2))
  have run: "run_ok s'" by (rule run_ok_frame [OF sched_inv_run_ok [OF I] F]) (simp add: st)
  have np: "\<not> mem L' q (NPend t)" for q by (simp add: M)
  show thesis by (rule that [OF 1(1) 1(3) F _ st np ns rt run]) (simp_all add: 1(2) 1(4))
qed

lemma suspend_law:
  assumes I: "sched_inv s L" and nu: "\<not> is_unused (status s t)" and i: "taskID (tcb s t) \<noteq> g_idleTaskID s"
    and pm: "\<not> pmMode s"
  obtains s' L' where "OsSchedSuspend t s = Some s'" "sched_inv s' L'" "frame t s s'"
    "\<And>k. bit (status s' t) k = (k = 1 \<or> (bit (status s t) k \<and> k \<noteq> 2))"
    "\<And>q. \<not> is_pri q \<Longrightarrow> L' q = L q" "sw_core (tcb s' t) = sw_core (tcb s t)"
proof (cases "is_ready (status s t)")
  case True
  note R = inv_ready [OF I True]
  have rd: "ready s t" using True i by (simp add: ready_def)
  obtain s1 L1 where 1: "OsSchedTaskDeQueue t s = Some s1" "but t s1 L1" "frame t s s1"
    "tcb s1 t = (tcb s t)\<lparr>taskStatus := status s t AND NOT OS_TASK_STATUS_READY\<rparr>"
    and st1: "\<And>k. bit (status s1 t) k = (bit (status s t) k \<and> k \<noteq> 2)"
    and n1: "\<And>q. \<not> mem L1 q (NPend t)" "\<And>q. \<not> mem L1 q (NSort t)"
    and r1: "responseTime s1 (NSort t) = OS_SORT_LINK_INVALID_TIME" "run_ok s1"
    and Q1: "\<And>q. q \<noteq> NPri (unat (priority (tcb s t))) \<Longrightarrow> L1 q = L q"
    by (rule dequeue_ready_law [OF I rd]) (rule that; assumption)
  let ?s = "or_status t OS_TASK_STATUS_SUSPEND s1"
  have F: "frame t s ?s" by (rule frame_trans [OF 1(3) frame_upd(2)])
  have st: "bit (status ?s t) k = (k = 1 \<or> (bit (status s t) k \<and> k \<noteq> 2))" for k
    by (auto simp: flag_simps st1)
  have O: "OsSchedSuspend t s = Some ?s"
    using 1(1) True pm frame_sel(11) [OF 1(3)] by (simp add: OsSchedSuspend_def flag_simps)
  have T: "task_ok ?s L1 t"
  proof (rule task_ok_idle_nodes)
    show "flags_ok (status ?s t)" using sched_inv_flags [OF I, of t] R unfolding flags_ok_def st by simp
    show "\<not> is_ready (status ?s t)" "\<not> is_pend (status ?s t)" "\<not> delayed ?s t"
      using R sched_inv_flags [OF I, of t] unfolding delayed_def st flags_ok_def by auto
    show "is_running (status ?s t) \<and> \<not> is_unused (status ?s t) \<longrightarrow> runTask ?s = Some t"
      "unat (priority (tcb ?s t)) < 32" "taskID (tcb ?s t) \<noteq> g_idleTaskID ?s"
      using sched_inv_task [OF I, of t] nu i
      unfolding st frame_sel [OF F] frame_core_sel [OF F, of t] by (simp_all add: task_ok_def)
  qed (use n1 r1 in simp_all)
  have R2: "run_ok ?s" by (rule run_ok_frame [OF sched_inv_run_ok [OF I] F]) (simp add: st del: or_clr_sel)
  have B: "but t ?s L1" using 1(2) by simp
  have Q: "L1 q = L q" if "\<not> is_pri q" for q using that by (intro Q1) auto
  have c: "sw_core (tcb ?s t) = sw_core (tcb s t)" by (simp add: 1(4) sw_core_def)
  show thesis by (rule that [OF O but_close [OF B T R2] F st Q c])
next
  case False
  let ?s = "or_status t OS_TASK_STATUS_SUSPEND s"
  have F: "frame t s ?s" by (rule frame_upd(2))
  have st: "bit (status ?s t) k = (k = 1 \<or> (bit (status s t) k \<and> k \<noteq> 2))" for k
    using False by (auto simp: flag_simps)
  have O: "OsSchedSuspend t s = Some ?s"
    using False pm by (simp add: OsSchedSuspend_def flag_simps)
  have T: "task_ok ?s L t"
    using sched_inv_task [OF I, of t] False i
    unfolding task_ok_def loc_ok_def ready_def delayed_def flags_ok_def st frame_sel [OF F] frame_core_sel [OF F, of t]
    by simp
  have R2: "run_ok ?s" by (rule run_ok_frame [OF sched_inv_run_ok [OF I] F]) (simp add: st del: or_clr_sel)
  have B: "but t ?s L" using sched_inv_but [OF I] by simp
  have c: "sw_core (tcb ?s t) = sw_core (tcb s t)" by (simp add: sw_core_def)
  show thesis by (rule that [OF O but_close [OF B T R2] F st refl c])
qed

lemma resume_law:
  assumes I: "sched_inv s L" and nu: "\<not> is_unused (status s t)" and i: "taskID (tcb s t) \<noteq> g_idleTaskID s"
    and nr: "\<not> is_ready (status s t)" "\<not> is_running (status s t)" "\<not> is_exit (status s t)"
  obtains s' L' where
    "OsSchedResume t s = Some (\<not> is_pend (status s t) \<and> \<not> is_delay (status s t), s')"
    "sched_inv s' L'" "frame t s s'"
    "\<And>k. k \<noteq> 2 \<Longrightarrow> bit (status s' t) k = (bit (status s t) k \<and> k \<noteq> 1)"
    "is_ready (status s' t) \<longleftrightarrow> \<not> is_pend (status s t) \<and> \<not> is_delay (status s t)"
    "\<And>q. \<not> is_pri q \<Longrightarrow> L' q = L q" "sw_core (tcb s' t) = sw_core (tcb s t)"
proof -
  have fz: "\<not> is_freeze (status s t)" using sched_inv_flags [OF I, of t] by (simp add: flags_ok_def)
  let ?s = "clr_status t OS_TASK_STATUS_SUSPEND s"
  have F: "frame t s ?s" by (rule frame_upd(3))
  have st: "bit (status ?s t) k = (bit (status s t) k \<and> k \<noteq> 1)" for k
    by (auto simp: flag_simps dest: bit_le16)
  have B: "but t ?s L" using sched_inv_but [OF I] by simp
  have R2: "run_ok ?s" by (rule run_ok_frame [OF sched_inv_run_ok [OF I] F]) (simp add: st del: or_clr_sel)
  show thesis
  proof (cases "is_pend (status s t) \<or> is_delay (status s t)")
    case True
    have O: "OsSchedResume t s = Some (\<not> is_pend (status s t) \<and> \<not> is_delay (status s t), ?s)"
      using True fz by (auto simp: OsSchedResume_def flag_simps)
    have T: "task_ok ?s L t"
      using sched_inv_task [OF I, of t] nr
      unfolding task_ok_def loc_ok_def ready_def delayed_def flags_ok_def st frame_sel [OF F] frame_core_sel [OF F, of t]
      by simp
    show thesis
      by (rule that [OF O but_close [OF B T R2] F]) (use True nr st in \<open>auto simp: sw_core_def\<close>)
  next
    case False
    have n: "\<forall>q. \<not> mem L q (NPend t)" using inv_free [OF I _ _ nu] nr False by (simp add: ready_def)
    have nd: "\<not> delayed s t"
      using False sched_inv_flags [OF I, of t] by (auto simp: delayed_def flags_ok_def)
    note S = inv_sort [OF I nu]
    have E: "\<not> mem L NTaskSort (NSort t)" "responseTime ?s (NSort t) = OS_SORT_LINK_INVALID_TIME"
      "unat (priority (tcb ?s t)) < 32" "taskID (tcb ?s t) \<noteq> g_idleTaskID ?s"
      "\<not> is_ready (status ?s t)" "\<not> is_running (status ?s t)" "\<not> is_unused (status ?s t)"
      "\<not> is_exit (status ?s t)" "\<not> is_freeze (status ?s t)"
      using S nd nr i fz nu sched_inv_task [OF I, of t]
      by (auto simp: st task_ok_def simp del: or_clr_sel) (auto simp: flag_simps)
    obtain s' h' bm L' where 4: "OsSchedTaskEnQueue t ?s = Some s'"
      "s' = ?s\<lparr>dl := h', g_queueBitmap := bm, g_taskCBArray := (g_taskCBArray ?s)(t := enq_tcb ?s (tcb ?s t))\<rparr>"
      "sched_inv s' L'"
      "L' = L(NPri (unat (priority (tcb ?s t))) \<mapsto>
         (if g_schedTimeSliceMin ?s <s timeSlice (tcb ?s t)
          then NPend t # the (L (NPri (unat (priority (tcb ?s t)))))
          else the (L (NPri (unat (priority (tcb ?s t))))) @ [NPend t]))"
      by (rule enqueue_inv [OF B n E R2]) (rule that; assumption)
    have F': "frame t s s'" unfolding 4(2) by (rule frame_trans [OF F frame_upd(4)])
    have Q: "L' q = L q" if "\<not> is_pri q" for q using that by (auto simp: 4(4))
    have O: "OsSchedResume t s = Some (\<not> is_pend (status s t) \<and> \<not> is_delay (status s t), s')"
      using False fz 4(1) by (simp add: OsSchedResume_def flag_simps)
    have c: "sw_core (tcb s' t) = sw_core (tcb s t)"
      by (cases "tcb s t") (simp add: 4(2) enq_tcb_def sw_core_def)
    show thesis
    proof (rule that [OF O 4(3) F' _ _ Q c])
      fix k :: nat assume "k \<noteq> 2"
      with False nd nr show "bit (status s' t) k = (bit (status s t) k \<and> k \<noteq> 1)"
        by (auto simp: 4(2) flag_simps delayed_def dest: bit_le16)
    qed (use False in \<open>simp_all add: 4(2) flag_simps\<close>)
  qed
qed

subsection \<open>Change of priority\<close>

abbreviation set_prio :: "nat \<Rightarrow> u16 \<Rightarrow> kstate \<Rightarrow> kstate" where
  "set_prio t prio \<equiv> upd_tcb t (\<lambda>c. c\<lparr>priority := prio\<rparr>)"

lemma core_set_prio: "core (c\<lparr>priority := p\<rparr>) = (core c)\<lparr>priority := p\<rparr>"
  by (cases c) (simp add: core_def)

lemma kcore_upd_tcb: "kcore (upd_tcb t f s) = (kcore s)\<lparr>g_taskCBArray := \<lambda>_. tcb (upd_tcb t f s) 0\<rparr>"
  by (simp add: kcore_def upd_tcb_def)

lemma frame_set_prio:
  assumes "frame t s s'"
  shows "frame t (set_prio t p s) (set_prio t p s')"
proof -
  have "\<exists>a. kcore (set_prio t p s') = (kcore (set_prio t p s))\<lparr>g_taskCBArray := a\<rparr>"
    by (subst (1 2) kcore_upd_tcb, subst frame_kcore [OF assms]) auto
  with assms show ?thesis by (simp add: frame_def upd_tcb_def core_set_prio)
qed

lemma modify_law:
  assumes I: "sched_inv s L" and nu: "\<not> is_unused (status s t)" and i: "taskID (tcb s t) \<noteq> g_idleTaskID s"
    and p: "unat prio < 32"
  obtains s' L' where
    "OsSchedModifyTaskSchedParam t prio s = Some (is_ready (status s t) \<or> is_running (status s t), s')"
    "sched_inv s' L'" "frame t (set_prio t prio s) s'" "priority (tcb s' t) = prio"
    "status s' t = status s t" "\<And>q. \<not> is_pri q \<Longrightarrow> L' q = L q"
    "sw_core (tcb s' t) = sw_core ((tcb s t)\<lparr>priority := prio\<rparr>)"
proof (cases "is_ready (status s t)")
  case True
  note R = inv_ready [OF I True]
  have rd: "ready s t" using True i by (simp add: ready_def)
  obtain s1 L1 where 1: "OsSchedTaskDeQueue t s = Some s1" "but t s1 L1" "frame t s s1"
    "tcb s1 t = (tcb s t)\<lparr>taskStatus := status s t AND NOT OS_TASK_STATUS_READY\<rparr>"
    and st1: "\<And>k. bit (status s1 t) k = (bit (status s t) k \<and> k \<noteq> 2)"
    and n1: "\<And>q. \<not> mem L1 q (NPend t)" "\<And>q. \<not> mem L1 q (NSort t)"
    and r1: "responseTime s1 (NSort t) = OS_SORT_LINK_INVALID_TIME" "run_ok s1"
    and Q1: "\<And>q. q \<noteq> NPri (unat (priority (tcb s t))) \<Longrightarrow> L1 q = L q"
    by (rule dequeue_ready_law [OF I rd]) (rule that; assumption)
  let ?s = "set_prio t prio s1"
  have B: "but t ?s L1" using 1(2) by simp
  have tcb: "tcb ?s t = (tcb s t)\<lparr>taskStatus := status s t AND NOT OS_TASK_STATUS_READY, priority := prio\<rparr>"
    "responseTime ?s = responseTime s1" "g_idleTaskID ?s = g_idleTaskID s1"
    using 1(4) by (simp_all add: upd_tcb_def)
  have st: "bit (status ?s t) k = (bit (status s t) k \<and> k \<noteq> 2)" for k
    using st1 by (simp add: upd_tcb_def)
  have R2: "run_ok ?s" using r1(2) by (auto simp: run_ok_def upd_tcb_def)
  have E: "\<not> mem L1 NTaskSort (NSort t)" "responseTime ?s (NSort t) = OS_SORT_LINK_INVALID_TIME"
    "unat (priority (tcb ?s t)) < 32" "taskID (tcb ?s t) \<noteq> g_idleTaskID ?s"
    "\<not> is_ready (status ?s t)" "\<not> is_running (status ?s t)" "\<not> is_unused (status ?s t)"
    "\<not> is_exit (status ?s t)" "\<not> is_freeze (status ?s t)"
    using n1 r1 p i R frame_sel(4) [OF 1(3)] unfolding st by (simp_all add: tcb)
  have n: "\<forall>q. \<not> mem L1 q (NPend t)" using n1 by simp
  obtain s' h' bm L' where 4: "OsSchedTaskEnQueue t ?s = Some s'"
      "s' = ?s\<lparr>dl := h', g_queueBitmap := bm, g_taskCBArray := (g_taskCBArray ?s)(t := enq_tcb ?s (tcb ?s t))\<rparr>"
      "sched_inv s' L'"
      "L' = L1(NPri (unat (priority (tcb ?s t))) \<mapsto>
         (if g_schedTimeSliceMin ?s <s timeSlice (tcb ?s t)
          then NPend t # the (L1 (NPri (unat (priority (tcb ?s t)))))
          else the (L1 (NPri (unat (priority (tcb ?s t))))) @ [NPend t]))"
    by (rule enqueue_inv [OF B n E R2]) (rule that; assumption)
  have F: "frame t (set_prio t prio s) s'"
    unfolding 4(2) by (rule frame_trans [OF frame_set_prio [OF 1(3)] frame_upd(4)])
  have ss: "status s' t = status s t"
  proof (rule bit_eqI)
    fix k
    have "bit (status s' t) k = (k = 2 \<or> (bit (status s t) k \<and> k \<noteq> 1 \<and> k \<noteq> 3 \<and> k \<noteq> 5 \<and> k \<noteq> 7))"
      by (auto simp: 4(2) tcb(1) flag_simps dest: bit_le16)
    then show "bit (status s' t) k = bit (status s t) k"
      using R sched_inv_flags [OF I, of t] True by (auto simp: flags_ok_def)
  qed
  have O: "OsSchedModifyTaskSchedParam t prio s = Some (is_ready (status s t) \<or> is_running (status s t), s')"
    using True 1(1) 4(1) by (simp add: OsSchedModifyTaskSchedParam_def flag_simps)
  have Q: "L' q = L q" if "\<not> is_pri q" for q
    using that Q1 [of q] by (cases q) (auto simp: 4(4))
  have c: "sw_core (tcb s' t) = sw_core ((tcb s t)\<lparr>priority := prio\<rparr>)"
    by (cases "tcb s t") (simp add: 4(2) tcb(1) enq_tcb_def sw_core_def)
  show thesis
    by (rule that [OF O 4(3) F _ ss Q c]) (simp_all add: 4(2) tcb(1))
next
  case False
  let ?s = "set_prio t prio s"
  have B: "but t ?s L" using sched_inv_but [OF I] by simp
  have sel: "tcb ?s t = (tcb s t)\<lparr>priority := prio\<rparr>" "responseTime ?s = responseTime s"
    "runTask ?s = runTask s" "g_idleTaskID ?s = g_idleTaskID s" by (simp_all add: upd_tcb_def)
  have R2: "run_ok ?s" using sched_inv_run_ok [OF I] by (auto simp: run_ok_def upd_tcb_def)
  have T: "task_ok ?s L t"
    using sched_inv_task [OF I, of t] False p i
    unfolding task_ok_def loc_ok_def ready_def delayed_def flags_ok_def sel by auto
  have O: "OsSchedModifyTaskSchedParam t prio s = Some (is_ready (status s t) \<or> is_running (status s t), ?s)"
    using False by (simp add: OsSchedModifyTaskSchedParam_def sel flag_simps)
  show thesis
    by (rule that [OF O but_close [OF B T R2] frame_refl]) (simp_all add: sel)
qed

subsection \<open>Timeouts\<close>

text \<open>What the expiry of its timeout does to a task.\<close>

definition woken :: "kstate \<Rightarrow> kstate \<Rightarrow> nat \<Rightarrow> bool" where
  "woken s s' t \<longleftrightarrow>
     \<not> is_pend (status s' t) \<and> \<not> is_delay (status s' t) \<and> \<not> is_pend_time (status s' t) \<and>
     (is_timeout (status s' t) \<longleftrightarrow> is_pend (status s t) \<or> is_timeout (status s t)) \<and>
     (is_ready (status s' t) \<longleftrightarrow> \<not> is_suspend (status s t)) \<and>
     (\<forall>k. k \<noteq> 2 \<longrightarrow> k \<noteq> 3 \<longrightarrow> k \<noteq> 5 \<longrightarrow> k \<noteq> 6 \<longrightarrow> k \<noteq> 7 \<longrightarrow> bit (status s' t) k = bit (status s t) k)"

lemma inv_delayed:
  assumes I: "sched_inv s L" and d: "delayed s t"
  shows "is_pend (status s t) \<or> is_delay (status s t)" "\<not> is_ready (status s t)" "\<not> is_running (status s t)"
    "\<not> is_unused (status s t)" "\<not> is_exit (status s t)" "\<not> is_freeze (status s t)"
    "taskID (tcb s t) \<noteq> g_idleTaskID s" "unat (priority (tcb s t)) < 32"
  using sched_inv_task [OF I, of t] d unfolding task_ok_def flags_ok_def delayed_def by auto

text \<open>Second half of OsSchedWakePendTimeTask: out of the wait list, if the task was pending.\<close>

lemma timeout_detach_law:
  assumes b: "but t s L" and st: "is_pend (status s t) \<or> is_delay (status s t)"
    and loc: "is_pend (status s t) \<longrightarrow> (\<exists>q. wait_head q \<and> mem L q (NPend t))"
    and n: "\<not> is_pend (status s t) \<longrightarrow> (\<forall>q. \<not> mem L q (NPend t))"
  obtains s1 L1 where
    "(if status s t AND OS_TASK_STATUS_PEND \<noteq> 0
      then do {
        let s = or_status t OS_TASK_STATUS_TIMEOUT
          (clr_status t (OS_TASK_STATUS_PEND OR OS_TASK_STATUS_PEND_TIME OR OS_TASK_STATUS_DELAY) s);
        s \<leftarrow> k_ListDelete (NPend t) s;
        Some (upd_tcb t (\<lambda>c. c\<lparr>taskMux := None, taskSem := None\<rparr>) s)
      }
      else Some (clr_status t (OS_TASK_STATUS_PEND OR OS_TASK_STATUS_PEND_TIME OR OS_TASK_STATUS_DELAY) s)) = Some s1"
    "but t s1 L1" "frame t s s1" "responseTime s1 = responseTime s" "\<forall>q. \<not> mem L1 q (NPend t)"
    "\<And>k. bit (status s1 t) k = ((k = 6 \<and> is_pend (status s t)) \<or> (bit (status s t) k \<and> k \<noteq> 3 \<and> k \<noteq> 5 \<and> k \<noteq> 7))"
    "L1 = strips {NPend t} L"
proof (cases "is_pend (status s t)")
  case True
  obtain q where q: "wait_head q" "mem L q (NPend t)" using loc True by blast
  have np: "\<not> is_pri q" using q by (cases q) auto
  let ?s0 = "or_status t OS_TASK_STATUS_TIMEOUT
          (clr_status t (OS_TASK_STATUS_PEND OR OS_TASK_STATUS_PEND_TIME OR OS_TASK_STATUS_DELAY) s)"
  have b0: "but t ?s0 L" using b by simp
  obtain h1 L1 where 1: "k_ListDelete (NPend t) ?s0 = Some (?s0\<lparr>dl := h1\<rparr>)" "but t (?s0\<lparr>dl := h1\<rparr>) L1"
      "L1 = L(q \<mapsto> remove1 (NPend t) (the (L q)))"
    and M1: "\<And>q' m. mem L1 q' m \<longleftrightarrow> mem L q' m \<and> m \<noteq> NPend t"
    by (rule but_delete_pend [OF b0 q(2) np]) (rule that; assumption)
  let ?s1 = "upd_tcb t (\<lambda>c. c\<lparr>taskMux := None, taskSem := None\<rparr>) (?s0\<lparr>dl := h1\<rparr>)"
  have F: "frame t s ?s1"
    by (rule frame_trans [OF frame_trans [OF frame_trans [OF frame_upd(3) frame_upd(2)] frame_upd(6)] frame_upd(9)])
  have B: "but t ?s1 L1" using 1(2) by simp
  have st1: "bit (status ?s1 t) k = ((k = 6 \<and> is_pend (status s t)) \<or> (bit (status s t) k \<and> k \<noteq> 3 \<and> k \<noteq> 5 \<and> k \<noteq> 7))" for k
    using True by (auto simp: upd_tcb_def flag_simps dest: bit_le16)
  have n1: "\<forall>q. \<not> mem L1 q (NPend t)" using M1 by simp
  have Q: "L1 = strips {NPend t} L" using b remove_strips [of s L, OF _ q(2)] by (simp add: but_def 1(3))
  show thesis
    by (rule that [OF _ B F _ n1 st1 Q]) (use True 1(1) M1 in \<open>simp_all add: flag_simps upd_tcb_def\<close>)
next
  case False
  let ?s1 = "clr_status t (OS_TASK_STATUS_PEND OR OS_TASK_STATUS_PEND_TIME OR OS_TASK_STATUS_DELAY) s"
  have B: "but t ?s1 L" using b by simp
  have st1: "bit (status ?s1 t) k = ((k = 6 \<and> is_pend (status s t)) \<or> (bit (status s t) k \<and> k \<noteq> 3 \<and> k \<noteq> 5 \<and> k \<noteq> 7))" for k
    using False by (auto simp: flag_simps dest: bit_le16)
  have Q: "L = strips {NPend t} L" using n False by (intro ext, subst strips_eq) auto
  show thesis
    by (rule that [OF _ B frame_upd(3) _ _ st1 Q]) (use False n in \<open>simp_all add: flag_simps\<close>)
qed

lemma wake_pend_time_unfold:
  assumes "is_pend (status s t) \<or> is_delay (status s t)"
    and "(if status s t AND OS_TASK_STATUS_PEND \<noteq> 0
      then do {
        let s = or_status t OS_TASK_STATUS_TIMEOUT
          (clr_status t (OS_TASK_STATUS_PEND OR OS_TASK_STATUS_PEND_TIME OR OS_TASK_STATUS_DELAY) s);
        s \<leftarrow> k_ListDelete (NPend t) s;
        Some (upd_tcb t (\<lambda>c. c\<lparr>taskMux := None, taskSem := None\<rparr>) s)
      }
      else Some (clr_status t (OS_TASK_STATUS_PEND OR OS_TASK_STATUS_PEND_TIME OR OS_TASK_STATUS_DELAY) s)) = Some s1"
  shows "OsSchedWakePendTimeTask t s =
    (if is_suspend (status s t) then Some (False, s1)
     else do { s \<leftarrow> OsSchedTaskEnQueue t s1; Some (True, s) })"
  using assms by (auto simp: OsSchedWakePendTimeTask_def Let_def flag_simps bind_Some_iff)

lemma expire_law:
  assumes I: "sched_inv s L" and m: "mem L NTaskSort (NSort t)"
  obtains s1 s' L' where "OsDeleteNodeSortLink (NSort t) s = Some s1"
    "OsSchedWakePendTimeTask t s1 = Some (\<not> is_suspend (status s t), s')"
    "sched_inv s' L'" "frame t s s'" "woken s s' t"
    "L' NTaskSort = Some (remove1 (NSort t) (the (L NTaskSort)))"
    "\<And>q. \<not> is_pri q \<Longrightarrow> q \<noteq> NTaskSort \<Longrightarrow> L' q = strips {NPend t} L q"
proof -
  have d: "delayed s t" using sched_inv_task [OF I, of t] m by (simp add: task_ok_def)
  note D = inv_delayed [OF I d]
  obtain s1 h1 L1 where 1: "OsDeleteNodeSortLink (NSort t) s = Some s1"
    "s1 = s\<lparr>dl := h1, responseTime := (responseTime s)(NSort t := OS_SORT_LINK_INVALID_TIME)\<rparr>"
    "but t s1 L1" "L1 = L(NTaskSort \<mapsto> remove1 (NSort t) (the (L NTaskSort)))"
    and M1: "\<And>q' m. mem L1 q' m \<longleftrightarrow> mem L q' m \<and> m \<noteq> NSort t"
    by (rule but_delete_sort [OF sched_inv_but [OF I] m]) (rule that; assumption)
  have F1: "frame t s s1" unfolding 1(2) by (rule frame_upd(8))
  have t1: "tcb s1 = tcb s" by (simp add: 1(2))
  have A1: "is_pend (status s1 t) \<or> is_delay (status s1 t)" using D(1) by (simp add: t1)
  have A2: "is_pend (status s1 t) \<longrightarrow> (\<exists>q. wait_head q \<and> mem L1 q (NPend t))"
    using sched_inv_task [OF I, of t] by (simp add: t1 M1 task_ok_def)
  have A3: "\<not> is_pend (status s1 t) \<longrightarrow> (\<forall>q. \<not> mem L1 q (NPend t))"
    using inv_free [OF I _ _ D(4)] D(2) by (simp add: t1 M1 ready_def)
  obtain s2 L2 where 2: "(if status s1 t AND OS_TASK_STATUS_PEND \<noteq> 0
      then do {
        let s = or_status t OS_TASK_STATUS_TIMEOUT
          (clr_status t (OS_TASK_STATUS_PEND OR OS_TASK_STATUS_PEND_TIME OR OS_TASK_STATUS_DELAY) s1);
        s \<leftarrow> k_ListDelete (NPend t) s;
        Some (upd_tcb t (\<lambda>c. c\<lparr>taskMux := None, taskSem := None\<rparr>) s)
      }
      else Some (clr_status t (OS_TASK_STATUS_PEND OR OS_TASK_STATUS_PEND_TIME OR OS_TASK_STATUS_DELAY) s1)) = Some s2"
    "but t s2 L2" "frame t s1 s2" "responseTime s2 = responseTime s1" "\<forall>q. \<not> mem L2 q (NPend t)"
    and st2: "\<And>k. bit (status s2 t) k = ((k = 6 \<and> is_pend (status s1 t)) \<or> (bit (status s1 t) k \<and> k \<noteq> 3 \<and> k \<noteq> 5 \<and> k \<noteq> 7))"
    and Q2: "L2 = strips {NPend t} L1"
    by (rule timeout_detach_law [OF 1(3) A1 A2 A3]) (rule that; assumption)
  have U: "OsSchedWakePendTimeTask t s1 = (if is_suspend (status s t) then Some (False, s2)
     else do { s \<leftarrow> OsSchedTaskEnQueue t s2; Some (True, s) })"
    using wake_pend_time_unfold [OF _ 2(1)] D(1) by (simp add: t1)
  have F2: "frame t s s2" by (rule frame_trans [OF F1 2(3)])
  have st: "bit (status s2 t) k = ((k = 6 \<and> is_pend (status s t)) \<or> (bit (status s t) k \<and> k \<noteq> 3 \<and> k \<noteq> 5 \<and> k \<noteq> 7))" for k
    unfolding st2 t1 ..
  have R2: "run_ok s2" by (rule run_ok_frame [OF sched_inv_run_ok [OF I] F2]) (simp add: st)
  have ns: "\<not> mem L2 NTaskSort (NSort t)" by (simp add: Q2 mem_strips M1)
  have rt: "responseTime s2 (NSort t) = OS_SORT_LINK_INVALID_TIME" using 2(4) by (simp add: 1(2))
  have LS: "L2 NTaskSort = Some (remove1 (NSort t) (the (L NTaskSort)))"
  proof -
    have "strips {NPend t} L1 NTaskSort = L1 NTaskSort"
      using glob_ok_holds [of s1 L1 NTaskSort "NPend t"] 1(3) by (intro strips_eq) (auto simp: but_def)
    then show ?thesis by (simp add: Q2 1(4))
  qed
  have LQ: "L2 q = strips {NPend t} L q" if "q \<noteq> NTaskSort" for q
    using that by (simp add: Q2 1(4) strips_def)
  note C2 = frame_core_sel [OF F2, of t] and K2 = frame_sel [OF F2]
  show thesis
  proof (cases "is_suspend (status s t)")
    case True
    have T: "task_ok s2 L2 t"
    proof (rule task_ok_idle_nodes)
      show "flags_ok (status s2 t)" using D sched_inv_flags [OF I, of t] unfolding flags_ok_def st by auto
    qed (use 2(5) ns rt D C2 K2 in \<open>simp_all add: st delayed_def\<close>)
    have W: "woken s s2 t" using True D by (auto simp: woken_def st)
    show thesis
      by (rule that [OF 1(1) _ but_close [OF 2(2) T R2] F2 W LS LQ]) (use True U in simp_all)
  next
    case False
    have E: "unat (priority (tcb s2 t)) < 32" "taskID (tcb s2 t) \<noteq> g_idleTaskID s2"
      "\<not> is_ready (status s2 t)" "\<not> is_running (status s2 t)" "\<not> is_unused (status s2 t)"
      "\<not> is_exit (status s2 t)" "\<not> is_freeze (status s2 t)"
      using D by (simp_all add: st C2 K2)
    obtain s' h' bm L' where 4: "OsSchedTaskEnQueue t s2 = Some s'"
      "s' = s2\<lparr>dl := h', g_queueBitmap := bm, g_taskCBArray := (g_taskCBArray s2)(t := enq_tcb s2 (tcb s2 t))\<rparr>"
      "sched_inv s' L'"
      "L' = L2(NPri (unat (priority (tcb s2 t))) \<mapsto>
         (if g_schedTimeSliceMin s2 <s timeSlice (tcb s2 t)
          then NPend t # the (L2 (NPri (unat (priority (tcb s2 t)))))
          else the (L2 (NPri (unat (priority (tcb s2 t))))) @ [NPend t]))"
      by (rule enqueue_inv [OF 2(2) 2(5) ns rt E R2]) (rule that; assumption)
    have F: "frame t s s'" unfolding 4(2) by (rule frame_trans [OF F2 frame_upd(4)])
    have W: "woken s s' t" using False D by (auto simp: woken_def 4(2) flag_simps st dest: bit_le16)
    have LS': "L' NTaskSort = Some (remove1 (NSort t) (the (L NTaskSort)))" using LS by (simp add: 4(4))
    have LQ': "L' q = strips {NPend t} L q" if "\<not> is_pri q" "q \<noteq> NTaskSort" for q
      using LQ [of q] that by (auto simp: 4(4))
    show thesis by (rule that [OF 1(1) _ 4(3) F W LS' LQ']) (use False U 4(1) in simp_all)
  qed
qed

lemma frames_single: "frame t s s' \<Longrightarrow> frames {t} s s'"
  unfolding frame_def frames_def by auto

lemma frames_trans:
  assumes "frames T s s'" "frames T' s' s''"
  shows "frames (T \<union> T') s s''"
  using assms unfolding frames_def by (auto simp: image_Un)

lemma frames_refl [simp]: "frames {} s s"
  unfolding frames_def by (auto intro!: exI [of _ "g_taskCBArray (kcore s)"])

lemma woken_cong: "status s u = status s1 u \<Longrightarrow> status s' u = status s'' u \<Longrightarrow> woken s s' u = woken s1 s'' u"
  by (simp add: woken_def)

lemma inv_sort_list:
  assumes I: "sched_inv s L" and q: "L NTaskSort = Some xs"
  shows "\<forall>x \<in> set xs. \<exists>t. x = NSort t" "distinct xs" "sorted (map (responseTime s) xs)"
proof -
  show "\<forall>x \<in> set xs. \<exists>t. x = NSort t"
  proof
    fix x assume "x \<in> set xs"
    then have "holds NTaskSort x" using glob_ok_holds [OF sched_inv_glob [OF I], of NTaskSort x] q by (auto simp: mem_def)
    then show "\<exists>t. x = NSort t" by (cases x) auto
  qed
  show "distinct xs" using dl_rep_distinct [OF glob_ok_rep [OF sched_inv_glob [OF I]] q] by simp
  show "sorted (map (responseTime s) xs)" using I q by (simp add: sched_inv_def glob_ok_def)
qed

text \<open>The tasks whose timeout is at or before \<open>now\<close>.\<close>

definition expired :: "u64 \<Rightarrow> kstate \<Rightarrow> node list \<Rightarrow> nat set" where
  "expired now s xs = {t. NSort t \<in> set (takeWhile (\<lambda>n. responseTime s n \<le> now) xs)}"

lemma scan_loop_law:
  "\<lbrakk> sched_inv s L; L NTaskSort = Some (NSort t # xs) \<rbrakk> \<Longrightarrow>
   \<exists>need s' L'. scan_timer_loop (NSort t) now b s = Some (need, s') \<and> sched_inv s' L' \<and>
     frames (expired now s (NSort t # xs)) s s' \<and>
     L' NTaskSort = Some (dropWhile (\<lambda>n. responseTime s n \<le> now) (NSort t # xs)) \<and>
     (\<forall>u \<in> expired now s (NSort t # xs). woken s s' u) \<and>
     (\<forall>q. \<not> is_pri q \<longrightarrow> q \<noteq> NTaskSort \<longrightarrow> L' q = strips (NPend ` expired now s (NSort t # xs)) L q)"
proof (induction xs arbitrary: s L t b)
  case (Nil s L t b)
  show ?case
  proof (cases "responseTime s (NSort t) \<le> now")
    case False
    have "scan_timer_loop (NSort t) now b s = Some (b, s)"
      by (subst scan_timer_loop.simps) (simp add: False)
    with Nil False show ?thesis by (auto simp: expired_def strips_eq)
  next
    case True
    have m: "mem L NTaskSort (NSort t)" using Nil by (simp add: mem_def)
    obtain s1 s' L' where 1: "OsDeleteNodeSortLink (NSort t) s = Some s1"
      "OsSchedWakePendTimeTask t s1 = Some (\<not> is_suspend (status s t), s')"
      "sched_inv s' L'" "frame t s s'" "woken s s' t"
      "L' NTaskSort = Some (remove1 (NSort t) (the (L NTaskSort)))"
      and Q: "\<And>q. \<not> is_pri q \<Longrightarrow> q \<noteq> NTaskSort \<Longrightarrow> L' q = strips {NPend t} L q"
      by (rule expire_law [OF Nil(1) m]) (rule that; assumption)
    have e: "L' NTaskSort = Some []" using 1(6) Nil(2) by simp
    have "k_ListEmpty NTaskSort s'" using list_empty [OF glob_ok_rep [OF sched_inv_glob [OF 1(3)]] e] by simp
    then have "scan_timer_loop (NSort t) now b s = Some (b \<or> \<not> is_suspend (status s t), s')"
      by (subst scan_timer_loop.simps) (simp add: True 1(1,2))
    moreover have "expired now s [NSort t] = {t}" using True by (auto simp: expired_def)
    ultimately show ?thesis using True e 1(3,5) frames_single [OF 1(4)] Q by auto
  qed
next
  case (Cons x xs s L t b)
  show ?case
  proof (cases "responseTime s (NSort t) \<le> now")
    case False
    have "scan_timer_loop (NSort t) now b s = Some (b, s)"
      by (subst scan_timer_loop.simps) (simp add: False)
    with Cons.prems False show ?thesis by (auto simp: expired_def strips_eq)
  next
    case True
    note S = inv_sort_list [OF Cons.prems]
    obtain t2 where x: "x = NSort t2" using S(1) by auto
    have m: "mem L NTaskSort (NSort t)" using Cons.prems by (simp add: mem_def)
    obtain s1 s2 L2 where 1: "OsDeleteNodeSortLink (NSort t) s = Some s1"
      "OsSchedWakePendTimeTask t s1 = Some (\<not> is_suspend (status s t), s2)"
      "sched_inv s2 L2" "frame t s s2" "woken s s2 t"
      "L2 NTaskSort = Some (remove1 (NSort t) (the (L NTaskSort)))"
      and Q: "\<And>q. \<not> is_pri q \<Longrightarrow> q \<noteq> NTaskSort \<Longrightarrow> L2 q = strips {NPend t} L q"
      by (rule expire_law [OF Cons.prems(1) m]) (rule that; assumption)
    have e: "L2 NTaskSort = Some (NSort t2 # xs)" using 1(6) Cons.prems(2) by (simp add: x)
    note R2 = glob_ok_rep [OF sched_inv_glob [OF 1(3)]]
    have ne: "\<not> k_ListEmpty NTaskSort s2" "pstNext (dl s2) NTaskSort = Some (NSort t2)"
      using list_empty [OF R2 e] list_first [OF R2 e] by simp_all
    obtain need s' L' where IH: "scan_timer_loop (NSort t2) now (b \<or> \<not> is_suspend (status s t)) s2 = Some (need, s')"
      "sched_inv s' L'" "frames (expired now s2 (NSort t2 # xs)) s2 s'"
      "L' NTaskSort = Some (dropWhile (\<lambda>n. responseTime s2 n \<le> now) (NSort t2 # xs))"
      "\<forall>u \<in> expired now s2 (NSort t2 # xs). woken s2 s' u"
      "\<forall>q. \<not> is_pri q \<longrightarrow> q \<noteq> NTaskSort \<longrightarrow> L' q = strips (NPend ` expired now s2 (NSort t2 # xs)) L2 q"
      using Cons.IH [OF 1(3) e] by blast
    have O: "scan_timer_loop (NSort t) now b s = Some (need, s')"
      using IH(1) True 1(1,2) ne by (subst scan_timer_loop.simps) simp
    have rt: "responseTime s2 n = responseTime s n" if "n \<in> set (NSort t2 # xs)" for n
    proof -
      have "n \<noteq> NSort t" using that S(2) by (auto simp: x)
      with 1(4) show ?thesis by (simp add: frame_def)
    qed
    have tw: "takeWhile (\<lambda>n. responseTime s2 n \<le> now) (NSort t2 # xs) = takeWhile (\<lambda>n. responseTime s n \<le> now) (NSort t2 # xs)"
      "dropWhile (\<lambda>n. responseTime s2 n \<le> now) (NSort t2 # xs) = dropWhile (\<lambda>n. responseTime s n \<le> now) (NSort t2 # xs)"
      by (rule takeWhile_cong dropWhile_cong; use rt in simp)+
    have ex: "expired now s (NSort t # x # xs) = insert t (expired now s2 (NSort t2 # xs))"
      unfolding expired_def tw(1) using True by (auto simp: x)
    have tn: "t \<notin> expired now s2 (NSort t2 # xs)"
      using S(2) by (auto simp: expired_def x dest: set_takeWhileD)
    have F: "frames (expired now s (NSort t # x # xs)) s s'"
      using frames_trans [OF frames_single [OF 1(4)] IH(3)] by (simp add: ex)
    have W: "\<forall>u \<in> expired now s (NSort t # x # xs). woken s s' u"
    proof
      fix u assume "u \<in> expired now s (NSort t # x # xs)"
      then consider "u = t" | "u \<in> expired now s2 (NSort t2 # xs)" "u \<noteq> t" using ex tn by auto
      then show "woken s s' u"
      proof cases
        case 1
        have "tcb s' t = tcb s2 t" using IH(3) tn by (simp add: frames_def)
        with \<open>woken s s2 t\<close> 1 show ?thesis by (simp add: woken_def)
      next
        case 2
        have "tcb s2 u = tcb s u" using frame_tcb [OF \<open>frame t s s2\<close> 2(2)] .
        with IH(5) 2(1) show ?thesis by (simp add: woken_def)
      qed
    qed
    have D: "L' NTaskSort = Some (dropWhile (\<lambda>n. responseTime s n \<le> now) (NSort t # x # xs))"
      using IH(4) True unfolding tw(2) by (simp add: x)
    have Q': "L' q = strips (NPend ` expired now s (NSort t # x # xs)) L q" if "\<not> is_pri q" "q \<noteq> NTaskSort" for q
    proof -
      have "L' q = strips (NPend ` expired now s2 (NSort t2 # xs)) L2 q" using IH(6) that by blast
      also have "\<dots> = strips (NPend ` expired now s2 (NSort t2 # xs)) (strips {NPend t} L) q"
        using Q [OF that] by (simp add: strips_def)
      finally show ?thesis by (simp add: strips_strips ex)
    qed
    show ?thesis using O IH(2) F D W Q' by blast
  qed
qed

end
