(* ===== verification/LosSwitch.thy ===== *)
theory LosSwitch
  imports LosSchedInv
begin

text \<open>
  The context switch and the tick: OsSchedSetNextExpireTime and the other
  readers of the clock return and change only the clock; OsGetTopTask finds the
  first task of the highest non-empty ready queue; OsSchedTaskSwitch followed by
  ArchTaskSchedule keeps the scheduler invariant and makes that task the running
  one; LOS_SchedTickHandler wakes exactly the tasks whose timeout has passed.
\<close>

lemma curr_time_law:
  "tick_ok n (tk s) \<Longrightarrow>
   OsGetCurrSchedTimeCycle s = Some (now_of (tk s), s\<lparr>tk := (tk s)\<lparr>g_oldTickTimerBase := now_of (tk s)\<rparr>\<rparr>)"
  by (simp add: OsGetCurrSchedTimeCycle_def sys_cycle_law)

text \<open>States that differ only in the clock and in the next response.\<close>

definition tframe :: "kstate \<Rightarrow> kstate \<Rightarrow> bool" where
  "tframe s s' \<longleftrightarrow> (\<exists>k i r. s' = s\<lparr>tk := k, g_schedResponseID := i, g_schedResponseTime := r\<rparr>)"

lemma tframe_sel:
  assumes "tframe s s'"
  shows "dl s' = dl s" "responseTime s' = responseTime s" "g_taskCBArray s' = g_taskCBArray s"
    "runTask s' = runTask s" "newTask s' = newTask s" "g_idleTaskID s' = g_idleTaskID s"
    "g_queueBitmap s' = g_queueBitmap s" "cfg_swtmr s' = cfg_swtmr s" "g_taskScheduled s' = g_taskScheduled s"
    "g_losTaskLock s' = g_losTaskLock s" "stackMem s' = stackMem s" "g_taskMaxNum s' = g_taskMaxNum s"
    "g_allSem s' = g_allSem s" "g_allMux s' = g_allMux s" "g_allQueue s' = g_allQueue s" "uwEventID s' = uwEventID s"
  using assms by (auto simp: tframe_def)

lemma tframe_refl: "tframe s s"
  unfolding tframe_def
  by (rule exI [of _ "tk s"], rule exI [of _ "g_schedResponseID s"], rule exI [of _ "g_schedResponseTime s"]) simp

lemma tframe_trans:
  assumes "tframe s s'" "tframe s' s''"
  shows "tframe s s''"
proof -
  obtain k i r k' i' r' where "s' = s\<lparr>tk := k, g_schedResponseID := i, g_schedResponseTime := r\<rparr>"
    "s'' = s'\<lparr>tk := k', g_schedResponseID := i', g_schedResponseTime := r'\<rparr>"
    using assms unfolding tframe_def by blast
  then have "s'' = s\<lparr>tk := k', g_schedResponseID := i', g_schedResponseTime := r'\<rparr>" by simp
  then show ?thesis unfolding tframe_def by blast
qed

lemma tframe_tk: "tframe s (s\<lparr>tk := k\<rparr>)" "tframe s (s\<lparr>g_schedResponseTime := r\<rparr>)" "tframe s (s\<lparr>g_schedResponseID := i\<rparr>)"
proof -
  show "tframe s (s\<lparr>tk := k\<rparr>)"
    unfolding tframe_def by (rule exI [of _ k], rule exI [of _ "g_schedResponseID s"], rule exI [of _ "g_schedResponseTime s"]) simp
  show "tframe s (s\<lparr>g_schedResponseTime := r\<rparr>)"
    unfolding tframe_def by (rule exI [of _ "tk s"], rule exI [of _ "g_schedResponseID s"], rule exI [of _ r]) simp
  show "tframe s (s\<lparr>g_schedResponseID := i\<rparr>)"
    unfolding tframe_def by (rule exI [of _ "tk s"], rule exI [of _ i], rule exI [of _ "g_schedResponseTime s"]) simp
qed

lemma task_ok_tframe: "tframe s s' \<Longrightarrow> task_ok s' L t = task_ok s L t"
  by (rule task_ok_cong) (simp_all add: tframe_sel)

lemma glob_ok_tframe: "tframe s s' \<Longrightarrow> glob_ok s L \<Longrightarrow> glob_ok s' L"
  by (rule glob_ok_cong) (simp_all add: tframe_sel)

lemma sched_inv_tframe: "tframe s s' \<Longrightarrow> sched_inv s L \<Longrightarrow> sched_inv s' L"
  unfolding sched_inv_def run_ok_def using glob_ok_tframe [of s s' L] task_ok_tframe [of s s' L]
  by (auto simp: tframe_sel)

lemma but_tframe: "tframe s s' \<Longrightarrow> but t s L \<Longrightarrow> but t s' L"
  unfolding but_def using glob_ok_tframe [of s s' L] task_ok_tframe [of s s' L] by simp

lemma sort_expire_total:
  assumes R: "dl_rep (dl s) L" and q: "L q = Some xs" and h: "\<forall>x \<in> set xs. is_sort x"
  shows "\<exists>v. GetSortLinkNextExpireTime q start prec s = Some v"
proof (cases xs)
  case Nil
  then show ?thesis using list_empty [OF R q] by (simp add: GetSortLinkNextExpireTime_def)
next
  case (Cons x ys)
  then have "\<not> k_ListEmpty q s" "pstNext (dl s) q = Some x" "SORT_ENTRY x = Some x"
    using list_empty [OF R q] list_first [OF R q] h by (simp_all add: is_sort_def)
  then show ?thesis by (simp add: GetSortLinkNextExpireTime_def)
qed

lemma next_expire_total:
  assumes g: "glob_ok s L"
  shows "\<exists>v. OsGetNextExpireTime start prec s = Some v"
proof -
  have srt: "\<forall>x \<in> set xs. is_sort x" if "L q = Some xs" "q = NTaskSort \<or> q = NSwtmrSort" for q xs
  proof
    fix x assume "x \<in> set xs"
    then have "holds q x" using glob_ok_holds [OF g, of q x] that(1) by (auto simp: mem_def)
    then show "is_sort x" using that(2) by (cases x) (auto simp: is_sort_def)
  qed
  obtain xs where xs: "L NTaskSort = Some xs" using g by (auto simp: glob_ok_def)
  obtain v where v: "GetSortLinkNextExpireTime NTaskSort start prec s = Some v"
    using sort_expire_total [OF glob_ok_rep [OF g] xs srt [OF xs]] by blast
  show ?thesis
  proof (cases "cfg_swtmr s")
    case False
    with v show ?thesis by (simp add: OsGetNextExpireTime_def)
  next
    case True
    then obtain ys where ys: "L NSwtmrSort = Some ys" using g by (auto simp: glob_ok_def)
    obtain w where "GetSortLinkNextExpireTime NSwtmrSort start prec s = Some w"
      using sort_expire_total [OF glob_ok_rep [OF g] ys srt [OF ys]] by blast
    with v True show ?thesis by (simp add: OsGetNextExpireTime_def)
  qed
qed

lemma set_next_expire_law:
  assumes g: "glob_ok s L" and t: "tick_ok (Suc n) (tk s)"
  obtains s' where "OsSchedSetNextExpireTime i e s = Some s'" "tframe s s'" "tick_ok n (tk s')"
    "now_of (tk s) \<le> now_of (tk s')"
proof -
  let ?k = "(tk s)\<lparr>g_oldTickTimerBase := now_of (tk s)\<rparr>"
  let ?s1 = "s\<lparr>tk := ?k\<rparr>"
  have c: "OsGetCurrSchedTimeCycle s = Some (now_of (tk s), ?s1)" by (rule curr_time_law [OF t])
  have t1: "tick_ok (Suc n) ?k" by (rule tick_ok_read [OF t])
  have g1: "glob_ok ?s1 L" by (rule glob_ok_tframe [OF tframe_tk(1) g])
  obtain v where v: "OsGetNextExpireTime (now_of (tk s)) (g_tickResponsePrecision s) ?s1 = Some v"
    using next_expire_total [OF g1] by blast
  define sl where "sl \<longleftrightarrow> v > e \<and> v - e > ucast (g_schedTickMinPeriod s)"
  define w where "w = (if sl then e else v)"
  show thesis
  proof (cases "g_schedResponseTime s \<le> w \<or> g_schedResponseTime s - w < ucast (g_tickResponsePrecision s)")
    case True
    have O: "OsSchedSetNextExpireTime i e s = Some ?s1"
      using True by (simp add: OsSchedSetNextExpireTime_def c v w_def sl_def Let_def)
    show thesis by (rule that [OF O tframe_tk(1)]) (use tick_ok_mono [OF t1, of n] in simp_all)
  next
    case False
    define s2 where "s2 = ?s1\<lparr>g_schedResponseID := (if sl then i else OS_INVALID)\<rparr>"
    define p where "p = (if w - now_of (tk s) < ucast (g_tickResponsePrecision s)
        then ucast (g_tickResponsePrecision s) else w - now_of (tk s))"
    have k2: "tk s2 = ?k" by (simp add: s2_def)
    obtain r k' where r: "OsTickTimerReload p ?k = Some (r, k')" "tick_ok n k'" "now_of ?k \<le> now_of k'"
      by (rule reload_law [OF t1, of p]) blast
    let ?s3 = "s2\<lparr>tk := k', g_schedResponseTime := now_of (tk s) + r\<rparr>"
    have O: "OsSchedSetNextExpireTime i e s = Some ?s3"
      using False r(1) by (simp add: OsSchedSetNextExpireTime_def c v w_def sl_def Let_def
          k_OsTickTimerReload_def s2_def p_def cong: if_cong)
    have "tframe s s2" unfolding s2_def by (rule tframe_trans [OF tframe_tk(1) tframe_tk(3)])
    then have F: "tframe s ?s3" by (rule tframe_trans) (rule tframe_trans [OF tframe_tk(1) tframe_tk(2)])
    show thesis by (rule that [OF O F]) (use r in simp_all)
  qed
qed

subsection \<open>The highest ready task\<close>

lemma top_task_law:
  assumes g: "glob_ok s L"
  obtains (queue) p t xs where "OsGetTopTask s = Some t" "p < 32" "L (NPri p) = Some (NPend t # xs)"
      "\<forall>p'<p. L (NPri p') = Some []"
    | (idle) "OsGetTopTask s = Some (OS_TCB_FROM_TID (g_idleTaskID s))" "\<forall>p<32. L (NPri p) = Some []"
proof (cases "g_queueBitmap s = 0")
  case True
  then have "\<forall>p<32. L (NPri p) = Some []" using glob_ok_bit [OF g] by simp
  with True show thesis by (intro idle) (simp_all add: OsGetTopTask_def)
next
  case False
  let ?p = "CLZ (g_queueBitmap s)"
  note c = CLZ_bit [OF False]
  obtain ys where ys: "L (NPri ?p) = Some ys" using glob_ok_pri [OF g c(1)] by blast
  with c(2) glob_ok_bit [OF g c(1)] obtain n xs where xs: "ys = n # xs" by (cases ys) auto
  have "holds (NPri ?p) n" using glob_ok_holds [OF g, of "NPri ?p" n] ys xs by (simp add: mem_def)
  then obtain t where t: "n = NPend t" by (cases n) auto
  have nx: "pstNext (dl s) (NPri ?p) = Some (NPend t)"
    using list_first [OF glob_ok_rep [OF g] ys] xs t by simp
  have low: "\<forall>p'<?p. L (NPri p') = Some []"
  proof (intro allI impI)
    fix p' assume "p' < ?p"
    then have "\<not> bit (g_queueBitmap s) (31 - p')" "p' < 32" using CLZ_le [of "g_queueBitmap s" p'] c(1) by auto
    then show "L (NPri p') = Some []" using glob_ok_bit [OF g] by simp
  qed
  show thesis by (rule queue [OF _ c(1) _ low]) (use False nx ys xs t in \<open>simp_all add: OsGetTopTask_def\<close>)
qed

text \<open>No ready task precedes \<open>new\<close>; the idle task is chosen only when none is ready.\<close>

definition top_of :: "kstate \<Rightarrow> nat \<Rightarrow> bool" where
  "top_of s new \<longleftrightarrow> (\<forall>u. ready s u \<longrightarrow>
     taskID (tcb s new) \<noteq> g_idleTaskID s \<and> priority (tcb s new) \<le> priority (tcb s u))"

definition idle_slot :: "kstate \<Rightarrow> bool" where
  "idle_slot s \<longleftrightarrow> taskID (tcb s (OS_TCB_FROM_TID (g_idleTaskID s))) = g_idleTaskID s"

definition all_ok :: "kstate \<Rightarrow> (node \<Rightarrow> node list option) \<Rightarrow> bool" where
  "all_ok s L \<longleftrightarrow> glob_ok s L \<and> (\<forall>u. task_ok s L u)"

lemma all_ok_ready:
  assumes a: "all_ok s L"
  shows "ready s u \<Longrightarrow> mem L (NPri (unat (priority (tcb s u)))) (NPend u)"
    "ready s u \<Longrightarrow> unat (priority (tcb s u)) < 32"
    "mem L (NPri p) (NPend u) \<Longrightarrow> ready s u \<and> unat (priority (tcb s u)) = p"
proof -
  have t: "task_ok s L u" using a by (simp add: all_ok_def)
  show "ready s u \<Longrightarrow> mem L (NPri (unat (priority (tcb s u)))) (NPend u)"
    "ready s u \<Longrightarrow> unat (priority (tcb s u)) < 32"
    using t unfolding task_ok_def flags_ok_def ready_def by auto
  show "mem L (NPri p) (NPend u) \<Longrightarrow> ready s u \<and> unat (priority (tcb s u)) = p"
    using t unfolding task_ok_def loc_ok_def by blast
qed

lemma top_task_ready:
  assumes a: "all_ok s L" and i: "idle_slot s"
  obtains new where "OsGetTopTask s = Some new" "top_of s new"
    "ready s new \<or> taskID (tcb s new) = g_idleTaskID s"
proof -
  have g: "glob_ok s L" using a by (simp add: all_ok_def)
  show thesis
  proof (cases rule: top_task_law [OF g])
    case (1 p t xs)
    have t: "ready s t" "unat (priority (tcb s t)) = p"
      using all_ok_ready(3) [OF a, of p t] 1(3) by (simp_all add: mem_def)
    have "p \<le> unat (priority (tcb s u))" if "ready s u" for u
    proof (rule ccontr)
      assume "\<not> p \<le> unat (priority (tcb s u))"
      with 1(4) have "L (NPri (unat (priority (tcb s u)))) = Some []" by simp
      with all_ok_ready(1) [OF a that] show False by (simp add: mem_def)
    qed
    with t have "top_of s t" by (simp add: top_of_def ready_def word_le_nat_alt)
    with 1(1) t show thesis by (intro that) auto
  next
    case 2
    have "\<not> ready s u" for u
      using all_ok_ready(1,2) [OF a, of u] 2(2) by (auto simp: mem_def)
    with 2(1) i show thesis by (intro that) (simp_all add: top_of_def idle_slot_def)
  qed
qed

subsection \<open>The switch\<close>

definition mark_new :: "nat \<Rightarrow> u64 \<Rightarrow> kstate \<Rightarrow> kstate" where
  "mark_new new now s = upd_tcb new (\<lambda>c. c\<lparr>startTime := now\<rparr>) (or_status new OS_TASK_STATUS_RUNNING s)"

lemma mark_new_sel:
  "tcb (mark_new new now s) u = (if u = new
     then (tcb s new)\<lparr>taskStatus := status s new OR OS_TASK_STATUS_RUNNING, startTime := now\<rparr> else tcb s u)"
  "responseTime (mark_new new now s) = responseTime s" "runTask (mark_new new now s) = runTask s"
  "g_idleTaskID (mark_new new now s) = g_idleTaskID s" "dl (mark_new new now s) = dl s"
  by (simp_all add: mark_new_def upd_tcb_def or_status_def)

lemma task_ok_not_running:
  assumes "task_ok s L u" "\<not> (is_running (status s u) \<and> \<not> is_unused (status s u))"
    "tcb s' u = tcb s u" "responseTime s' (NSort u) = responseTime s (NSort u)" "g_idleTaskID s' = g_idleTaskID s"
    "\<And>q. mem L' q (NPend u) = mem L q (NPend u)" "mem L' NTaskSort (NSort u) = mem L NTaskSort (NSort u)"
  shows "task_ok s' L' u"
  using assms unfolding task_ok_def loc_ok_def ready_def delayed_def by auto

text \<open>The chosen task leaves its ready queue and runs; nobody else is running.\<close>

lemma run_new_law:
  assumes a: "all_ok s L" and none: "\<And>u. \<not> (is_running (status s u) \<and> \<not> is_unused (status s u))"
    and new: "ready s new \<or> taskID (tcb s new) = g_idleTaskID s"
  obtains s' h' bm L' where "OsSchedTaskDeQueue new (mark_new new now s) = Some s'"
    "s' = s\<lparr>dl := h', g_queueBitmap := bm, g_taskCBArray := (g_taskCBArray s)(new := (tcb s new)\<lparr>
        startTime := now,
        taskStatus := (status s new OR OS_TASK_STATUS_RUNNING) AND NOT OS_TASK_STATUS_READY\<rparr>)\<rparr>"
    "sched_inv (s'\<lparr>runTask := Some new\<rparr>) L'" "\<And>q. \<not> is_pri q \<Longrightarrow> L' q = L q"
proof -
  have T: "task_ok s L u" for u using a by (simp add: all_ok_def)
  have b: "but new s L" using a by (simp add: all_ok_def but_def)
  let ?s1 = "mark_new new now s"
  have b1: "but new ?s1 L" using b by (simp add: mark_new_def)
  let ?c = "(tcb s new)\<lparr>startTime := now,
        taskStatus := (status s new OR OS_TASK_STATUS_RUNNING) AND NOT OS_TASK_STATUS_READY\<rparr>"
  have nu: "\<not> is_unused (status s new)" "\<not> is_pend (status s new)" "\<not> is_delay (status s new)"
    "\<not> is_pend_time (status s new)" "unat (priority (tcb s new)) < 32"
    using T [of new] new by (auto simp: task_ok_def ready_def flags_ok_def)
  obtain s' h' bm L' where 1: "OsSchedTaskDeQueue new ?s1 = Some s'"
    "s' = s\<lparr>dl := h', g_queueBitmap := bm, g_taskCBArray := (g_taskCBArray s)(new := ?c)\<rparr>"
    "glob_ok s' L'" and M: "\<And>q' m. mem L' q' m \<longleftrightarrow> mem L q' m \<and> m \<noteq> NPend new"
    and Q: "\<And>q. \<not> is_pri q \<Longrightarrow> L' q = L q"
  proof (cases "ready s new")
    case True
    have m: "mem L (NPri (unat (priority (tcb ?s1 new)))) (NPend new)"
      using all_ok_ready(1) [OF a True] by (simp add: mark_new_sel)
    have rd: "is_ready (status ?s1 new)" "taskID (tcb ?s1 new) \<noteq> g_idleTaskID ?s1"
      using True by (simp_all add: mark_new_sel ready_def flag_simps)
    obtain s' h' bm L' where 2: "OsSchedTaskDeQueue new ?s1 = Some s'"
      "s' = ?s1\<lparr>dl := h', g_queueBitmap := bm, g_taskCBArray := (g_taskCBArray ?s1)(new :=
            (tcb ?s1 new)\<lparr>taskStatus := status ?s1 new AND NOT OS_TASK_STATUS_READY\<rparr>)\<rparr>"
      "but new s' L'"
      "L' = L(NPri (unat (priority (tcb ?s1 new))) \<mapsto> remove1 (NPend new) (the (L (NPri (unat (priority (tcb ?s1 new)))))))"
      and M: "\<And>q' m. mem L' q' m \<longleftrightarrow> mem L q' m \<and> m \<noteq> NPend new"
      by (rule dequeue_law [OF b1 m rd]) (rule that; assumption)
    have E: "s' = s\<lparr>dl := h', g_queueBitmap := bm, g_taskCBArray := (g_taskCBArray s)(new := ?c)\<rparr>"
      unfolding 2(2) by (simp add: mark_new_def upd_tcb_def or_status_def)
    show thesis
      by (rule that [OF 2(1) E _ M]) (use 2(3,4) in \<open>auto simp: but_def\<close>)
  next
    case False
    with new have i: "taskID (tcb s new) = g_idleTaskID s" by blast
    have nm: "\<not> mem L q (NPend new)" for q
    proof
      assume m: "mem L q (NPend new)"
      have l: "loc_ok s new q" using T [of new] m by (simp add: task_ok_def)
      have g: "glob_ok s L" using a by (simp add: all_ok_def)
      from holds_NPend_cases [OF g m] l i nu False show False
        unfolding loc_ok_def by metis
    qed
    have O: "OsSchedTaskDeQueue new ?s1 = Some (?s1\<lparr>g_taskCBArray := (g_taskCBArray s)(new := ?c)\<rparr>)"
    proof (cases "is_ready (status s new)")
      case True
      then show ?thesis using i
        by (simp add: OsSchedTaskDeQueue_def flag_simps mark_new_sel) (simp add: los_defs mark_new_def)
    next
      case False
      have "?c = tcb ?s1 new"
        using False by (cases "tcb s new") (auto simp: mark_new_sel flag_simps intro!: bit_eqI dest: bit_le16)
      then show ?thesis using False
        by (subst dequeue_not_ready) (simp_all add: mark_new_sel flag_simps mark_new_def los_defs)
    qed
    have E: "?s1\<lparr>g_taskCBArray := (g_taskCBArray s)(new := ?c)\<rparr> =
        s\<lparr>dl := dl s, g_queueBitmap := g_queueBitmap s, g_taskCBArray := (g_taskCBArray s)(new := ?c)\<rparr>"
      by (simp add: mark_new_def los_defs)
    have G: "glob_ok (?s1\<lparr>g_taskCBArray := (g_taskCBArray s)(new := ?c)\<rparr>) L"
      by (rule glob_ok_cong [of s]) (use a in \<open>simp_all add: all_ok_def mark_new_def los_defs\<close>)
    show thesis by (rule that [OF O E G]) (use nm in auto)
  qed
  let ?s = "s'\<lparr>runTask := Some new\<rparr>"
  have G: "glob_ok ?s L'" by (rule glob_ok_cong [OF 1(3)]) simp_all
  have U: "task_ok ?s L' u" if "u \<noteq> new" for u
    by (rule task_ok_not_running [OF T none]) (use that in \<open>simp_all add: 1(2) M\<close>)
  have st: "bit (status ?s new) k = (k = 4 \<or> (bit (status s new) k \<and> k \<noteq> 2))" for k
    by (auto simp: 1(2) flag_simps dest: bit_le16)
  have tcb: "priority (tcb ?s new) = priority (tcb s new)" "taskID (tcb ?s new) = taskID (tcb s new)"
    "g_idleTaskID ?s = g_idleTaskID s" "responseTime ?s = responseTime s" "runTask ?s = Some new" 
    by (simp_all add: 1(2))
  have N: "task_ok ?s L' new"
    using T [of new] nu new
    unfolding task_ok_def flags_ok_def ready_def delayed_def st tcb M by auto
  have R: "run_ok ?s" unfolding run_ok_def tcb(5) using st [of 4] by simp
  from G U N R have "sched_inv ?s L'" unfolding sched_inv_def by metis
  with Q show thesis by (intro that [OF 1(1,2)])
qed

lemma put_back_timed:
  assumes I: "sched_inv s L" and r: "runTask s = Some r"
    and dl: "startTime (tcb s r) + OS_SYS_TICK_TO_CYCLE (waitTimes (tcb s r)) (tk s) \<noteq> OS_SORT_LINK_INVALID_TIME"
    and st: "is_delay (status s r) \<or> is_pend_time (status s r)"
  obtains s' h' L' where "sched_put_back r s = Some s'"
    "s' = s\<lparr>dl := h', responseTime := (responseTime s)(NSort r := startTime (tcb s r) +
            OS_SYS_TICK_TO_CYCLE (waitTimes (tcb s r)) (tk s))\<rparr>"
    "all_ok (clr_status r OS_TASK_STATUS_RUNNING s') L'"
    "L' = L(NTaskSort \<mapsto> sort_ins (responseTime s') (NSort r) (the (L NTaskSort)))"
proof -
  note run = inv_running [OF I r]
  have tk: "task_ok s L r" by (rule sched_inv_task [OF I])
  have nu: "\<not> is_unused (status s r)" using tk st by (auto simp: task_ok_def flags_ok_def)
  have n: "\<forall>q. \<not> mem L q (NSort r)"
    using inv_sort(2) [OF I nu] run(3) glob_ok_holds [OF sched_inv_glob [OF I], of _ "NSort r"] by auto
  obtain s' h' L' where 1: "OsAdd2SortLink (NSort r) (startTime (tcb s r)) (waitTimes (tcb s r)) OS_SORT_LINK_TASK s = Some s'"
    "s' = s\<lparr>dl := h', responseTime := (responseTime s)(NSort r := startTime (tcb s r) +
            OS_SYS_TICK_TO_CYCLE (waitTimes (tcb s r)) (tk s))\<rparr>"
    "but r s' L'" "L' = L(NTaskSort \<mapsto> sort_ins (responseTime s') (NSort r) (the (L NTaskSort)))"
    and M: "\<And>q' m. mem L' q' m \<longleftrightarrow> mem L q' m \<or> (q' = NTaskSort \<and> m = NSort r)"
    by (rule but_sort_insert [OF sched_inv_but [OF I] n]) (rule that; assumption)
  have O: "sched_put_back r s = Some s'" using st 1(1) by (auto simp: sched_put_back_def flag_simps)
  let ?s = "clr_status r OS_TASK_STATUS_RUNNING s'"
  have b: "but r ?s L'" using 1(3) by simp
  have bits: "bit (status ?s r) k = (bit (status s r) k \<and> k \<noteq> 4)" for k
    by (auto simp: 1(2) flag_simps dest: bit_le16)
  have sel: "priority (tcb ?s r) = priority (tcb s r)" "taskID (tcb ?s r) = taskID (tcb s r)"
    "g_idleTaskID ?s = g_idleTaskID s"
    "responseTime ?s (NSort r) = startTime (tcb s r) + OS_SYS_TICK_TO_CYCLE (waitTimes (tcb s r)) (tk s)"
    by (simp_all add: 1(2))
  have T: "task_ok ?s L' r"
    using tk st dl run(1,2) unfolding task_ok_def loc_ok_def ready_def delayed_def flags_ok_def bits sel M by auto
  from b T have "all_ok ?s L'" unfolding all_ok_def but_def by metis
  then show thesis by (rule that [OF O 1(2) _ 1(4)])
qed

lemma put_back_ready:
  assumes I: "sched_inv s L" and r: "runTask s = Some r"
    and st: "\<not> is_delay (status s r)" "\<not> is_pend_time (status s r)" "\<not> is_pend (status s r)"
      "\<not> is_suspend (status s r)" "\<not> is_exit (status s r)" "\<not> is_unused (status s r)"
  obtains s' h' bm c L' where "sched_put_back r s = Some s'"
    "s' = s\<lparr>dl := h', g_queueBitmap := bm, g_taskCBArray := (g_taskCBArray s)(r := c)\<rparr>"
    "sw_core c = sw_core (tcb s r)" "startTime c = startTime (tcb s r)"
    "\<And>k. bit (taskStatus c) k = (k = 2 \<or> bit (status s r) k)"
    "all_ok (clr_status r OS_TASK_STATUS_RUNNING s') L'" "\<And>q. \<not> is_pri q \<Longrightarrow> L' q = L q"
proof -
  note run = inv_running [OF I r]
  have tk: "task_ok s L r" by (rule sched_inv_task [OF I])
  have O: "sched_put_back r s = OsSchedTaskEnQueue r s"
    using st by (simp add: sched_put_back_def flag_simps)
  note S = inv_sort [OF I st(6)]
  have rt: "responseTime s (NSort r) = OS_SORT_LINK_INVALID_TIME" "\<not> mem L NTaskSort (NSort r)"
    using S run(3) by auto
  have fz: "\<not> is_freeze (status s r)" using tk by (simp add: task_ok_def flags_ok_def)
  show thesis
  proof (cases "taskID (tcb s r) = g_idleTaskID s")
    case True
    let ?c = "(tcb s r)\<lparr>taskStatus := (status s r AND NOT 0xAA) OR OS_TASK_STATUS_READY\<rparr>"
    let ?s = "s\<lparr>dl := dl s, g_queueBitmap := g_queueBitmap s, g_taskCBArray := (g_taskCBArray s)(r := ?c)\<rparr>"
    have E: "sched_put_back r s = Some ?s"
      unfolding O enqueue_idle [OF True run(2)] by (simp add: los_defs)
    have c: "bit (taskStatus ?c) k = (k = 2 \<or> bit (status s r) k)" for k
      using st by (auto simp: flag_simps dest: bit_le16)
    have bits: "bit (status (clr_status r OS_TASK_STATUS_RUNNING ?s) r) k = (k = 2 \<or> (bit (status s r) k \<and> k \<noteq> 4))" for k
      using c [of k] by (auto simp: flag_simps dest: bit_le16)
    have b: "but r (clr_status r OS_TASK_STATUS_RUNNING ?s) L"
      by (rule but_upd [OF sched_inv_but [OF I]]) (simp_all add: los_defs)
    have sel: "priority (tcb (clr_status r OS_TASK_STATUS_RUNNING ?s) r) = priority (tcb s r)"
      "taskID (tcb (clr_status r OS_TASK_STATUS_RUNNING ?s) r) = taskID (tcb s r)"
      "g_idleTaskID (clr_status r OS_TASK_STATUS_RUNNING ?s) = g_idleTaskID s"
      "responseTime (clr_status r OS_TASK_STATUS_RUNNING ?s) = responseTime s" by simp_all
    have T: "task_ok (clr_status r OS_TASK_STATUS_RUNNING ?s) L r"
      using tk st rt True run unfolding task_ok_def loc_ok_def ready_def delayed_def flags_ok_def bits sel by auto
    from b T have A: "all_ok (clr_status r OS_TASK_STATUS_RUNNING ?s) L" unfolding all_ok_def but_def by metis
    show thesis
      by (rule that [OF E refl _ _ c A]) (cases "tcb s r", simp_all add: sw_core_def)
  next
    case False
    have n: "\<forall>q. \<not> mem L q (NPend r)" using inv_free [OF I _ st(3,6)] run(2) by (simp add: ready_def)
    have p: "unat (priority (tcb s r)) < 32" using tk st by (simp add: task_ok_def)
    obtain s' h' bm L' where 1: "OsSchedTaskEnQueue r s = Some s'"
      "s' = s\<lparr>dl := h', g_queueBitmap := bm, g_taskCBArray := (g_taskCBArray s)(r := enq_tcb s (tcb s r))\<rparr>"
      "but r s' L'"
      "L' = L(NPri (unat (priority (tcb s r))) \<mapsto>
         (if g_schedTimeSliceMin s <s timeSlice (tcb s r)
          then NPend r # the (L (NPri (unat (priority (tcb s r)))))
          else the (L (NPri (unat (priority (tcb s r))))) @ [NPend r]))"
      and M: "\<And>q' m. mem L' q' m \<longleftrightarrow> mem L q' m \<or> (q' = NPri (unat (priority (tcb s r))) \<and> m = NPend r)"
      by (rule enqueue_law [OF sched_inv_but [OF I] n p False run(2)]) (rule that; assumption)
    have c: "bit (taskStatus (enq_tcb s (tcb s r))) k = (k = 2 \<or> bit (status s r) k)" for k
      using st by (auto simp: flag_simps dest: bit_le16)
    let ?s = "clr_status r OS_TASK_STATUS_RUNNING s'"
    have bits: "bit (status ?s r) k = (k = 2 \<or> (bit (status s r) k \<and> k \<noteq> 4))" for k
      using c [of k] by (auto simp: 1(2) flag_simps dest: bit_le16)
    have b: "but r ?s L'" using 1(3) by simp
    have T: "task_ok ?s L' r"
    proof (rule task_ok_ready)
      show "flags_ok (status ?s r)" using st fz unfolding flags_ok_def bits by simp
      show "ready ?s r" using False bits [of 2] unfolding ready_def by (simp add: 1(2))
    qed (use p n rt in \<open>simp_all add: 1(2) M\<close>)
    from b T have A: "all_ok ?s L'" unfolding all_ok_def but_def by metis
    have Q: "L' q = L q" if "\<not> is_pri q" for q using that by (auto simp: 1(4))
    show thesis
      by (rule that [OF _ 1(2) _ _ c A Q]) (use O 1(1) in \<open>simp_all add: enq_tcb_def sw_core_def\<close>)
  qed
qed

lemma put_back_blocked:
  assumes I: "sched_inv s L" and r: "runTask s = Some r"
    and st: "\<not> is_delay (status s r)" "\<not> is_pend_time (status s r)"
      "is_pend (status s r) \<or> is_suspend (status s r) \<or> is_exit (status s r) \<or> is_unused (status s r)"
  shows "sched_put_back r s = Some s" "all_ok (clr_status r OS_TASK_STATUS_RUNNING s) L"
proof -
  note run = inv_running [OF I r]
  have tk: "task_ok s L r" by (rule sched_inv_task [OF I])
  show "sched_put_back r s = Some s" using st by (auto simp: sched_put_back_def flag_simps)
  let ?s = "clr_status r OS_TASK_STATUS_RUNNING s"
  have b: "but r ?s L" using sched_inv_but [OF I] by simp
  have bits: "bit (status ?s r) k = (bit (status s r) k \<and> k \<noteq> 4)" for k
    by (auto simp: flag_simps dest: bit_le16)
  have sel: "priority (tcb ?s r) = priority (tcb s r)" "taskID (tcb ?s r) = taskID (tcb s r)"
    "g_idleTaskID ?s = g_idleTaskID s" "responseTime ?s = responseTime s" by simp_all
  have T: "task_ok ?s L r"
    using tk st run unfolding task_ok_def loc_ok_def ready_def delayed_def flags_ok_def bits sel by auto
  from b T show "all_ok ?s L" unfolding all_ok_def but_def by metis
qed

lemma put_back_law:
  assumes I: "sched_inv s L" and r: "runTask s = Some r"
    and dl: "startTime (tcb s r) + OS_SYS_TICK_TO_CYCLE (waitTimes (tcb s r)) (tk s) \<noteq> OS_SORT_LINK_INVALID_TIME"
  obtains s' h' rt bm c L' where "sched_put_back r s = Some s'"
    "s' = s\<lparr>dl := h', responseTime := rt, g_queueBitmap := bm, g_taskCBArray := (g_taskCBArray s)(r := c)\<rparr>"
    "sw_core c = sw_core (tcb s r)" "startTime c = startTime (tcb s r)"
    "\<And>k. k \<noteq> 2 \<Longrightarrow> bit (taskStatus c) k = bit (status s r) k"
    "\<And>m. m \<noteq> NSort r \<Longrightarrow> rt m = responseTime s m"
    "all_ok (clr_status r OS_TASK_STATUS_RUNNING s') L'" "\<And>q. \<not> is_pri q \<Longrightarrow> q \<noteq> NTaskSort \<Longrightarrow> L' q = L q"
    "is_delay (status s r) \<or> is_pend_time (status s r) \<Longrightarrow>
       rt (NSort r) = startTime (tcb s r) + OS_SYS_TICK_TO_CYCLE (waitTimes (tcb s r)) (tk s)"
proof -
  consider (timed) "is_delay (status s r) \<or> is_pend_time (status s r)"
    | (ready) "\<not> is_delay (status s r)" "\<not> is_pend_time (status s r)" "\<not> is_pend (status s r)"
      "\<not> is_suspend (status s r)" "\<not> is_exit (status s r)" "\<not> is_unused (status s r)"
    | (blocked) "\<not> is_delay (status s r)" "\<not> is_pend_time (status s r)"
      "is_pend (status s r) \<or> is_suspend (status s r) \<or> is_exit (status s r) \<or> is_unused (status s r)"
    by blast
  then show thesis
  proof cases
    case timed
    obtain s' h' L' where 1: "sched_put_back r s = Some s'"
      "s' = s\<lparr>dl := h', responseTime := (responseTime s)(NSort r := startTime (tcb s r) +
            OS_SYS_TICK_TO_CYCLE (waitTimes (tcb s r)) (tk s))\<rparr>"
      "all_ok (clr_status r OS_TASK_STATUS_RUNNING s') L'"
      "L' = L(NTaskSort \<mapsto> sort_ins (responseTime s') (NSort r) (the (L NTaskSort)))"
      by (rule put_back_timed [OF I r dl timed]) (rule that; assumption)
    show thesis
      by (rule that [where h' = h' and rt = "responseTime s'" and bm = "g_queueBitmap s" and c = "tcb s r", OF 1(1) _ refl refl _ _ 1(3)])
         (simp_all add: 1(2) 1(4))
  next
    case ready
    obtain s' h' bm c L' where 1: "sched_put_back r s = Some s'"
      "s' = s\<lparr>dl := h', g_queueBitmap := bm, g_taskCBArray := (g_taskCBArray s)(r := c)\<rparr>"
      "sw_core c = sw_core (tcb s r)" "startTime c = startTime (tcb s r)"
      and b: "\<And>k. bit (taskStatus c) k = (k = 2 \<or> bit (status s r) k)"
      and A: "all_ok (clr_status r OS_TASK_STATUS_RUNNING s') L'" and Q: "\<And>q. \<not> is_pri q \<Longrightarrow> L' q = L q"
      by (rule put_back_ready [OF I r ready]) (rule that; assumption)
    show thesis
      by (rule that [where h' = h' and rt = "responseTime s" and bm = bm, OF 1(1) _ 1(3,4) _ _ A]) (use ready in \<open>simp_all add: 1(2) b Q\<close>)
  next
    case blocked
    note B = put_back_blocked [OF I r blocked]
    show thesis
      by (rule that [where h' = "dl s" and rt = "responseTime s" and bm = "g_queueBitmap s" and c = "tcb s r", OF B(1) _ refl refl _ _ B(2)]) (use blocked in simp_all)
  qed
qed

lemma sched_inv_sw:
  assumes I: "sched_inv s L"
    and e: "\<And>u. sw_core (tcb s' u) = sw_core (tcb s u)" "\<And>u. status s' u = status s u"
      "dl s' = dl s" "responseTime s' = responseTime s" "g_queueBitmap s' = g_queueBitmap s"
      "runTask s' = runTask s" "g_idleTaskID s' = g_idleTaskID s" "cfg_swtmr s' = cfg_swtmr s"
  shows "sched_inv s' L"
proof -
  have "glob_ok s' L" by (rule glob_ok_cong [OF sched_inv_glob [OF I]]) (simp_all add: e)
  moreover have "task_ok s' L u" for u
    using sched_inv_task [OF I, of u]
    unfolding task_ok_def loc_ok_def ready_def delayed_def e sw_core_sel [OF e(1), of u] by simp
  moreover have "run_ok s'" using sched_inv_run_ok [OF I] by (simp add: run_ok_def e)
  ultimately show ?thesis by (simp add: sched_inv_def)
qed

lemma time_slice_law:
  assumes "startTime (tcb s r) \<le> now"
  obtains c where "OsTimeSliceUpdate r now s = Some (s\<lparr>g_taskCBArray := (g_taskCBArray s)(r := c)\<rparr>)"
    "sw_core c = sw_core (tcb s r)" "taskStatus c = status s r" "startTime c = now"
proof (cases "taskID (tcb s r) = g_idleTaskID s")
  case True
  show thesis
    by (rule that [of "(tcb s r)\<lparr>startTime := now\<rparr>"])
       (use assms True in \<open>simp_all add: OsTimeSliceUpdate_def bind_los_assert Let_def upd_tcb_def\<close>)
next
  case False
  show thesis
    by (rule that [of "(tcb s r)\<lparr>timeSlice := timeSlice (tcb s r) - ucast (now - startTime (tcb s r)), startTime := now\<rparr>"])
       (use assms False in \<open>simp_all add: OsTimeSliceUpdate_def bind_los_assert Let_def upd_tcb_def\<close>)
qed

text \<open>What the switch leaves alone.\<close>

definition swframe :: "kstate \<Rightarrow> kstate \<Rightarrow> bool" where
  "swframe s s' \<longleftrightarrow>
     (\<exists>h rt k a run new bm i x. s' = s\<lparr>dl := h, responseTime := rt, tk := k, g_taskCBArray := a,
        runTask := run, newTask := new, g_queueBitmap := bm, g_schedResponseID := i, g_schedResponseTime := x\<rparr>) \<and>
     (\<forall>u. sw_core (tcb s' u) = sw_core (tcb s u)) \<and>
     (\<forall>u k. k \<noteq> 2 \<longrightarrow> k \<noteq> 4 \<longrightarrow> bit (status s' u) k = bit (status s u) k)"

lemma swframe_sel:
  assumes "swframe s s'"
  shows "g_idleTaskID s' = g_idleTaskID s" "cfg_swtmr s' = cfg_swtmr s" "g_taskScheduled s' = g_taskScheduled s"
    "g_losTaskLock s' = g_losTaskLock s" "stackMem s' = stackMem s" "g_taskMaxNum s' = g_taskMaxNum s"
    "g_allSem s' = g_allSem s" "g_allMux s' = g_allMux s" "g_allQueue s' = g_allQueue s" "uwEventID s' = uwEventID s"
    "byteMem s' = byteMem s" "mallocs s' = mallocs s" "freed s' = freed s" "os_int_active s' = os_int_active s"
    "pmMode s' = pmMode s" "g_tickIntLock s' = g_tickIntLock s"
  using assms by (auto simp: swframe_def)

lemma swframe_tcb: "swframe s s' \<Longrightarrow> sw_core (tcb s' u) = sw_core (tcb s u)"
  by (simp add: swframe_def)

lemmas swframe_tcb_sel = sw_core_sel [OF swframe_tcb]

lemma swframe_bits: "swframe s s' \<Longrightarrow> k \<noteq> 2 \<Longrightarrow> k \<noteq> 4 \<Longrightarrow> bit (status s' u) k = bit (status s u) k"
  by (simp add: swframe_def)

lemma swframe_refl: "swframe s s"
  unfolding swframe_def
  by (simp, rule exI [of _ "dl s"], rule exI [of _ "responseTime s"], rule exI [of _ "tk s"],
      rule exI [of _ "g_taskCBArray s"], rule exI [of _ "runTask s"], rule exI [of _ "newTask s"],
      rule exI [of _ "g_queueBitmap s"], rule exI [of _ "g_schedResponseID s"],
      rule exI [of _ "g_schedResponseTime s"]) simp

text \<open>
  What a tick leaves alone: every variable that is not the scheduler's, and of a
  task all but its status, its times and what it waits for.
\<close>

definition gkeep :: "kstate \<Rightarrow> kstate \<Rightarrow> bool" where
  "gkeep s s' \<longleftrightarrow> s' = s\<lparr>dl := dl s', responseTime := responseTime s', tk := tk s', g_taskCBArray := g_taskCBArray s',
     runTask := runTask s', newTask := newTask s', g_queueBitmap := g_queueBitmap s',
     g_schedResponseID := g_schedResponseID s', g_tickIntLock := g_tickIntLock s',
     g_schedResponseTime := g_schedResponseTime s'\<rparr>"

definition tick_core :: "LosTaskCB \<Rightarrow> LosTaskCB" where
  "tick_core c = c\<lparr>taskStatus := 0, timeSlice := 0, startTime := 0, waitTimes := 0, taskSem := None, taskMux := None\<rparr>"

lemma gkeep_refl: "gkeep s s"
  by (simp add: gkeep_def)

lemma gkeep_trans: "gkeep s s' \<Longrightarrow> gkeep s' s'' \<Longrightarrow> gkeep s s''"
  by (cases s; cases s'; cases s'') (simp add: gkeep_def)

lemma gkeep_frames: "frames T s s' \<Longrightarrow> gkeep s s'"
  by (cases s; cases s') (auto simp: frames_def kcore_def gkeep_def)

lemma gkeep_tframe: "tframe s s' \<Longrightarrow> gkeep s s'"
  by (auto simp: tframe_def gkeep_def)

lemma gkeep_swframe: "swframe s s' \<Longrightarrow> gkeep s s'"
  by (auto simp: swframe_def gkeep_def)

lemma gkeep_sel:
  assumes "gkeep s s'"
  shows "g_allSem s' = g_allSem s" "g_allMux s' = g_allMux s" "g_allQueue s' = g_allQueue s"
    "uwEventID s' = uwEventID s" "byteMem s' = byteMem s" "mallocs s' = mallocs s" "freed s' = freed s"
    "g_losTaskLock s' = g_losTaskLock s" "g_taskScheduled s' = g_taskScheduled s"
    "g_idleTaskID s' = g_idleTaskID s" "g_taskMaxNum s' = g_taskMaxNum s" "os_int_active s' = os_int_active s"
    "pmMode s' = pmMode s" "cfg_swtmr s' = cfg_swtmr s" "stackMem s' = stackMem s"
  by (subst assms [unfolded gkeep_def], simp)+

lemma tick_core_eq: "core c = core d \<Longrightarrow> tick_core c = tick_core d" "sw_core c = sw_core d \<Longrightarrow> tick_core c = tick_core d"
  by (cases c; cases d; simp add: core_def sw_core_def tick_core_def)+

text \<open>
  The machine outside the scheduler's lists: the clock, no task having started
  in the future, the idle task's slot, and the magic word at the end of the
  stack of every task that can still run.
\<close>

definition sys_ok :: "nat \<Rightarrow> kstate \<Rightarrow> bool" where
  "sys_ok n s \<longleftrightarrow> tick_ok n (tk s) \<and> idle_slot s \<and>
     (\<forall>t. startTime (tcb s t) \<le> now_of (tk s)) \<and>
     (\<forall>t. \<not> is_unused (status s t) \<and> \<not> is_exit (status s t) \<or> runTask s = Some t \<and> g_taskScheduled s \<longrightarrow>
        stackMem s (topOfStack (tcb s t)) = Some OS_TASK_MAGIC_WORD)"

lemma mark_switch_law:
  assumes r: "runTask s = Some r" and c: "stackMem s (topOfStack (tcb s r)) = Some OS_TASK_MAGIC_WORD"
    and run: "is_running (status s r)"
  shows "sched_mark_switch r new s = Some (mark_new new (startTime (tcb s r)) (clr_status r OS_TASK_STATUS_RUNNING s))"
proof (cases "r = new")
  case False
  then show ?thesis using r c
    by (simp add: sched_mark_switch_def OsTaskSwitchCheck_def bind_los_assert mark_new_def Let_def)
next
  case True
  have "(status s r AND NOT OS_TASK_STATUS_RUNNING) OR OS_TASK_STATUS_RUNNING = status s r"
    using run by (intro bit_eqI) (auto simp: flag_simps dest: bit_le16)
  then have "mark_new r (startTime (tcb s r)) (clr_status r OS_TASK_STATUS_RUNNING s) = s"
    by (simp add: mark_new_def los_defs fun_upd_idem)
  with True show ?thesis by (simp add: sched_mark_switch_def)
qed

text \<open>Any status bit that keeps a task from being chosen.\<close>

definition blocked :: "u16 \<Rightarrow> bool" where
  "blocked st \<longleftrightarrow> is_pend st \<or> is_delay st \<or> is_suspend st \<or> is_exit st \<or> is_unused st"

lemma all_ok_chosen:
  assumes "all_ok s L" "ready s t \<or> taskID (tcb s t) = g_idleTaskID s"
  shows "\<not> blocked (status s t)"
  using assms unfolding all_ok_def task_ok_def flags_ok_def ready_def blocked_def by blast

lemma all_ok_cong:
  assumes "all_ok s L" "g_taskCBArray s' = g_taskCBArray s" "dl s' = dl s" "responseTime s' = responseTime s"
    "g_queueBitmap s' = g_queueBitmap s" "runTask s' = runTask s" "g_idleTaskID s' = g_idleTaskID s"
    "cfg_swtmr s' = cfg_swtmr s"
  shows "all_ok s' L"
  using assms glob_ok_cong [of s L s'] task_ok_cong [of s' _ s L L] by (simp add: all_ok_def)

text \<open>The first half of OsSchedTaskSwitch: the running task is put back and a task is chosen.\<close>

lemma choose_law:
  assumes I: "sched_inv s L" and ok: "sys_ok n s" and r: "runTask s = Some r"
  obtains s1 s2 s3 h rt bm c L3 new where
    "OsGetCurrSchedTimeCycle s = Some (now_of (tk s), s1)" "OsTimeSliceUpdate r (now_of (tk s)) s1 = Some s2"
    "sched_put_back r s2 = Some s3" "OsGetTopTask s3 = Some new"
    "s3 = s\<lparr>tk := (tk s)\<lparr>g_oldTickTimerBase := now_of (tk s)\<rparr>, dl := h, responseTime := rt,
            g_queueBitmap := bm, g_taskCBArray := (g_taskCBArray s)(r := c)\<rparr>"
    "sw_core c = sw_core (tcb s r)" "startTime c = now_of (tk s)"
    "\<And>k. k \<noteq> 2 \<Longrightarrow> bit (taskStatus c) k = bit (status s r) k"
    "all_ok (clr_status r OS_TASK_STATUS_RUNNING s3) L3"
    "\<And>q. \<not> is_pri q \<Longrightarrow> q \<noteq> NTaskSort \<Longrightarrow> L3 q = L q"
    "\<And>m. m \<noteq> NSort r \<Longrightarrow> rt m = responseTime s m"
    "top_of (clr_status r OS_TASK_STATUS_RUNNING s3) new"
    "ready (clr_status r OS_TASK_STATUS_RUNNING s3) new \<or> taskID (tcb s3 new) = g_idleTaskID s3"
    "is_delay (status s r) \<or> is_pend_time (status s r) \<Longrightarrow>
       rt (NSort r) = now_of (tk s) + OS_SYS_TICK_TO_CYCLE (waitTimes (tcb s r)) (tk s)"
proof -
  have t: "tick_ok n (tk s)" and st: "startTime (tcb s r) \<le> now_of (tk s)" and i: "idle_slot s"
    using ok r by (simp_all add: sys_ok_def)
  let ?k = "(tk s)\<lparr>g_oldTickTimerBase := now_of (tk s)\<rparr>"
  let ?s1 = "s\<lparr>tk := ?k\<rparr>"
  note c1 = curr_time_law [OF t]
  have "startTime (tcb ?s1 r) \<le> now_of (tk s)" using st by simp
  then obtain c2 where c2: "OsTimeSliceUpdate r (now_of (tk s)) ?s1 = Some (?s1\<lparr>g_taskCBArray := (g_taskCBArray ?s1)(r := c2)\<rparr>)"
    "sw_core c2 = sw_core (tcb s r)" "taskStatus c2 = status s r" "startTime c2 = now_of (tk s)"
    by (rule time_slice_law) simp
  let ?s2 = "?s1\<lparr>g_taskCBArray := (g_taskCBArray ?s1)(r := c2)\<rparr>"
  have I2: "sched_inv ?s2 L" by (rule sched_inv_sw [OF I]) (simp_all add: c2)
  have r2: "runTask ?s2 = Some r" using r by simp
  have dl: "startTime (tcb ?s2 r) + OS_SYS_TICK_TO_CYCLE (waitTimes (tcb ?s2 r)) (tk ?s2) \<noteq> OS_SORT_LINK_INVALID_TIME"
    using deadline_valid(1) [OF tick_ok_read [OF t]] by (simp add: c2(4))
  obtain s3 h rt bm c L3 where 3: "sched_put_back r ?s2 = Some s3"
    "s3 = ?s2\<lparr>dl := h, responseTime := rt, g_queueBitmap := bm, g_taskCBArray := (g_taskCBArray ?s2)(r := c)\<rparr>"
    "sw_core c = sw_core (tcb ?s2 r)" "startTime c = startTime (tcb ?s2 r)"
    and b: "\<And>k. k \<noteq> 2 \<Longrightarrow> bit (taskStatus c) k = bit (status ?s2 r) k"
    and rt: "\<And>m. m \<noteq> NSort r \<Longrightarrow> rt m = responseTime ?s2 m"
    and A: "all_ok (clr_status r OS_TASK_STATUS_RUNNING s3) L3"
    and Q: "\<And>q. \<not> is_pri q \<Longrightarrow> q \<noteq> NTaskSort \<Longrightarrow> L3 q = L q"
    and D: "is_delay (status ?s2 r) \<or> is_pend_time (status ?s2 r) \<Longrightarrow>
       rt (NSort r) = startTime (tcb ?s2 r) + OS_SYS_TICK_TO_CYCLE (waitTimes (tcb ?s2 r)) (tk ?s2)"
    by (rule put_back_law [OF I2 r2 dl]) (rule that; assumption)
  let ?s4 = "clr_status r OS_TASK_STATUS_RUNNING s3"
  have tid: "taskID (tcb ?s4 u) = taskID (tcb s u)" for u
    using sw_core_sel(2) [OF 3(3)] sw_core_sel(2) [OF c2(2)] by (simp add: 3(2))
  have "idle_slot ?s4" using i by (simp add: idle_slot_def tid del: or_clr_sel(2)) (simp add: 3(2))
  from top_task_ready [OF A this] obtain new where new: "OsGetTopTask ?s4 = Some new" "top_of ?s4 new"
    "ready ?s4 new \<or> taskID (tcb ?s4 new) = g_idleTaskID ?s4" .
  have top: "OsGetTopTask s3 = Some new" using new(1) by (simp add: OsGetTopTask_def los_defs cong: if_cong)
  have E: "s3 = s\<lparr>tk := ?k, dl := h, responseTime := rt, g_queueBitmap := bm, g_taskCBArray := (g_taskCBArray s)(r := c)\<rparr>"
    by (simp add: 3(2))
  have tid3: "taskID (tcb ?s4 new) = taskID (tcb s3 new)" "g_idleTaskID ?s4 = g_idleTaskID s3" by simp_all
  show thesis
  proof (rule that [OF c1 c2(1) 3(1) top E _ _ _ A Q _ new(2)])
    show "ready ?s4 new \<or> taskID (tcb s3 new) = g_idleTaskID s3" using new(3) unfolding tid3 .
    show "rt (NSort r) = now_of (tk s) + OS_SYS_TICK_TO_CYCLE (waitTimes (tcb s r)) (tk s)"
      if "is_delay (status s r) \<or> is_pend_time (status s r)"
      using D that sw_core_sel(4) [OF c2(2)] by (simp add: c2 OS_SYS_TICK_TO_CYCLE_def)
  qed (use 3 b c2 rt in simp_all)
qed


lemma tframe_run: "tframe s s' \<Longrightarrow> tframe (s\<lparr>runTask := x\<rparr>) (s'\<lparr>runTask := x\<rparr>)"
  unfolding tframe_def
proof (elim exE)
  fix k i r assume "s' = s\<lparr>tk := k, g_schedResponseID := i, g_schedResponseTime := r\<rparr>"
  then have "s'\<lparr>runTask := x\<rparr> = s\<lparr>runTask := x, tk := k, g_schedResponseID := i, g_schedResponseTime := r\<rparr>" by simp
  then show "\<exists>k i r. s'\<lparr>runTask := x\<rparr> = s\<lparr>runTask := x, tk := k, g_schedResponseID := i, g_schedResponseTime := r\<rparr>"
    by blast
qed

lemma inv_used_running:
  "sched_inv s L \<Longrightarrow> is_running (status s u) \<and> \<not> is_unused (status s u) \<longrightarrow> runTask s = Some u"
  using sched_inv_task [of s L u] by (simp add: task_ok_def)

text \<open>
  ArchTaskSchedule returns, and the task that then runs is one no ready task
  precedes; \<open>sys_ok\<close> spends one timer period.
\<close>

lemma schedule_law:
  assumes I: "sched_inv s L" and ok: "sys_ok (Suc n) s" and r: "runTask s = Some r" and sc: "g_taskScheduled s"
  obtains s' L' new where "ArchTaskSchedule s = Some s'" "sched_inv s' L'" "sys_ok n s'" "swframe s s'"
    "runTask s' = Some new" "top_of s' new" "\<not> blocked (status s' new)"
    "\<And>q. \<not> is_pri q \<Longrightarrow> q \<noteq> NTaskSort \<Longrightarrow> L' q = L q"
    "\<And>u. u \<noteq> r \<Longrightarrow> u \<noteq> new \<Longrightarrow> tcb s' u = tcb s u"
    "\<And>m. m \<noteq> NSort r \<Longrightarrow> responseTime s' m = responseTime s m"
    "is_delay (status s r) \<or> is_pend_time (status s r) \<Longrightarrow>
       responseTime s' (NSort r) = now_of (tk s) + OS_SYS_TICK_TO_CYCLE (waitTimes (tcb s r)) (tk s)"
proof -
  obtain s1 s2 s3 h rt bm c L3 new where
    D: "OsGetCurrSchedTimeCycle s = Some (now_of (tk s), s1)" "OsTimeSliceUpdate r (now_of (tk s)) s1 = Some s2"
    "sched_put_back r s2 = Some s3" "OsGetTopTask s3 = Some new"
    and 3: "s3 = s\<lparr>tk := (tk s)\<lparr>g_oldTickTimerBase := now_of (tk s)\<rparr>, dl := h, responseTime := rt,
            g_queueBitmap := bm, g_taskCBArray := (g_taskCBArray s)(r := c)\<rparr>"
    "sw_core c = sw_core (tcb s r)" "startTime c = now_of (tk s)"
    and b: "\<And>k. k \<noteq> 2 \<Longrightarrow> bit (taskStatus c) k = bit (status s r) k"
    and A: "all_ok (clr_status r OS_TASK_STATUS_RUNNING s3) L3"
    and Q: "\<And>q. \<not> is_pri q \<Longrightarrow> q \<noteq> NTaskSort \<Longrightarrow> L3 q = L q"
    and rt: "\<And>m. m \<noteq> NSort r \<Longrightarrow> rt m = responseTime s m"
    and top: "top_of (clr_status r OS_TASK_STATUS_RUNNING s3) new"
    and ch: "ready (clr_status r OS_TASK_STATUS_RUNNING s3) new \<or> taskID (tcb s3 new) = g_idleTaskID s3"
    and dl: "is_delay (status s r) \<or> is_pend_time (status s r) \<Longrightarrow>
       rt (NSort r) = now_of (tk s) + OS_SYS_TICK_TO_CYCLE (waitTimes (tcb s r)) (tk s)"
    by (rule choose_law [OF I ok r]) (rule that; assumption)
  let ?s3 = "s3\<lparr>newTask := Some new\<rparr>"
  let ?s4 = "clr_status r OS_TASK_STATUS_RUNNING ?s3"
  have A4: "all_ok ?s4 L3" by (rule all_ok_cong [OF A]) (simp_all add: los_defs)
  have ch4: "ready ?s4 new \<or> taskID (tcb ?s4 new) = g_idleTaskID ?s4" using ch by (auto simp: ready_def)
  have nr: "\<not> (is_running (status ?s4 u) \<and> \<not> is_unused (status ?s4 u))" for u
  proof (cases "u = r")
    case True
    then show ?thesis by (simp add: flag_simps)
  next
    case False
    then have "tcb ?s4 u = tcb s u" by (simp add: 3(1))
    with inv_used_running [OF I, of u] r False show ?thesis by auto
  qed
  have mg: "stackMem ?s3 (topOfStack (tcb ?s3 r)) = Some OS_TASK_MAGIC_WORD"
    using ok r sc sw_core_sel(3) [OF 3(2)] by (simp add: 3(1) sys_ok_def)
  have run3: "is_running (status ?s3 r)" using inv_running(1) [OF I r] b [of 4] by (simp add: 3(1))
  have r3: "runTask ?s3 = Some r" using r by (simp add: 3(1))
  have mk: "sched_mark_switch r new ?s3 = Some (mark_new new (now_of (tk s)) ?s4)"
    using mark_switch_law [OF r3 mg run3, of new] 3(3) by (simp add: 3(1))
  obtain s6 h6 bm6 L6 where 6: "OsSchedTaskDeQueue new (mark_new new (now_of (tk s)) ?s4) = Some s6"
    "s6 = ?s4\<lparr>dl := h6, g_queueBitmap := bm6, g_taskCBArray := (g_taskCBArray ?s4)(new := (tcb ?s4 new)\<lparr>
        startTime := now_of (tk s),
        taskStatus := (status ?s4 new OR OS_TASK_STATUS_RUNNING) AND NOT OS_TASK_STATUS_READY\<rparr>)\<rparr>"
    "sched_inv (s6\<lparr>runTask := Some new\<rparr>) L6" and Q6: "\<And>q. \<not> is_pri q \<Longrightarrow> L6 q = L3 q"
    by (rule run_new_law [OF A4 nr ch4]) (rule that; assumption)
  define s7 where "s7 = (if g_schedResponseID s6 = taskID (tcb s6 r)
              then s6\<lparr>g_schedResponseTime := OS_SCHED_MAX_RESPONSE_TIME\<rparr> else s6)"
  have t67: "tframe s6 s7" by (simp add: s7_def tframe_refl tframe_tk)
  have tk7: "tk s7 = (tk s)\<lparr>g_oldTickTimerBase := now_of (tk s)\<rparr>" by (simp add: s7_def 6(2) 3(1) los_defs)
  have tick7: "tick_ok (Suc n) (tk s7)" using ok tick_ok_read by (simp add: tk7 sys_ok_def)
  have g7: "glob_ok s7 L6"
    by (rule glob_ok_tframe [OF t67], rule glob_ok_cong [OF sched_inv_glob [OF 6(3)]]) simp_all
  define e where "e = (if taskID (tcb s6 new) \<noteq> g_idleTaskID s6
      then startTime (tcb s6 new) + scast (timeSlice (tcb s6 new))
      else OS_SCHED_MAX_RESPONSE_TIME - ucast (g_tickResponsePrecision s6))"
  obtain s8 where 8: "OsSchedSetNextExpireTime (taskID (tcb s7 new)) e s7 = Some s8" "tframe s7 s8"
    "tick_ok n (tk s8)" "now_of (tk s7) \<le> now_of (tk s8)"
    by (rule set_next_expire_law [OF g7 tick7]) (rule that; assumption)
  have t68: "tframe s6 s8" by (rule tframe_trans [OF t67 8(2)])
  have tcb7: "g_taskCBArray s7 = g_taskCBArray s6" by (rule tframe_sel(3) [OF t67])
  have SW: "OsSchedTaskSwitch s = Some (r \<noteq> new, s8)"
    unfolding OsSchedTaskSwitch_def r
    by (simp only: D mk 6(1) 8(1) [unfolded e_def s7_def] Let_def Option.bind.bind_lunit prod.case)
  let ?s = "s8\<lparr>runTask := Some new\<rparr>"
  have n8: "newTask s8 = Some new" "runTask s8 = Some r"
    using tframe_sel(4,5) [OF t68] r by (simp_all add: 6(2) 3(1) los_defs)
  have O: "ArchTaskSchedule s = Some ?s"
    using n8 by (cases "r = new") (simp_all add: ArchTaskSchedule_def SW)
  have I8: "sched_inv ?s L6" by (rule sched_inv_tframe [OF tframe_run [OF t68] 6(3)])
  have tcb: "tcb s8 u = (if u = new then (tcb ?s4 new)\<lparr>startTime := now_of (tk s),
        taskStatus := (status ?s4 new OR OS_TASK_STATUS_RUNNING) AND NOT OS_TASK_STATUS_READY\<rparr>
      else if u = r then c\<lparr>taskStatus := taskStatus c AND NOT OS_TASK_STATUS_RUNNING\<rparr> else tcb s u)" for u
    using tframe_sel(3) [OF t68] by (simp add: 6(2) 3(1) los_defs)
  have bits: "bit (status ?s u) k = bit (status s u) k" if "k \<noteq> 2" "k \<noteq> 4" for u k
    using that b [of k] by (auto simp: tcb 3(1) flag_simps dest: bit_le16)
  have core: "sw_core (tcb ?s u) = sw_core (tcb s u)" for u
    using 3(2) by (simp add: tcb 3(1))
  obtain k i x where e8: "s8 = s6\<lparr>tk := k, g_schedResponseID := i, g_schedResponseTime := x\<rparr>"
    using t68 unfolding tframe_def by blast
  have "\<exists>h rt k a run new bm i x. ?s = s\<lparr>dl := h, responseTime := rt, tk := k, g_taskCBArray := a,
        runTask := run, newTask := new, g_queueBitmap := bm, g_schedResponseID := i, g_schedResponseTime := x\<rparr>"
    by (rule exI [of _ h6], rule exI [of _ rt], rule exI [of _ k], rule exI [of _ "g_taskCBArray s6"],
        rule exI [of _ "Some new"], rule exI [of _ "Some new"], rule exI [of _ bm6], rule exI [of _ i],
        rule exI [of _ x]) (simp add: e8 6(2) 3(1) los_defs)
  with core bits have F: "swframe s ?s" unfolding swframe_def by blast
  note fs = swframe_sel [OF F] and ft = swframe_tcb_sel [OF F]
  have nb: "\<not> blocked (status ?s new)"
    using all_ok_chosen [OF A4 ch4] by (auto simp: blocked_def tcb flag_simps)
  let ?s3c = "clr_status r OS_TASK_STATUS_RUNNING s3"
  have e3: "taskID (tcb ?s3c u) = taskID (tcb s u)" "priority (tcb ?s3c u) = priority (tcb s u)"
    "g_idleTaskID ?s3c = g_idleTaskID s" for u
    using sw_core_sel(1,2) [OF 3(2)] by (simp_all add: 3(1))
  have rd: "is_ready (status ?s3c u)" if "is_ready (status ?s u)" for u
  proof (cases "u = new")
    case True
    with that show ?thesis by (simp add: tcb flag_simps)
  next
    case False
    with that show ?thesis by (cases "u = r") (simp_all add: tcb 3(1) flag_simps)
  qed
  have tp: "top_of ?s new"
    using top rd unfolding top_of_def ready_def fs ft e3 by blast
  have S: "sys_ok n ?s"
    unfolding sys_ok_def
  proof (intro conjI allI impI)
    show "tick_ok n (tk ?s)" using 8(3) by simp
    show "idle_slot ?s" using ok unfolding sys_ok_def idle_slot_def fs ft by blast
    show "startTime (tcb ?s t) \<le> now_of (tk ?s)" for t
      using 8(4) ok order_trans [of "startTime (tcb s t)" "now_of (tk s)" "now_of (tk s8)"]
      by (auto simp: tcb tk7 3(3) sys_ok_def)
    show "stackMem ?s (topOfStack (tcb ?s t)) = Some OS_TASK_MAGIC_WORD"
      if "\<not> is_unused (status ?s t) \<and> \<not> is_exit (status ?s t) \<or> runTask ?s = Some t \<and> g_taskScheduled ?s" for t
    proof -
      have "\<not> is_unused (status s t) \<and> \<not> is_exit (status s t)"
        using that bits [of 0 t] bits [of 8 t] nb by (auto simp: blocked_def)
      then show ?thesis using ok unfolding sys_ok_def fs ft by blast
    qed
  qed
  have rt8: "responseTime ?s m = responseTime s m" if "m \<noteq> NSort r" for m
    using tframe_sel(2) [OF t68] rt [OF that] by (simp add: 6(2) 3(1) los_defs)
  have Q': "L6 q = L q" if "\<not> is_pri q" "q \<noteq> NTaskSort" for q using Q Q6 that by simp
  have dl8: "responseTime ?s (NSort r) = now_of (tk s) + OS_SYS_TICK_TO_CYCLE (waitTimes (tcb s r)) (tk s)"
    if "is_delay (status s r) \<or> is_pend_time (status s r)"
    using tframe_sel(2) [OF t68] dl [OF that] by (simp add: 6(2) 3(1) los_defs)
  show thesis by (rule that [OF O I8 S F _ tp nb Q' _ rt8 dl8]) (simp_all add: tcb)
qed

subsection \<open>The scheduler call and the tick\<close>

lemma LOS_Schedule_law:
  assumes I: "sched_inv s L" and ok: "sys_ok (Suc n) s" and r: "runTask s = Some r"
  obtains s' L' where "LOS_Schedule s = Some s'" "sched_inv s' L'" "sys_ok n s'" "swframe s s'"
    "g_taskScheduled s \<and> g_losTaskLock s = 0 \<longrightarrow>
       (\<exists>new. runTask s' = Some new \<and> top_of s' new \<and> \<not> blocked (status s' new))"
    "\<not> (g_taskScheduled s \<and> g_losTaskLock s = 0) \<longrightarrow> s' = s"
    "\<And>q. \<not> is_pri q \<Longrightarrow> q \<noteq> NTaskSort \<Longrightarrow> L' q = L q"
    "\<And>u. u \<noteq> r \<Longrightarrow> runTask s' \<noteq> Some u \<Longrightarrow> tcb s' u = tcb s u"
    "g_taskScheduled s \<and> g_losTaskLock s = 0 \<Longrightarrow> is_delay (status s r) \<or> is_pend_time (status s r) \<Longrightarrow>
       responseTime s' (NSort r) = now_of (tk s) + OS_SYS_TICK_TO_CYCLE (waitTimes (tcb s r)) (tk s)"
proof (cases "g_taskScheduled s \<and> g_losTaskLock s = 0")
  case True
  obtain s' L' new where 1: "ArchTaskSchedule s = Some s'" "sched_inv s' L'" "sys_ok n s'" "swframe s s'"
    "runTask s' = Some new" "top_of s' new" "\<not> blocked (status s' new)"
    and Q: "\<And>q. \<not> is_pri q \<Longrightarrow> q \<noteq> NTaskSort \<Longrightarrow> L' q = L q"
    and U: "\<And>u. u \<noteq> r \<Longrightarrow> u \<noteq> new \<Longrightarrow> tcb s' u = tcb s u"
    and D: "is_delay (status s r) \<or> is_pend_time (status s r) \<Longrightarrow>
       responseTime s' (NSort r) = now_of (tk s) + OS_SYS_TICK_TO_CYCLE (waitTimes (tcb s r)) (tk s)"
    by (rule schedule_law [OF I ok r conjunct1 [OF True]]) (rule that; assumption)
  have O: "LOS_Schedule s = Some s'" using True 1(1) by (simp add: LOS_Schedule_def)
  show thesis by (rule that [OF O 1(2-4) _ _ Q U D]) (use True 1(5-7) in auto)
next
  case False
  have O: "LOS_Schedule s = Some s" using False by (auto simp: LOS_Schedule_def)
  have S: "sys_ok n s" using ok tick_ok_mono [of "Suc n" "tk s" n] by (simp add: sys_ok_def)
  show thesis by (rule that [OF O I S swframe_refl]) (use False in auto)
qed

text \<open>The tasks whose timeout has passed.\<close>

definition due :: "u64 \<Rightarrow> kstate \<Rightarrow> nat set" where
  "due now s = {t. delayed s t \<and> responseTime s (NSort t) \<le> now}"

lemma set_takeWhile_sorted:
  "sorted (map f xs) \<Longrightarrow> set (takeWhile (\<lambda>x. f x \<le> c) xs) = {x \<in> set xs. f x \<le> (c :: 'a::linorder)}"
  by (induction xs) auto

lemma expired_due:
  assumes I: "sched_inv s L" and q: "L NTaskSort = Some xs"
  shows "expired now s xs = due now s"
proof -
  have "NSort t \<in> set xs \<longleftrightarrow> delayed s t" for t
    using sched_inv_task [OF I, of t] q by (simp add: task_ok_def mem_def)
  then show ?thesis
    unfolding expired_def due_def set_takeWhile_sorted [OF inv_sort_list(3) [OF I q]] by auto
qed

lemma scan_list_law:
  assumes I: "sched_inv s L" and t: "tick_ok n (tk s)"
  obtains need k s' L' where "OsSchedScanTimerList s = Some (need, s')" "sched_inv s' L'"
    "k = tk s \<or> k = (tk s)\<lparr>g_oldTickTimerBase := now_of (tk s)\<rparr>"
    "frames (due (now_of (tk s)) s) (s\<lparr>tk := k\<rparr>) s'" "\<forall>u \<in> due (now_of (tk s)) s. woken s s' u"
    "\<forall>q. \<not> is_pri q \<longrightarrow> q \<noteq> NTaskSort \<longrightarrow> L' q = strips (NPend ` due (now_of (tk s)) s) L q"
proof -
  obtain xs where xs: "L NTaskSort = Some xs" using I by (auto simp: sched_inv_def glob_ok_def)
  note R = glob_ok_rep [OF sched_inv_glob [OF I]]
  show thesis
  proof (cases xs)
    case Nil
    then have "OsSchedScanTimerList s = Some (False, s)"
      using list_empty [OF R xs] by (simp add: OsSchedScanTimerList_def)
    moreover have "due (now_of (tk s)) s = {}"
      using expired_due [OF I xs, of "now_of (tk s)"] Nil by (simp add: expired_def)
    ultimately show thesis using I that [of False s L "tk s"] by (simp add: strips_eq)
  next
    case (Cons x ys)
    obtain u where x: "x = NSort u" using inv_sort_list(1) [OF I xs] Cons by auto
    let ?k = "(tk s)\<lparr>g_oldTickTimerBase := now_of (tk s)\<rparr>"
    let ?s = "s\<lparr>tk := ?k\<rparr>"
    have I1: "sched_inv ?s L" by (rule sched_inv_tframe [OF tframe_tk(1) I])
    have xs1: "L NTaskSort = Some (NSort u # ys)" using xs Cons x by simp
    obtain need s' L' where 1: "scan_timer_loop (NSort u) (now_of (tk s)) False ?s = Some (need, s')" "sched_inv s' L'"
      "frames (expired (now_of (tk s)) ?s (NSort u # ys)) ?s s'"
      "\<forall>v \<in> expired (now_of (tk s)) ?s (NSort u # ys). woken ?s s' v"
      "\<forall>q. \<not> is_pri q \<longrightarrow> q \<noteq> NTaskSort \<longrightarrow> L' q = strips (NPend ` expired (now_of (tk s)) ?s (NSort u # ys)) L q"
      using scan_loop_law [OF I1 xs1, of "now_of (tk s)" False] by blast
    have e: "expired (now_of (tk s)) ?s (NSort u # ys) = due (now_of (tk s)) s"
      using expired_due [OF I1 xs1] by (simp add: due_def delayed_def)
    have ne: "\<not> k_ListEmpty NTaskSort s" "pstNext (dl s) NTaskSort = Some (NSort u)"
      using list_empty [OF R xs1] list_first [OF R xs1] by simp_all
    have O: "OsSchedScanTimerList s = Some (need, s')"
      using ne 1(1) curr_time_law [OF t] by (simp add: OsSchedScanTimerList_def)
    show thesis
      by (rule that [OF O 1(2) disjI2 [OF refl]]) (use 1(3-5) in \<open>simp_all add: e woken_def\<close>)
  qed
qed

lemma update_expire_law:
  assumes I: "sched_inv s L" and t: "tick_ok (Suc n) (tk s)"
  obtains s' where "OsSchedUpdateExpireTime s = Some s'" "tframe s s'" "tick_ok n (tk s')"
    "now_of (tk s) \<le> now_of (tk s')"
proof (cases "\<not> g_taskScheduled s \<or> g_tickIntLock s \<noteq> 0")
  case True
  have O: "OsSchedUpdateExpireTime s = Some s" using True by (auto simp: OsSchedUpdateExpireTime_def)
  show thesis by (rule that [OF O tframe_refl]) (use tick_ok_mono [OF t, of n] in simp_all)
next
  case False
  obtain r where r: "runTask s = Some r" using sched_inv_run_ok [OF I] by (auto simp: run_ok_def)
  define e where "e = (if taskID (tcb s r) \<noteq> g_idleTaskID s \<and> \<not> pmMode s
           then startTime (tcb s r) +
                scast (if timeSlice (tcb s r) \<le>s g_schedTimeSliceMin s
                       then g_schedTimeSlice s else timeSlice (tcb s r))
           else OS_SCHED_MAX_RESPONSE_TIME - ucast (g_tickResponsePrecision s))"
  obtain s' where 1: "OsSchedSetNextExpireTime (taskID (tcb s r)) e s = Some s'" "tframe s s'" "tick_ok n (tk s')"
    "now_of (tk s) \<le> now_of (tk s')"
    by (rule set_next_expire_law [OF sched_inv_glob [OF I] t]) (rule that; assumption)
  have O: "OsSchedUpdateExpireTime s = Some s'"
    using False r 1(1) unfolding OsSchedUpdateExpireTime_def e_def
    by (simp only: if_False simp_thms Option.bind.bind_lunit Let_def)
  show thesis by (rule that [OF O 1(2-4)])
qed

lemma sys_ok_frames:
  assumes ok: "sys_ok n s" and f: "frames T s s'"
    and u: "\<And>u. u \<in> T \<Longrightarrow> is_unused (status s' u) = is_unused (status s u)"
      "\<And>u. u \<in> T \<Longrightarrow> is_exit (status s' u) = is_exit (status s u)"
  shows "sys_ok n s'"
proof -
  have st: "is_unused (status s' t) = is_unused (status s t)" "is_exit (status s' t) = is_exit (status s t)" for t
    using u f by (cases "t \<in> T"; simp add: frames_def)+
  have c: "core (tcb s' t) = core (tcb s t)" for t using f by (simp add: frames_def)
  show ?thesis using ok unfolding sys_ok_def idle_slot_def st frames_sel [OF f] core_sel [OF c] by blast
qed

lemma sys_ok_read: "sys_ok n s \<Longrightarrow> sys_ok n (s\<lparr>tk := (tk s)\<lparr>g_oldTickTimerBase := now_of (tk s)\<rparr>\<rparr>)"
  by (simp add: sys_ok_def idle_slot_def tick_ok_read)

text \<open>The tasks a tick wakes: none when the tick only ends a time slice.\<close>

definition tick_due :: "u64 \<Rightarrow> kstate \<Rightarrow> nat set" where
  "tick_due now s = (if g_schedResponseID s = OS_INVALID then due now s else {})"

lemma tick_scan_law:
  assumes I: "sched_inv s L" and ok: "sys_ok n s"
  obtains s' L' where
    "(if g_schedResponseID s = OS_INVALID
      then do {
        let s = s\<lparr>g_tickIntLock := g_tickIntLock s + 1\<rparr>;
        (_, s) \<leftarrow> OsSchedScanTimerList s;
        Some (s\<lparr>g_tickIntLock := g_tickIntLock s - 1\<rparr>)
      }
      else Some s) = Some s'"
    "sched_inv s' L'" "sys_ok n s'" "now_of (tk s') = now_of (tk s)" "runTask s' = runTask s"
    "g_losTaskLock s' = g_losTaskLock s"
    "\<forall>u \<in> tick_due (now_of (tk s)) s. woken s s' u"
    "\<And>u. u \<notin> tick_due (now_of (tk s)) s \<Longrightarrow> tcb s' u = tcb s u"
    "\<And>q. \<not> is_pri q \<Longrightarrow> q \<noteq> NTaskSort \<Longrightarrow> L' q = strips (NPend ` tick_due (now_of (tk s)) s) L q"
    "gkeep s s'" "\<And>u. tick_core (tcb s' u) = tick_core (tcb s u)"
proof (cases "g_schedResponseID s = OS_INVALID")
  case False
  have "(if g_schedResponseID s = OS_INVALID
      then do {
        let s = s\<lparr>g_tickIntLock := g_tickIntLock s + 1\<rparr>;
        (_, s) \<leftarrow> OsSchedScanTimerList s;
        Some (s\<lparr>g_tickIntLock := g_tickIntLock s - 1\<rparr>)
      }
      else Some s) = Some s" using False by simp
  then show thesis by (rule that [OF _ I ok]) (use False in \<open>simp_all add: tick_due_def strips_eq gkeep_refl\<close>)
next
  case True
  let ?s1 = "s\<lparr>g_tickIntLock := g_tickIntLock s + 1\<rparr>"
  let ?now = "now_of (tk s)"
  have I1: "sched_inv ?s1 L" by (rule sched_inv_sw [OF I]) simp_all
  have t1: "tick_ok n (tk ?s1)" using ok by (simp add: sys_ok_def)
  have ok1: "sys_ok n ?s1" using ok by (simp add: sys_ok_def idle_slot_def)
  obtain need k s2 L2 where 2: "OsSchedScanTimerList ?s1 = Some (need, s2)" "sched_inv s2 L2"
    "k = tk ?s1 \<or> k = (tk ?s1)\<lparr>g_oldTickTimerBase := now_of (tk ?s1)\<rparr>"
    "frames (due (now_of (tk ?s1)) ?s1) (?s1\<lparr>tk := k\<rparr>) s2" "\<forall>u \<in> due (now_of (tk ?s1)) ?s1. woken ?s1 s2 u"
    "\<forall>q. \<not> is_pri q \<longrightarrow> q \<noteq> NTaskSort \<longrightarrow> L2 q = strips (NPend ` due (now_of (tk ?s1)) ?s1) L q"
    by (rule scan_list_law [OF I1 t1]) (rule that; assumption)
  have d: "due (now_of (tk ?s1)) ?s1 = tick_due ?now s" using True by (simp add: tick_due_def due_def delayed_def)
  note F = 2(4) [unfolded d] and W = 2(5) [unfolded d] and Q = 2(6) [unfolded d]
  have okk: "sys_ok n (?s1\<lparr>tk := k\<rparr>)" using 2(3) ok1 sys_ok_read [OF ok1] by auto
  have ok2: "sys_ok n s2" by (rule sys_ok_frames [OF okk F]) (use W in \<open>auto simp: woken_def\<close>)
  let ?s = "s2\<lparr>g_tickIntLock := g_tickIntLock s2 - 1\<rparr>"
  have I3: "sched_inv ?s L2" by (rule sched_inv_sw [OF 2(2)]) simp_all
  have ok3: "sys_ok n ?s" using ok2 by (simp add: sys_ok_def idle_slot_def)
  have O: "(if g_schedResponseID s = OS_INVALID
      then do {
        let s = s\<lparr>g_tickIntLock := g_tickIntLock s + 1\<rparr>;
        (_, s) \<leftarrow> OsSchedScanTimerList s;
        Some (s\<lparr>g_tickIntLock := g_tickIntLock s - 1\<rparr>)
      }
      else Some s) = Some ?s" using True 2(1) by simp
  have nw: "now_of k = now_of (tk s)" using 2(3) by auto
  have G: "gkeep s ?s"
    using gkeep_frames [OF F] unfolding gkeep_def by (cases s; cases s2) simp
  have C: "tick_core (tcb ?s u) = tick_core (tcb s u)" for u
    using F tick_core_eq(1) [of "tcb s2 u" "tcb s u"] by (simp add: frames_def)
  show thesis
    by (rule that [OF O I3 ok3 _ _ _ _ _ _ G C])
       (use frames_sel [OF F] W F Q nw in \<open>simp_all add: woken_def frames_def\<close>)
qed

lemma tick_finish_law:
  assumes I: "sched_inv s L" and ok: "sys_ok (Suc n) s" and r: "runTask s = Some r" and sc: "g_taskScheduled s"
  obtains s' L' where
    "(if g_losTaskLock s = 0 then ArchTaskSchedule s else OsSchedUpdateExpireTime s) = Some s'"
    "sched_inv s' L'" "sys_ok n s'"
    "g_losTaskLock s = 0 \<longrightarrow> (\<exists>new. runTask s' = Some new \<and> top_of s' new \<and> \<not> blocked (status s' new))"
    "\<And>u k. k \<noteq> 2 \<Longrightarrow> k \<noteq> 4 \<Longrightarrow> bit (status s' u) k = bit (status s u) k"
    "\<And>u. u \<noteq> r \<Longrightarrow> runTask s' \<noteq> Some u \<Longrightarrow> tcb s' u = tcb s u"
    "\<And>q. \<not> is_pri q \<Longrightarrow> q \<noteq> NTaskSort \<Longrightarrow> L' q = L q"
    "gkeep s s'" "\<And>u. tick_core (tcb s' u) = tick_core (tcb s u)"
    "g_losTaskLock s \<noteq> 0 \<Longrightarrow> runTask s' = runTask s"
proof (cases "g_losTaskLock s = 0")
  case True
  obtain s' L' new where 1: "ArchTaskSchedule s = Some s'" "sched_inv s' L'" "sys_ok n s'" "swframe s s'"
    "runTask s' = Some new" "top_of s' new" "\<not> blocked (status s' new)"
    and Q: "\<And>q. \<not> is_pri q \<Longrightarrow> q \<noteq> NTaskSort \<Longrightarrow> L' q = L q"
    and U: "\<And>u. u \<noteq> r \<Longrightarrow> u \<noteq> new \<Longrightarrow> tcb s' u = tcb s u"
    by (rule schedule_law [OF I ok r sc]) (rule that; assumption)
  show thesis
    by (rule that [OF _ 1(2,3) _ swframe_bits [OF 1(4)] U Q gkeep_swframe [OF 1(4)] tick_core_eq(2) [OF swframe_tcb [OF 1(4)]]])
       (use True 1 in auto)
next
  case False
  have t: "tick_ok (Suc n) (tk s)" using ok by (simp add: sys_ok_def)
  obtain s' where 1: "OsSchedUpdateExpireTime s = Some s'" "tframe s s'" "tick_ok n (tk s')"
    "now_of (tk s) \<le> now_of (tk s')"
    by (rule update_expire_law [OF I t]) (rule that; assumption)
  have S: "sys_ok n s'"
    using ok 1(3,4) r by (auto simp: sys_ok_def idle_slot_def tframe_sel [OF 1(2)] intro: order_trans)
  show thesis
    by (rule that [OF _ sched_inv_tframe [OF 1(2) I] S _ _ _ _ gkeep_tframe [OF 1(2)]])
       (use False 1(1) in \<open>simp_all add: tframe_sel [OF 1(2)]\<close>)
qed


text \<open>OsTickHandler without a registered software-timer scan; it spends two timer periods.\<close>

lemma tick_law:
  assumes I: "sched_inv s L" and ok: "sys_ok (Suc (Suc n)) s" and sch: "g_taskScheduled s"
  obtains s' L' where "OsTickHandler None s = Some s'" "sched_inv s' L'" "sys_ok n s'"
    "g_losTaskLock s = 0 \<longrightarrow> (\<exists>new. runTask s' = Some new \<and> top_of s' new \<and> \<not> blocked (status s' new))"
    "\<And>u. u \<in> tick_due (now_of (OsUpdateSysTimeBase (tk s))) s \<Longrightarrow>
       \<not> is_pend (status s' u) \<and> \<not> is_delay (status s' u) \<and> \<not> is_pend_time (status s' u) \<and>
       (is_timeout (status s' u) \<longleftrightarrow> is_pend (status s u) \<or> is_timeout (status s u)) \<and>
       (is_ready (status s' u) \<or> is_suspend (status s u) \<or> runTask s' = Some u)"
    "\<And>u k. u \<notin> tick_due (now_of (OsUpdateSysTimeBase (tk s))) s \<Longrightarrow> k \<noteq> 2 \<Longrightarrow> k \<noteq> 4 \<Longrightarrow>
       bit (status s' u) k = bit (status s u) k"
    "\<And>q. \<not> is_pri q \<Longrightarrow> q \<noteq> NTaskSort \<Longrightarrow>
       L' q = strips (NPend ` tick_due (now_of (OsUpdateSysTimeBase (tk s))) s) L q"
    "gkeep s s'" "\<And>u. tick_core (tcb s' u) = tick_core (tcb s u)"
    "g_losTaskLock s \<noteq> 0 \<Longrightarrow> runTask s' = runTask s"
    "\<And>u k. k < 2 \<or> 7 < k \<Longrightarrow> bit (status s' u) k = bit (status s u) k"
proof -
  let ?k = "OsUpdateSysTimeBase (tk s)"
  define now where "now = now_of ?k"
  define s1 where "s1 = s\<lparr>tk := ?k\<lparr>g_oldTickTimerBase := now\<rparr>\<rparr>"
  have "tick_ok (Suc (Suc n)) (tk s)" using ok by (simp add: sys_ok_def)
  note U = update_base_law [OF this]
  have c1: "OsGetCurrSchedTimeCycle (s\<lparr>tk := ?k\<rparr>) = Some (now, s1)"
    using curr_time_law [of "Suc n" "s\<lparr>tk := ?k\<rparr>"] U(1) by (simp add: s1_def now_def)
  obtain r where r: "runTask s = Some r" using sched_inv_run_ok [OF I] by (auto simp: run_ok_def)
  have st: "startTime (tcb s u) \<le> now" for u
    using ok order_trans [OF _ U(2), of "startTime (tcb s u)"] by (simp add: sys_ok_def now_def)
  have I1: "sched_inv s1 L" unfolding s1_def by (rule sched_inv_tframe [OF tframe_tk(1) I])
  have n1: "now_of (tk s1) = now" by (simp add: s1_def now_def)
  have t1: "tick_ok (Suc n) (tk s1)" using tick_ok_read [OF U(1)] by (simp add: s1_def now_def)
  have ok1: "sys_ok (Suc n) s1"
    using ok t1 n1 st by (auto simp: sys_ok_def idle_slot_def s1_def now_def)
  have d1: "tick_due now s1 = tick_due now s" by (simp add: s1_def tick_due_def due_def delayed_def)
  have T1: "tcb s1 u = tcb s u" for u by (simp add: s1_def)
  obtain s2 L2 where 2: "(if g_schedResponseID s1 = OS_INVALID
      then do {
        let s = s1\<lparr>g_tickIntLock := g_tickIntLock s1 + 1\<rparr>;
        (_, s) \<leftarrow> OsSchedScanTimerList s;
        Some (s\<lparr>g_tickIntLock := g_tickIntLock s - 1\<rparr>)
      }
      else Some s1) = Some s2"
    "sched_inv s2 L2" "sys_ok (Suc n) s2" "now_of (tk s2) = now_of (tk s1)" "runTask s2 = runTask s1"
    "g_losTaskLock s2 = g_losTaskLock s1"
    "\<forall>u \<in> tick_due (now_of (tk s1)) s1. woken s1 s2 u"
    and T2: "\<And>u. u \<notin> tick_due (now_of (tk s1)) s1 \<Longrightarrow> tcb s2 u = tcb s1 u"
    and Q2: "\<And>q. \<not> is_pri q \<Longrightarrow> q \<noteq> NTaskSort \<Longrightarrow> L2 q = strips (NPend ` tick_due (now_of (tk s1)) s1) L q"
    and G2: "gkeep s1 s2" "\<And>u. tick_core (tcb s2 u) = tick_core (tcb s1 u)"
    by (rule tick_scan_law [OF I1 ok1]) (rule that; assumption)
  have r2: "runTask s2 = Some r" using r 2(5) by (simp add: s1_def)
  have st2: "startTime (tcb s2 r) \<le> now" using 2(3,4) n1 r2 by (simp add: sys_ok_def)
  obtain c where c: "OsTimeSliceUpdate r now s2 = Some (s2\<lparr>g_taskCBArray := (g_taskCBArray s2)(r := c)\<rparr>)"
    "sw_core c = sw_core (tcb s2 r)" "taskStatus c = status s2 r" "startTime c = now"
    by (rule time_slice_law [OF st2]) (rule that; assumption)
  let ?s3 = "s2\<lparr>g_taskCBArray := (g_taskCBArray s2)(r := c)\<rparr>"
  have t3: "tick_ok (Suc n) (tk ?s3)" using 2(3) by (simp add: sys_ok_def)
  let ?s4 = "?s3\<lparr>tk := (tk s2)\<lparr>g_oldTickTimerBase := now\<rparr>\<rparr>"
  have c4: "OsGetCurrSchedTimeCycle ?s3 = Some (now, ?s4)"
    using curr_time_law [OF t3] 2(4) n1 by simp
  let ?s5 = "upd_tcb r (\<lambda>c. c\<lparr>startTime := now\<rparr>) ?s4\<lparr>g_schedResponseTime := OS_SCHED_MAX_RESPONSE_TIME\<rparr>"
  have I5: "sched_inv ?s5 L2" by (rule sched_inv_sw [OF 2(2)]) (simp_all add: upd_tcb_def c)
  have n5: "now_of (tk ?s5) = now" using 2(4) n1 by (simp add: upd_tcb_def)
  have ok5: "sys_ok (Suc n) ?s5"
    using 2(3) tick_ok_read [OF t3] 2(4) n1 r2 sw_core_sel [OF c(2)] c(3)
    by (auto simp: sys_ok_def idle_slot_def upd_tcb_def)
  have r5: "runTask ?s5 = Some r" using r2 by (simp add: upd_tcb_def)
  have sc5: "g_taskScheduled ?s5" using gkeep_sel(9) [OF G2(1)] sch by (simp add: s1_def upd_tcb_def)
  obtain s' L' where 6: "(if g_losTaskLock ?s5 = 0 then ArchTaskSchedule ?s5 else OsSchedUpdateExpireTime ?s5) = Some s'"
    "sched_inv s' L'" "sys_ok n s'"
    "g_losTaskLock ?s5 = 0 \<longrightarrow> (\<exists>new. runTask s' = Some new \<and> top_of s' new \<and> \<not> blocked (status s' new))"
    and B6: "\<And>u k. k \<noteq> 2 \<Longrightarrow> k \<noteq> 4 \<Longrightarrow> bit (status s' u) k = bit (status ?s5 u) k"
    and T6: "\<And>u. u \<noteq> r \<Longrightarrow> runTask s' \<noteq> Some u \<Longrightarrow> tcb s' u = tcb ?s5 u"
    and Q6: "\<And>q. \<not> is_pri q \<Longrightarrow> q \<noteq> NTaskSort \<Longrightarrow> L' q = L2 q"
    and G6: "gkeep ?s5 s'" "\<And>u. tick_core (tcb s' u) = tick_core (tcb ?s5 u)"
    and R6: "g_losTaskLock ?s5 \<noteq> 0 \<Longrightarrow> runTask s' = runTask ?s5"
    by (rule tick_finish_law [OF I5 ok5 r5 sc5]) (rule that; assumption)
  have s5: "status ?s5 u = status s2 u" "u \<noteq> r \<Longrightarrow> tcb ?s5 u = tcb s2 u" for u using c(3) by (simp_all add: upd_tcb_def)
  have lk: "g_losTaskLock ?s5 = g_losTaskLock s" using 2(6) by (simp add: upd_tcb_def s1_def)
  have O: "OsTickHandler None s = Some s'"
    unfolding OsTickHandler_def LOS_SchedTickHandler_def
    by (simp only: c1 Option.bind.bind_lunit prod.case
        option.case Let_def 2(1) [unfolded Let_def] r2 c(1) c4 6(1))
       (simp add: sch)
  have D: "tick_due (now_of (tk s1)) s1 = tick_due now s" using d1 n1 by simp
  have W: "woken s s2 u" if "u \<in> tick_due now s" for u
    using 2(7) that unfolding D by (simp add: woken_def T1)
  have nr: "u \<noteq> r" if "u \<in> tick_due now s" for u
    using that inv_running(1) [OF I r] by (auto simp: tick_due_def due_def delayed_def split: if_splits)
  have E1: "\<not> is_pend (status s' u) \<and> \<not> is_delay (status s' u) \<and> \<not> is_pend_time (status s' u) \<and>
       (is_timeout (status s' u) \<longleftrightarrow> is_pend (status s u) \<or> is_timeout (status s u)) \<and>
       (is_ready (status s' u) \<or> is_suspend (status s u) \<or> runTask s' = Some u)" if u: "u \<in> tick_due now s" for u
  proof -
    have b: "bit (status s' u) k = bit (status s2 u) k" if "k \<noteq> 2" "k \<noteq> 4" for k
      using B6 [OF that] s5(1) by simp
    have "runTask s' \<noteq> Some u \<Longrightarrow> tcb s' u = tcb s2 u" using T6 [OF nr [OF u]] s5(2) [OF nr [OF u]] by simp
    then show ?thesis using W [OF u] unfolding woken_def by (auto simp: b)
  qed
  have E2: "bit (status s' u) k = bit (status s u) k" if "u \<notin> tick_due now s" "k \<noteq> 2" "k \<noteq> 4" for u k
    using B6 [OF that(2,3), of u] s5(1) T2 [of u] that(1) by (simp add: D T1)
  have E3: "L' q = strips (NPend ` tick_due now s) L q" if "\<not> is_pri q" "q \<noteq> NTaskSort" for q
    using Q6 [OF that] Q2 [OF that] by (simp add: D)
  have G: "gkeep s s'"
    by (rule gkeep_trans [OF _ G6(1)], rule gkeep_trans [of _ s1], simp add: gkeep_def s1_def,
        rule gkeep_trans [OF G2(1)]) (simp add: gkeep_def upd_tcb_def)
  have C: "tick_core (tcb s' u) = tick_core (tcb s u)" for u
    using G6(2) [of u] G2(2) [of u] tick_core_eq(2) [OF c(2)] by (auto simp: T1 upd_tcb_def tick_core_def)
  have E4: "bit (status s' u) k = bit (status s u) k" if k: "k < 2 \<or> 7 < k" for u k
  proof (cases "u \<in> tick_due now s")
    case True
    have "bit (status s' u) k = bit (status s2 u) k" using B6 [of k u] s5(1) k by auto
    moreover have "bit (status s2 u) k = bit (status s u) k"
      using W [OF True] k unfolding woken_def by auto
    ultimately show ?thesis by simp
  qed (use E2 [of u k] k in auto)
  show thesis
    by (rule that [OF O 6(2,3) _ E1 [unfolded now_def] E2 [unfolded now_def] E3 [unfolded now_def] G C _ E4])
       (use 6(4) lk R6 r5 r in auto)
qed

end
