(* ===== verification/LosKernel.thy ===== *)
theory LosKernel
  imports LosSwitch
begin

text \<open>
  What the rest of the kernel relies on in the scheduler.  \<open>kinv n\<close> is the
  scheduler's invariant together with the machine's, with \<open>n\<close> timer periods to
  spare.  The locale \<open>wait_queues\<close> is the interface that semaphores, mutexes,
  events, queues and task joining use: put the running task to sleep in a wait
  list, wake a sleeper, let the scheduler choose.  Its interpretation \<open>ks\<close> shows
  that OsSchedTaskWait, OsSchedTaskWake and LOS_Schedule provide it.
\<close>

definition kinv :: "nat \<Rightarrow> kstate \<Rightarrow> (node \<Rightarrow> node list option) \<Rightarrow> bool" where
  "kinv n s L \<longleftrightarrow> sched_inv s L \<and> sys_ok n s"

text \<open>Lists that a switch does not touch.\<close>

definition plain :: "node \<Rightarrow> bool" where
  "plain q \<longleftrightarrow> \<not> is_pri q \<and> q \<noteq> NTaskSort"

text \<open>The task whose pendList a node of a wait list is.\<close>

abbreviation sleeper :: "node \<Rightarrow> nat" where
  "sleeper x \<equiv> the (OS_TCB_FROM_PENDLIST x)"

text \<open>What the scheduler's operations leave alone: everything the other components own.\<close>

definition ipc_core :: "LosTaskCB \<Rightarrow> LosTaskCB" where
  "ipc_core c = c\<lparr>taskStatus := 0, timeSlice := 0, startTime := 0, waitTimes := 0\<rparr>"

definition ikeep :: "kstate \<Rightarrow> kstate \<Rightarrow> bool" where
  "ikeep s s' \<longleftrightarrow>
     (\<forall>u. ipc_core (tcb s' u) = ipc_core (tcb s u)) \<and>
     g_allSem s' = g_allSem s \<and> g_allMux s' = g_allMux s \<and> g_allQueue s' = g_allQueue s \<and>
     uwEventID s' = uwEventID s \<and> byteMem s' = byteMem s \<and> mallocs s' = mallocs s \<and> freed s' = freed s \<and>
     g_losTaskLock s' = g_losTaskLock s \<and> g_taskScheduled s' = g_taskScheduled s \<and>
     g_idleTaskID s' = g_idleTaskID s \<and> g_taskMaxNum s' = g_taskMaxNum s \<and>
     os_int_active s' = os_int_active s \<and> pmMode s' = pmMode s \<and> cfg_swtmr s' = cfg_swtmr s \<and>
     stackMem s' = stackMem s"

text \<open>The running task can go on.\<close>

definition runs :: "kstate \<Rightarrow> bool" where
  "runs s \<longleftrightarrow> (\<exists>r. runTask s = Some r \<and> \<not> blocked (status s r))"

text \<open>
  What a call of one component leaves of the rest: the control blocks of the
  components not named in \<open>A\<close>, the configuration, which tasks exist and their
  ids; and the processor still has a task to run.
\<close>

datatype comp = Sem_pool | Mux_pool | Queue_pool | Event_pool

definition xkeep :: "comp set \<Rightarrow> kstate \<Rightarrow> kstate \<Rightarrow> bool" where
  "xkeep A s s' \<longleftrightarrow>
     (Sem_pool \<notin> A \<longrightarrow> g_allSem s' = g_allSem s) \<and> (Mux_pool \<notin> A \<longrightarrow> g_allMux s' = g_allMux s) \<and>
     (Queue_pool \<notin> A \<longrightarrow> g_allQueue s' = g_allQueue s) \<and>
     (Event_pool \<notin> A \<longrightarrow> uwEventID s' = uwEventID s \<and>
        (\<forall>u. eventMask (tcb s' u) = eventMask (tcb s u) \<and> eventMode (tcb s' u) = eventMode (tcb s u))) \<and>
     g_taskScheduled s' = g_taskScheduled s \<and> g_idleTaskID s' = g_idleTaskID s \<and> g_taskMaxNum s' = g_taskMaxNum s \<and>
     os_int_active s' = os_int_active s \<and> pmMode s' = pmMode s \<and>
     (\<forall>u. taskID (tcb s' u) = taskID (tcb s u) \<and> is_unused (status s' u) = is_unused (status s u)) \<and>
     (runs s \<longrightarrow> runs s')"

text \<open>The fields of a task the scheduler's invariant reads.\<close>

definition ipc_sched :: "LosTaskCB \<Rightarrow> u16 \<times> u16 \<times> u32 \<times> u64 \<times> u32" where
  "ipc_sched c = (taskStatus c, priority c, taskID c, startTime c, topOfStack c)"

lemma ikeep_refl [simp]: "ikeep s s"
  by (simp add: ikeep_def)

lemma ikeep_trans: "ikeep s s' \<Longrightarrow> ikeep s' s'' \<Longrightarrow> ikeep s s''"
  by (simp add: ikeep_def)

lemma ikeep_sel:
  assumes "ikeep s s'"
  shows "g_allSem s' = g_allSem s" "g_allMux s' = g_allMux s" "g_allQueue s' = g_allQueue s"
    "uwEventID s' = uwEventID s" "byteMem s' = byteMem s" "mallocs s' = mallocs s" "freed s' = freed s"
    "g_losTaskLock s' = g_losTaskLock s" "g_taskScheduled s' = g_taskScheduled s"
    "g_idleTaskID s' = g_idleTaskID s" "g_taskMaxNum s' = g_taskMaxNum s" "os_int_active s' = os_int_active s"
    "pmMode s' = pmMode s" "cfg_swtmr s' = cfg_swtmr s" "stackMem s' = stackMem s"
  using assms by (simp_all add: ikeep_def)

lemma ipc_core_sel:
  assumes "ipc_core c = ipc_core d"
  shows "priority c = priority d" "taskID c = taskID d" "topOfStack c = topOfStack d"
    "eventMask c = eventMask d" "eventMode c = eventMode d"
    "stackSize c = stackSize d" "joinRetval c = joinRetval d" "msg c = msg d"
    "taskSem c = taskSem d" "taskMux c = taskMux d"
  using assms [THEN arg_cong [of _ _ priority]] assms [THEN arg_cong [of _ _ taskID]]
    assms [THEN arg_cong [of _ _ topOfStack]] assms [THEN arg_cong [of _ _ eventMask]]
    assms [THEN arg_cong [of _ _ eventMode]] assms [THEN arg_cong [of _ _ stackSize]]
    assms [THEN arg_cong [of _ _ joinRetval]] assms [THEN arg_cong [of _ _ msg]]
    assms [THEN arg_cong [of _ _ taskSem]] assms [THEN arg_cong [of _ _ taskMux]]
  by (simp_all add: ipc_core_def)

lemma ikeep_tcb: "ikeep s s' \<Longrightarrow> ipc_core (tcb s' u) = ipc_core (tcb s u)"
  by (simp add: ikeep_def)

lemmas ikeep_tcb_sel = ipc_core_sel [OF ikeep_tcb]

lemma xkeep_refl [simp]: "xkeep A s s"
  by (simp add: xkeep_def)

lemma xkeep_trans: "xkeep A s s' \<Longrightarrow> xkeep A s' s'' \<Longrightarrow> xkeep A s s''"
  unfolding xkeep_def by (intro conjI impI allI) simp_all

lemma xkeep_mono: "xkeep A s s' \<Longrightarrow> A \<subseteq> B \<Longrightarrow> xkeep B s s'"
  unfolding xkeep_def by (intro conjI impI allI) (blast | simp)+

lemma xkeep_ikeep:
  assumes "ikeep s s'" "\<And>u. is_unused (status s' u) = is_unused (status s u)" "runs s \<Longrightarrow> runs s'"
  shows "xkeep A s s'"
  unfolding xkeep_def
  by (intro conjI impI allI) (simp_all only: ikeep_sel [OF assms(1)] ikeep_tcb_sel [OF assms(1)] assms(2,3))

lemma xkeep_upd_tcb:
  assumes "\<And>c. taskID (f c) = taskID c" "\<And>c. taskStatus (f c) = taskStatus c"
    "\<And>c. eventMask (f c) = eventMask c" "\<And>c. eventMode (f c) = eventMode c"
  shows "xkeep A s (upd_tcb t f s)"
  unfolding xkeep_def runs_def upd_tcb_def by (intro conjI impI allI) (auto simp: assms)

lemma xkeep_set_prio:
  assumes "ikeep (set_prio t p s) s'" "\<And>u. status s' u = status s u" "runTask s' = runTask s"
  shows "xkeep A s s'"
proof (rule xkeep_trans)
  show "xkeep A s (set_prio t p s)" by (rule xkeep_upd_tcb) simp_all
  show "xkeep A (set_prio t p s) s'"
    by (rule xkeep_ikeep [OF assms(1)]) (auto simp: runs_def assms(2,3) upd_tcb_def split: if_splits)
qed

lemma runs_same: "runTask s' = runTask s \<Longrightarrow> (\<And>r. runTask s = Some r \<Longrightarrow> status s' r = status s r) \<Longrightarrow> runs s' = runs s"
  by (auto simp: runs_def)

lemma ipc_core_sw: "sw_core c = sw_core d \<Longrightarrow> ipc_core c = ipc_core d"
proof -
  assume "sw_core c = sw_core d"
  then have "(sw_core c)\<lparr>waitTimes := 0\<rparr> = (sw_core d)\<lparr>waitTimes := 0\<rparr>" by simp
  then show "ipc_core c = ipc_core d" by (cases c; cases d) (simp add: sw_core_def ipc_core_def)
qed

lemma ikeep_swframe: "swframe s s' \<Longrightarrow> ikeep s s'"
  unfolding ikeep_def using swframe_sel [of s s'] ipc_core_sw [OF swframe_tcb [of s s']] by simp

lemma ikeep_frame: "frame t s s' \<Longrightarrow> sw_core (tcb s' t) = sw_core (tcb s t) \<Longrightarrow> ikeep s s'"
  unfolding ikeep_def using frame_sel [of t s s'] frame_tcb [of t s s'] ipc_core_sw by metis

lemma sys_ok_frame:
  "sys_ok n s \<Longrightarrow> frame t s s' \<Longrightarrow> is_unused (status s' t) = is_unused (status s t) \<Longrightarrow>
   is_exit (status s' t) = is_exit (status s t) \<Longrightarrow> sys_ok n s'"
  using sys_ok_frames [of n s "{t}" s'] frames_single [of t s s'] by auto

lemma kinv_run:
  assumes "kinv n s L"
  obtains t where "runTask s = Some t" "is_running (status s t)"
  using assms by (auto simp: kinv_def sched_inv_def run_ok_def)

text \<open>Changes to what the other components own do not matter to the scheduler.\<close>

lemma kinv_cong:
  assumes "kinv n s L" "\<And>u. ipc_sched (tcb s' u) = ipc_sched (tcb s u)" "dl s' = dl s" "responseTime s' = responseTime s"
    "g_queueBitmap s' = g_queueBitmap s" "runTask s' = runTask s" "g_idleTaskID s' = g_idleTaskID s"
    "cfg_swtmr s' = cfg_swtmr s" "tk s' = tk s" "stackMem s' = stackMem s" "g_taskScheduled s' = g_taskScheduled s"
  shows "kinv n s' L"
proof -
  have e: "taskStatus (tcb s' u) = taskStatus (tcb s u)" "priority (tcb s' u) = priority (tcb s u)"
    "taskID (tcb s' u) = taskID (tcb s u)" "startTime (tcb s' u) = startTime (tcb s u)"
    "topOfStack (tcb s' u) = topOfStack (tcb s u)" for u
    using assms(2) [of u] by (simp_all add: ipc_sched_def)
  have S: "sched_inv s L" and ok: "sys_ok n s" using assms(1) by (simp_all add: kinv_def)
  have "glob_ok s' L" by (rule glob_ok_cong [OF sched_inv_glob [OF S]]) (simp_all add: assms)
  moreover have "task_ok s' L u" for u
    using sched_inv_task [OF S, of u] unfolding task_ok_def loc_ok_def ready_def delayed_def e assms(3-8) by simp
  moreover have "run_ok s'" using sched_inv_run_ok [OF S] by (simp add: run_ok_def e assms)
  moreover have "sys_ok n s'" using ok by (simp add: sys_ok_def idle_slot_def e assms)
  ultimately show ?thesis by (simp add: kinv_def sched_inv_def)
qed

lemma kinv_owned [simp]:
  "kinv n (s\<lparr>g_allSem := a\<rparr>) L = kinv n s L" "kinv n (s\<lparr>g_allMux := b\<rparr>) L = kinv n s L"
  "kinv n (s\<lparr>g_allQueue := c\<rparr>) L = kinv n s L" "kinv n (s\<lparr>uwEventID := d\<rparr>) L = kinv n s L"
  "kinv n (s\<lparr>byteMem := e\<rparr>) L = kinv n s L" "kinv n (s\<lparr>mallocs := f\<rparr>) L = kinv n s L"
  "kinv n (s\<lparr>freed := g\<rparr>) L = kinv n s L" "kinv n (s\<lparr>g_losTaskLock := k\<rparr>) L = kinv n s L"
  by (intro iffI; erule kinv_cong; simp)+

subsection \<open>The interface\<close>

locale wait_queues =
  fixes inv :: "nat \<Rightarrow> kstate \<Rightarrow> (node \<Rightarrow> node list option) \<Rightarrow> bool"
    and wait :: "node \<Rightarrow> u32 \<Rightarrow> kstate \<Rightarrow> kstate option"
    and wake :: "nat \<Rightarrow> kstate \<Rightarrow> kstate option"
    and resched :: "kstate \<Rightarrow> kstate option"
  assumes wait_ok: "\<lbrakk> inv n s L; runTask s = Some t; L q = Some xs; wait_head q; \<not> blocked (status s t);
      taskID (tcb s t) \<noteq> g_idleTaskID s \<rbrakk> \<Longrightarrow>
      \<exists>s'. wait q ticks s = Some s' \<and> inv n s' (L(q \<mapsto> xs @ [NPend t])) \<and> ikeep s s' \<and>
        runTask s' = Some t \<and> is_pend (status s' t) \<and>
        (is_pend_time (status s' t) \<longleftrightarrow> ticks \<noteq> LOS_WAIT_FOREVER) \<and> (\<forall>u. u \<noteq> t \<longrightarrow> status s' u = status s u) \<and>
        is_unused (status s' t) = is_unused (status s t)"
    and wake_ok: "\<lbrakk> inv n s L; wait_head q; L q = Some xs; NPend t \<in> set xs \<rbrakk> \<Longrightarrow>
      \<exists>s' L'. wake t s = Some s' \<and> inv n s' L' \<and> ikeep s s' \<and> runTask s' = runTask s \<and>
        (\<forall>q'. plain q' \<longrightarrow> L' q' = (if q' = q then Some (remove1 (NPend t) xs) else L q')) \<and>
        \<not> is_pend (status s' t) \<and> \<not> is_pend_time (status s' t) \<and>
        (is_ready (status s' t) \<longleftrightarrow> \<not> is_suspend (status s t) \<and> \<not> is_running (status s t)) \<and>
        (\<forall>u. u \<noteq> t \<longrightarrow> status s' u = status s u) \<and> is_unused (status s' t) = is_unused (status s t)"
    and resched_ok: "inv (Suc n) s L \<Longrightarrow>
      \<exists>s' L'. resched s = Some s' \<and> inv n s' L' \<and> ikeep s s' \<and>
        (\<forall>q. plain q \<longrightarrow> L' q = L q) \<and>
        (\<forall>u k. k \<noteq> 2 \<longrightarrow> k \<noteq> 4 \<longrightarrow> bit (status s' u) k = bit (status s u) k) \<and>
        (g_taskScheduled s \<and> g_losTaskLock s = 0 \<longrightarrow>
           (\<exists>new. runTask s' = Some new \<and> top_of s' new \<and> \<not> blocked (status s' new))) \<and>
        (\<not> (g_taskScheduled s \<and> g_losTaskLock s = 0) \<longrightarrow> s' = s)"
    and member_ok: "\<lbrakk> inv n s L; wait_head q; L q = Some (x # xs) \<rbrakk> \<Longrightarrow> \<exists>t. x = NPend t \<and> is_pend (status s t)"
    and later_ok: "inv (Suc n) s L \<Longrightarrow> inv n s L"
begin

text \<open>Going to sleep: the caller is in the wait list and another task runs.\<close>

lemma block_law:
  assumes I: "inv (Suc n) s L" and r: "runTask s = Some t" and q: "L q = Some xs" "wait_head q"
    and st: "\<not> blocked (status s t)" "taskID (tcb s t) \<noteq> g_idleTaskID s"
    and on: "g_taskScheduled s" "g_losTaskLock s = 0"
  obtains s1 s' L' where "wait q ticks s = Some s1" "resched s1 = Some s'" "inv n s' L'" "ikeep s s'"
    "\<And>q'. plain q' \<Longrightarrow> L' q' = (if q' = q then Some (xs @ [NPend t]) else L q')"
    "is_pend (status s' t)" "is_pend_time (status s' t) \<longleftrightarrow> ticks \<noteq> LOS_WAIT_FOREVER"
    "\<exists>new. runTask s' = Some new \<and> new \<noteq> t \<and> top_of s' new"
    "\<And>u. is_unused (status s' u) = is_unused (status s u)" "xkeep {} s s'"
proof -
  obtain s1 where 1: "wait q ticks s = Some s1" "inv (Suc n) s1 (L(q \<mapsto> xs @ [NPend t]))" "ikeep s s1"
    "runTask s1 = Some t" "is_pend (status s1 t)" "is_pend_time (status s1 t) \<longleftrightarrow> ticks \<noteq> LOS_WAIT_FOREVER"
    "\<forall>u. u \<noteq> t \<longrightarrow> status s1 u = status s u" "is_unused (status s1 t) = is_unused (status s t)"
    using wait_ok [OF I r q st, of ticks] by blast
  obtain s' L' where 2: "resched s1 = Some s'" "inv n s' L'" "ikeep s1 s'"
    "\<forall>q'. plain q' \<longrightarrow> L' q' = (L(q \<mapsto> xs @ [NPend t])) q'"
    "\<forall>u k. k \<noteq> 2 \<longrightarrow> k \<noteq> 4 \<longrightarrow> bit (status s' u) k = bit (status s1 u) k"
    "g_taskScheduled s1 \<and> g_losTaskLock s1 = 0 \<longrightarrow>
       (\<exists>new. runTask s' = Some new \<and> top_of s' new \<and> \<not> blocked (status s' new))"
    using resched_ok [OF 1(2)] by blast
  have p: "is_pend (status s' t)" "is_pend_time (status s' t) = is_pend_time (status s1 t)" using 2(5) 1(5) by simp_all
  obtain new where new: "runTask s' = Some new" "top_of s' new" "\<not> blocked (status s' new)"
    using 2(6) on ikeep_sel [OF 1(3)] by auto
  have "new \<noteq> t" using new(3) p by (auto simp: blocked_def)
  with new have N: "\<exists>new. runTask s' = Some new \<and> new \<noteq> t \<and> top_of s' new" by blast
  have Q: "L' q' = (if q' = q then Some (xs @ [NPend t]) else L q')" if "plain q'" for q'
    using 2(4) that by auto
  have T: "is_pend_time (status s' t) \<longleftrightarrow> ticks \<noteq> LOS_WAIT_FOREVER" using p(2) 1(6) by simp
  have U: "is_unused (status s' u) = is_unused (status s u)" for u
    using 2(5) 1(7,8) by (cases "u = t") simp_all
  have X: "xkeep {} s s'" by (rule xkeep_ikeep [OF ikeep_trans [OF 1(3) 2(3)] U]) (use new in \<open>auto simp: runs_def\<close>)
  show thesis by (rule that [OF 1(1) 2(1,2) ikeep_trans [OF 1(3) 2(3)] Q p(1) T N U X])
qed

text \<open>Waking the first sleeper and rescheduling.\<close>

lemma wake_first_law:
  assumes I: "inv (Suc n) s L" and q: "L q = Some (NPend t # xs)" "wait_head q"
  obtains s1 s' L' where "wake t s = Some s1" "ikeep s s1" "runTask s1 = runTask s" "resched s1 = Some s'" "inv n s' L'" "ikeep s s'"
    "\<And>q'. plain q' \<Longrightarrow> L' q' = (if q' = q then Some xs else L q')"
    "\<not> is_pend (status s' t)" "\<And>u. u \<noteq> t \<Longrightarrow> is_pend (status s' u) = is_pend (status s u)"
    "\<And>u. is_unused (status s' u) = is_unused (status s u)" "xkeep {} s s'"
proof -
  obtain s1 L1 where 1: "wake t s = Some s1" "inv (Suc n) s1 L1" "ikeep s s1" "runTask s1 = runTask s"
    "\<forall>q'. plain q' \<longrightarrow> L1 q' = (if q' = q then Some (remove1 (NPend t) (NPend t # xs)) else L q')"
    "\<not> is_pend (status s1 t)" "\<forall>u. u \<noteq> t \<longrightarrow> status s1 u = status s u"
    "is_unused (status s1 t) = is_unused (status s t)"
    using wake_ok [OF I q(2,1), of t] by auto
  obtain s' L' where 2: "resched s1 = Some s'" "inv n s' L'" "ikeep s1 s'" "\<forall>q'. plain q' \<longrightarrow> L' q' = L1 q'"
    "\<forall>u k. k \<noteq> 2 \<longrightarrow> k \<noteq> 4 \<longrightarrow> bit (status s' u) k = bit (status s1 u) k"
    "g_taskScheduled s1 \<and> g_losTaskLock s1 = 0 \<longrightarrow>
       (\<exists>new. runTask s' = Some new \<and> top_of s' new \<and> \<not> blocked (status s' new))"
    "\<not> (g_taskScheduled s1 \<and> g_losTaskLock s1 = 0) \<longrightarrow> s' = s1"
    using resched_ok [OF 1(2)] by blast
  have Q: "L' q' = (if q' = q then Some xs else L q')" if "plain q'" for q'
    using 2(4) 1(5) that by auto
  have U: "is_unused (status s' u) = is_unused (status s u)" for u
    using 2(5) 1(7,8) by (cases "u = t") simp_all
  have pt: "is_pend (status s t)" using member_ok [OF I q(2,1)] by simp
  have "runs s'" if "runs s"
  proof (cases "g_taskScheduled s1 \<and> g_losTaskLock s1 = 0")
    case True
    then show ?thesis using 2(6) by (auto simp: runs_def)
  next
    case False
    have "runs s1 = runs s"
    proof (rule runs_same [OF 1(4)])
      fix r assume "runTask s = Some r"
      with that pt have "r \<noteq> t" by (auto simp: runs_def blocked_def)
      then show "status s1 r = status s r" using 1(7) by simp
    qed
    then show ?thesis using that 2(7) False by simp
  qed
  then have X: "xkeep {} s s'" by (rule xkeep_ikeep [OF ikeep_trans [OF 1(3) 2(3)] U])
  show thesis
    by (rule that [OF 1(1,3,4) 2(1,2) ikeep_trans [OF 1(3) 2(3)] Q _ _ U X]) (use 2(5) 1(6,7) in auto)
qed

end

lemma kinv_wait:
  assumes I: "kinv n s L" and r: "runTask s = Some t" and q: "L q = Some xs" "wait_head q"
    and st: "\<not> blocked (status s t)" and i: "taskID (tcb s t) \<noteq> g_idleTaskID s"
  shows "\<exists>s'. OsSchedTaskWait q ticks s = Some s' \<and> kinv n s' (L(q \<mapsto> xs @ [NPend t])) \<and> ikeep s s' \<and>
        runTask s' = Some t \<and> is_pend (status s' t) \<and>
        (is_pend_time (status s' t) \<longleftrightarrow> ticks \<noteq> LOS_WAIT_FOREVER) \<and> (\<forall>u. u \<noteq> t \<longrightarrow> status s' u = status s u) \<and>
        is_unused (status s' t) = is_unused (status s t)"
proof -
  have S: "sched_inv s L" and ok: "sys_ok n s" using I by (simp_all add: kinv_def)
  have b: "\<not> is_pend (status s t)" "\<not> is_delay (status s t)" "\<not> is_unused (status s t)" "\<not> is_exit (status s t)"
    using st by (simp_all add: blocked_def)
  have pt: "\<not> is_pend_time (status s t)" using sched_inv_flags [OF S, of t] b by (auto simp: flags_ok_def)
  obtain s' h' where 1: "OsSchedTaskWait q ticks s = Some s'"
    "s' = s\<lparr>dl := h', g_taskCBArray := (g_taskCBArray s)(t :=
        (if ticks = LOS_WAIT_FOREVER then (tcb s t)\<lparr>taskStatus := status s t OR OS_TASK_STATUS_PEND\<rparr>
         else (tcb s t)\<lparr>taskStatus := (status s t OR OS_TASK_STATUS_PEND) OR OS_TASK_STATUS_PEND_TIME, waitTimes := ticks\<rparr>))\<rparr>"
    "sched_inv s' (L(q \<mapsto> xs @ [NPend t]))"
    by (rule task_wait_law [OF S r q b i]) (rule that; assumption)
  have K: "ikeep s s'" by (cases "tcb s t") (auto simp: ikeep_def 1(2) ipc_core_def)
  have ok': "sys_ok n s'" using ok r by (auto simp: sys_ok_def idle_slot_def 1(2) flag_simps)
  show ?thesis using 1(1,3) K ok' r pt by (auto simp: kinv_def 1(2) flag_simps)
qed

lemma kinv_wake:
  assumes I: "kinv n s L" and w: "wait_head q" and q: "L q = Some xs" and m: "NPend t \<in> set xs"
  shows "\<exists>s' L'. OsSchedTaskWake t s = Some s' \<and> kinv n s' L' \<and> ikeep s s' \<and> runTask s' = runTask s \<and>
        (\<forall>q'. plain q' \<longrightarrow> L' q' = (if q' = q then Some (remove1 (NPend t) xs) else L q')) \<and>
        \<not> is_pend (status s' t) \<and> \<not> is_pend_time (status s' t) \<and>
        (is_ready (status s' t) \<longleftrightarrow> \<not> is_suspend (status s t) \<and> \<not> is_running (status s t)) \<and>
        (\<forall>u. u \<noteq> t \<longrightarrow> status s' u = status s u) \<and> is_unused (status s' t) = is_unused (status s t)"
proof -
  have S: "sched_inv s L" and ok: "sys_ok n s" using I by (simp_all add: kinv_def)
  obtain s' L' where 1: "OsSchedTaskWake t s = Some s'" "sched_inv s' L'" "frame t s s'"
    and Q: "\<And>q'. \<not> is_pri q' \<Longrightarrow> q' \<noteq> NTaskSort \<Longrightarrow> L' q' = (if q' = q then Some (remove1 (NPend t) xs) else L q')"
    and b: "\<And>k. k \<noteq> 2 \<Longrightarrow> bit (status s' t) k = (bit (status s t) k \<and> k \<noteq> 3 \<and> k \<noteq> 7)"
    and rd: "is_ready (status s' t) \<longleftrightarrow> \<not> is_suspend (status s t) \<and> \<not> is_running (status s t)"
    and c: "sw_core (tcb s' t) = sw_core (tcb s t)"
    by (rule task_wake_law [OF S w q m]) (rule that; assumption)
  have "sys_ok n s'" by (rule sys_ok_frame [OF ok 1(3)]) (simp_all add: b)
  with 1 Q b rd frame_tcb [OF 1(3)] frame_sel(1) [OF 1(3)] ikeep_frame [OF 1(3) c] show ?thesis
    unfolding kinv_def plain_def by (intro exI [of _ s'] exI [of _ L']) simp
qed

lemma kinv_schedule:
  assumes I: "kinv (Suc n) s L"
  shows "\<exists>s' L'. LOS_Schedule s = Some s' \<and> kinv n s' L' \<and> ikeep s s' \<and> (\<forall>q. plain q \<longrightarrow> L' q = L q) \<and>
        (\<forall>u k. k \<noteq> 2 \<longrightarrow> k \<noteq> 4 \<longrightarrow> bit (status s' u) k = bit (status s u) k) \<and>
        (g_taskScheduled s \<and> g_losTaskLock s = 0 \<longrightarrow>
           (\<exists>new. runTask s' = Some new \<and> top_of s' new \<and> \<not> blocked (status s' new))) \<and>
        (\<not> (g_taskScheduled s \<and> g_losTaskLock s = 0) \<longrightarrow> s' = s)"
proof -
  have S: "sched_inv s L" and ok: "sys_ok (Suc n) s" using I by (simp_all add: kinv_def)
  obtain r where r: "runTask s = Some r" using kinv_run [OF I] by blast
  obtain s' L' where 1: "LOS_Schedule s = Some s'" "sched_inv s' L'" "sys_ok n s'" "swframe s s'"
    "g_taskScheduled s \<and> g_losTaskLock s = 0 \<longrightarrow>
       (\<exists>new. runTask s' = Some new \<and> top_of s' new \<and> \<not> blocked (status s' new))"
    "\<not> (g_taskScheduled s \<and> g_losTaskLock s = 0) \<longrightarrow> s' = s"
    and Q: "\<And>q. \<not> is_pri q \<Longrightarrow> q \<noteq> NTaskSort \<Longrightarrow> L' q = L q"
    by (rule LOS_Schedule_law [OF S ok r]) (rule that; assumption)
  show ?thesis
    by (rule exI [of _ s'], rule exI [of _ L'])
       (use 1 Q swframe_bits [OF 1(4)] ikeep_swframe [OF 1(4)] in \<open>simp add: kinv_def plain_def\<close>)
qed

lemma schedule_xkeep:
  assumes "kinv (Suc n) s L" "LOS_Schedule s = Some s'"
  shows "xkeep A s s'"
proof -
  obtain L' where 1: "ikeep s s'" "\<forall>u k. k \<noteq> 2 \<longrightarrow> k \<noteq> 4 \<longrightarrow> bit (status s' u) k = bit (status s u) k"
    "g_taskScheduled s \<and> g_losTaskLock s = 0 \<longrightarrow>
       (\<exists>new. runTask s' = Some new \<and> top_of s' new \<and> \<not> blocked (status s' new))"
    "\<not> (g_taskScheduled s \<and> g_losTaskLock s = 0) \<longrightarrow> s' = s"
    using kinv_schedule [OF assms(1)] assms(2) by auto
  show ?thesis by (rule xkeep_ikeep [OF 1(1)]) (use 1(2-4) in \<open>auto simp: runs_def\<close>)
qed

lemma kinv_schedule_others:
  assumes "kinv (Suc n) s L" "runTask s = Some r" "LOS_Schedule s = Some s'" "u \<noteq> r" "runTask s' \<noteq> Some u"
  shows "tcb s' u = tcb s u"
proof -
  have S: "sched_inv s L" and ok: "sys_ok (Suc n) s" using assms(1) by (simp_all add: kinv_def)
  show ?thesis by (rule LOS_Schedule_law [OF S ok assms(2)]) (use assms(3-5) in simp)
qed

lemma kinv_modify:
  assumes I: "kinv n s L" and nu: "\<not> is_unused (status s t)" and i: "taskID (tcb s t) \<noteq> g_idleTaskID s"
    and p: "unat prio < 32"
  obtains s' L' where
    "OsSchedModifyTaskSchedParam t prio s = Some (is_ready (status s t) \<or> is_running (status s t), s')"
    "kinv n s' L'" "ikeep (set_prio t prio s) s'" "\<And>q. \<not> is_pri q \<Longrightarrow> L' q = L q" "\<And>u. status s' u = status s u"
    "runTask s' = runTask s"
proof -
  have S: "sched_inv s L" and ok: "sys_ok n s" using I by (simp_all add: kinv_def)
  obtain s' L' where 1: "OsSchedModifyTaskSchedParam t prio s = Some (is_ready (status s t) \<or> is_running (status s t), s')"
    "sched_inv s' L'" "frame t (set_prio t prio s) s'" "priority (tcb s' t) = prio" "status s' t = status s t"
    and Q: "\<And>q. \<not> is_pri q \<Longrightarrow> L' q = L q"
    and c: "sw_core (tcb s' t) = sw_core ((tcb s t)\<lparr>priority := prio\<rparr>)"
    by (rule modify_law [OF S nu i p]) (rule that; assumption)
  have st: "status s' u = status s u" for u
    using 1(5) frame_tcb [OF 1(3), of u] by (cases "u = t") (simp_all add: upd_tcb_def)
  have K: "ikeep (set_prio t prio s) s'"
    by (rule ikeep_frame [OF 1(3)]) (simp add: c upd_tcb_def)
  have ok1: "sys_ok n (set_prio t prio s)"
    using ok by (auto simp: sys_ok_def idle_slot_def upd_tcb_def)
  have ok': "sys_ok n s'"
    by (rule sys_ok_frame [OF ok1 1(3)]) (simp_all add: st upd_tcb_def)
  have r: "runTask s' = runTask s" using frame_sel(1) [OF 1(3)] by (simp add: upd_tcb_def)
  have I': "kinv n s' L'" using 1(2) ok' by (simp add: kinv_def)
  show thesis by (rule that [OF 1(1) I' K Q st r])
qed

lemma kinv_member:
  assumes I: "kinv n s L" and w: "wait_head q" and q: "L q = Some (x # xs)"
  shows "\<exists>t. x = NPend t \<and> is_pend (status s t)"
proof -
  have S: "sched_inv s L" using I by (simp add: kinv_def)
  have m: "mem L q x" using q by (simp add: mem_def)
  have "holds q x" by (rule glob_ok_holds [OF sched_inv_glob [OF S] m])
  then obtain t where "x = NPend t" using w by (cases x) (cases q; simp)+
  with inv_wait_member [OF S w] m show ?thesis by blast
qed

lemma kinv_later: "kinv (Suc n) s L \<Longrightarrow> kinv n s L"
  using tick_ok_mono [of "Suc n" "tk s" n] by (simp add: kinv_def sys_ok_def)

interpretation ks: wait_queues kinv OsSchedTaskWait OsSchedTaskWake LOS_Schedule
proof
  show "\<And>n s L t q xs ticks. \<lbrakk> kinv n s L; runTask s = Some t; L q = Some xs; wait_head q; \<not> blocked (status s t);
      taskID (tcb s t) \<noteq> g_idleTaskID s \<rbrakk> \<Longrightarrow>
      \<exists>s'. OsSchedTaskWait q ticks s = Some s' \<and> kinv n s' (L(q \<mapsto> xs @ [NPend t])) \<and> ikeep s s' \<and>
        runTask s' = Some t \<and> is_pend (status s' t) \<and>
        (is_pend_time (status s' t) \<longleftrightarrow> ticks \<noteq> LOS_WAIT_FOREVER) \<and> (\<forall>u. u \<noteq> t \<longrightarrow> status s' u = status s u) \<and>
        is_unused (status s' t) = is_unused (status s t)"
    by (rule kinv_wait)
qed (rule kinv_wake kinv_schedule kinv_member kinv_later; assumption)+

end
