(* ===== verification/LosEvent.thy ===== *)
theory LosEvent
  imports LosKernel
begin

text \<open>
  Events, kernel/src/los_event.c.  An event control block is named by \<open>evref\<close>;
  \<open>None\<close> is a NULL pointer.  LOS_EventRead is split where the reader goes to
  sleep: \<open>LOS_EventRead_resume\<close> is the rest of the function.
\<close>

abbreviation (input) LOS_WAITMODE_AND :: u32 where "LOS_WAITMODE_AND \<equiv> 4"
abbreviation (input) LOS_WAITMODE_OR :: u32 where "LOS_WAITMODE_OR \<equiv> 2"
abbreviation (input) LOS_WAITMODE_CLR :: u32 where "LOS_WAITMODE_CLR \<equiv> 1"

abbreviation (input) LOS_ERRNO_EVENT_SETBIT_INVALID :: u32 where "LOS_ERRNO_EVENT_SETBIT_INVALID \<equiv> 0x02001c00"
abbreviation (input) LOS_ERRNO_EVENT_READ_TIMEOUT :: u32 where "LOS_ERRNO_EVENT_READ_TIMEOUT \<equiv> 0x02001c01"
abbreviation (input) LOS_ERRNO_EVENT_EVENTMASK_INVALID :: u32 where "LOS_ERRNO_EVENT_EVENTMASK_INVALID \<equiv> 0x02001c02"
abbreviation (input) LOS_ERRNO_EVENT_READ_IN_INTERRUPT :: u32 where "LOS_ERRNO_EVENT_READ_IN_INTERRUPT \<equiv> 0x02001c03"
abbreviation (input) LOS_ERRNO_EVENT_FLAGS_INVALID :: u32 where "LOS_ERRNO_EVENT_FLAGS_INVALID \<equiv> 0x02001c04"
abbreviation (input) LOS_ERRNO_EVENT_READ_IN_LOCK :: u32 where "LOS_ERRNO_EVENT_READ_IN_LOCK \<equiv> 0x02001c05"
abbreviation (input) LOS_ERRNO_EVENT_PTR_NULL :: u32 where "LOS_ERRNO_EVENT_PTR_NULL \<equiv> 0x02001c06"
abbreviation (input) LOS_ERRNO_EVENT_NOT_INITIALIZED :: u32 where "LOS_ERRNO_EVENT_NOT_INITIALIZED \<equiv> 0x02001c07"
abbreviation (input) LOS_ERRNO_EVENT_SHOULD_NOT_DESTROYED :: u32 where "LOS_ERRNO_EVENT_SHOULD_NOT_DESTROYED \<equiv> 0x02001c08"
abbreviation (input) LOS_ERRNO_EVENT_READ_IN_SYSTEM_TASK :: u32 where "LOS_ERRNO_EVENT_READ_IN_SYSTEM_TASK \<equiv> 0x02001c09"

definition set_event :: "evref \<Rightarrow> u32 \<Rightarrow> kstate \<Rightarrow> kstate" where
  "set_event e v s = s\<lparr>uwEventID := (uwEventID s)(e := v)\<rparr>"

definition LOS_EventInit :: "evref option \<Rightarrow> kstate \<Rightarrow> u32 \<times> kstate" where
  "LOS_EventInit eventCB s = (case eventCB of
     None \<Rightarrow> (LOS_ERRNO_EVENT_PTR_NULL, s)
   | Some e \<Rightarrow> (LOS_OK, k_ListInit (NEvent e) (set_event e 0 s)))"

text \<open>The argument is what \<open>eventID\<close> points to, the result the return value and the new contents.\<close>

definition LOS_EventPoll :: "u32 option \<Rightarrow> u32 \<Rightarrow> u32 \<Rightarrow> u32 \<times> u32 option" where
  "LOS_EventPoll eventID msk mode = (case eventID of
     None \<Rightarrow> (LOS_ERRNO_EVENT_PTR_NULL, None)
   | Some v \<Rightarrow>
       let ret = (if mode AND LOS_WAITMODE_OR \<noteq> 0
                  then if v AND msk \<noteq> 0 then v AND msk else 0
                  else if msk \<noteq> 0 \<and> msk = v AND msk then v AND msk else 0)
       in (ret, Some (if ret \<noteq> 0 \<and> mode AND LOS_WAITMODE_CLR \<noteq> 0 then v AND NOT ret else v)))"

definition event_poll :: "evref \<Rightarrow> u32 \<Rightarrow> u32 \<Rightarrow> kstate \<Rightarrow> u32 \<times> kstate" where
  "event_poll e msk mode s = (case LOS_EventPoll (Some (uwEventID s e)) msk mode of
     (ret, v) \<Rightarrow> (ret, (case v of None \<Rightarrow> s | Some v \<Rightarrow> set_event e v s)))"

definition OsEventReadParamCheck :: "evref option \<Rightarrow> u32 \<Rightarrow> u32 \<Rightarrow> kstate \<Rightarrow> u32" where
  "OsEventReadParamCheck eventCB msk mode s = (case eventCB of
     None \<Rightarrow> LOS_ERRNO_EVENT_PTR_NULL
   | Some e \<Rightarrow>
       if pstNext (dl s) (NEvent e) = None \<or> pstPrev (dl s) (NEvent e) = None
       then LOS_ERRNO_EVENT_NOT_INITIALIZED
       else if msk = 0 then LOS_ERRNO_EVENT_EVENTMASK_INVALID
       else if msk AND LOS_ERRTYPE_ERROR \<noteq> 0 then LOS_ERRNO_EVENT_SETBIT_INVALID
       else if mode AND LOS_WAITMODE_OR \<noteq> 0 \<and> mode AND LOS_WAITMODE_AND \<noteq> 0 \<or>
               mode AND NOT (LOS_WAITMODE_OR OR LOS_WAITMODE_AND OR LOS_WAITMODE_CLR) \<noteq> 0 \<or>
               mode AND (LOS_WAITMODE_OR OR LOS_WAITMODE_AND) = 0
       then LOS_ERRNO_EVENT_FLAGS_INVALID
       else LOS_OK)"

text \<open>What a sleeping reader remembers: the control block, the mask, the mode, its task.\<close>

type_synonym event_wait = "evref \<times> u32 \<times> u32 \<times> nat"

definition LOS_EventRead ::
    "evref option \<Rightarrow> u32 \<Rightarrow> u32 \<Rightarrow> u32 \<Rightarrow> kstate \<Rightarrow> (event_wait res \<times> kstate) option" where
  "LOS_EventRead eventCB msk mode timeOut s =
     (let ret = OsEventReadParamCheck eventCB msk mode s
      in if ret \<noteq> LOS_OK then Some (Ret ret, s)
         else if os_int_active s then Some (Ret LOS_ERRNO_EVENT_READ_IN_INTERRUPT, s)
         else do {
           e \<leftarrow> eventCB;
           run \<leftarrow> runTask s;
           if status s run AND OS_TASK_FLAG_SYSTEM_TASK \<noteq> 0
           then Some (Ret LOS_ERRNO_EVENT_READ_IN_SYSTEM_TASK, s)
           else let (ret, s) = event_poll e msk mode s
                in if ret \<noteq> 0 then Some (Ret ret, s)
                   else if timeOut = 0 then Some (Ret ret, s)
                   else if g_losTaskLock s \<noteq> 0 then Some (Ret LOS_ERRNO_EVENT_READ_IN_LOCK, s)
                   else do {
                     let s = upd_tcb run (\<lambda>c. c\<lparr>eventMask := msk, eventMode := mode\<rparr>) s;
                     s \<leftarrow> OsSchedTaskWait (NEvent e) timeOut s;
                     s \<leftarrow> LOS_Schedule s;
                     Some (Wait (e, msk, mode, run), s)
                   }
         })"

definition LOS_EventRead_resume :: "event_wait \<Rightarrow> kstate \<Rightarrow> u32 \<times> kstate" where
  "LOS_EventRead_resume w s = (case w of (e, msk, mode, runTsk) \<Rightarrow>
     if status s runTsk AND OS_TASK_STATUS_TIMEOUT \<noteq> 0
     then (LOS_ERRNO_EVENT_READ_TIMEOUT, clr_status runTsk OS_TASK_STATUS_TIMEOUT s)
     else event_poll e msk mode s)"

text \<open>The condition under which LOS_EventWrite wakes a task: \<open>uw\<close> is the new value of uwEventID.\<close>

definition event_match :: "u32 \<Rightarrow> u32 \<Rightarrow> LosTaskCB \<Rightarrow> bool" where
  "event_match events uw c \<longleftrightarrow>
     (eventMode c AND LOS_WAITMODE_OR \<noteq> 0 \<and> eventMask c AND events \<noteq> 0) \<or>
     (eventMode c AND LOS_WAITMODE_AND \<noteq> 0 \<and> eventMask c AND uw = eventMask c)"

text \<open>The for loop of LOS_EventWrite; \<open>n\<close> is the pendList of \<open>resumedTask\<close>, or the list head at the end.\<close>

partial_function (option) event_wake_loop ::
    "evref \<Rightarrow> u32 \<Rightarrow> node \<Rightarrow> bool \<Rightarrow> kstate \<Rightarrow> (bool \<times> kstate) option" where
  "event_wake_loop e events n exitFlag s =
     (if n = NEvent e then Some (exitFlag, s)
      else do {
        t \<leftarrow> OS_TCB_FROM_PENDLIST n;
        nextTask \<leftarrow> pstNext (dl s) n;
        if event_match events (uwEventID s e) (tcb s t)
        then do {
          s \<leftarrow> OsSchedTaskWake t s;
          event_wake_loop e events nextTask True s
        }
        else event_wake_loop e events nextTask exitFlag s
      })"

definition LOS_EventWrite :: "evref option \<Rightarrow> u32 \<Rightarrow> kstate \<Rightarrow> (u32 \<times> kstate) option" where
  "LOS_EventWrite eventCB events s = (case eventCB of
     None \<Rightarrow> Some (LOS_ERRNO_EVENT_PTR_NULL, s)
   | Some e \<Rightarrow>
       if pstNext (dl s) (NEvent e) = None \<or> pstPrev (dl s) (NEvent e) = None
       then Some (LOS_ERRNO_EVENT_NOT_INITIALIZED, s)
       else if events AND LOS_ERRTYPE_ERROR \<noteq> 0 then Some (LOS_ERRNO_EVENT_SETBIT_INVALID, s)
       else do {
         let s = set_event e (uwEventID s e OR events) s;
         if \<not> k_ListEmpty (NEvent e) s
         then do {
           n \<leftarrow> pstNext (dl s) (NEvent e);
           (exitFlag, s) \<leftarrow> event_wake_loop e events n False s;
           if exitFlag then do { s \<leftarrow> LOS_Schedule s; Some (LOS_OK, s) }
           else Some (LOS_OK, s)
         }
         else Some (LOS_OK, s)
       })"

definition dl_zero :: "node \<Rightarrow> kstate \<Rightarrow> kstate" where
  "dl_zero n s = s\<lparr>dl := \<lparr>pstPrev = (pstPrev (dl s))(n := None), pstNext = (pstNext (dl s))(n := None)\<rparr>\<rparr>"

definition LOS_EventDestroy :: "evref option \<Rightarrow> kstate \<Rightarrow> u32 \<times> kstate" where
  "LOS_EventDestroy eventCB s = (case eventCB of
     None \<Rightarrow> (LOS_ERRNO_EVENT_PTR_NULL, s)
   | Some e \<Rightarrow>
       if \<not> k_ListEmpty (NEvent e) s then (LOS_ERRNO_EVENT_SHOULD_NOT_DESTROYED, s)
       else (LOS_OK, dl_zero (NEvent e) s))"

definition LOS_EventClear :: "evref option \<Rightarrow> u32 \<Rightarrow> kstate \<Rightarrow> u32 \<times> kstate" where
  "LOS_EventClear eventCB msk s = (case eventCB of
     None \<Rightarrow> (LOS_ERRNO_EVENT_PTR_NULL, s)
   | Some e \<Rightarrow> (LOS_OK, set_event e (uwEventID s e AND msk) s))"

subsection \<open>Polling\<close>

text \<open>When a reader's condition holds of the current value.\<close>

definition event_holds :: "u32 \<Rightarrow> u32 \<Rightarrow> u32 \<Rightarrow> bool" where
  "event_holds v msk mode \<longleftrightarrow>
     (if mode AND LOS_WAITMODE_OR \<noteq> 0 then v AND msk \<noteq> 0 else msk \<noteq> 0 \<and> v AND msk = msk)"

lemma event_poll_law:
  "LOS_EventPoll (Some v) msk mode =
     (if event_holds v msk mode
      then (v AND msk, Some (if mode AND LOS_WAITMODE_CLR \<noteq> 0 then v AND NOT msk else v))
      else (0, Some v))"
proof -
  have "v AND NOT (v AND msk) = v AND NOT msk" by (rule bit_eqI) (auto simp: bit_simps)
  moreover have "event_holds v msk mode \<Longrightarrow> v AND msk \<noteq> 0"
    by (auto simp: event_holds_def split: if_splits)
  ultimately show ?thesis
    by (auto simp: LOS_EventPoll_def event_holds_def Let_def split: if_splits)
qed

lemma kinv_set_event [simp]: "kinv n (set_event e v s) L = kinv n s L"
  by (simp add: set_event_def)

subsection \<open>Writing\<close>

lemma event_match_cong: "ipc_core c = ipc_core d \<Longrightarrow> event_match ev uw c = event_match ev uw d"
  using ipc_core_sel(4,5) [of c d] by (simp add: event_match_def)

lemma event_loop_law:
  assumes "kinv n s L" "L (NEvent e) = Some (pre @ suf)"
  shows "\<exists>s' L'. event_wake_loop e events (hd (suf @ [NEvent e])) b s =
       Some (b \<or> (\<exists>x \<in> set suf. event_match events (uwEventID s e) (tcb s (sleeper x))), s') \<and>
     kinv n s' L' \<and> ikeep s s' \<and> runTask s' = runTask s \<and>
     L' (NEvent e) = Some (pre @ filter (\<lambda>x. \<not> event_match events (uwEventID s e) (tcb s (sleeper x))) suf) \<and>
     (\<forall>q. plain q \<longrightarrow> q \<noteq> NEvent e \<longrightarrow> L' q = L q) \<and>
     (\<forall>t. NPend t \<in> set suf \<and> event_match events (uwEventID s e) (tcb s t) \<longrightarrow> \<not> is_pend (status s' t)) \<and>
     (\<forall>t. NPend t \<notin> set suf \<or> \<not> event_match events (uwEventID s e) (tcb s t) \<longrightarrow> status s' t = status s t) \<and>
     (\<forall>u. is_unused (status s' u) = is_unused (status s u))"
  using assms
proof (induction suf arbitrary: pre s L b)
  case Nil
  then show ?case by (subst event_wake_loop.simps) auto
next
  case (Cons x suf pre s L b)
  have S: "sched_inv s L" using Cons.prems(1) by (simp add: kinv_def)
  note R = glob_ok_rep [OF sched_inv_glob [OF S]]
  have m: "mem L (NEvent e) x" using Cons.prems(2) by (simp add: mem_def)
  have "holds (NEvent e) x" by (rule glob_ok_holds [OF sched_inv_glob [OF S] m])
  then obtain t where x: "x = NPend t" by (cases x) auto
  have nx: "pstNext (dl s) (NPend t) = Some (hd (suf @ [NEvent e]))"
    using list_next [OF R Cons.prems(2)] x by simp
  have dist: "distinct (pre @ NPend t # suf)" using dl_rep_distinct [OF R Cons.prems(2)] x by simp
  show ?case
  proof (cases "event_match events (uwEventID s e) (tcb s t)")
    case False
    obtain s' L' where IH: "event_wake_loop e events (hd (suf @ [NEvent e])) b s =
       Some (b \<or> (\<exists>x \<in> set suf. event_match events (uwEventID s e) (tcb s (sleeper x))), s')"
      "kinv n s' L'" "ikeep s s'" "runTask s' = runTask s"
      "L' (NEvent e) = Some ((pre @ [NPend t]) @ filter (\<lambda>x. \<not> event_match events (uwEventID s e) (tcb s (sleeper x))) suf)"
      "\<forall>q. plain q \<longrightarrow> q \<noteq> NEvent e \<longrightarrow> L' q = L q"
      "\<forall>t. NPend t \<in> set suf \<and> event_match events (uwEventID s e) (tcb s t) \<longrightarrow> \<not> is_pend (status s' t)"
      "\<forall>t. NPend t \<notin> set suf \<or> \<not> event_match events (uwEventID s e) (tcb s t) \<longrightarrow> status s' t = status s t"
      "\<forall>u. is_unused (status s' u) = is_unused (status s u)"
      using Cons.IH [of s L "pre @ [NPend t]" b] Cons.prems x by auto
    have "event_wake_loop e events (hd ((x # suf) @ [NEvent e])) b s =
        event_wake_loop e events (hd (suf @ [NEvent e])) b s"
      by (subst event_wake_loop.simps) (use x nx False in simp)
    with IH False x show ?thesis by (intro exI [of _ s'] exI [of _ L']) auto
  next
    case True
    have m': "NPend t \<in> set (pre @ x # suf)" using x by simp
    obtain s1 L1 where 1: "OsSchedTaskWake t s = Some s1" "kinv n s1 L1" "ikeep s s1" "runTask s1 = runTask s"
      "\<forall>q'. plain q' \<longrightarrow> L1 q' = (if q' = NEvent e then Some (remove1 (NPend t) (pre @ x # suf)) else L q')"
      "\<not> is_pend (status s1 t)" "\<forall>u. u \<noteq> t \<longrightarrow> status s1 u = status s u" "is_unused (status s1 t) = is_unused (status s t)"
      using kinv_wake [OF Cons.prems(1) _ Cons.prems(2) m'] by auto
    have L1: "L1 (NEvent e) = Some (pre @ suf)"
      using 1(5) dist x by (simp add: plain_def remove1_append)
    have mt: "event_match events (uwEventID s1 e) (tcb s1 u) = event_match events (uwEventID s e) (tcb s u)" for u
      using event_match_cong [OF ikeep_tcb [OF 1(3)]] ikeep_sel(4) [OF 1(3)] by simp
    obtain s' L' where IH: "event_wake_loop e events (hd (suf @ [NEvent e])) True s1 = Some (True, s')"
      "kinv n s' L'" "ikeep s1 s'" "runTask s' = runTask s1"
      "L' (NEvent e) = Some (pre @ filter (\<lambda>x. \<not> event_match events (uwEventID s e) (tcb s (sleeper x))) suf)"
      "\<forall>q. plain q \<longrightarrow> q \<noteq> NEvent e \<longrightarrow> L' q = L1 q"
      "\<forall>t. NPend t \<in> set suf \<and> event_match events (uwEventID s e) (tcb s t) \<longrightarrow> \<not> is_pend (status s' t)"
      "\<forall>t. NPend t \<notin> set suf \<or> \<not> event_match events (uwEventID s e) (tcb s t) \<longrightarrow> status s' t = status s1 t"
      "\<forall>u. is_unused (status s' u) = is_unused (status s1 u)"
      using Cons.IH [OF 1(2) L1, of True] unfolding mt by auto
    have st2: "status s' u = status s u"
      if "NPend u \<notin> set (x # suf) \<or> \<not> event_match events (uwEventID s e) (tcb s u)" for u
      using that IH(8) 1(7) True x by (cases "u = t") auto
    have un: "is_unused (status s' u) = is_unused (status s u)" for u using IH(9) 1(7,8) by (cases "u = t") auto
    have O: "event_wake_loop e events (hd ((x # suf) @ [NEvent e])) b s = Some (True, s')"
      by (subst event_wake_loop.simps) (use x nx True 1(1) IH(1) in simp)
    have tn: "NPend t \<notin> set suf" using dist by simp
    have st: "status s' t = status s1 t" using IH(8) tn by blast
    show ?thesis
      by (rule exI [of _ s'], rule exI [of _ L'], intro conjI allI impI)
         (use O IH(2,4-7) True x 1(1-6) st st2 tn un ikeep_trans [OF 1(3) IH(3)] in auto)
  qed
qed

text \<open>The masks and modes of a sleeping reader: one of the two wait modes.\<close>

definition event_args_ok :: "u32 \<Rightarrow> u32 \<Rightarrow> bool" where
  "event_args_ok msk mode \<longleftrightarrow> msk \<noteq> 0 \<and> (mode AND LOS_WAITMODE_OR \<noteq> 0 \<longleftrightarrow> mode AND LOS_WAITMODE_AND = 0)"

lemma param_check_ok:
  assumes "OsEventReadParamCheck (Some e) msk mode s = LOS_OK"
  shows "event_args_ok msk mode" "pstNext (dl s) (NEvent e) \<noteq> None" "pstPrev (dl s) (NEvent e) \<noteq> None"
proof -
  have "mode AND (LOS_WAITMODE_OR OR LOS_WAITMODE_AND) = 0 \<longleftrightarrow> mode AND LOS_WAITMODE_OR = 0 \<and> mode AND LOS_WAITMODE_AND = 0"
    by (rule and_union_eq_0)
  with assms show "event_args_ok msk mode" "pstNext (dl s) (NEvent e) \<noteq> None" "pstPrev (dl s) (NEvent e) \<noteq> None"
    by (auto simp: OsEventReadParamCheck_def event_args_ok_def split: if_splits)
qed

text \<open>For a reader whose condition does not hold yet, LOS_EventWrite's test is its condition.\<close>

lemma event_match_holds:
  assumes "event_args_ok (eventMask c) (eventMode c)" "\<not> event_holds v (eventMask c) (eventMode c)"
  shows "event_match events (v OR events) c \<longleftrightarrow> event_holds (v OR events) (eventMask c) (eventMode c)"
proof (cases "eventMode c AND LOS_WAITMODE_OR = 0")
  case True
  with assms(1) have "eventMode c AND LOS_WAITMODE_AND \<noteq> 0" by (simp add: event_args_ok_def)
  with True assms(1) show ?thesis by (simp add: event_match_def event_holds_def event_args_ok_def and.commute)
next
  case False
  with assms have a: "eventMode c AND LOS_WAITMODE_AND = 0" "v AND eventMask c = 0"
    by (simp_all add: event_holds_def event_args_ok_def)
  have "(v OR events) AND eventMask c = (v AND eventMask c) OR (events AND eventMask c)"
    by (rule bit.conj_disj_distrib2)
  with False a show ?thesis by (simp add: event_match_def event_holds_def and.commute)
qed

text \<open>No reader sleeps while its condition holds.\<close>

definition event_inv :: "evref \<Rightarrow> kstate \<Rightarrow> (node \<Rightarrow> node list option) \<Rightarrow> bool" where
  "event_inv e s L \<longleftrightarrow> (\<forall>t. mem L (NEvent e) (NPend t) \<longrightarrow>
     event_args_ok (eventMask (tcb s t)) (eventMode (tcb s t)) \<and>
     \<not> event_holds (uwEventID s e) (eventMask (tcb s t)) (eventMode (tcb s t)))"

lemma event_write_law:
  assumes I: "kinv (Suc n) s L" and q: "L (NEvent e) = Some xs" and ev: "events AND LOS_ERRTYPE_ERROR = 0"
  obtains s' L' where "LOS_EventWrite (Some e) events s = Some (LOS_OK, s')" "kinv n s' L'"
    "ikeep (set_event e (uwEventID s e OR events) s) s'"
    "L' (NEvent e) = Some (filter (\<lambda>x. \<not> event_match events (uwEventID s e OR events) (tcb s (sleeper x))) xs)"
    "\<And>q. plain q \<Longrightarrow> q \<noteq> NEvent e \<Longrightarrow> L' q = L q"
    "\<And>t. NPend t \<in> set xs \<Longrightarrow>
       is_pend (status s' t) \<longleftrightarrow> \<not> event_match events (uwEventID s e OR events) (tcb s t)"
    "\<And>t. NPend t \<notin> set xs \<Longrightarrow> is_pend (status s' t) = is_pend (status s t)" "xkeep {Event_pool} s s'"
proof -
  let ?s = "set_event e (uwEventID s e OR events) s"
  have I1: "kinv (Suc n) ?s L" using I by simp
  have S: "sched_inv s L" using I by (simp add: kinv_def)
  note R = glob_ok_rep [OF sched_inv_glob [OF S]]
  have nx: "pstNext (dl s) (NEvent e) = Some (hd (xs @ [NEvent e]))" "pstPrev (dl s) (NEvent e) \<noteq> None"
    using list_first [OF R q] list_last [OF R q] by simp_all
  have em: "k_ListEmpty (NEvent e) s \<longleftrightarrow> xs = []" by (rule list_empty [OF R q])
  have dl: "dl ?s = dl s" "tcb ?s = tcb s" "uwEventID ?s e = uwEventID s e OR events" "runTask ?s = runTask s"
    by (simp_all add: set_event_def)
  have pend: "is_pend (status s t)" if "NPend t \<in> set xs" for t
    using inv_wait_member [OF S, of "NEvent e" t] q that by (auto simp: mem_def)
  let ?m = "\<lambda>t. event_match events (uwEventID s e OR events) (tcb s t)"
  obtain s1 L1 where 1: "event_wake_loop e events (hd (xs @ [NEvent e])) False ?s =
       Some (\<exists>x \<in> set xs. ?m (sleeper x), s1)" "kinv (Suc n) s1 L1" "ikeep ?s s1"
     "L1 (NEvent e) = Some (filter (\<lambda>x. \<not> ?m (sleeper x)) xs)"
     "\<forall>q. plain q \<longrightarrow> q \<noteq> NEvent e \<longrightarrow> L1 q = L q"
     "\<forall>t. NPend t \<in> set xs \<and> ?m t \<longrightarrow> \<not> is_pend (status s1 t)"
     "\<forall>t. NPend t \<notin> set xs \<or> \<not> ?m t \<longrightarrow> status s1 t = status s t" "runTask s1 = runTask s"
     "\<forall>u. is_unused (status s1 u) = is_unused (status s u)"
    using event_loop_law [OF I1, of e "[]" xs events False] q unfolding dl by auto
  have run1: "runs s1 = runs s" if "runs s"
  proof (rule runs_same [OF 1(8)])
    fix r assume "runTask s = Some r"
    with that pend have "NPend r \<notin> set xs" by (auto simp: runs_def blocked_def)
    then show "status s1 r = status s r" using 1(7) by blast
  qed
  have X1: "xkeep {Event_pool} s s1"
  proof (rule xkeep_trans)
    show "xkeep {Event_pool} s ?s" by (simp add: xkeep_def set_event_def runs_def)
    show "xkeep {Event_pool} ?s s1"
      by (rule xkeep_ikeep [OF 1(3)]) (use 1(9) run1 in \<open>auto simp: set_event_def runs_def\<close>)
  qed
  obtain s' L' where 2: "LOS_EventWrite (Some e) events s = Some (LOS_OK, s')" "kinv n s' L'" "ikeep s1 s'"
    "\<forall>q. plain q \<longrightarrow> L' q = L1 q" "\<forall>u. is_pend (status s' u) = is_pend (status s1 u)" "xkeep {Event_pool} s1 s'"
  proof (cases "\<exists>x \<in> set xs. ?m (sleeper x)")
    case True
    obtain s' L' where 3: "LOS_Schedule s1 = Some s'" "kinv n s' L'" "ikeep s1 s'" "\<forall>q. plain q \<longrightarrow> L' q = L1 q"
      "\<forall>u k. k \<noteq> 2 \<longrightarrow> k \<noteq> 4 \<longrightarrow> bit (status s' u) k = bit (status s1 u) k"
      "g_taskScheduled s1 \<and> g_losTaskLock s1 = 0 \<longrightarrow>
         (\<exists>new. runTask s' = Some new \<and> top_of s' new \<and> \<not> blocked (status s' new))"
      "\<not> (g_taskScheduled s1 \<and> g_losTaskLock s1 = 0) \<longrightarrow> s' = s1"
      using kinv_schedule [OF 1(2)] by blast
    have X2: "xkeep {Event_pool} s1 s'" by (rule xkeep_ikeep [OF 3(3)]) (use 3(5-7) in \<open>auto simp: runs_def\<close>)
    have "LOS_EventWrite (Some e) events s = Some (LOS_OK, s')"
      using ev nx em True 1(1) 3(1) by (auto simp: LOS_EventWrite_def Let_def dl)
    then show thesis by (rule that [OF _ 3(2-4) _ X2]) (use 3(5) in simp)
  next
    case False
    have "LOS_EventWrite (Some e) events s = Some (LOS_OK, s1)"
    proof (cases "xs = []")
      case True
      then have "s1 = ?s" using 1(1) by (subst (asm) event_wake_loop.simps) simp
      then show ?thesis using ev nx em True by (simp add: LOS_EventWrite_def Let_def dl)
    next
      case False
      then show ?thesis using ev nx em 1(1) \<open>\<not> (\<exists>x \<in> set xs. ?m (sleeper x))\<close>
        by (simp add: LOS_EventWrite_def Let_def dl)
    qed
    then show thesis by (rule that [OF _ kinv_later [OF 1(2)] ikeep_refl]) simp_all
  qed
  have P: "plain (NEvent e)" by (simp add: plain_def)
  show thesis
    by (rule that [OF 2(1,2) ikeep_trans [OF 1(3) 2(3)] _ _ _ _ xkeep_trans [OF X1 2(6)]])
       (use 1(4-7) 2(4,5) P pend in auto)
qed

lemma event_write_inv:
  assumes I: "kinv (Suc n) s L" and q: "L (NEvent e) = Some xs" and ev: "events AND LOS_ERRTYPE_ERROR = 0"
    and E: "event_inv e s L"
  obtains s' L' where "LOS_EventWrite (Some e) events s = Some (LOS_OK, s')" "kinv n s' L'" "event_inv e s' L'"
    "uwEventID s' e = uwEventID s e OR events"
    "\<And>t. NPend t \<in> set xs \<Longrightarrow>
       is_pend (status s' t) \<longleftrightarrow> \<not> event_holds (uwEventID s' e) (eventMask (tcb s t)) (eventMode (tcb s t))"
    "\<And>t. NPend t \<notin> set xs \<Longrightarrow> is_pend (status s' t) = is_pend (status s t)" "xkeep {Event_pool} s s'"
    "\<And>q. plain q \<Longrightarrow> q \<noteq> NEvent e \<Longrightarrow> L' q = L q" "L' (NEvent e) \<noteq> None"
    "ikeep (set_event e (uwEventID s e OR events) s) s'"
proof -
  let ?m = "\<lambda>t. event_match events (uwEventID s e OR events) (tcb s t)"
  obtain s' L' where 1: "LOS_EventWrite (Some e) events s = Some (LOS_OK, s')" "kinv n s' L'"
    "ikeep (set_event e (uwEventID s e OR events) s) s'"
    "L' (NEvent e) = Some (filter (\<lambda>x. \<not> ?m (sleeper x)) xs)"
    and w: "\<And>t. NPend t \<in> set xs \<Longrightarrow> is_pend (status s' t) \<longleftrightarrow> \<not> ?m t"
    and o: "\<And>t. NPend t \<notin> set xs \<Longrightarrow> is_pend (status s' t) = is_pend (status s t)" and X: "xkeep {Event_pool} s s'"
    and Q: "\<And>q. plain q \<Longrightarrow> q \<noteq> NEvent e \<Longrightarrow> L' q = L q"
    by (rule event_write_law [OF I q ev]) (rule that; assumption)
  have e: "uwEventID s' e = uwEventID s e OR events" "eventMask (tcb s' t) = eventMask (tcb s t)"
    "eventMode (tcb s' t) = eventMode (tcb s t)" for t
    using ikeep_sel(4) [OF 1(3)] ikeep_tcb_sel(4,5) [OF 1(3), of t] by (simp_all add: set_event_def)
  have m: "?m t \<longleftrightarrow> event_holds (uwEventID s e OR events) (eventMask (tcb s t)) (eventMode (tcb s t))"
    and a: "event_args_ok (eventMask (tcb s t)) (eventMode (tcb s t))" if "NPend t \<in> set xs" for t
    using event_match_holds [of "tcb s t" "uwEventID s e" events] E q that by (auto simp: event_inv_def mem_def)
  have "event_inv e s' L'"
    unfolding event_inv_def e using a m 1(4) by (auto simp: mem_def)
  then show thesis by (rule that [OF 1(1,2) _ e(1) _ _ X Q _ 1(3)]) (use w o m e 1(4) in auto)
qed

subsection \<open>Reading and clearing\<close>

lemma event_holds_mono: "event_holds (v AND m) msk mode \<Longrightarrow> event_holds v msk mode"
proof -
  have a: "v AND msk = 0 \<Longrightarrow> (v AND m) AND msk = 0" by (auto simp: bit_eq_iff bit_simps)
  have b: "(v AND m) AND msk = msk \<Longrightarrow> v AND msk = msk"
    by (rule bit_eqI) (auto simp: bit_eq_iff bit_simps)
  show "event_holds (v AND m) msk mode \<Longrightarrow> event_holds v msk mode"
    using a b by (auto simp: event_holds_def split: if_splits)
qed

lemma event_inv_less: "event_inv e s L \<Longrightarrow> event_inv e (set_event e (uwEventID s e AND m) s) L"
  unfolding event_inv_def set_event_def using event_holds_mono by fastforce

lemma event_clear_law:
  assumes "kinv n s L" "event_inv e s L"
  shows "LOS_EventClear (Some e) m s = (LOS_OK, set_event e (uwEventID s e AND m) s)"
    "kinv n (set_event e (uwEventID s e AND m) s) L" "event_inv e (set_event e (uwEventID s e AND m) s) L"
  using assms event_inv_less by (simp_all add: LOS_EventClear_def)

lemma event_poll_state:
  "event_poll e msk mode s =
     (if event_holds (uwEventID s e) msk mode
      then (uwEventID s e AND msk,
            if mode AND LOS_WAITMODE_CLR \<noteq> 0 then set_event e (uwEventID s e AND NOT msk) s else s)
      else (0, s))"
  by (simp add: event_poll_def event_poll_law set_event_def fun_upd_idem)

lemma event_poll_inv:
  assumes "kinv n s L" "event_inv e s L"
  shows "kinv n (snd (event_poll e msk mode s)) L" "event_inv e (snd (event_poll e msk mode s)) L"
  using assms event_inv_less [OF assms(2)] by (simp_all add: event_poll_state)

lemma event_read_sleeps:
  assumes I: "kinv (Suc n) s L" and E: "event_inv e s L" and q: "L (NEvent e) = Some xs"
    and chk: "OsEventReadParamCheck (Some e) msk mode s = LOS_OK"
    and st: "\<not> os_int_active s" "runTask s = Some t" "status s t AND OS_TASK_FLAG_SYSTEM_TASK = 0"
      "\<not> blocked (status s t)" "taskID (tcb s t) \<noteq> g_idleTaskID s"
    and on: "g_taskScheduled s" "g_losTaskLock s = 0"
    and no: "\<not> event_holds (uwEventID s e) msk mode" "timeOut \<noteq> 0"
  obtains s' L' where "LOS_EventRead (Some e) msk mode timeOut s = Some (Wait (e, msk, mode, t), s')"
    "kinv n s' L'" "event_inv e s' L'" "L' (NEvent e) = Some (xs @ [NPend t])"
    "\<And>q. plain q \<Longrightarrow> q \<noteq> NEvent e \<Longrightarrow> L' q = L q" "is_pend (status s' t)"
    "\<exists>new. runTask s' = Some new \<and> new \<noteq> t \<and> top_of s' new" "uwEventID s' = uwEventID s"
    "xkeep {Event_pool} s s'" "\<And>u. u \<noteq> t \<Longrightarrow> eventMask (tcb s' u) = eventMask (tcb s u) \<and> eventMode (tcb s' u) = eventMode (tcb s u)"
proof -
  let ?s = "upd_tcb t (\<lambda>c. c\<lparr>eventMask := msk, eventMode := mode\<rparr>) s"
  have I1: "kinv (Suc n) ?s L" by (rule kinv_cong [OF I]) (simp_all add: upd_tcb_def ipc_sched_def)
  have A: "runTask ?s = Some t" "\<not> blocked (status ?s t)" "taskID (tcb ?s t) \<noteq> g_idleTaskID ?s"
    "g_taskScheduled ?s" "g_losTaskLock ?s = 0"
    using st on by (simp_all add: upd_tcb_def)
  have w: "wait_head (NEvent e)" by simp
  obtain s1 s' L' where 1: "OsSchedTaskWait (NEvent e) timeOut ?s = Some s1" "LOS_Schedule s1 = Some s'" "kinv n s' L'"
    "ikeep ?s s'" and Q: "\<And>q'. plain q' \<Longrightarrow> L' q' = (if q' = NEvent e then Some (xs @ [NPend t]) else L q')"
    and p: "is_pend (status s' t)" "is_pend_time (status s' t) \<longleftrightarrow> timeOut \<noteq> LOS_WAIT_FOREVER"
    and r: "\<exists>new. runTask s' = Some new \<and> new \<noteq> t \<and> top_of s' new" and x1: "xkeep {} ?s s'"
    by (rule ks.block_law [OF I1 A(1) q w A(2-5)]) (rule that; assumption)
  have O: "LOS_EventRead (Some e) msk mode timeOut s = Some (Wait (e, msk, mode, t), s')"
    using chk st(1-3) no on(2) 1(1,2) by (simp add: LOS_EventRead_def event_poll_state Let_def)
  have k: "uwEventID s' = uwEventID s" "eventMask (tcb s' u) = eventMask (tcb ?s u)"
    "eventMode (tcb s' u) = eventMode (tcb ?s u)" for u
    using ikeep_sel(4) [OF 1(4)] ikeep_tcb_sel(4,5) [OF 1(4), of u] by (simp_all add: upd_tcb_def)
  have L: "L' (NEvent e) = Some (xs @ [NPend t])" using Q by (simp add: plain_def)
  have E': "event_inv e s' L'"
    using E param_check_ok(1) [OF chk] no(1) L q unfolding event_inv_def k by (auto simp: mem_def upd_tcb_def)
  have X: "xkeep {Event_pool} s s'"
    by (rule xkeep_trans [OF _ xkeep_mono [OF x1]]) (auto simp: xkeep_def upd_tcb_def runs_def)
  show thesis by (rule that [OF O 1(3) E' L _ p(1) r k(1) X]) (use k(2,3) in \<open>simp_all add: Q upd_tcb_def\<close>)
qed

lemma event_read_now:
  assumes I: "kinv n s L" and E: "event_inv e s L"
    and chk: "OsEventReadParamCheck (Some e) msk mode s = LOS_OK"
    and st: "\<not> os_int_active s" "runTask s = Some t" "status s t AND OS_TASK_FLAG_SYSTEM_TASK = 0"
    and v: "event_holds (uwEventID s e) msk mode"
  shows "LOS_EventRead (Some e) msk mode timeOut s =
      Some (Ret (uwEventID s e AND msk), snd (event_poll e msk mode s))"
    "kinv n (snd (event_poll e msk mode s)) L" "event_inv e (snd (event_poll e msk mode s)) L"
proof -
  have nz: "uwEventID s e AND msk \<noteq> 0" using v param_check_ok(1) [OF chk]
    by (auto simp: event_holds_def event_args_ok_def split: if_splits)
  show "LOS_EventRead (Some e) msk mode timeOut s =
      Some (Ret (uwEventID s e AND msk), snd (event_poll e msk mode s))"
    using chk st v nz by (simp add: LOS_EventRead_def event_poll_state Let_def)
qed (rule event_poll_inv [OF I E])+

end
