(* ===== verification/LosSecurec.thy ===== *)
theory LosSecurec
  imports LosPrelude
begin

text \<open>
  Byte-addressed memory and the copying functions of the bounds checking
  library, third_party_bounds_checking_function/src.  A memory maps 32-bit
  addresses to bytes; words are stored with the low byte first.  Address
  arithmetic wraps, as pointers do on the target.  \<open>mem_copy\<close> and \<open>mem_set\<close> are
  the C library's memcpy and memset on regions that do not overlap.
\<close>

type_synonym memory = "u32 \<Rightarrow> u8"

definition rd32 :: "memory \<Rightarrow> u32 \<Rightarrow> u32" where
  "rd32 m a = ucast (m a) OR push_bit 8 (ucast (m (a + 1))) OR push_bit 16 (ucast (m (a + 2)))
              OR push_bit 24 (ucast (m (a + 3)))"

definition wr32 :: "u32 \<Rightarrow> u32 \<Rightarrow> memory \<Rightarrow> memory" where
  "wr32 a v m = m(a := ucast v, a + 1 := ucast (drop_bit 8 v), a + 2 := ucast (drop_bit 16 v),
                  a + 3 := ucast (drop_bit 24 v))"

definition mem_copy :: "u32 \<Rightarrow> u32 \<Rightarrow> u32 \<Rightarrow> memory \<Rightarrow> memory" where
  "mem_copy dst src n m = (\<lambda>a. if a - dst < n then m (src + (a - dst)) else m a)"

definition mem_set :: "u32 \<Rightarrow> u8 \<Rightarrow> u32 \<Rightarrow> memory \<Rightarrow> memory" where
  "mem_set dst c n m = (\<lambda>a. if a - dst < n then c else m a)"

abbreviation (input) SECUREC_MEM_MAX_LEN :: u32 where "SECUREC_MEM_MAX_LEN \<equiv> 0x7FFFFFFF"
abbreviation (input) EOK :: u32 where "EOK \<equiv> 0"
abbreviation (input) EINVAL :: u32 where "EINVAL \<equiv> 22"
abbreviation (input) ERANGE :: u32 where "ERANGE \<equiv> 34"
abbreviation (input) EINVAL_AND_RESET :: u32 where "EINVAL_AND_RESET \<equiv> 150"
abbreviation (input) ERANGE_AND_RESET :: u32 where "ERANGE_AND_RESET \<equiv> 162"
abbreviation (input) EOVERLAP_AND_RESET :: u32 where "EOVERLAP_AND_RESET \<equiv> 182"

definition SECUREC_MEMORY_NO_OVERLAP :: "u32 \<Rightarrow> u32 \<Rightarrow> u32 \<Rightarrow> bool" where
  "SECUREC_MEMORY_NO_OVERLAP dest src count \<longleftrightarrow>
     (src < dest \<and> src + count \<le> dest) \<or> (dest < src \<and> dest + count \<le> src)"

definition SECUREC_MEMORY_IS_OVERLAP :: "u32 \<Rightarrow> u32 \<Rightarrow> u32 \<Rightarrow> bool" where
  "SECUREC_MEMORY_IS_OVERLAP dest src count \<longleftrightarrow>
     (src < dest \<and> src + count > dest) \<or> (dest < src \<and> dest + count > src)"

definition SecMemcpyError :: "u32 \<Rightarrow> u32 \<Rightarrow> u32 \<Rightarrow> u32 \<Rightarrow> memory \<Rightarrow> u32 \<times> memory" where
  "SecMemcpyError dest destMax src count m =
     (if destMax = 0 \<or> destMax > SECUREC_MEM_MAX_LEN then (ERANGE, m)
      else if dest = 0 \<or> src = 0
      then if dest \<noteq> 0 then (EINVAL_AND_RESET, mem_set dest 0 destMax m) else (EINVAL, m)
      else if count > destMax then (ERANGE_AND_RESET, mem_set dest 0 destMax m)
      else if SECUREC_MEMORY_IS_OVERLAP dest src count then (EOVERLAP_AND_RESET, mem_set dest 0 destMax m)
      else (EOK, m))"

definition SECUREC_MEMCPY_PARAM_OK :: "u32 \<Rightarrow> u32 \<Rightarrow> u32 \<Rightarrow> u32 \<Rightarrow> bool" where
  "SECUREC_MEMCPY_PARAM_OK dest destMax src count \<longleftrightarrow>
     count \<le> destMax \<and> dest \<noteq> 0 \<and> src \<noteq> 0 \<and> destMax \<le> SECUREC_MEM_MAX_LEN \<and>
     count > 0 \<and> SECUREC_MEMORY_NO_OVERLAP dest src count"

definition memcpy_s :: "u32 \<Rightarrow> u32 \<Rightarrow> u32 \<Rightarrow> u32 \<Rightarrow> memory \<Rightarrow> u32 \<times> memory" where
  "memcpy_s dest destMax src count m =
     (if SECUREC_MEMCPY_PARAM_OK dest destMax src count then (EOK, mem_copy dest src count m)
      else SecMemcpyError dest destMax src count m)"

definition SECUREC_MEMSET_PARAM_OK :: "u32 \<Rightarrow> u32 \<Rightarrow> u32 \<Rightarrow> bool" where
  "SECUREC_MEMSET_PARAM_OK dest destMax count \<longleftrightarrow>
     destMax \<le> SECUREC_MEM_MAX_LEN \<and> dest \<noteq> 0 \<and> count \<le> destMax"

definition SecMemsetError :: "u32 \<Rightarrow> u32 \<Rightarrow> u8 \<Rightarrow> memory \<Rightarrow> u32 \<times> memory" where
  "SecMemsetError dest destMax c m =
     (if destMax = 0 \<or> destMax > SECUREC_MEM_MAX_LEN then (ERANGE, m)
      else if dest = 0 then (EINVAL, m)
      else (ERANGE_AND_RESET, mem_set dest c destMax m))"

definition memset_s :: "u32 \<Rightarrow> u32 \<Rightarrow> u8 \<Rightarrow> u32 \<Rightarrow> memory \<Rightarrow> u32 \<times> memory" where
  "memset_s dest destMax c count m =
     (if SECUREC_MEMSET_PARAM_OK dest destMax count then (EOK, mem_set dest c count m)
      else SecMemsetError dest destMax c m)"

subsection \<open>Words in memory\<close>

text \<open>Two words that share no byte, wherever they lie in the address space.\<close>

definition disj32 :: "u32 \<Rightarrow> u32 \<Rightarrow> bool" where
  "disj32 a b \<longleftrightarrow> 4 \<le> a - b \<and> 4 \<le> b - a"

lemma rd32_wr32 [simp]: "rd32 (wr32 a v m) a = v"
proof -
  have "a + 1 \<noteq> a" "a + 2 \<noteq> a" "a + 3 \<noteq> a" "a + 1 \<noteq> a + 2" "a + 1 \<noteq> a + 3" "a + 2 \<noteq> a + 3" by simp_all
  then show ?thesis
    unfolding rd32_def wr32_def
    apply (intro bit_word_eqI)
    apply (auto simp: bit_simps not_less le_diff_conv2)
    subgoal for n by (cases "24 \<le> n") auto
    done
qed

lemma disj32_sym: "disj32 a b \<longleftrightarrow> disj32 b a"
  by (auto simp: disj32_def)

lemma disj32_ne:
  assumes "disj32 a b" and i: "i < 4" and j: "j < 4"
  shows "a + i \<noteq> b + j"
proof
  assume e: "a + i = b + j"
  then have 1: "a - b = j - i" and 2: "b - a = i - j" by (simp_all add: algebra_simps)
  show False
  proof (cases "i \<le> j")
    case True
    then have "unat (j - i) = unat j - unat i" by (simp add: unat_sub)
    then have "unat (a - b) < 4" using j 1 by (simp add: word_less_nat_alt)
    then show False using assms(1) by (simp add: disj32_def word_le_nat_alt)
  next
    case False
    then have "unat (i - j) = unat i - unat j" by (simp add: unat_sub)
    then have "unat (b - a) < 4" using i 2 by (simp add: word_less_nat_alt)
    then show False using assms(1) by (simp add: disj32_def word_le_nat_alt)
  qed
qed

lemma rd32_wr32_other [simp]:
  assumes d: "disj32 a b"
  shows "rd32 (wr32 b v m) a = rd32 m a"
proof -
  have o: "(0::u32) < 4" "(1::u32) < 4" "(2::u32) < 4" "(3::u32) < 4" by simp_all
  note n = disj32_ne [OF d]
  have e: "wr32 b v m a = m a" "wr32 b v m (a + 1) = m (a + 1)" "wr32 b v m (a + 2) = m (a + 2)"
    "wr32 b v m (a + 3) = m (a + 3)"
    using n [OF o(1) o(1)] n [OF o(1) o(2)] n [OF o(1) o(3)] n [OF o(1) o(4)]
      n [OF o(2) o(1)] n [OF o(2) o(2)] n [OF o(2) o(3)] n [OF o(2) o(4)]
      n [OF o(3) o(1)] n [OF o(3) o(2)] n [OF o(3) o(3)] n [OF o(3) o(4)]
      n [OF o(4) o(1)] n [OF o(4) o(2)] n [OF o(4) o(3)] n [OF o(4) o(4)]
    by (simp_all add: wr32_def)
  show ?thesis unfolding rd32_def e by simp
qed

subsection \<open>What the checked functions promise\<close>

text \<open>Only the destination buffer can change.\<close>

lemma mem_set_frame: "n \<le> k \<Longrightarrow> \<not> a - dst < k \<Longrightarrow> mem_set dst c n m a = m a"
  by (auto simp: mem_set_def)

lemma mem_copy_frame: "n \<le> k \<Longrightarrow> \<not> a - dst < k \<Longrightarrow> mem_copy dst src n m a = m a"
  by (auto simp: mem_copy_def)

lemma memcpy_s_frame:
  assumes "\<not> a - dest < destMax"
  shows "snd (memcpy_s dest destMax src count m) a = m a"
  using assms mem_set_frame [OF order_refl assms] mem_copy_frame [OF _ assms]
  by (simp add: memcpy_s_def SecMemcpyError_def SECUREC_MEMCPY_PARAM_OK_def)

lemma memcpy_s_ok:
  assumes "fst (memcpy_s dest destMax src count m) = EOK" "count > 0" "dest \<noteq> src" "a - dest < count"
  shows "snd (memcpy_s dest destMax src count m) a = m (src + (a - dest))" "count \<le> destMax"
    "dest \<noteq> 0" "src \<noteq> 0"
  using assms
  by (auto simp: memcpy_s_def SecMemcpyError_def SECUREC_MEMCPY_PARAM_OK_def SECUREC_MEMORY_NO_OVERLAP_def
      SECUREC_MEMORY_IS_OVERLAP_def mem_copy_def split: if_splits)

lemma memset_s_frame:
  assumes "\<not> a - dest < destMax"
  shows "snd (memset_s dest destMax c count m) a = m a"
  using assms mem_set_frame [OF _ assms]
  by (simp add: memset_s_def SecMemsetError_def SECUREC_MEMSET_PARAM_OK_def)

subsection \<open>Regions\<close>

text \<open>Membership in a region that does not wrap around, and the bytes of a region.\<close>

lemma unat_lt: "unat (x :: u32) < 2 ^ 32"
  using unsigned_less [of x] by simp

lemma range_iff:
  fixes x b n :: u32
  assumes "unat b + unat n \<le> 2 ^ 32"
  shows "x - b < n \<longleftrightarrow> unat b \<le> unat x \<and> unat x < unat b + unat n"
  using assms unat_lt [of x] unat_lt [of b]
  by (auto simp: word_less_nat_alt unat_sub_if' word_size)

lemma unat_add_nat: "unat (a :: u32) + k < 2 ^ 32 \<Longrightarrow> unat (a + of_nat k) = unat a + k"
  by (simp add: unat_word_ariths unat_of_nat)

definition bytes :: "memory \<Rightarrow> u32 \<Rightarrow> nat \<Rightarrow> u8 list" where
  "bytes m a n = map (\<lambda>j. m (a + of_nat j)) [0..<n]"

lemma bytes_length [simp]: "length (bytes m a n) = n"
  by (simp add: bytes_def)

lemma bytes_cong: "(\<And>j. j < n \<Longrightarrow> m (a + of_nat j) = m' (a' + of_nat j)) \<Longrightarrow> bytes m a n = bytes m' a' n"
  by (simp add: bytes_def)

lemma rd32_cong:
  "m a = m' a \<Longrightarrow> m (a + 1) = m' (a + 1) \<Longrightarrow> m (a + 2) = m' (a + 2) \<Longrightarrow> m (a + 3) = m' (a + 3) \<Longrightarrow>
   rd32 m a = rd32 m' a"
  by (simp add: rd32_def)

text \<open>A store outside a region leaves its bytes alone.\<close>

lemma wr32_frame: "4 \<le> x - a \<Longrightarrow> wr32 a v m x = m x"
  by (auto simp: wr32_def word_le_nat_alt)

lemma mem_copy_bytes:
  assumes "unat n \<le> 2 ^ 31"
  shows "bytes (mem_copy d a n m) d (unat n) = bytes m a (unat n)"
proof (rule bytes_cong)
  fix j assume j: "j < unat n"
  then have "of_nat j < n" using assms unat_lt [of n] by (simp add: word_less_nat_alt unat_of_nat)
  then show "mem_copy d a n m (d + of_nat j) = m (a + of_nat j)" by (simp add: mem_copy_def)
qed

end
