(* ===== verification/LosStr.thy ===== *)
theory LosStr
  imports LosSecurec
begin

text \<open>
  The string functions of the bounds checking library and its memmove:
  strcpy_s.c, strncpy_s.c, strcat_s.c, strncat_s.c and memmove_s.c under
  third_party_bounds_checking_function/src.  A string is the bytes from an
  address up to the first zero byte.
\<close>

abbreviation (input) SECUREC_STRING_MAX_LEN :: u32 where "SECUREC_STRING_MAX_LEN \<equiv> 0x7FFFFFFF"

text \<open>SECUREC_CALC_STR_LEN: the length of a string, but at most \<open>maxLen\<close>.\<close>

primrec calc_str_len :: "nat \<Rightarrow> u32 \<Rightarrow> memory \<Rightarrow> nat" where
  "calc_str_len 0 a m = 0"
| "calc_str_len (Suc k) a m = (if m a = 0 then 0 else Suc (calc_str_len k (a + 1) m))"

definition SECUREC_CALC_STR_LEN :: "u32 \<Rightarrow> u32 \<Rightarrow> memory \<Rightarrow> u32" where
  "SECUREC_CALC_STR_LEN str maxLen m = of_nat (calc_str_len (unat maxLen) str m)"

definition SECUREC_STRING_NO_OVERLAP :: "u32 \<Rightarrow> u32 \<Rightarrow> u32 \<Rightarrow> bool" where
  "SECUREC_STRING_NO_OVERLAP dest src len \<longleftrightarrow>
     (src < dest \<and> src + len < dest) \<or> (dest < src \<and> dest + len < src)"

definition SECUREC_CAT_STRING_IS_OVERLAP :: "u32 \<Rightarrow> u32 \<Rightarrow> u32 \<Rightarrow> u32 \<Rightarrow> bool" where
  "SECUREC_CAT_STRING_IS_OVERLAP dest destLen src srcLen \<longleftrightarrow>
     (dest < src \<and> dest + destLen + srcLen \<ge> src) \<or> (src < dest \<and> src + srcLen \<ge> dest)"

subsection \<open>strcpy\_s\<close>

definition SECUREC_STRCPY_PARAM_OK :: "u32 \<Rightarrow> u32 \<Rightarrow> u32 \<Rightarrow> bool" where
  "SECUREC_STRCPY_PARAM_OK strDest destMax strSrc \<longleftrightarrow>
     destMax > 0 \<and> destMax \<le> SECUREC_STRING_MAX_LEN \<and> strDest \<noteq> 0 \<and> strSrc \<noteq> 0 \<and> strDest \<noteq> strSrc"

text \<open>The loop counts \<open>tmpDestMax\<close> down over the string; it reaches 0 when no terminator is found in time.\<close>

definition CheckSrcRange :: "u32 \<Rightarrow> u32 \<Rightarrow> u32 \<Rightarrow> memory \<Rightarrow> u32 \<times> memory" where
  "CheckSrcRange strDest destMax strSrc m =
     (let tmpDestMax = unat destMax - calc_str_len (unat destMax) strSrc m
      in if tmpDestMax = 0 then (ERANGE_AND_RESET, m(strDest := 0)) else (EOK, m))"

definition strcpy_error :: "u32 \<Rightarrow> u32 \<Rightarrow> u32 \<Rightarrow> memory \<Rightarrow> u32 \<times> memory" where
  "strcpy_error strDest destMax strSrc m =
     (if destMax = 0 \<or> destMax > SECUREC_STRING_MAX_LEN then (ERANGE, m)
      else if strDest = 0 \<or> strSrc = 0
      then if strDest \<noteq> 0 then (EINVAL_AND_RESET, m(strDest := 0)) else (EINVAL, m)
      else CheckSrcRange strDest destMax strSrc m)"

definition strcpy_s :: "u32 \<Rightarrow> u32 \<Rightarrow> u32 \<Rightarrow> memory \<Rightarrow> u32 \<times> memory" where
  "strcpy_s strDest destMax strSrc m =
     (let srcStrLen = SECUREC_CALC_STR_LEN strSrc destMax m + 1
      in if SECUREC_STRCPY_PARAM_OK strDest destMax strSrc \<and> srcStrLen \<le> destMax
         then if SECUREC_MEMORY_NO_OVERLAP strDest strSrc srcStrLen
              then (EOK, mem_copy strDest strSrc srcStrLen m)
              else (EOVERLAP_AND_RESET, m(strDest := 0))
         else strcpy_error strDest destMax strSrc m)"

subsection \<open>strncpy\_s\<close>

definition SECUREC_STRNCPY_PARAM_OK :: "u32 \<Rightarrow> u32 \<Rightarrow> u32 \<Rightarrow> u32 \<Rightarrow> bool" where
  "SECUREC_STRNCPY_PARAM_OK strDest destMax strSrc count \<longleftrightarrow>
     destMax > 0 \<and> destMax \<le> SECUREC_STRING_MAX_LEN \<and> strDest \<noteq> 0 \<and> strSrc \<noteq> 0 \<and>
     count \<le> SECUREC_STRING_MAX_LEN \<and> count > 0"

definition CheckSrcCountRange :: "u32 \<Rightarrow> u32 \<Rightarrow> u32 \<Rightarrow> u32 \<Rightarrow> memory \<Rightarrow> u32 \<times> memory" where
  "CheckSrcCountRange strDest destMax strSrc count m =
     (let tmpDestMax = unat destMax - calc_str_len (min (unat destMax) (unat count)) strSrc m
      in if tmpDestMax = 0 then (ERANGE_AND_RESET, m(strDest := 0)) else (EOK, m))"

definition strncpy_error :: "u32 \<Rightarrow> u32 \<Rightarrow> u32 \<Rightarrow> u32 \<Rightarrow> memory \<Rightarrow> u32 \<times> memory" where
  "strncpy_error strDest destMax strSrc count m =
     (if destMax = 0 \<or> destMax > SECUREC_STRING_MAX_LEN then (ERANGE, m)
      else if strDest = 0 \<or> strSrc = 0
      then if strDest \<noteq> 0 then (EINVAL_AND_RESET, m(strDest := 0)) else (EINVAL, m)
      else if count > SECUREC_STRING_MAX_LEN then (ERANGE_AND_RESET, m(strDest := 0))
      else if count = 0 then (EOK, m(strDest := 0))
      else CheckSrcCountRange strDest destMax strSrc count m)"

definition strncpy_s :: "u32 \<Rightarrow> u32 \<Rightarrow> u32 \<Rightarrow> u32 \<Rightarrow> memory \<Rightarrow> u32 \<times> memory" where
  "strncpy_s strDest destMax strSrc count m =
     (if SECUREC_STRNCPY_PARAM_OK strDest destMax strSrc count
      then let minCpLen = SECUREC_CALC_STR_LEN strSrc (if count < destMax then count else destMax) m
           in if \<not> count < destMax \<and> minCpLen = destMax then (ERANGE_AND_RESET, m(strDest := 0))
              else if SECUREC_STRING_NO_OVERLAP strDest strSrc minCpLen \<or> strDest = strSrc
              then (EOK, (mem_copy strDest strSrc minCpLen m)(strDest + minCpLen := 0))
              else (EOVERLAP_AND_RESET, m(strDest := 0))
      else strncpy_error strDest destMax strSrc count m)"

subsection \<open>strcat\_s and strncat\_s\<close>

definition SecDoCat :: "u32 \<Rightarrow> u32 \<Rightarrow> u32 \<Rightarrow> memory \<Rightarrow> u32 \<times> memory" where
  "SecDoCat strDest destMax strSrc m =
     (let destLen = SECUREC_CALC_STR_LEN strDest destMax m;
          maxSrcLen = destMax - destLen;
          srcLen = SECUREC_CALC_STR_LEN strSrc maxSrcLen m
      in if SECUREC_CAT_STRING_IS_OVERLAP strDest destLen strSrc srcLen
         then if strDest + destLen \<le> strSrc \<and> destLen = destMax
              then (EINVAL_AND_RESET, m(strDest := 0))
              else (EOVERLAP_AND_RESET, m(strDest := 0))
         else if srcLen + destLen \<ge> destMax \<or> strDest = strSrc
         then if destLen = destMax then (EINVAL_AND_RESET, m(strDest := 0))
              else (ERANGE_AND_RESET, m(strDest := 0))
         else (EOK, mem_copy (strDest + destLen) strSrc (srcLen + 1) m))"

definition strcat_s :: "u32 \<Rightarrow> u32 \<Rightarrow> u32 \<Rightarrow> memory \<Rightarrow> u32 \<times> memory" where
  "strcat_s strDest destMax strSrc m =
     (if destMax = 0 \<or> destMax > SECUREC_STRING_MAX_LEN then (ERANGE, m)
      else if strDest = 0 \<or> strSrc = 0
      then if strDest \<noteq> 0 then (EINVAL_AND_RESET, m(strDest := 0)) else (EINVAL, m)
      else SecDoCat strDest destMax strSrc m)"

definition SecDoCatLimit :: "u32 \<Rightarrow> u32 \<Rightarrow> u32 \<Rightarrow> u32 \<Rightarrow> memory \<Rightarrow> u32 \<times> memory" where
  "SecDoCatLimit strDest destMax strSrc count m =
     (let destLen = SECUREC_CALC_STR_LEN strDest destMax m;
          srcLen = SECUREC_CALC_STR_LEN strSrc count m
      in if SECUREC_CAT_STRING_IS_OVERLAP strDest destLen strSrc srcLen
         then if strDest + destLen \<le> strSrc \<and> destLen = destMax
              then (EINVAL_AND_RESET, m(strDest := 0))
              else (EOVERLAP_AND_RESET, m(strDest := 0))
         else if srcLen + destLen \<ge> destMax \<or> strDest = strSrc
         then if destLen = destMax then (EINVAL_AND_RESET, m(strDest := 0))
              else (ERANGE_AND_RESET, m(strDest := 0))
         else (EOK, (mem_copy (strDest + destLen) strSrc srcLen m)(strDest + destLen + srcLen := 0)))"

definition strncat_s :: "u32 \<Rightarrow> u32 \<Rightarrow> u32 \<Rightarrow> u32 \<Rightarrow> memory \<Rightarrow> u32 \<times> memory" where
  "strncat_s strDest destMax strSrc count m =
     (if destMax = 0 \<or> destMax > SECUREC_STRING_MAX_LEN then (ERANGE, m)
      else if strDest = 0 \<or> strSrc = 0
      then if strDest \<noteq> 0 then (EINVAL_AND_RESET, m(strDest := 0)) else (EINVAL, m)
      else if count > SECUREC_STRING_MAX_LEN then (ERANGE_AND_RESET, m(strDest := 0))
      else SecDoCatLimit strDest destMax strSrc count m)"

subsection \<open>memmove\_s\<close>

text \<open>The two loops of SecUtilMemmove, upwards and downwards.\<close>

primrec move_up :: "nat \<Rightarrow> u32 \<Rightarrow> u32 \<Rightarrow> memory \<Rightarrow> memory" where
  "move_up 0 pDest pSrc m = m"
| "move_up (Suc k) pDest pSrc m = move_up k (pDest + 1) (pSrc + 1) (m(pDest := m pSrc))"

primrec move_down :: "nat \<Rightarrow> u32 \<Rightarrow> u32 \<Rightarrow> memory \<Rightarrow> memory" where
  "move_down 0 pDest pSrc m = m"
| "move_down (Suc k) pDest pSrc m = move_down k (pDest - 1) (pSrc - 1) (m(pDest := m pSrc))"

definition SecUtilMemmove :: "u32 \<Rightarrow> u32 \<Rightarrow> u32 \<Rightarrow> memory \<Rightarrow> memory" where
  "SecUtilMemmove dst src count m =
     (if dst \<le> src \<or> dst \<ge> src + count then move_up (unat count) dst src m
      else move_down (unat count) (dst + count - 1) (src + count - 1) m)"

definition memmove_s :: "u32 \<Rightarrow> u32 \<Rightarrow> u32 \<Rightarrow> u32 \<Rightarrow> memory \<Rightarrow> u32 \<times> memory" where
  "memmove_s dest destMax src count m =
     (if destMax = 0 \<or> destMax > SECUREC_MEM_MAX_LEN then (ERANGE, m)
      else if dest = 0 \<or> src = 0
      then if dest \<noteq> 0 then (EINVAL_AND_RESET, mem_set dest 0 destMax m) else (EINVAL, m)
      else if count > destMax then (ERANGE_AND_RESET, mem_set dest 0 destMax m)
      else if dest = src then (EOK, m)
      else if count > 0 then (EOK, SecUtilMemmove dest src count m)
      else (EOK, m))"

subsection \<open>What the string functions promise\<close>

text \<open>There is a string of \<open>n\<close> bytes at \<open>a\<close>.\<close>

definition cstr :: "memory \<Rightarrow> u32 \<Rightarrow> nat \<Rightarrow> bool" where
  "cstr m a n \<longleftrightarrow> (\<forall>j < n. m (a + of_nat j) \<noteq> 0) \<and> m (a + of_nat n) = 0"

lemma calc_numeral:
  "calc_str_len (numeral k) a m = (if m a = 0 then 0 else Suc (calc_str_len (pred_numeral k) (a + 1) m))"
  by (simp add: numeral_eq_Suc)

lemma calc_le: "calc_str_len k a m \<le> k"
  by (induction k arbitrary: a) (auto)

lemma calc_nonzero: "j < calc_str_len k a m \<Longrightarrow> m (a + of_nat j) \<noteq> 0"
proof (induction k arbitrary: a j)
  case (Suc k)
  show ?case
  proof (cases j)
    case 0
    then show ?thesis using Suc.prems by (simp split: if_splits)
  next
    case j: (Suc i)
    then have "m (a + 1 + of_nat i) \<noteq> 0" by (intro Suc.IH) (use Suc.prems in \<open>simp split: if_splits\<close>)
    then show ?thesis using j by (simp add: algebra_simps)
  qed
qed simp

lemma calc_end: "calc_str_len k a m < k \<Longrightarrow> m (a + of_nat (calc_str_len k a m)) = 0"
proof (induction k arbitrary: a)
  case (Suc k)
  then show ?case using Suc.IH [of "a + 1"] by (auto simp: add.assoc)
qed simp

lemma calc_cstr: "calc_str_len k a m < k \<Longrightarrow> cstr m a (calc_str_len k a m)"
  by (simp add: cstr_def calc_nonzero calc_end)

lemma calc_word: "unat (SECUREC_CALC_STR_LEN a n m) = calc_str_len (unat n) a m"
  using calc_le [of "unat n" a m] unat_lt [of n] by (simp add: SECUREC_CALC_STR_LEN_def unat_of_nat)

lemma mem_copy_at: "j < unat n \<Longrightarrow> mem_copy d a n m (d + of_nat j) = m (a + of_nat j)"
  using unat_lt [of n] by (simp add: mem_copy_def word_less_nat_alt unat_of_nat)

lemma not_dest: "\<not> x - d < mx \<Longrightarrow> (mx :: u32) \<noteq> 0 \<Longrightarrow> x \<noteq> d"
  by (auto simp: word_neq_0_conv)

lemma strcpy_s_frame:
  assumes "\<not> x - d < mx"
  shows "snd (strcpy_s d mx a m) x = m x"
  using mem_copy_frame [OF _ assms] not_dest [OF assms]
  by (auto simp: strcpy_s_def strcpy_error_def CheckSrcRange_def Let_def SECUREC_STRCPY_PARAM_OK_def)

lemma strcpy_s_ok:
  assumes "fst (strcpy_s d mx a m) = EOK"
  shows "\<exists>n. n < unat mx \<and> cstr m a n \<and> cstr (snd (strcpy_s d mx a m)) d n \<and> bytes (snd (strcpy_s d mx a m)) d n = bytes m a n"
proof -
  let ?n = "calc_str_len (unat mx) a m"
  have w: "unat (SECUREC_CALC_STR_LEN a mx m) = ?n" by (rule calc_word)
  show ?thesis
  proof (cases "SECUREC_STRCPY_PARAM_OK d mx a \<and> SECUREC_CALC_STR_LEN a mx m + 1 \<le> mx")
    case True
    then have mx: "unat mx \<le> 0x7FFFFFFF" by (simp add: SECUREC_STRCPY_PARAM_OK_def word_le_nat_alt)
    have n1: "unat (SECUREC_CALC_STR_LEN a mx m + 1) = ?n + 1"
      using w calc_le [of "unat mx" a m] mx by (simp add: unat_word_ariths)
    have lt: "?n < unat mx" using True n1 by (simp add: word_le_nat_alt)
    have e: "snd (strcpy_s d mx a m) = mem_copy d a (SECUREC_CALC_STR_LEN a mx m + 1) m"
      using True assms by (auto simp: strcpy_s_def Let_def split: if_splits)
    have c: "snd (strcpy_s d mx a m) (d + of_nat j) = m (a + of_nat j)" if "j \<le> ?n" for j
      unfolding e by (rule mem_copy_at) (use that n1 in simp)
    show ?thesis
      by (rule exI [of _ ?n]) (use lt c calc_cstr [OF lt] in \<open>auto simp: cstr_def bytes_def\<close>)
  next
    case False
    then have e: "strcpy_s d mx a m = strcpy_error d mx a m" by (auto simp: strcpy_s_def Let_def)
    then have r: "CheckSrcRange d mx a m = (EOK, m)" "strcpy_error d mx a m = (EOK, m)"
      "mx \<noteq> 0" "mx \<le> SECUREC_STRING_MAX_LEN" "d \<noteq> 0" "a \<noteq> 0"
      using assms by (auto simp: strcpy_error_def CheckSrcRange_def Let_def split: if_splits)
    have lt: "?n < unat mx" using r(1) by (simp add: CheckSrcRange_def Let_def split: if_splits)
    have n1: "unat (SECUREC_CALC_STR_LEN a mx m + 1) = ?n + 1"
      using w lt r(4) by (simp add: unat_word_ariths word_le_nat_alt)
    have "SECUREC_CALC_STR_LEN a mx m + 1 \<le> mx" using n1 lt by (simp add: word_le_nat_alt)
    then have "d = a" using False r by (auto simp: SECUREC_STRCPY_PARAM_OK_def word_neq_0_conv)
    then show ?thesis using lt calc_cstr [OF lt] e r(2) by (intro exI [of _ ?n]) simp
  qed
qed

lemma strncpy_s_ok:
  assumes "fst (strncpy_s d mx a n m) = EOK"
  shows "\<exists>k. k < unat mx \<and> k \<le> unat n \<and> (k = unat n \<or> m (a + of_nat k) = 0) \<and> (\<forall>j < k. m (a + of_nat j) \<noteq> 0) \<and>
    cstr (snd (strncpy_s d mx a n m)) d k \<and> bytes (snd (strncpy_s d mx a n m)) d k = bytes m a k"
proof (cases "SECUREC_STRNCPY_PARAM_OK d mx a n")
  case True
  let ?l = "if n < mx then n else mx"
  let ?k = "calc_str_len (unat ?l) a m"
  have w: "unat (SECUREC_CALC_STR_LEN a ?l m) = ?k" by (rule calc_word)
  have ne: "\<not> (\<not> n < mx \<and> SECUREC_CALC_STR_LEN a ?l m = mx)"
    using True assms by (auto simp: strncpy_s_def Let_def)
  have e: "snd (strncpy_s d mx a n m) = (mem_copy d a (SECUREC_CALC_STR_LEN a ?l m) m)(d + SECUREC_CALC_STR_LEN a ?l m := 0)"
    using True assms ne by (auto simp: strncpy_s_def Let_def split: if_splits)
  have le: "?k \<le> unat ?l" by (rule calc_le)
  have lt: "?k < unat mx"
  proof (cases "n < mx")
    case True
    then show ?thesis using le by (simp add: word_less_nat_alt)
  next
    case False
    then have "unat (SECUREC_CALC_STR_LEN a ?l m) \<noteq> unat mx" using ne by (simp add: word_unat_eq_iff)
    then show ?thesis using le w False by simp
  qed
  have kn: "?k \<le> unat n" using le by (auto simp: word_less_nat_alt split: if_splits)
  have z: "?k = unat n \<or> m (a + of_nat ?k) = 0"
    using calc_end [of "unat ?l" a m] le lt by (cases "n < mx") (auto simp: nat_less_le)
  have kw: "SECUREC_CALC_STR_LEN a ?l m = of_nat ?k" by (simp add: SECUREC_CALC_STR_LEN_def)
  have c: "snd (strncpy_s d mx a n m) (d + of_nat j) = m (a + of_nat j)" if "j < ?k" for j
  proof -
    have "unat (of_nat j :: u32) = j" "unat (of_nat ?k :: u32) = ?k"
      using that lt unat_lt [of mx] by (simp_all add: unat_of_nat)
    then have "(of_nat j :: u32) \<noteq> of_nat ?k" using that by (metis less_irrefl)
    then show ?thesis using mem_copy_at [of j "SECUREC_CALC_STR_LEN a ?l m"] that w by (simp add: e kw)
  qed
  have t: "snd (strncpy_s d mx a n m) (d + of_nat ?k) = 0" by (simp add: e kw)
  show ?thesis
    by (rule exI [of _ ?k]) (use lt kn z c t calc_nonzero [of _ "unat ?l" a m] in \<open>simp add: cstr_def bytes_def\<close>)
next
  case False
  then have e: "strncpy_s d mx a n m = strncpy_error d mx a n m" by (simp add: strncpy_s_def)
  have "n = 0 \<and> mx \<noteq> 0 \<and> snd (strncpy_error d mx a n m) = m(d := 0)"
    using False assms by (auto simp: e strncpy_error_def SECUREC_STRNCPY_PARAM_OK_def word_neq_0_conv not_less split: if_splits)
  then show ?thesis unfolding e by (intro exI [of _ 0]) (auto simp: cstr_def bytes_def unat_gt_0)
qed

lemma strncpy_s_frame:
  assumes x: "\<not> x - d < mx"
  shows "snd (strncpy_s d mx a n m) x = m x"
proof (cases "SECUREC_STRNCPY_PARAM_OK d mx a n")
  case True
  let ?l = "if n < mx then n else mx"
  let ?K = "SECUREC_CALC_STR_LEN a ?l m"
  have "unat ?K \<le> unat ?l" unfolding calc_word by (rule calc_le)
  then have le: "?K \<le> mx" "n < mx \<Longrightarrow> ?K < mx" by (auto simp: word_le_nat_alt word_less_nat_alt)
  have u: "((mem_copy d a ?K m)(d + ?K := 0)) x = m x" if "?K < mx"
    using that x mem_copy_frame [OF le(1) x] by auto
  have z: "x \<noteq> d" using not_dest [OF x] True by (auto simp: SECUREC_STRNCPY_PARAM_OK_def)
  consider "\<not> n < mx" "?K = mx" | "?K < mx" using le by fastforce
  then show ?thesis
  proof cases
    case 1
    then show ?thesis using True z by (simp add: strncpy_s_def)
  next
    case 2
    then have "?K \<noteq> mx" by simp
    then show ?thesis using True z u [OF 2]
      by (cases "SECUREC_STRING_NO_OVERLAP d a ?K \<or> d = a") (simp_all add: strncpy_s_def Let_def split del: if_split)
  qed
next
  case False
  then show ?thesis using not_dest [OF x]
    by (auto simp: strncpy_s_def strncpy_error_def CheckSrcCountRange_def Let_def)
qed

lemma bytes_append: "bytes m a (k + n) = bytes m a k @ bytes m (a + of_nat k) n"
  by (rule nth_equalityI) (auto simp: bytes_def nth_append add.assoc)

text \<open>
  strcat\_s: the source is appended, with its terminator, and the result fits.
\<close>

lemma strcat_s_ok:
  assumes "fst (strcat_s d mx a m) = EOK"
  shows "\<exists>k n. k + n < unat mx \<and> cstr m d k \<and> cstr m a n \<and> cstr (snd (strcat_s d mx a m)) d (k + n) \<and>
    bytes (snd (strcat_s d mx a m)) d (k + n) = bytes m d k @ bytes m a n"
proof -
  let ?D = "SECUREC_CALC_STR_LEN d mx m"
  let ?S = "SECUREC_CALC_STR_LEN a (mx - ?D) m"
  let ?k = "calc_str_len (unat mx) d m" and ?n = "calc_str_len (unat (mx - ?D)) a m"
  have mx: "mx \<le> SECUREC_STRING_MAX_LEN" and c: "\<not> ?S + ?D \<ge> mx"
    and e: "snd (strcat_s d mx a m) = mem_copy (d + ?D) a (?S + 1) m"
    using assms by (auto simp: strcat_s_def SecDoCat_def Let_def not_less split: if_splits)
  have w: "unat ?D = ?k" "unat ?S = ?n" by (rule calc_word)+
  have kl: "?k \<le> unat mx" by (rule calc_le)
  have mD: "unat (mx - ?D) = unat mx - ?k" using kl w(1) by (simp add: unat_sub word_le_nat_alt)
  have nl: "?n \<le> unat mx - ?k" using calc_le [of "unat (mx - ?D)" a m] mD by simp
  have mb: "unat mx \<le> 0x7FFFFFFF" using mx by (simp add: word_le_nat_alt)
  have "unat (?S + ?D) = ?n + ?k" using w kl nl mb by (simp add: unat_word_ariths)
  then have lt: "?k + ?n < unat mx" using c by (simp add: word_le_nat_alt)
  have n1: "unat (?S + 1) = ?n + 1" using w lt mb by (simp add: unat_word_ariths)
  have cd: "cstr m d ?k" by (rule calc_cstr) (use lt in simp)
  have ca: "cstr m a ?n" by (rule calc_cstr) (use lt mD in simp)
  have kw: "?D = of_nat ?k" by (simp add: SECUREC_CALC_STR_LEN_def)
  have hi: "snd (strcat_s d mx a m) (d + of_nat (?k + j)) = m (a + of_nat j)" if "j \<le> ?n" for j
    using mem_copy_at [of j "?S + 1" "d + ?D" a m] that n1 by (simp add: e kw add.assoc)
  have lo: "snd (strcat_s d mx a m) (d + of_nat j) = m (d + of_nat j)" if "j < ?k" for j
  proof -
    have u: "unat (of_nat j :: u32) = j" using that kl mb by (simp add: unat_of_nat)
    have "unat (of_nat j - ?D) = j + 2 ^ 32 - ?k"
      using that w(1) by (simp add: unat_sub_if' u word_size)
    moreover have "?n + 1 + ?k \<le> 2 ^ 32" using lt mb by simp
    ultimately have "\<not> of_nat j - ?D < ?S + 1" using n1 by (simp add: word_less_nat_alt)
    then show ?thesis by (simp add: e mem_copy_def algebra_simps)
  qed
  let ?m = "snd (strcat_s d mx a m)"
  have all: "?m (d + of_nat j) \<noteq> 0" if "j < ?k + ?n" for j
  proof (cases "j < ?k")
    case True
    then show ?thesis using lo cd by (simp add: cstr_def)
  next
    case False
    then obtain i where i: "j = ?k + i" by (metis le_Suc_ex not_less)
    then have "?m (d + of_nat j) = m (a + of_nat i)" using hi [of i] that by simp
    then show ?thesis using i ca that by (simp add: cstr_def)
  qed
  have bt: "bytes ?m d (?k + ?n) = bytes m d ?k @ bytes m a ?n"
    unfolding bytes_append by (intro arg_cong2 [of _ _ _ _ append] bytes_cong) (use lo hi in \<open>simp_all add: add.assoc\<close>)
  show ?thesis
    by (rule exI [of _ ?k], rule exI [of _ ?n]) (use lt cd ca all hi [of ?n] bt in \<open>auto simp: cstr_def\<close>)
qed

subsection \<open>memmove\_s\<close>

lemma move_up_law:
  assumes "k \<le> 2 ^ 32" "\<And>i j. i < j \<Longrightarrow> j < k \<Longrightarrow> d + of_nat i \<noteq> a + of_nat j"
  shows "move_up k d a m x = (if unat (x - d) < k then m (a + (x - d)) else m x)"
  using assms
proof (induction k arbitrary: d a m)
  case (Suc k)
  let ?m = "m(d := m a)"
  have s: "d + 1 + of_nat i \<noteq> a + 1 + of_nat j" if "i < j" "j < k" for i j
    using Suc.prems(2) [of "Suc i" "Suc j"] that by (simp add: algebra_simps)
  have IH: "move_up k (d + 1) (a + 1) ?m x = (if unat (x - (d + 1)) < k then ?m (a + 1 + (x - (d + 1))) else ?m x)"
    by (rule Suc.IH) (use Suc.prems(1) s in auto)
  show ?case
  proof (cases "x = d")
    case True
    have "unat (x - (d + 1)) = 2 ^ 32 - 1" using True by (simp add: unsigned_minus_1_eq_mask mask_eq_exp_minus_1)
    then show ?thesis using IH Suc.prems(1) True by simp
  next
    case False
    have e: "x - (d + 1) = x - d - 1" by simp
    have p: "unat (x - d) = unat (x - (d + 1)) + 1" unfolding e using unat_minus_one [of "x - d"] False unat_gt_0 [of "x - d"] by simp
    have "a + 1 + (x - (d + 1)) = a + (x - d)" by simp
    moreover have "a + (x - d) \<noteq> d" if "unat (x - (d + 1)) < k"
      using Suc.prems(2) [of 0 "unat (x - d)"] that p by auto
    ultimately show ?thesis using IH False p by auto
  qed
qed simp

lemma move_down_law:
  assumes "k \<le> 2 ^ 32" "\<And>i j. i < j \<Longrightarrow> j < k \<Longrightarrow> d - of_nat i \<noteq> a - of_nat j"
  shows "move_down k d a m x = (if unat (d - x) < k then m (a - (d - x)) else m x)"
  using assms
proof (induction k arbitrary: d a m)
  case (Suc k)
  let ?m = "m(d := m a)"
  have s: "d - 1 - of_nat i \<noteq> a - 1 - of_nat j" if "i < j" "j < k" for i j
    using Suc.prems(2) [of "Suc i" "Suc j"] that by (simp add: algebra_simps)
  have IH: "move_down k (d - 1) (a - 1) ?m x = (if unat (d - 1 - x) < k then ?m (a - 1 - (d - 1 - x)) else ?m x)"
    by (rule Suc.IH) (use Suc.prems(1) s in auto)
  show ?case
  proof (cases "x = d")
    case True
    have "unat (d - 1 - x) = 2 ^ 32 - 1" using True by (simp add: unsigned_minus_1_eq_mask mask_eq_exp_minus_1)
    then show ?thesis using IH Suc.prems(1) True by simp
  next
    case False
    have e: "d - 1 - x = d - x - 1" by simp
    have p: "unat (d - x) = unat (d - 1 - x) + 1" unfolding e using unat_minus_one [of "d - x"] False unat_gt_0 [of "d - x"] by simp
    have q: "a - 1 - (d - 1 - x) = a - (d - x)" by simp
    have r: "a - (d - x) \<noteq> d" if "unat (d - 1 - x) < k"
      using Suc.prems(2) [of 0 "unat (d - x)"] that p by auto
    show ?thesis
    proof (cases "unat (d - 1 - x) < k")
      case True
      then have "move_down k (d - 1) (a - 1) ?m x = ?m (a - (d - x))" using IH unfolding q by simp
      also have "... = m (a - (d - x))" using r [OF True] by (rule fun_upd_other)
      finally show ?thesis using True p by simp
    next
      case n: False
      then show ?thesis using IH p False by simp
    qed
  qed
qed simp

lemma mirror: "n \<noteq> 0 \<Longrightarrow> unat (n - 1 - y) < unat n \<longleftrightarrow> unat y < unat (n :: u32)"
  using unat_minus_one [of n] unat_gt_0 [of n] unat_lt [of y] unat_lt [of n] unat_sub_if' [of "n - 1" y] by (auto simp: word_size)

text \<open>On regions that do not wrap around, the two loops copy as if through a buffer.\<close>

lemma memmove_law:
  assumes d: "unat dst + unat n \<le> 2 ^ 32" and a: "unat src + unat n \<le> 2 ^ 32"
  shows "SecUtilMemmove dst src n m = mem_copy dst src n m"
proof
  fix x
  have o: "unat (dst + of_nat j) = unat dst + j" "unat (src + of_nat j) = unat src + j" if "j < unat n" for j
    by (rule unat_add_nat; use that d a in linarith)+
  have n: "unat n \<le> 2 ^ 32" using unat_lt [of n] by simp
  show "SecUtilMemmove dst src n m x = mem_copy dst src n m x"
  proof (cases "dst \<le> src \<or> dst \<ge> src + n")
    case True
    have "dst + of_nat i \<noteq> src + of_nat j" if "i < j" "j < unat n" for i j
    proof
      assume "dst + of_nat i = src + of_nat j"
      then have e: "unat dst + i = unat src + j" using o [of i] o [of j] that by simp
      show False
      proof (cases "unat src + unat n < 2 ^ 32")
        case lt: True
        then have "unat (src + n) = unat src + unat n" by (simp add: unat_word_ariths)
        then show False using True e that by (auto simp: word_le_nat_alt)
      next
        case False
        then show False using d a e that by linarith
      qed
    qed
    then show ?thesis using True move_up_law [OF n] by (simp add: SecUtilMemmove_def mem_copy_def word_less_nat_alt)
  next
    case False
    have gt: "unat src < unat dst" using False by (simp add: word_le_nat_alt)
    have n0: "n \<noteq> 0" using False by auto
    let ?d = "dst + n - 1" and ?a = "src + n - 1"
    have b: "?d - of_nat i = dst + of_nat (unat n - 1 - i)" "?a - of_nat i = src + of_nat (unat n - 1 - i)" if "i < unat n" for i
    proof -
      have "(of_nat (unat n - 1 - i) :: u32) = n - 1 - of_nat i" using that by (simp add: of_nat_diff)
      then show "?d - of_nat i = dst + of_nat (unat n - 1 - i)" "?a - of_nat i = src + of_nat (unat n - 1 - i)" by simp_all
    qed
    have "?d - of_nat i \<noteq> ?a - of_nat j" if "i < j" "j < unat n" for i j
    proof
      assume e: "?d - of_nat i = ?a - of_nat j"
      have "unat (dst + of_nat (unat n - 1 - i)) = unat (src + of_nat (unat n - 1 - j))"
        using arg_cong [OF e, of unat] unfolding b(1) [OF less_trans [OF that]] b(2) [OF that(2)] .
      then have "unat dst + (unat n - 1 - i) = unat src + (unat n - 1 - j)"
        using o(1) [of "unat n - 1 - i"] o(2) [of "unat n - 1 - j"] that by simp
      then show False using gt that by linarith
    qed
    note M = move_down_law [OF n this]
    have y: "unat (?d - x) < unat n \<longleftrightarrow> x - dst < n"
    proof -
      have "?d - x = n - 1 - (x - dst)" by simp
      then show ?thesis using mirror [OF n0, of "x - dst"] by (simp only: word_less_nat_alt)
    qed
    have z: "?a - (?d - x) = src + (x - dst)" by simp
    show ?thesis using False M [of m x] y unfolding z by (simp add: SecUtilMemmove_def mem_copy_def)
  qed
qed

subsection \<open>When the copies succeed\<close>

lemma calc_of_cstr: "cstr m a n \<Longrightarrow> n < k \<Longrightarrow> calc_str_len k a m = n"
proof (induction k arbitrary: a n)
  case (Suc k)
  show ?case
  proof (cases n)
    case 0
    then show ?thesis using Suc.prems by (simp add: cstr_def)
  next
    case n: (Suc j)
    have "cstr m (a + 1) j"
      using Suc.prems(1) unfolding cstr_def n by (metis Suc_less_eq add.assoc of_nat_Suc)
    then show ?thesis
      using Suc.IH [of "a + 1" j] Suc.prems n by (auto simp: cstr_def dest: spec [of _ 0])
  qed
qed simp

lemma len_of_cstr: "cstr m a n \<Longrightarrow> n < unat k \<Longrightarrow> SECUREC_CALC_STR_LEN a k m = of_nat n"
  by (simp add: SECUREC_CALC_STR_LEN_def calc_of_cstr)

text \<open>Two regions of \<open>n\<close> bytes, one below the other.\<close>

definition below :: "u32 \<Rightarrow> nat \<Rightarrow> u32 \<Rightarrow> bool" where
  "below a n b \<longleftrightarrow> unat a + n \<le> unat b"

lemma below_add: "below a n b \<Longrightarrow> unat (a + of_nat n) = unat a + n"
  using unat_lt [of b] by (intro unat_add_nat) (simp add: below_def)

lemma below_le: "below a n b \<Longrightarrow> a + of_nat n \<le> b"
  using below_add by (simp add: below_def word_le_nat_alt)

lemma below_less: "below a n b \<Longrightarrow> 0 < n \<Longrightarrow> a < b"
  by (simp add: below_def word_less_nat_alt)

lemma memcpy_s_succeeds:
  assumes "dest \<noteq> 0" "src \<noteq> 0" "count \<le> destMax" "destMax \<le> SECUREC_MEM_MAX_LEN" "0 < count"
    "below src (unat count) dest \<or> below dest (unat count) src"
  shows "fst (memcpy_s dest destMax src count m) = EOK"
proof -
  have "SECUREC_MEMORY_NO_OVERLAP dest src count"
    using assms(5,6) below_le [of src "unat count" dest] below_less [of src "unat count" dest]
      below_le [of dest "unat count" src] below_less [of dest "unat count" src]
    by (auto simp: SECUREC_MEMORY_NO_OVERLAP_def unat_gt_0)
  then show ?thesis using assms(1-5) by (simp add: memcpy_s_def SECUREC_MEMCPY_PARAM_OK_def)
qed

lemma strcpy_s_succeeds:
  assumes "dest \<noteq> 0" "src \<noteq> 0" "destMax \<le> SECUREC_STRING_MAX_LEN" "cstr m src n" "n < unat destMax"
    "below src (n + 1) dest \<or> below dest (n + 1) src"
  shows "fst (strcpy_s dest destMax src m) = EOK"
proof -
  have u: "unat (of_nat (n + 1) :: u32) = n + 1"
    unfolding unat_of_nat using assms(5) unat_lt [of destMax] by simp
  have "SECUREC_MEMORY_NO_OVERLAP dest src (of_nat (n + 1))"
    using assms(6) below_le [of src "n + 1" dest] below_less [of src "n + 1" dest]
      below_le [of dest "n + 1" src] below_less [of dest "n + 1" src]
    by (auto simp: SECUREC_MEMORY_NO_OVERLAP_def)
  moreover have "of_nat (n + 1) \<le> destMax" unfolding word_le_nat_alt u using assms(5) by simp
  moreover have "dest \<noteq> src" using assms(6) by (auto simp: below_def)
  moreover have "destMax \<noteq> 0" using assms(5) by auto
  ultimately show ?thesis using assms(1-3) len_of_cstr [OF assms(4,5)]
    by (simp add: strcpy_s_def SECUREC_STRCPY_PARAM_OK_def add.commute word_neq_0_conv)
qed

lemma strcat_s_succeeds:
  assumes "dest \<noteq> 0" "src \<noteq> 0" "destMax \<le> SECUREC_STRING_MAX_LEN" "cstr m dest k" "cstr m src n" "k + n < unat destMax"
    "below src (n + 1) dest \<or> below dest (k + n + 1) src"
  shows "fst (strcat_s dest destMax src m) = EOK"
proof -
  have k: "k < unat destMax" using assms(6) by simp
  have lk: "SECUREC_CALC_STR_LEN dest destMax m = of_nat k" by (rule len_of_cstr [OF assms(4) k])
  have uk: "unat (of_nat k :: u32) = k" using k unat_lt [of destMax] by (simp add: unat_of_nat)
  have s: "unat (destMax - of_nat k) = unat destMax - k"
    using k uk by (simp add: unat_sub word_le_nat_alt)
  have ln: "SECUREC_CALC_STR_LEN src (destMax - of_nat k) m = of_nat n"
    by (rule len_of_cstr [OF assms(5)]) (use assms(6) s in simp)
  have f: "of_nat n + of_nat k < destMax"
    using assms(6) unat_lt [of destMax] by (simp add: word_less_nat_alt unat_of_nat flip: of_nat_add)
  have "\<not> SECUREC_CAT_STRING_IS_OVERLAP dest (of_nat k) src (of_nat n)"
  proof (cases "below src (n + 1) dest")
    case True
    have b: "below src n dest" using True by (simp add: below_def)
    then have "src + of_nat n < dest" using below_add [OF b] True by (simp add: below_def word_less_nat_alt)
    moreover have "src < dest" using below_less [OF True] by simp
    ultimately show ?thesis by (auto simp: SECUREC_CAT_STRING_IS_OVERLAP_def)
  next
    case False
    then have c: "below dest (k + n + 1) src" using assms(7) by simp
    have b: "below dest (k + n) src" using c by (simp add: below_def)
    then have "dest + of_nat k + of_nat n < src"
      using below_add [OF b] c by (simp add: below_def word_less_nat_alt add.assoc)
    moreover have "dest < src" using below_less [OF c] by simp
    ultimately show ?thesis by (auto simp: SECUREC_CAT_STRING_IS_OVERLAP_def)
  qed
  moreover have "dest \<noteq> src" using assms(7) by (auto simp: below_def)
  moreover have "destMax \<noteq> 0" using k by auto
  ultimately show ?thesis using assms(1-3) f
    by (auto simp: strcat_s_def SecDoCat_def lk ln Let_def)
qed

lemma strncpy_s_succeeds:
  assumes "dest \<noteq> 0" "src \<noteq> 0" "destMax \<le> SECUREC_STRING_MAX_LEN" "count \<le> SECUREC_STRING_MAX_LEN" "0 < destMax"
    "count < destMax \<or> (\<exists>n. cstr m src n \<and> n < unat destMax)"
    "below src (unat destMax) dest \<or> below dest (unat destMax) src"
  shows "fst (strncpy_s dest destMax src count m) = EOK"
proof (cases "count = 0")
  case True
  then show ?thesis using assms(1-5) by (auto simp: strncpy_s_def SECUREC_STRNCPY_PARAM_OK_def strncpy_error_def)
next
  case False
  let ?l = "if count < destMax then count else destMax"
  let ?K = "SECUREC_CALC_STR_LEN src ?l m"
  have K: "unat ?K = calc_str_len (unat ?l) src m" by (rule calc_word)
  have lt: "unat ?K < unat destMax"
  proof (cases "count < destMax")
    case True
    then show ?thesis using K calc_le [of "unat count" src m] by (simp add: word_less_nat_alt)
  next
    case False
    then obtain n where "cstr m src n" "n < unat destMax" using assms(6) by auto
    then show ?thesis using K False calc_of_cstr by simp
  qed
  then have ne: "?K \<noteq> destMax" by auto
  have b: "below src (unat ?K + 1) dest \<or> below dest (unat ?K + 1) src" using assms(7) lt by (auto simp: below_def)
  have "SECUREC_STRING_NO_OVERLAP dest src ?K"
    using b below_add [of src "unat ?K" dest] below_add [of dest "unat ?K" src]
    unfolding SECUREC_STRING_NO_OVERLAP_def word_less_nat_alt by (auto simp: below_def)
  then show ?thesis
    using False ne assms(1-5) by (simp add: strncpy_s_def SECUREC_STRNCPY_PARAM_OK_def Let_def word_neq_0_conv)
qed

end
