(* ===== verification/LosMembox.thy ===== *)
theory LosMembox
  imports LosKernel LosSecurec
begin

text \<open>
  Fixed-size memory pools, kernel/src/mm/los_membox.c.  A pool is a region of
  \<open>byteMem\<close>: the 16 bytes of LOS_MEMBOX_INFO (uwBlkSize, uwBlkNum, uwBlkCnt and
  the head of the free list), followed by the blocks.  The first word of a block
  is the link of the free list, or, for a block in use, the magic number with
  the task that took it.
\<close>

abbreviation (input) OS_MEMBOX_MAGIC :: u32 where "OS_MEMBOX_MAGIC \<equiv> 0xA55A5A00"
abbreviation (input) OS_MEMBOX_NODE_HEAD_SIZE :: u32 where "OS_MEMBOX_NODE_HEAD_SIZE \<equiv> 4"
abbreviation (input) sizeof_LOS_MEMBOX_INFO :: u32 where "sizeof_LOS_MEMBOX_INFO \<equiv> 16"
abbreviation (input) LOS_ERRNO_TSK_ID_INVALID :: u32 where "LOS_ERRNO_TSK_ID_INVALID \<equiv> 0x02000207"

abbreviation uwBlkSize :: "memory \<Rightarrow> u32 \<Rightarrow> u32" where "uwBlkSize m pool \<equiv> rd32 m pool"
abbreviation uwBlkNum :: "memory \<Rightarrow> u32 \<Rightarrow> u32" where "uwBlkNum m pool \<equiv> rd32 m (pool + 4)"
abbreviation uwBlkCnt :: "memory \<Rightarrow> u32 \<Rightarrow> u32" where "uwBlkCnt m pool \<equiv> rd32 m (pool + 8)"
abbreviation stFreeList :: "memory \<Rightarrow> u32 \<Rightarrow> u32" where "stFreeList m pool \<equiv> rd32 m (pool + 12)"

definition LOS_MEMBOX_ALIGNED :: "u32 \<Rightarrow> u32" where
  "LOS_MEMBOX_ALIGNED a = (a + 4 - 1) AND NOT (4 - 1)"

definition LOS_CurTaskIDGet :: "kstate \<Rightarrow> u32" where
  "LOS_CurTaskIDGet s = (case runTask s of None \<Rightarrow> LOS_ERRNO_TSK_ID_INVALID | Some t \<Rightarrow> taskID (tcb s t))"

definition OsMemBoxSetMagic :: "u32 \<Rightarrow> u32 \<Rightarrow> memory \<Rightarrow> memory" where
  "OsMemBoxSetMagic tid node m = (let taskID = (ucast tid :: u8) in wr32 node (OS_MEMBOX_MAGIC OR ucast taskID) m)"

definition OsMemBoxCheckMagic :: "u32 \<Rightarrow> memory \<Rightarrow> u32" where
  "OsMemBoxCheckMagic node m =
     (let taskID = rd32 m node AND 0xFF
      in if taskID > 25 then LOS_NOK
         else if rd32 m node = (OS_MEMBOX_MAGIC OR taskID) then LOS_OK else LOS_NOK)"

definition OsCheckBoxMem :: "u32 \<Rightarrow> u32 \<Rightarrow> memory \<Rightarrow> u32" where
  "OsCheckBoxMem boxInfo node m =
     (if uwBlkSize m boxInfo = 0 then LOS_NOK
      else let offset = node - (boxInfo + sizeof_LOS_MEMBOX_INFO)
           in if offset mod uwBlkSize m boxInfo \<noteq> 0 then LOS_NOK
              else if offset div uwBlkSize m boxInfo \<ge> uwBlkNum m boxInfo then LOS_NOK
              else OsMemBoxCheckMagic node m)"

text \<open>The loop of LOS_MemboxInit that links the blocks; it reads the pool's header in every round.\<close>

partial_function (option) membox_link_loop :: "u32 \<Rightarrow> u32 \<Rightarrow> u32 \<Rightarrow> memory \<Rightarrow> (u32 \<times> memory) option" where
  "membox_link_loop boxInfo index node m =
     (if index < uwBlkNum m boxInfo - 1
      then let m = wr32 node (node + uwBlkSize m boxInfo) m
           in membox_link_loop boxInfo (index + 1) (rd32 m node) m
      else Some (node, m))"

definition LOS_MemboxInit :: "u32 \<Rightarrow> u32 \<Rightarrow> u32 \<Rightarrow> memory \<Rightarrow> (u32 \<times> memory) option" where
  "LOS_MemboxInit pool poolSize blkSize m =
     (if pool = 0 then Some (LOS_NOK, m)
      else if blkSize = 0 then Some (LOS_NOK, m)
      else if poolSize < sizeof_LOS_MEMBOX_INFO then Some (LOS_NOK, m)
      else do {
        let m = wr32 pool (LOS_MEMBOX_ALIGNED (blkSize + OS_MEMBOX_NODE_HEAD_SIZE)) m;
        _ \<leftarrow> los_assert (uwBlkSize m pool \<noteq> 0);
        let m = wr32 (pool + 4) ((poolSize - sizeof_LOS_MEMBOX_INFO) div uwBlkSize m pool) m;
        let m = wr32 (pool + 8) 0 m;
        if uwBlkNum m pool = 0 then Some (LOS_NOK, m)
        else do {
          let node = pool + sizeof_LOS_MEMBOX_INFO;
          let m = wr32 (pool + 12) node m;
          (node, m) \<leftarrow> membox_link_loop pool 0 node m;
          Some (LOS_OK, wr32 node 0 m)
        }
      })"

definition LOS_MemboxAlloc :: "u32 \<Rightarrow> u32 \<Rightarrow> memory \<Rightarrow> u32 \<times> memory" where
  "LOS_MemboxAlloc tid pool m =
     (if pool = 0 then (0, m)
      else if stFreeList m pool \<noteq> 0
      then let nodeTmp = stFreeList m pool;
               m = wr32 (pool + 12) (rd32 m nodeTmp) m;
               m = OsMemBoxSetMagic tid nodeTmp m;
               m = wr32 (pool + 8) (uwBlkCnt m pool + 1) m
           in (nodeTmp + OS_MEMBOX_NODE_HEAD_SIZE, m)
      else (0, m))"

definition LOS_MemboxFree :: "u32 \<Rightarrow> u32 \<Rightarrow> memory \<Rightarrow> u32 \<times> memory" where
  "LOS_MemboxFree pool box m =
     (if pool = 0 \<or> box = 0 then (LOS_NOK, m)
      else let node = box - OS_MEMBOX_NODE_HEAD_SIZE
           in if OsCheckBoxMem pool node m \<noteq> LOS_OK then (LOS_NOK, m)
              else let m = wr32 node (stFreeList m pool) m;
                       m = wr32 (pool + 12) node m;
                       m = wr32 (pool + 8) (uwBlkCnt m pool - 1) m
                   in (LOS_OK, m))"

definition LOS_MemboxClr :: "u32 \<Rightarrow> u32 \<Rightarrow> memory \<Rightarrow> memory" where
  "LOS_MemboxClr pool box m =
     (if pool = 0 \<or> box = 0 then m
      else snd (memset_s box (uwBlkSize m pool - OS_MEMBOX_NODE_HEAD_SIZE) 0
                 (uwBlkSize m pool - OS_MEMBOX_NODE_HEAD_SIZE) m))"

text \<open>The result stored through \<open>maxBlk\<close>, \<open>blkCnt\<close> and \<open>blkSize\<close>; \<open>ptrs\<close> says that none of the pointers is NULL.\<close>

definition LOS_MemboxStatisticsGet :: "u32 \<Rightarrow> bool \<Rightarrow> memory \<Rightarrow> u32 \<times> (u32 \<times> u32 \<times> u32) option" where
  "LOS_MemboxStatisticsGet boxMem ptrs m =
     (if boxMem = 0 \<or> \<not> ptrs then (LOS_NOK, None)
      else (LOS_OK, Some (uwBlkNum m boxMem, uwBlkCnt m boxMem, uwBlkSize m boxMem)))"

subsection \<open>The invariant of a pool\<close>

text \<open>
  \<open>chain m a ns\<close>: following the links from the word \<open>a\<close> gives exactly the nodes
  \<open>ns\<close>.  The blocks of a pool are at \<open>blk pool sz k\<close>.
\<close>

primrec chain :: "memory \<Rightarrow> u32 \<Rightarrow> u32 list \<Rightarrow> bool" where
  "chain m a [] \<longleftrightarrow> rd32 m a = 0"
| "chain m a (n # ns) \<longleftrightarrow> rd32 m a = n \<and> n \<noteq> 0 \<and> chain m n ns"

definition blk :: "u32 \<Rightarrow> nat \<Rightarrow> nat \<Rightarrow> u32" where
  "blk pool sz k = pool + of_nat (16 + sz * k)"

definition held :: "u32 \<Rightarrow> u32 \<Rightarrow> bool" where
  "held w tid \<longleftrightarrow> w = OS_MEMBOX_MAGIC OR (tid AND 0xFF)"

text \<open>
  \<open>pool_rep m pool sz num fs\<close>: the region at \<open>pool\<close> is a pool of \<open>num\<close> blocks of
  \<open>sz\<close> bytes; the blocks \<open>fs\<close> are free, in the order of the free list, and every
  other block carries the magic number of the task that took it.
\<close>

definition pool_fits :: "u32 \<Rightarrow> nat \<Rightarrow> nat \<Rightarrow> bool" where
  "pool_fits pool sz num \<longleftrightarrow> pool \<noteq> 0 \<and> 8 \<le> sz \<and> 0 < num \<and> unat pool + 16 + sz * num \<le> 2 ^ 32"

definition pool_rep :: "memory \<Rightarrow> u32 \<Rightarrow> nat \<Rightarrow> nat \<Rightarrow> nat list \<Rightarrow> bool" where
  "pool_rep m pool sz num fs \<longleftrightarrow> pool_fits pool sz num \<and> unat (uwBlkSize m pool) = sz \<and> unat (uwBlkNum m pool) = num \<and>
     distinct fs \<and> (\<forall>k \<in> set fs. k < num) \<and> chain m (pool + 12) (map (blk pool sz) fs) \<and>
     (\<forall>k < num. k \<notin> set fs \<longrightarrow> OsMemBoxCheckMagic (blk pool sz k) m = LOS_OK) \<and>
     unat (uwBlkCnt m pool) + length fs = num"

lemma chain_cong:
  "rd32 m' a' = rd32 m a \<Longrightarrow> (\<And>n. n \<in> set ns \<Longrightarrow> rd32 m' n = rd32 m n) \<Longrightarrow> chain m' a' ns = chain m a ns"
proof (induction ns arbitrary: a a')
  case (Cons n ns)
  have "chain m' n ns = chain m n ns" by (rule Cons.IH) (use Cons.prems(2) in simp_all)
  then show ?case using Cons.prems(1) by simp
qed simp

lemma disj32_offset:
  assumes "unat pool + n' + 4 \<le> 2 ^ 32" "n + 4 \<le> n'"
  shows "disj32 (pool + of_nat n) (pool + of_nat n')" "disj32 (pool + of_nat n') (pool + of_nat n)"
proof -
  have v: "unat (of_nat n :: u32) = n" "unat (of_nat n' :: u32) = n'" using assms by (simp_all add: unat_of_nat)
  show "disj32 (pool + of_nat n) (pool + of_nat n')"
    using assms v unfolding disj32_def by (simp add: word_le_nat_alt unat_sub_if' word_size) linarith
  then show "disj32 (pool + of_nat n') (pool + of_nat n)" by (simp add: disj32_sym)
qed

lemma blk_unat:
  assumes "pool_fits pool sz num" "k < num"
  shows "unat (blk pool sz k) = unat pool + 16 + sz * k" "unat pool + 16 + sz * k + sz \<le> 2 ^ 32" "blk pool sz k \<noteq> 0"
proof -
  have "sz * k + sz \<le> sz * num" using mult_le_mono2 [of "k + 1" num sz] assms(2) by simp
  then show b: "unat pool + 16 + sz * k + sz \<le> 2 ^ 32" using assms(1) unfolding pool_fits_def by linarith
  have "unat pool + (16 + sz * k) < 2 ^ 32" using b assms(1) unfolding pool_fits_def by linarith
  from unat_add_nat [OF this] show u: "unat (blk pool sz k) = unat pool + 16 + sz * k" by (simp add: blk_def)
  have "0 < unat pool" using assms(1) by (simp add: pool_fits_def unat_gt_0)
  then have "unat (blk pool sz k) \<noteq> 0" using u by simp
  then show "blk pool sz k \<noteq> 0" by auto
qed

lemma blk_inj:
  assumes "pool_fits pool sz num" "k < num" "j < num" "blk pool sz k = blk pool sz j"
  shows "k = j"
proof -
  have "unat pool + 16 + sz * k = unat pool + 16 + sz * j"
    using blk_unat(1) [OF assms(1,2)] blk_unat(1) [OF assms(1,3)] unfolding assms(4) by (rule trans [OF sym])
  moreover have "0 < sz" using assms(1) by (simp add: pool_fits_def)
  ultimately show ?thesis by simp
qed

lemma pool_disj:
  assumes f: "pool_fits pool sz num"
  shows "disj32 pool (pool + 4)" "disj32 pool (pool + 8)" "disj32 pool (pool + 12)" "disj32 (pool + 4) (pool + 8)"
    "disj32 (pool + 4) (pool + 12)" "disj32 (pool + 8) (pool + 12)" "disj32 (pool + 4) pool" "disj32 (pool + 8) pool"
    "disj32 (pool + 12) pool" "disj32 (pool + 8) (pool + 4)" "disj32 (pool + 12) (pool + 4)" "disj32 (pool + 12) (pool + 8)"
proof -
  have h: "unat pool + n' + 4 \<le> 2 ^ 32" if "n' \<le> 12" for n' using f that unfolding pool_fits_def by linarith
  note d = disj32_offset [OF h]
  show "disj32 pool (pool + 4)" "disj32 pool (pool + 8)" "disj32 pool (pool + 12)" "disj32 (pool + 4) (pool + 8)"
    "disj32 (pool + 4) (pool + 12)" "disj32 (pool + 8) (pool + 12)" "disj32 (pool + 4) pool" "disj32 (pool + 8) pool"
    "disj32 (pool + 12) pool" "disj32 (pool + 8) (pool + 4)" "disj32 (pool + 12) (pool + 4)" "disj32 (pool + 12) (pool + 8)"
    using d [of 4 0] d [of 8 0] d [of 12 0] d [of 8 4] d [of 12 4] d [of 12 8] by simp_all
qed

lemma blk_disj:
  assumes f: "pool_fits pool sz num" and k: "k < num"
  shows "disj32 (blk pool sz k) pool" "disj32 (blk pool sz k) (pool + 4)" "disj32 (blk pool sz k) (pool + 8)"
    "disj32 (blk pool sz k) (pool + 12)" "disj32 pool (blk pool sz k)" "disj32 (pool + 4) (blk pool sz k)"
    "disj32 (pool + 8) (blk pool sz k)" "disj32 (pool + 12) (blk pool sz k)"
proof -
  have h: "unat pool + (16 + sz * k) + 4 \<le> 2 ^ 32" using blk_unat(2) [OF f k] f unfolding pool_fits_def by linarith
  note d = disj32_offset [OF h, folded blk_def]
  show "disj32 (blk pool sz k) pool" "disj32 (blk pool sz k) (pool + 4)" "disj32 (blk pool sz k) (pool + 8)"
    "disj32 (blk pool sz k) (pool + 12)" "disj32 pool (blk pool sz k)" "disj32 (pool + 4) (blk pool sz k)"
    "disj32 (pool + 8) (blk pool sz k)" "disj32 (pool + 12) (blk pool sz k)"
    using d [of 0] d [of 4] d [of 8] d [of 12] by simp_all
qed

lemma blk_blk_disj:
  assumes f: "pool_fits pool sz num" and k: "k < num" "j < num" "k \<noteq> j"
  shows "disj32 (blk pool sz k) (blk pool sz j)"
proof -
  have lt: "disj32 (blk pool sz a) (blk pool sz b) \<and> disj32 (blk pool sz b) (blk pool sz a)" if "a < b" "b < num" for a b
  proof -
    have h: "unat pool + (16 + sz * b) + 4 \<le> 2 ^ 32" using blk_unat(2) [OF f that(2)] f unfolding pool_fits_def by linarith
    have "sz * a + sz \<le> sz * b" using mult_le_mono2 [of "a + 1" b sz] that(1) by simp
    then have "16 + sz * a + 4 \<le> 16 + sz * b" using f unfolding pool_fits_def by linarith
    from disj32_offset [OF h this] show ?thesis by (simp add: blk_def)
  qed
  show ?thesis using lt [of k j] lt [of j k] k by (cases "k < j") auto
qed

lemma magic_cong: "rd32 m' a = rd32 m a \<Longrightarrow> OsMemBoxCheckMagic a m' = OsMemBoxCheckMagic a m"
  by (simp only: OsMemBoxCheckMagic_def)

text \<open>A magic number that was just stored is found again; the task identifiers are at most 25.\<close>

lemma magic_stored:
  assumes "tid \<le> 25"
  shows "OsMemBoxCheckMagic a (OsMemBoxSetMagic tid a m) = LOS_OK"
proof -
  have f: "(0xFF :: u32) = mask 8" by (simp add: mask_eq_exp_minus_1)
  have "unat tid \<le> 25" using assms by (simp add: word_le_nat_alt)
  then have t: "take_bit 8 tid = tid"
    by (intro word_unat_eq_iff [THEN iffD2]) (simp add: unsigned_take_bit_eq take_bit_nat_eq_self)
  have "ucast (ucast tid :: u8) = take_bit 8 tid" by (rule bit_word_eqI) (simp add: bit_simps)
  then have u: "ucast (ucast tid :: u8) = tid" using t by simp
  have "(OS_MEMBOX_MAGIC OR tid) AND 0xFF = take_bit 8 (OS_MEMBOX_MAGIC OR tid)" unfolding f by (rule take_bit_eq_mask [symmetric])
  also have "... = tid" using t by (simp only: take_bit_or) simp
  finally have e: "(OS_MEMBOX_MAGIC OR tid) AND 0xFF = tid" .
  have r: "rd32 (OsMemBoxSetMagic tid a m) a = OS_MEMBOX_MAGIC OR tid" unfolding OsMemBoxSetMagic_def Let_def u by (rule rd32_wr32)
  show ?thesis unfolding OsMemBoxCheckMagic_def r Let_def e using assms by (simp only: not_less [symmetric] if_False refl if_True)
qed

lemma pool_rep_D:
  assumes "pool_rep m pool sz num fs"
  shows "pool_fits pool sz num" "unat (uwBlkSize m pool) = sz" "unat (uwBlkNum m pool) = num" "distinct fs"
    "k \<in> set fs \<Longrightarrow> k < num" "chain m (pool + 12) (map (blk pool sz) fs)"
    "k < num \<Longrightarrow> k \<notin> set fs \<Longrightarrow> OsMemBoxCheckMagic (blk pool sz k) m = LOS_OK"
    "unat (uwBlkCnt m pool) + length fs = num"
  using assms unfolding pool_rep_def by blast+

lemma num_less: "pool_fits pool sz num \<Longrightarrow> num < 2 ^ 32"
proof -
  assume f: "pool_fits pool sz num"
  then have "1 * num \<le> sz * num" by (intro mult_right_mono) (simp_all add: pool_fits_def)
  then show ?thesis using f unfolding pool_fits_def by linarith
qed

lemma membox_alloc_law:
  assumes R: "pool_rep m pool sz num (k # fs)" and tid: "tid \<le> 25"
  obtains m' where "LOS_MemboxAlloc tid pool m = (blk pool sz k + 4, m')" "pool_rep m' pool sz num fs"
proof -
  note D = pool_rep_D [OF R]
  have f: "pool_fits pool sz num" by (rule D(1))
  have k: "k < num" by (rule D(5)) simp
  have ks: "k \<notin> set fs" "distinct fs" using D(4) by simp_all
  note hd = pool_disj [OF f] and bd = blk_disj [OF f k]
  let ?n = "blk pool sz k"
  have ch: "rd32 m (pool + 12) = ?n" "?n \<noteq> 0" "chain m ?n (map (blk pool sz) fs)" using D(6) by simp_all
  define m1 where "m1 = wr32 (pool + 12) (rd32 m ?n) m"
  define m2 where "m2 = OsMemBoxSetMagic tid ?n m1"
  define m3 where "m3 = wr32 (pool + 8) (uwBlkCnt m2 pool + 1) m2"
  have s2: "rd32 m2 a = rd32 m1 a" if "disj32 a ?n" for a
    unfolding m2_def OsMemBoxSetMagic_def Let_def by (rule rd32_wr32_other [OF that])
  have s1: "rd32 m1 a = rd32 m a" if "disj32 a (pool + 12)" for a unfolding m1_def by (rule rd32_wr32_other [OF that])
  have s3: "rd32 m3 a = rd32 m2 a" if "disj32 a (pool + 8)" for a unfolding m3_def by (rule rd32_wr32_other [OF that])
  have hdr: "rd32 m3 pool = rd32 m pool" "rd32 m3 (pool + 4) = rd32 m (pool + 4)" "rd32 m3 (pool + 12) = rd32 m ?n"
    using hd bd by (simp_all add: s3 s2 s1) (simp add: m1_def)
  have cnt: "rd32 m3 (pool + 8) = rd32 m (pool + 8) + 1"
    using hd bd by (simp add: m3_def s2 s1)
  have bl: "rd32 m3 (blk pool sz j) = rd32 m (blk pool sz j)" if "j < num" "j \<noteq> k" for j
    using blk_disj [OF f that(1)] blk_blk_disj [OF f that(1) k that(2)] by (simp add: s3 s2 s1)
  have mg: "OsMemBoxCheckMagic ?n m3 = LOS_OK"
    using magic_stored [OF tid, of ?n m1] magic_cong [of m3 ?n m2] s3 [OF bd(3)] by (simp add: m2_def)
  have c: "unat (rd32 m (pool + 8) + 1) = unat (rd32 m (pool + 8)) + 1"
    using D(8) num_less [OF f] by (simp add: unat_word_ariths)
  have "chain m3 (pool + 12) (map (blk pool sz) fs)"
    by (rule chain_cong [THEN iffD2, OF hdr(3) _ ch(3)]) (use bl D(5) ks(1) in auto)
  moreover have "OsMemBoxCheckMagic (blk pool sz j) m3 = LOS_OK" if "j < num" "j \<notin> set fs" for j
    using mg magic_cong [OF bl] D(7) [of j] that by (cases "j = k") auto
  ultimately have R': "pool_rep m3 pool sz num fs"
    unfolding pool_rep_def using D f ks hdr cnt c by (auto simp: D)
  have p: "pool \<noteq> 0" using f by (simp add: pool_fits_def)
  have "LOS_MemboxAlloc tid pool m = (?n + 4, m3)"
    using ch p by (simp add: LOS_MemboxAlloc_def Let_def m1_def m2_def m3_def)
  then show thesis using that R' by blast
qed

lemma membox_alloc_empty:
  assumes "pool_rep m pool sz num []"
  shows "LOS_MemboxAlloc tid pool m = (0, m)"
  using pool_rep_D(6) [OF assms] by (simp add: LOS_MemboxAlloc_def)

text \<open>OsCheckBoxMem accepts exactly the blocks of the pool that carry a magic number.\<close>

lemma check_box_law:
  assumes R: "pool_rep m pool sz num fs"
  shows "OsCheckBoxMem pool node m = LOS_OK \<longleftrightarrow>
    (\<exists>k < num. node = blk pool sz k \<and> OsMemBoxCheckMagic node m = LOS_OK)"
proof -
  note D = pool_rep_D [OF R]
  have f: "pool_fits pool sz num" by (rule D(1))
  have z: "uwBlkSize m pool \<noteq> 0" using D(2) f by (auto simp: pool_fits_def)
  let ?o = "node - (pool + 16)"
  have md: "?o mod uwBlkSize m pool = 0 \<longleftrightarrow> unat ?o mod sz = 0" "?o div uwBlkSize m pool < uwBlkNum m pool \<longleftrightarrow> unat ?o div sz < num"
    by (simp_all add: word_unat_eq_iff [of "_ mod _"] word_less_nat_alt unat_mod unat_div D(2,3))
  have e: "unat ?o mod sz = 0 \<and> unat ?o div sz < num \<longleftrightarrow> (\<exists>k < num. node = blk pool sz k)"
  proof
    assume a: "unat ?o mod sz = 0 \<and> unat ?o div sz < num"
    have "node = pool + (16 + ?o)" by simp
    moreover have "sz * (unat ?o div sz) = unat ?o" using a mult_div_mod_eq [of sz "unat ?o"] by simp
    then have "?o = of_nat (sz * (unat ?o div sz))" by (simp only: of_nat_unat ucast_id)
    ultimately have "node = pool + (16 + of_nat (sz * (unat ?o div sz)))" by (rule trans [OF _ arg_cong [of _ _ "\<lambda>x. pool + (16 + x)"]])
    then show "\<exists>k < num. node = blk pool sz k" using a by (auto simp: blk_def)
  next
    assume "\<exists>k < num. node = blk pool sz k"
    then obtain k where k: "k < num" "node = blk pool sz k" by blast
    have "?o = of_nat (sz * k)" by (simp add: k(2) blk_def)
    moreover have "sz * k < 2 ^ 32" using blk_unat(2) [OF f k(1)] f unfolding pool_fits_def by linarith
    ultimately have "unat ?o = sz * k" using unat_add_nat [of 0 "sz * k"] by (simp del: of_nat_mult)
    then show "unat ?o mod sz = 0 \<and> unat ?o div sz < num" using k(1) f by (simp add: pool_fits_def)
  qed
  have n: "LOS_NOK \<noteq> LOS_OK" by simp
  show ?thesis using z md e by (auto simp: OsCheckBoxMem_def Let_def not_le)
qed


lemma chain_next: "chain m a ns \<Longrightarrow> n \<in> set ns \<Longrightarrow> rd32 m n = 0 \<or> rd32 m n \<in> set ns"
proof (induction ns arbitrary: a)
  case (Cons x ns)
  then have c: "chain m x ns" by simp
  show ?case
  proof (cases "n = x")
    case True
    then show ?thesis using c by (cases ns) auto
  next
    case False
    then show ?thesis using Cons.IH [OF c] Cons.prems(2) by auto
  qed
qed simp

text \<open>No block lies at an address that looks like a magic number.\<close>

definition pool_plain :: "u32 \<Rightarrow> nat \<Rightarrow> nat \<Rightarrow> bool" where
  "pool_plain pool sz num \<longleftrightarrow> (\<forall>k < num. blk pool sz k AND NOT 0xFF \<noteq> OS_MEMBOX_MAGIC)"

lemma magic_form: "OsMemBoxCheckMagic a m = LOS_OK \<Longrightarrow> rd32 m a AND NOT 0xFF = OS_MEMBOX_MAGIC"
proof -
  assume "OsMemBoxCheckMagic a m = LOS_OK"
  then have e: "rd32 m a = OS_MEMBOX_MAGIC OR (rd32 m a AND 0xFF)" by (simp add: OsMemBoxCheckMagic_def Let_def split: if_splits)
  have q: "(OS_MEMBOX_MAGIC OR (w AND 0xFF)) AND NOT 0xFF = OS_MEMBOX_MAGIC" for w
    by (simp add: bit.conj_disj_distrib2 and.assoc)
  show ?thesis by (subst e) (rule q)
qed

lemma free_not_magic:
  assumes R: "pool_rep m pool sz num fs" and a: "pool_plain pool sz num" and k: "k \<in> set fs"
  shows "OsMemBoxCheckMagic (blk pool sz k) m \<noteq> LOS_OK"
proof
  assume "OsMemBoxCheckMagic (blk pool sz k) m = LOS_OK"
  then have g: "rd32 m (blk pool sz k) AND NOT 0xFF = OS_MEMBOX_MAGIC" by (rule magic_form)
  have "rd32 m (blk pool sz k) = 0 \<or> rd32 m (blk pool sz k) \<in> set (map (blk pool sz) fs)"
    by (rule chain_next [OF pool_rep_D(6) [OF R]]) (use k in simp)
  then show False
  proof
    assume "rd32 m (blk pool sz k) = 0"
    then show False using g by simp
  next
    assume "rd32 m (blk pool sz k) \<in> set (map (blk pool sz) fs)"
    then obtain j where "j \<in> set fs" "rd32 m (blk pool sz k) = blk pool sz j" by auto
    then show False using g a pool_rep_D(5) [OF R] by (auto simp: pool_plain_def)
  qed
qed

lemma membox_free_law:
  assumes R: "pool_rep m pool sz num fs" and k: "k < num" "k \<notin> set fs" and nz: "blk pool sz k + 4 \<noteq> 0"
  obtains m' where "LOS_MemboxFree pool (blk pool sz k + 4) m = (LOS_OK, m')" "pool_rep m' pool sz num (k # fs)"
proof -
  note D = pool_rep_D [OF R]
  have f: "pool_fits pool sz num" by (rule D(1))
  note hd = pool_disj [OF f] and bd = blk_disj [OF f k(1)]
  let ?n = "blk pool sz k"
  define m1 where "m1 = wr32 ?n (rd32 m (pool + 12)) m"
  define m2 where "m2 = wr32 (pool + 12) ?n m1"
  define m3 where "m3 = wr32 (pool + 8) (uwBlkCnt m2 pool - 1) m2"
  have s1: "rd32 m1 a = rd32 m a" if "disj32 a ?n" for a unfolding m1_def by (rule rd32_wr32_other [OF that])
  have s2: "rd32 m2 a = rd32 m1 a" if "disj32 a (pool + 12)" for a unfolding m2_def by (rule rd32_wr32_other [OF that])
  have s3: "rd32 m3 a = rd32 m2 a" if "disj32 a (pool + 8)" for a unfolding m3_def by (rule rd32_wr32_other [OF that])
  have hdr: "rd32 m3 pool = rd32 m pool" "rd32 m3 (pool + 4) = rd32 m (pool + 4)" "rd32 m3 ?n = rd32 m (pool + 12)"
    using hd bd by (simp_all add: s3 s2 s1) (simp add: m1_def)
  have fl: "rd32 m3 (pool + 12) = ?n" using hd by (simp add: s3) (simp add: m2_def)
  have cnt: "rd32 m3 (pool + 8) = rd32 m (pool + 8) - 1" using hd bd by (simp add: m3_def s2 s1)
  have bl: "rd32 m3 (blk pool sz j) = rd32 m (blk pool sz j)" if "j < num" "j \<noteq> k" for j
    using blk_disj [OF f that(1)] blk_blk_disj [OF f that(1) k(1) that(2)] by (simp add: s3 s2 s1)
  have "distinct (k # fs)" "set (k # fs) \<subseteq> {..<num}" using D(4,5) k by auto
  then have "length (k # fs) \<le> num" using card_mono [of "{..<num}" "set (k # fs)"] by (simp add: distinct_card)
  then have "0 < unat (rd32 m (pool + 8))" using D(8) by simp
  then have c: "unat (rd32 m (pool + 8) - 1) + 1 = unat (rd32 m (pool + 8))" by (simp add: unat_minus_one unat_gt_0)
  have nk: "?n \<noteq> 0" by (rule blk_unat(3) [OF f k(1)])
  have "chain m3 ?n (map (blk pool sz) fs)"
    by (rule chain_cong [THEN iffD2, OF hdr(3) _ D(6)]) (use bl D(5) k(2) in auto)
  then have ch: "chain m3 (pool + 12) (map (blk pool sz) (k # fs))" using fl nk by simp
  have "OsMemBoxCheckMagic (blk pool sz j) m3 = LOS_OK" if "j < num" "j \<notin> set (k # fs)" for j
    using magic_cong [OF bl] D(7) [of j] that by auto
  moreover have "unat (rd32 m3 (pool + 8)) + length (k # fs) = num" using D(8) c unfolding cnt by simp
  ultimately have R': "pool_rep m3 pool sz num (k # fs)"
    unfolding pool_rep_def using D f k hdr ch by (auto simp: D)
  have "OsCheckBoxMem pool ?n m = LOS_OK" using check_box_law [OF R] k D(7) by blast
  then have "LOS_MemboxFree pool (?n + 4) m = (LOS_OK, m3)"
    using f nz by (simp add: LOS_MemboxFree_def Let_def m1_def m2_def m3_def pool_fits_def)
  then show thesis using that R' by blast
qed

lemma membox_free_refused:
  assumes R: "pool_rep m pool sz num fs" and a: "pool_plain pool sz num"
    and b: "\<And>k. k < num \<Longrightarrow> k \<notin> set fs \<Longrightarrow> box \<noteq> blk pool sz k + 4"
  shows "LOS_MemboxFree pool box m = (LOS_NOK, m)"
proof -
  have "OsCheckBoxMem pool (box - 4) m \<noteq> LOS_OK"
  proof
    assume "OsCheckBoxMem pool (box - 4) m = LOS_OK"
    then obtain k where k: "k < num" "box - 4 = blk pool sz k" "OsMemBoxCheckMagic (box - 4) m = LOS_OK"
      using check_box_law [OF R] by blast
    have "k \<notin> set fs" using free_not_magic [OF R a] k by auto
    moreover have "box = blk pool sz k + 4" using k(2) by (simp add: algebra_simps)
    ultimately show False using b k(1) by blast
  qed
  then show ?thesis by (simp add: LOS_MemboxFree_def Let_def)
qed

lemma unat_pred32: "0 < unat (w :: u32) \<Longrightarrow> unat (w - 1) = unat w - 1"
  by (simp add: unat_minus_one unat_gt_0)

lemma aligned_nat:
  assumes "unat a + 3 < 2 ^ 32"
  shows "unat (LOS_MEMBOX_ALIGNED a) = 4 * ((unat a + 3) div 4)"
proof -
  have m: "(4 - 1 :: u32) = mask 2" by (simp add: mask_eq_exp_minus_1)
  have e: "LOS_MEMBOX_ALIGNED a = push_bit 2 (drop_bit 2 (a + 3))"
  proof (rule bit_word_eqI)
    fix n assume "n < LENGTH(32)"
    have c: "a + 4 - 1 = a + 3" by simp
    show "bit (LOS_MEMBOX_ALIGNED a) n = bit (push_bit 2 (drop_bit 2 (a + 3))) n"
    proof (cases "2 \<le> n")
      case True
      then obtain k where "n = 2 + k" using le_Suc_ex by blast
      then show ?thesis unfolding LOS_MEMBOX_ALIGNED_def m c by (auto simp: bit_simps)
    next
      case False
      then show ?thesis unfolding LOS_MEMBOX_ALIGNED_def m c by (simp add: bit_simps)
    qed
  qed
  have u: "unat (a + 3) = unat a + 3" using assms by (simp add: unat_word_ariths)
  have tb: "take_bit 32 (unat (a + 3)) = unat (a + 3)" using assms unfolding u by (simp add: take_bit_nat_eq_self)
  have "unat (push_bit 2 (drop_bit 2 (a + 3))) = take_bit 32 (push_bit 2 (drop_bit 2 (unat (a + 3))))"
    using tb by (simp add: unsigned_push_bit_eq unsigned_drop_bit_eq)
  also have "... = 4 * ((unat a + 3) div 4)"
    using assms unfolding u by (simp add: push_bit_eq_mult drop_bit_eq_div take_bit_nat_eq_self)
  finally show ?thesis unfolding e .
qed


text \<open>The loop of LOS_MemboxInit links block \<open>i\<close> to block \<open>i + 1\<close> until the last one.\<close>

lemma link_loop_law:
  assumes f: "pool_fits pool sz num" and i: "i < num" and h: "unat (uwBlkSize m pool) = sz" "unat (uwBlkNum m pool) = num"
  shows "\<exists>m'. membox_link_loop pool (of_nat i) (blk pool sz i) m = Some (blk pool sz (num - 1), m') \<and>
    (\<forall>j. i \<le> j \<and> j < num - 1 \<longrightarrow> rd32 m' (blk pool sz j) = blk pool sz (j + 1)) \<and>
    (\<forall>a. (\<forall>j. i \<le> j \<and> j < num - 1 \<longrightarrow> disj32 a (blk pool sz j)) \<longrightarrow> rd32 m' a = rd32 m a)"
  using i h
proof (induction "num - 1 - i" arbitrary: i m)
  case 0
  then have i: "i = num - 1" by simp
  have "unat (of_nat i :: u32) = i" using 0(2) num_less [OF f] by (simp add: unat_of_nat)
  moreover have "unat (uwBlkNum m pool - 1) = num - 1" using 0 unat_pred32 [of "uwBlkNum m pool"] by simp
  ultimately have "\<not> of_nat i < uwBlkNum m pool - 1" using i by (simp add: word_less_nat_alt)
  then show ?case by (subst membox_link_loop.simps) (auto simp: i)
next
  case (Suc d)
  have il: "i < num - 1" "i + 1 < num" using Suc.hyps(2) by simp_all
  have "unat (of_nat i :: u32) = i" using Suc.prems(1) num_less [OF f] by (simp add: unat_of_nat)
  moreover have "unat (uwBlkNum m pool - 1) = num - 1" using Suc.prems unat_pred32 [of "uwBlkNum m pool"] by simp
  ultimately have lt: "of_nat i < uwBlkNum m pool - 1" using il by (simp add: word_less_nat_alt)
  let ?m = "wr32 (blk pool sz i) (blk pool sz i + uwBlkSize m pool) m"
  have nx: "blk pool sz i + uwBlkSize m pool = blk pool sz (i + 1)"
    using Suc.prems(2) by (simp add: blk_def algebra_simps) (metis of_nat_unat ucast_id)
  have bi: "i < num" by (rule Suc.prems)
  have hd: "unat (uwBlkSize ?m pool) = sz" "unat (uwBlkNum ?m pool) = num"
    using Suc.prems blk_disj [OF f bi] by simp_all
  have "d = num - 1 - (i + 1)" using Suc.hyps(2) by simp
  from Suc.hyps(1) [OF this il(2) hd] obtain m' where
    m: "membox_link_loop pool (of_nat (i + 1)) (blk pool sz (i + 1)) ?m = Some (blk pool sz (num - 1), m')"
    "\<forall>j. i + 1 \<le> j \<and> j < num - 1 \<longrightarrow> rd32 m' (blk pool sz j) = blk pool sz (j + 1)"
    "\<forall>a. (\<forall>j. i + 1 \<le> j \<and> j < num - 1 \<longrightarrow> disj32 a (blk pool sz j)) \<longrightarrow> rd32 m' a = rd32 ?m a" by blast
  have r: "rd32 ?m (blk pool sz i) = blk pool sz (i + 1)" using nx by simp
  have L: "membox_link_loop pool (of_nat i) (blk pool sz i) m = Some (blk pool sz (num - 1), m')"
    using m(1) lt r by (subst membox_link_loop.simps) (simp add: Let_def add.commute)
  have "rd32 m' (blk pool sz i) = rd32 ?m (blk pool sz i)"
    by (rule m(3) [rule_format], rule blk_blk_disj [OF f bi]) auto
  with m(2) r have A: "\<forall>j. i \<le> j \<and> j < num - 1 \<longrightarrow> rd32 m' (blk pool sz j) = blk pool sz (j + 1)"
    by (metis Suc_eq_plus1 Suc_leI le_neq_implies_less)
  have B: "rd32 m' a = rd32 m a" if "\<forall>j. i \<le> j \<and> j < num - 1 \<longrightarrow> disj32 a (blk pool sz j)" for a
  proof -
    have "rd32 m' a = rd32 ?m a" using m(3) that by auto
    also have "... = rd32 m a" by (rule rd32_wr32_other) (use that il in auto)
    finally show ?thesis .
  qed
  show ?case using L A B by blast
qed

lemma chain_links:
  assumes f: "pool_fits pool sz num" and l: "\<forall>j. i \<le> j \<and> j < num - 1 \<longrightarrow> rd32 m (blk pool sz j) = blk pool sz (j + 1)"
    and e: "rd32 m (blk pool sz (num - 1)) = 0" and i: "i < num" and a: "rd32 m a = blk pool sz i"
  shows "chain m a (map (blk pool sz) [i..<num])"
  using l i a
proof (induction "num - 1 - i" arbitrary: i a)
  case 0
  then have "i = num - 1" by simp
  then have "[i..<num] = [i]" using 0(3) by (simp add: upt_rec)
  then show ?case using 0 e \<open>i = num - 1\<close> blk_unat(3) [OF f 0(3)] by simp
next
  case (Suc d)
  have n: "i + 1 < num" "[i..<num] = i # [i + 1..<num]" using Suc.hyps(2) by (simp_all add: upt_conv_Cons)
  have r: "rd32 m (blk pool sz i) = blk pool sz (i + 1)" using Suc.prems(1) Suc.hyps(2) by simp
  have "d = num - 1 - (i + 1)" using Suc.hyps(2) by simp
  from Suc.hyps(1) [OF this _ n(1) r] have "chain m (blk pool sz i) (map (blk pool sz) [i + 1..<num])"
    using Suc.prems(1) by auto
  then show ?case using Suc.prems(2,3) n(2) blk_unat(3) [OF f Suc.prems(2)] by simp
qed

lemma membox_init_law:
  assumes p: "pool \<noteq> 0" "16 \<le> poolSize" "unat pool + unat poolSize \<le> 2 ^ 32" and b: "blkSize \<noteq> 0" "unat blkSize + 8 \<le> 2 ^ 32"
    and sz: "sz = 4 * ((unat blkSize + 7) div 4)" and num: "num = (unat poolSize - 16) div sz" "0 < num"
  obtains m' where "LOS_MemboxInit pool poolSize blkSize m = Some (LOS_OK, m')" "pool_rep m' pool sz num [0..<num]"
proof -
  have b1: "unat (blkSize + 4) = unat blkSize + 4" using b(2) by (simp add: unat_word_ariths)
  have al: "unat (LOS_MEMBOX_ALIGNED (blkSize + 4)) = sz"
    using aligned_nat [of "blkSize + 4"] b(2) unfolding b1 sz by simp
  have "0 < unat blkSize" using b(1) by (simp add: unat_gt_0)
  then have "2 \<le> (unat blkSize + 7) div 4" by (simp add: less_eq_div_iff_mult_less_eq)
  then have sz8: "8 \<le> sz" unfolding sz by simp
  have p16: "unat (poolSize - 16) = unat poolSize - 16" using p(2) by (simp add: unat_sub)
  have "sz * num \<le> unat poolSize - 16" unfolding num(1) by simp
  moreover have "16 \<le> unat poolSize" using p(2) by (simp add: word_le_nat_alt)
  ultimately have f: "pool_fits pool sz num" using p sz8 num(2) unfolding pool_fits_def by linarith
  note hd = pool_disj [OF f]
  let ?A = "LOS_MEMBOX_ALIGNED (blkSize + 4)"
  define m1 where "m1 = wr32 pool ?A m"
  define m2 where "m2 = wr32 (pool + 4) ((poolSize - 16) div uwBlkSize m1 pool) m1"
  define m3 where "m3 = wr32 (pool + 8) 0 m2"
  define m4 where "m4 = wr32 (pool + 12) (pool + 16) m3"
  have a0: "?A \<noteq> 0" using al sz8 by (metis unsigned_0 not_numeral_le_zero)
  have h4: "rd32 m4 pool = ?A" "rd32 m4 (pool + 4) = (poolSize - 16) div ?A" "rd32 m4 (pool + 8) = 0" "rd32 m4 (pool + 12) = pool + 16"
    using hd by (simp_all add: m4_def m3_def m2_def m1_def)
  have h: "unat (uwBlkSize m4 pool) = sz" "unat (uwBlkNum m4 pool) = num" using al p16 num by (simp_all add: h4 unat_div)
  have n3: "uwBlkNum m3 pool = uwBlkNum m4 pool" using hd by (simp add: m4_def)
  have nz: "uwBlkNum m3 pool \<noteq> 0" unfolding n3 using h(2) num(2) by (metis unsigned_0 less_irrefl)
  have b0: "blk pool sz 0 = pool + 16" by (simp add: blk_def)
  obtain m5 where m5: "membox_link_loop pool 0 (pool + 16) m4 = Some (blk pool sz (num - 1), m5)"
    "\<forall>j. 0 \<le> j \<and> j < num - 1 \<longrightarrow> rd32 m5 (blk pool sz j) = blk pool sz (j + 1)"
    "\<forall>a. (\<forall>j. 0 \<le> j \<and> j < num - 1 \<longrightarrow> disj32 a (blk pool sz j)) \<longrightarrow> rd32 m5 a = rd32 m4 a"
    using link_loop_law [OF f num(2) h] unfolding b0 by auto
  define m6 where "m6 = wr32 (blk pool sz (num - 1)) 0 m5"
  have last: "num - 1 < num" using num(2) by simp
  have "LOS_MemboxInit pool poolSize blkSize m = Some (LOS_OK, m6)"
    using p b a0 nz m5(1) unfolding LOS_MemboxInit_def
    by (simp add: los_assert_def Let_def m6_def flip: m1_def m2_def m3_def m4_def) (simp add: m1_def word_le_nat_alt word_less_nat_alt)
  moreover have hdr: "rd32 m6 a = rd32 m4 a" if "\<And>j. j < num \<Longrightarrow> disj32 a (blk pool sz j)" for a
    using m5(3) that last by (simp add: m6_def)
  have lk: "\<forall>j. 0 \<le> j \<and> j < num - 1 \<longrightarrow> rd32 m6 (blk pool sz j) = blk pool sz (j + 1)"
    using m5(2) blk_blk_disj [OF f _ last] by (simp add: m6_def)
  have "chain m6 (pool + 12) (map (blk pool sz) [0..<num])"
    by (rule chain_links [OF f lk _ num(2)]) (use hdr [of "pool + 12"] blk_disj [OF f] h4 b0 in \<open>simp_all add: m6_def\<close>)
  then have "pool_rep m6 pool sz num [0..<num]"
    unfolding pool_rep_def using f h h4 hdr [of pool] hdr [of "pool + 4"] hdr [of "pool + 8"] blk_disj [OF f] by simp
  ultimately show thesis using that by blast
qed

text \<open>Block sizes whose rounding wraps to 0: the division by the block size traps.\<close>

lemma membox_init_stuck:
  assumes "pool \<noteq> 0" "sizeof_LOS_MEMBOX_INFO \<le> n" "0xFFFFFFF9 \<le> b" "b \<le> 0xFFFFFFFC"
  shows "LOS_MemboxInit pool n b m = None"
proof -
  have "unat b = 0xFFFFFFF9 \<or> unat b = 0xFFFFFFFA \<or> unat b = 0xFFFFFFFB \<or> unat b = 0xFFFFFFFC"
    using assms(3,4) by (auto simp: word_le_nat_alt)
  then have "b = 0xFFFFFFF9 \<or> b = 0xFFFFFFFA \<or> b = 0xFFFFFFFB \<or> b = 0xFFFFFFFC"
    by (auto simp: word_unat_eq_iff)
  then have "LOS_MEMBOX_ALIGNED (b + OS_MEMBOX_NODE_HEAD_SIZE) = 0" "b \<noteq> 0"
    by (auto simp: LOS_MEMBOX_ALIGNED_def)
  then show ?thesis using assms(1,2) by (simp add: LOS_MemboxInit_def rd32_wr32 los_assert_def not_less [symmetric])
qed

end
