(* ===== verification/LosTask.thy ===== *)
theory LosTask
  imports LosEvent LosStr LosMembox
begin

text \<open>
  The task functions of kernel/src/los_task.c, and the initial stack frame of
  arch/arm/cortex-m4/gcc/los_context.c.  A task id is the index of its control
  block.  The stacks are the words of \<open>stackMem\<close>.  The host thread that
  PMCU_FE_Task_Create makes for a new task is not part of the kernel's state.

  LOS_TaskJoin is split where it calls LOS_Schedule: the caller goes on with
  \<open>LOS_TaskJoin_resume\<close> when it runs again.
\<close>

abbreviation (input) LOSCFG_BASE_CORE_TSK_LIMIT :: nat where "LOSCFG_BASE_CORE_TSK_LIMIT \<equiv> 24"
abbreviation (input) LOSCFG_SYS_HEAP_SIZE :: u32 where "LOSCFG_SYS_HEAP_SIZE \<equiv> 0x40000"
abbreviation (input) LOSCFG_BASE_CORE_TSK_DEFAULT_STACK_SIZE :: u32 where "LOSCFG_BASE_CORE_TSK_DEFAULT_STACK_SIZE \<equiv> 0x1000"
abbreviation (input) LOSCFG_BASE_CORE_TSK_MIN_STACK_SIZE :: u32 where "LOSCFG_BASE_CORE_TSK_MIN_STACK_SIZE \<equiv> 0x130"
abbreviation (input) LOSCFG_BASE_CORE_TSK_IDLE_STACK_SIZE :: u32 where "LOSCFG_BASE_CORE_TSK_IDLE_STACK_SIZE \<equiv> 0x500"
abbreviation (input) LOS_TASK_ATTR_JOINABLE :: u32 where "LOS_TASK_ATTR_JOINABLE \<equiv> 0x80000000"
abbreviation (input) OS_NULL_INT :: u32 where "OS_NULL_INT \<equiv> 0xFFFFFFFF"
abbreviation (input) LOS_TASK_NAMELEN :: u32 where "LOS_TASK_NAMELEN \<equiv> 32"

abbreviation (input) LOS_ERRNO_TSK_NO_MEMORY :: u32 where "LOS_ERRNO_TSK_NO_MEMORY \<equiv> 0x03000200"
abbreviation (input) LOS_ERRNO_TSK_PTR_NULL :: u32 where "LOS_ERRNO_TSK_PTR_NULL \<equiv> 0x02000201"
abbreviation (input) LOS_ERRNO_TSK_PRIOR_ERROR :: u32 where "LOS_ERRNO_TSK_PRIOR_ERROR \<equiv> 0x02000203"
abbreviation (input) LOS_ERRNO_TSK_ENTRY_NULL :: u32 where "LOS_ERRNO_TSK_ENTRY_NULL \<equiv> 0x02000204"
abbreviation (input) LOS_ERRNO_TSK_NAME_EMPTY :: u32 where "LOS_ERRNO_TSK_NAME_EMPTY \<equiv> 0x02000205"
abbreviation (input) LOS_ERRNO_TSK_STKSZ_TOO_SMALL :: u32 where "LOS_ERRNO_TSK_STKSZ_TOO_SMALL \<equiv> 0x02000206"
abbreviation (input) LOS_ERRNO_TSK_ALREADY_SUSPENDED :: u32 where "LOS_ERRNO_TSK_ALREADY_SUSPENDED \<equiv> 0x02000208"
abbreviation (input) LOS_ERRNO_TSK_NOT_SUSPENDED :: u32 where "LOS_ERRNO_TSK_NOT_SUSPENDED \<equiv> 0x02000209"
abbreviation (input) LOS_ERRNO_TSK_NOT_CREATED :: u32 where "LOS_ERRNO_TSK_NOT_CREATED \<equiv> 0x0200020A"
abbreviation (input) LOS_ERRNO_TSK_DELAY_IN_INT :: u32 where "LOS_ERRNO_TSK_DELAY_IN_INT \<equiv> 0x0300020D"
abbreviation (input) LOS_ERRNO_TSK_DELAY_IN_LOCK :: u32 where "LOS_ERRNO_TSK_DELAY_IN_LOCK \<equiv> 0x0200020E"
abbreviation (input) LOS_ERRNO_TSK_TCB_UNAVAILABLE :: u32 where "LOS_ERRNO_TSK_TCB_UNAVAILABLE \<equiv> 0x02000211"
abbreviation (input) LOS_ERRNO_TSK_OPERATE_IDLE :: u32 where "LOS_ERRNO_TSK_OPERATE_IDLE \<equiv> 0x02000214"
abbreviation (input) LOS_ERRNO_TSK_OPERATE_SYSTEM_TASK :: u32 where "LOS_ERRNO_TSK_OPERATE_SYSTEM_TASK \<equiv> 0x02000214"
abbreviation (input) LOS_ERRNO_TSK_SUSPEND_LOCKED :: u32 where "LOS_ERRNO_TSK_SUSPEND_LOCKED \<equiv> 0x03000215"
abbreviation (input) LOS_ERRNO_TSK_STKSZ_TOO_LARGE :: u32 where "LOS_ERRNO_TSK_STKSZ_TOO_LARGE \<equiv> 0x02000220"
abbreviation (input) LOS_ERRNO_TSK_SUSPEND_SWTMR_NOT_ALLOWED :: u32 where "LOS_ERRNO_TSK_SUSPEND_SWTMR_NOT_ALLOWED \<equiv> 0x02000221"
abbreviation (input) LOS_ERRNO_TSK_OPERATE_SWTMR :: u32 where "LOS_ERRNO_TSK_OPERATE_SWTMR \<equiv> 0x02000222"
abbreviation (input) LOS_ERRNO_TSK_NOT_JOIN :: u32 where "LOS_ERRNO_TSK_NOT_JOIN \<equiv> 0x02000224"
abbreviation (input) LOS_ERRNO_TSK_NOT_JOIN_SELF :: u32 where "LOS_ERRNO_TSK_NOT_JOIN_SELF \<equiv> 0x02000225"
abbreviation (input) LOS_ERRNO_TSK_NOT_ALLOW_IN_INT :: u32 where "LOS_ERRNO_TSK_NOT_ALLOW_IN_INT \<equiv> 0x02000226"
abbreviation (input) LOS_ERRNO_TSK_ALREADY_EXIT :: u32 where "LOS_ERRNO_TSK_ALREADY_EXIT \<equiv> 0x02000227"
abbreviation (input) LOS_ERRNO_TSK_SCHED_LOCKED :: u32 where "LOS_ERRNO_TSK_SCHED_LOCKED \<equiv> 0x02000228"
abbreviation (input) LOS_ERRNO_TSK_PROCESS_SIGNAL :: u32 where "LOS_ERRNO_TSK_PROCESS_SIGNAL \<equiv> 0x02000229"

record TSK_INIT_PARAM_S =
  pfnTaskEntry :: u32
  usTaskPrio :: u16
  uwArg :: u32
  stackAddr :: u32
  uwStackSize :: u32
  pcName :: u32
  uwResved :: u32

definition OS_TASK_ID_CHECK :: "u32 \<Rightarrow> kstate \<Rightarrow> bool" where
  "OS_TASK_ID_CHECK tid s \<longleftrightarrow> tid < g_taskMaxNum s"

definition TRUNCATE :: "u32 \<Rightarrow> u32 \<Rightarrow> u32" where
  "TRUNCATE addr sz = addr AND NOT (sz - 1)"

definition OsCheckTaskIDValid :: "u32 \<Rightarrow> kstate \<Rightarrow> u32" where
  "OsCheckTaskIDValid tid s =
     (if tid = g_idleTaskID s then LOS_ERRNO_TSK_OPERATE_IDLE
      else if cfg_swtmr s \<and> tid = g_swtmrTaskID s then LOS_ERRNO_TSK_SUSPEND_SWTMR_NOT_ALLOWED
      else if tid \<ge> g_taskMaxNum s then LOS_ERRNO_TSK_ID_INVALID
      else LOS_OK)"

subsection \<open>Control blocks and stacks\<close>

definition null_tcb :: LosTaskCB where
  "null_tcb = \<lparr>stackPointer = 0, taskStatus = 0, priority = 0, timeSlice = 0, waitTimes = 0, startTime = 0,
     stackSize = 0, topOfStack = 0, taskID = 0, taskEntry = 0, taskSem = None, taskMux = None, arg = 0,
     taskName = 0, joinRetval = 0, eventMask = 0, eventMode = 0, msg = 0\<rparr>"

text \<open>memset_s of a whole control block: its fields, its three list nodes, its timeout and its event.\<close>

definition clear_tcb :: "nat \<Rightarrow> kstate \<Rightarrow> kstate" where
  "clear_tcb t s =
     (let s = upd_tcb t (\<lambda>_. null_tcb) s;
          s = dl_zero (NPend t) (dl_zero (NSort t) (dl_zero (NJoin t) (dl_zero (NEvent (EvTask t)) s)))
      in set_event (EvTask t) 0 (set_response (NSort t) 0 s))"

definition OsInsertTCBToFreeList :: "nat \<Rightarrow> kstate \<Rightarrow> kstate option" where
  "OsInsertTCBToFreeList t s =
     (let tid = taskID (tcb s t);
          s = clear_tcb t s;
          s = upd_tcb t (\<lambda>c. c\<lparr>taskID := tid\<rparr>) s;
          s = upd_tcb t (\<lambda>c. c\<lparr>taskStatus := OS_TASK_STATUS_UNUSED\<rparr>) s
      in k_ListAdd NFreeTask (NPend t) s)"

text \<open>The first component is the value of \<open>*stackPtr\<close>, which is 0 before the call.\<close>

definition OsRecycleTaskResources :: "nat \<Rightarrow> kstate \<Rightarrow> (u32 \<times> kstate) option" where
  "OsRecycleTaskResources t s = do {
     let (stackPtr, s) =
       (if status s t AND OS_TASK_FLAG_STACK_FREE \<noteq> 0 \<and> topOfStack (tcb s t) \<noteq> 0
        then (topOfStack (tcb s t),
              clr_status t OS_TASK_FLAG_STACK_FREE (upd_tcb t (\<lambda>c. c\<lparr>topOfStack := 0\<rparr>) s))
        else (0, s));
     s \<leftarrow> (if status s t AND OS_TASK_FLAG_JOINABLE = 0 then OsInsertTCBToFreeList t s else Some s);
     Some (stackPtr, s)
   }"

partial_function (option) OsRecycleFinishedTask :: "kstate \<Rightarrow> kstate option" where
  "OsRecycleFinishedTask s =
     (if k_ListEmpty NRecycle s then Some s
      else do {
        first \<leftarrow> pstNext (dl s) NRecycle;
        t \<leftarrow> OS_TCB_FROM_PENDLIST first;
        s \<leftarrow> k_ListDelete first s;
        (stackPtr, s) \<leftarrow> OsRecycleTaskResources t s;
        OsRecycleFinishedTask (LOS_MemFree stackPtr s)
      })"

definition LOS_TaskResRecycle :: "kstate \<Rightarrow> kstate option" where
  "LOS_TaskResRecycle s = OsRecycleFinishedTask s"

text \<open>One look of the idle task at the other tasks: whether all of them are gone.\<close>

primrec idle_scan_loop :: "nat list \<Rightarrow> kstate \<Rightarrow> bool" where
  "idle_scan_loop [] s = True"
| "idle_scan_loop (i # is) s =
     (if taskID (tcb s i) = g_idleTaskID s then idle_scan_loop is s
      else if status s i AND OS_TASK_STATUS_DELAY \<noteq> 0 \<or> status s i AND OS_TASK_STATUS_PEND \<noteq> 0 \<or>
              status s i AND OS_TASK_STATUS_PEND_TIME \<noteq> 0 \<or> status s i AND OS_TASK_STATUS_READY \<noteq> 0 \<or>
              status s i AND OS_TASK_STATUS_RUNNING \<noteq> 0 \<or> status s i AND OS_TASK_STATUS_SUSPEND \<noteq> 0 \<or>
              status s i AND OS_TASK_STATUS_TIMEOUT \<noteq> 0
      then False
      else idle_scan_loop is s)"

text \<open>One round of the idle task's loop; \<open>True\<close> ends the loop.\<close>

definition OsIdleTask_round :: "kstate \<Rightarrow> (bool \<times> kstate) option" where
  "OsIdleTask_round s = do {
     s \<leftarrow> OsRecycleFinishedTask s;
     Some (idle_scan_loop [0..<unat (g_taskMaxNum s)] s, s)
   }"

primrec idle_recycle_loop :: "nat list \<Rightarrow> kstate \<Rightarrow> kstate option" where
  "idle_recycle_loop [] s = Some s"
| "idle_recycle_loop (i # is) s = do {
     (stackPtr, s) \<leftarrow> OsRecycleTaskResources i s;
     idle_recycle_loop is (if stackPtr \<noteq> 0 then LOS_MemFree stackPtr s else s)
   }"

text \<open>What the idle task does after its loop, up to stopping the scheduler.\<close>

definition OsIdleTask_end :: "kstate \<Rightarrow> kstate option" where
  "OsIdleTask_end s = do {
     s \<leftarrow> OsRecycleFinishedTask s;
     idle_recycle_loop [0..<unat (g_taskMaxNum s)] s
   }"

definition OsConvertTskStatus :: "u16 \<Rightarrow> string" where
  "OsConvertTskStatus st =
     (if st AND OS_TASK_STATUS_RUNNING \<noteq> 0 then ''Running''
      else if st AND OS_TASK_STATUS_READY \<noteq> 0 then ''Ready''
      else if st AND OS_TASK_STATUS_EXIT \<noteq> 0 then ''Exit''
      else if st AND OS_TASK_STATUS_SUSPEND \<noteq> 0 then ''Suspend''
      else if st AND OS_TASK_STATUS_DELAY \<noteq> 0 then ''Delay''
      else if st AND OS_TASK_STATUS_PEND \<noteq> 0
      then if st AND OS_TASK_STATUS_PEND_TIME \<noteq> 0 then ''PendTime'' else ''Pend''
      else ''Impossible'')"

partial_function (option) water_line_loop :: "u32 \<Rightarrow> u32 \<Rightarrow> kstate \<Rightarrow> u32 option" where
  "water_line_loop stackPtr sp s =
     (if stackPtr < sp
      then do {
        v \<leftarrow> stackMem s stackPtr;
        if v = OS_TASK_STACK_INIT then water_line_loop (stackPtr + 4) sp s else Some stackPtr
      }
      else Some stackPtr)"

definition OsGetTaskWaterLine :: "u32 \<Rightarrow> kstate \<Rightarrow> u32 option" where
  "OsGetTaskWaterLine tid s = do {
     let c = tcb s (OS_TCB_FROM_TID tid);
     v \<leftarrow> stackMem s (topOfStack c);
     _ \<leftarrow> los_assert (v = OS_TASK_MAGIC_WORD);
     stackPtr \<leftarrow> water_line_loop (topOfStack c + 4) (stackPointer c) s;
     Some (stackSize c - (stackPtr - topOfStack c))
   }"

subsection \<open>Creation\<close>

text \<open>\<open>None\<close> is a NULL pointer; a zero stack size is replaced in the caller's parameters.\<close>

definition OsTaskInitParamCheck :: "TSK_INIT_PARAM_S option \<Rightarrow> kstate \<Rightarrow> u32 \<times> TSK_INIT_PARAM_S option" where
  "OsTaskInitParamCheck param s = (case param of
     None \<Rightarrow> (LOS_ERRNO_TSK_PTR_NULL, None)
   | Some p \<Rightarrow>
       if pcName p = 0 then (LOS_ERRNO_TSK_NAME_EMPTY, Some p)
       else if pfnTaskEntry p = 0 then (LOS_ERRNO_TSK_ENTRY_NULL, Some p)
       else if usTaskPrio p > OS_TASK_PRIORITY_LOWEST then (LOS_ERRNO_TSK_PRIOR_ERROR, Some p)
       else if usTaskPrio p = OS_TASK_PRIORITY_LOWEST \<and> pfnTaskEntry p \<noteq> text_addr s Sym_OsIdleTask
       then (LOS_ERRNO_TSK_PRIOR_ERROR, Some p)
       else if uwStackSize p > LOSCFG_SYS_HEAP_SIZE then (LOS_ERRNO_TSK_STKSZ_TOO_LARGE, Some p)
       else let p = (if uwStackSize p = 0 then p\<lparr>uwStackSize := LOSCFG_BASE_CORE_TSK_DEFAULT_STACK_SIZE\<rparr> else p)
            in if uwStackSize p < LOSCFG_BASE_CORE_TSK_MIN_STACK_SIZE then (LOS_ERRNO_TSK_STKSZ_TOO_SMALL, Some p)
               else (LOS_OK, Some p))"

definition OS_MEM_IS_POW_TWO :: "u32 \<Rightarrow> bool" where
  "OS_MEM_IS_POW_TWO v \<longleftrightarrow> v AND (v - 1) = 0"

text \<open>LOS_MemAllocAlign on the kernel's pool, which is not NULL; malloc decides the alignment.\<close>

definition LOS_MemAllocAlign :: "u32 \<Rightarrow> u32 \<Rightarrow> kstate \<Rightarrow> u32 \<times> kstate" where
  "LOS_MemAllocAlign sz boundary s =
     (if sz = 0 \<or> boundary = 0 \<or> \<not> OS_MEM_IS_POW_TWO boundary \<or> boundary AND 3 \<noteq> 0 then (0, s)
      else let sz = (if sz < 8 then 8 else sz)
           in if boundary - 4 > 0xFFFFFFFF - sz then (0, s)
              else let useSize = sz + boundary - 4
                   in if bit useSize 31 \<or> bit useSize 30 then (0, s) else LOS_MemAlloc s)"

primrec store_words :: "u32 \<Rightarrow> u32 list \<Rightarrow> (u32 \<Rightarrow> u32 option) \<Rightarrow> u32 \<Rightarrow> u32 option" where
  "store_words a [] m = m"
| "store_words a (w # ws) m = store_words (a + 4) ws (m(a \<mapsto> w))"

definition ArchTskStackInit :: "u32 \<Rightarrow> u32 \<Rightarrow> u32 \<Rightarrow> kstate \<Rightarrow> u32 \<times> kstate" where
  "ArchTskStackInit tid sz topStack s =
     (let context = topStack + sz - 68;
          ws = [0x04040404, 0x05050505, 0x06060606, 0x07070707, 0x08080808, 0x09090909, 0x10101010, 0x11111111,
                0, tid, 0x01010101, 0x02020202, 0x03030303, 0x12121212,
                text_addr s Sym_ArchSysExit, text_addr s Sym_OsTaskEntry, 0x01000000]
      in (context, s\<lparr>stackMem := store_words context ws (stackMem s)\<rparr>))"

text \<open>memset_s of a stack with the fill byte of OS_TASK_STACK_INIT.\<close>

definition stack_fill :: "u32 \<Rightarrow> u32 \<Rightarrow> kstate \<Rightarrow> kstate" where
  "stack_fill tos sz s =
     (if SECUREC_MEMSET_PARAM_OK tos sz sz
      then s\<lparr>stackMem := (\<lambda>a. if a - tos < sz \<and> (a - tos) AND 3 = 0 then Some OS_TASK_STACK_INIT else stackMem s a)\<rparr>
      else s)"

definition OsNewTaskInit :: "nat \<Rightarrow> TSK_INIT_PARAM_S \<Rightarrow> kstate \<Rightarrow> (u32 \<times> kstate) option" where
  "OsNewTaskInit t p s = do {
     let s = upd_tcb t (\<lambda>c. c\<lparr>arg := uwArg p, stackSize := uwStackSize p, taskSem := None, taskMux := None,
               taskStatus := OS_TASK_STATUS_SUSPEND, priority := usTaskPrio p, timeSlice := 0, waitTimes := 0,
               taskEntry := pfnTaskEntry p, eventMask := 0, taskName := pcName p, msg := 0\<rparr>) s;
     let s = set_response (NSort t) OS_SORT_LINK_INVALID_TIME (set_event (EvTask t) OS_NULL_INT s);
     let s = snd (LOS_EventInit (Some (EvTask t)) s);
     let s = (if uwResved p AND LOS_TASK_ATTR_JOINABLE \<noteq> 0
              then k_ListInit (NJoin t) (or_status t OS_TASK_FLAG_JOINABLE s) else s);
     let (err, s) =
       (if stackAddr p = 0
        then let s = upd_tcb t (\<lambda>c. c\<lparr>stackSize := LOS_Align (uwStackSize p) 8\<rparr>) s;
                 (a, s) = LOS_MemAllocAlign (stackSize (tcb s t)) 8 s;
                 s = upd_tcb t (\<lambda>c. c\<lparr>topOfStack := a\<rparr>) s
             in if a = 0 then (LOS_ERRNO_TSK_NO_MEMORY, s)
                else (LOS_OK, or_status t OS_TASK_FLAG_STACK_FREE s)
        else let a = LOS_Align (stackAddr p) 8
             in (LOS_OK, upd_tcb t (\<lambda>c. c\<lparr>topOfStack := a,
                           stackSize := TRUNCATE (uwStackSize p - (a - stackAddr p)) 8\<rparr>) s));
     if err \<noteq> LOS_OK then Some (err, s)
     else do {
       let s = stack_fill (topOfStack (tcb s t)) (stackSize (tcb s t)) s;
       _ \<leftarrow> los_assert (topOfStack (tcb s t) \<noteq> 0);
       let s = s\<lparr>stackMem := (stackMem s)(topOfStack (tcb s t) \<mapsto> OS_TASK_MAGIC_WORD)\<rparr>;
       let (sp, s) = ArchTskStackInit (taskID (tcb s t)) (stackSize (tcb s t)) (topOfStack (tcb s t)) s;
       Some (LOS_OK, upd_tcb t (\<lambda>c. c\<lparr>stackPointer := sp\<rparr>) s)
     }
   }"

definition LOS_TaskCreateOnly ::
  "bool \<Rightarrow> TSK_INIT_PARAM_S option \<Rightarrow> kstate \<Rightarrow> ((u32 \<times> u32 option) \<times> kstate) option" where
  "LOS_TaskCreateOnly taskIDp param s =
     (if \<not> taskIDp then Some ((LOS_ERRNO_TSK_ID_INVALID, None), s)
      else let (retVal, param) = OsTaskInitParamCheck param s
           in if retVal \<noteq> LOS_OK then Some ((retVal, None), s)
              else do {
                p \<leftarrow> param;
                s \<leftarrow> OsRecycleFinishedTask s;
                if k_ListEmpty NFreeTask s then Some ((LOS_ERRNO_TSK_TCB_UNAVAILABLE, None), s)
                else do {
                  first \<leftarrow> pstNext (dl s) NFreeTask;
                  t \<leftarrow> OS_TCB_FROM_PENDLIST first;
                  s \<leftarrow> k_ListDelete first s;
                  (retVal, s) \<leftarrow> OsNewTaskInit t p s;
                  if retVal \<noteq> LOS_OK
                  then do { s \<leftarrow> OsInsertTCBToFreeList t s; Some ((retVal, None), s) }
                  else Some ((retVal, Some (taskID (tcb s t))), s)
                }
              })"

definition LOS_TaskCreate ::
  "bool \<Rightarrow> TSK_INIT_PARAM_S option \<Rightarrow> kstate \<Rightarrow> ((u32 \<times> u32 option) \<times> kstate) option" where
  "LOS_TaskCreate taskIDp param s = do {
     ((retVal, tid), s) \<leftarrow> LOS_TaskCreateOnly taskIDp param s;
     if retVal \<noteq> LOS_OK then Some ((retVal, tid), s)
     else do {
       i \<leftarrow> tid;
       s \<leftarrow> OsSchedTaskEnQueue (OS_TCB_FROM_TID i) s;
       s \<leftarrow> (if g_taskScheduled s then LOS_Schedule s else Some s);
       Some ((LOS_OK, tid), s)
     }
   }"

text \<open>All tasks start here; \<open>run\<close> is the task's entry function on its argument.\<close>

definition OsTaskEntry :: "(u32 \<Rightarrow> kstate \<Rightarrow> (u32 \<times> kstate) option) \<Rightarrow> u32 \<Rightarrow> kstate \<Rightarrow> kstate option" where
  "OsTaskEntry run tid s = do {
     let t = OS_TCB_FROM_TID tid;
     (r, s) \<leftarrow> run (arg (tcb s t)) s;
     Some (upd_tcb t (\<lambda>c. c\<lparr>joinRetval := r\<rparr>) s)
   }"

subsection \<open>Suspending, resuming, joining, deleting\<close>

definition LOS_TaskResume :: "u32 \<Rightarrow> kstate \<Rightarrow> (u32 \<times> kstate) option" where
  "LOS_TaskResume tid s =
     (if \<not> OS_TASK_ID_CHECK tid s then Some (LOS_ERRNO_TSK_ID_INVALID, s)
      else let t = OS_TCB_FROM_TID tid; tempStatus = status s t
           in if tempStatus AND OS_TASK_STATUS_UNUSED \<noteq> 0 then Some (LOS_ERRNO_TSK_NOT_CREATED, s)
              else if tempStatus AND OS_TASK_STATUS_SUSPEND = 0 then Some (LOS_ERRNO_TSK_NOT_SUSPENDED, s)
              else do {
                (needSched, s) \<leftarrow> OsSchedResume t s;
                s \<leftarrow> (if needSched \<and> g_taskScheduled s then LOS_Schedule s else Some s);
                Some (LOS_OK, s)
              })"

definition LOS_TaskSuspend :: "u32 \<Rightarrow> kstate \<Rightarrow> (u32 \<times> kstate) option" where
  "LOS_TaskSuspend tid s =
     (if OsCheckTaskIDValid tid s \<noteq> LOS_OK then Some (OsCheckTaskIDValid tid s, s)
      else let t = OS_TCB_FROM_TID tid; tempStatus = status s t
           in if tempStatus AND OS_TASK_STATUS_UNUSED \<noteq> 0 then Some (LOS_ERRNO_TSK_NOT_CREATED, s)
              else if tempStatus AND OS_TASK_FLAG_SYSTEM_TASK \<noteq> 0 then Some (LOS_ERRNO_TSK_OPERATE_SYSTEM_TASK, s)
              else if tempStatus AND OS_TASK_STATUS_SUSPEND \<noteq> 0 then Some (LOS_ERRNO_TSK_ALREADY_SUSPENDED, s)
              else if tempStatus AND OS_TASK_STATUS_RUNNING \<noteq> 0 \<and> g_losTaskLock s \<noteq> 0
              then Some (LOS_ERRNO_TSK_SUSPEND_LOCKED, s)
              else do {
                s \<leftarrow> OsSchedSuspend t s;
                run \<leftarrow> runTask s;
                s \<leftarrow> (if tid = taskID (tcb s run) then LOS_Schedule s else Some s);
                Some (LOS_OK, s)
              })"

definition OsTaskJoinPostUnsafe :: "nat \<Rightarrow> kstate \<Rightarrow> kstate option" where
  "OsTaskJoinPostUnsafe t s =
     (if status s t AND OS_TASK_FLAG_JOINABLE \<noteq> 0 \<and> \<not> k_ListEmpty (NJoin t) s
      then do {
        first \<leftarrow> pstNext (dl s) (NJoin t);
        resumedTask \<leftarrow> OS_TCB_FROM_PENDLIST first;
        OsSchedTaskWake resumedTask s
      }
      else Some s)"

definition OsTaskJoinPendUnsafe :: "nat \<Rightarrow> kstate \<Rightarrow> (u32 \<times> kstate) option" where
  "OsTaskJoinPendUnsafe t s =
     (if status s t AND OS_TASK_STATUS_EXIT \<noteq> 0 then Some (LOS_OK, s)
      else if status s t AND OS_TASK_FLAG_JOINABLE \<noteq> 0 \<and> k_ListEmpty (NJoin t) s
      then do { s \<leftarrow> OsSchedTaskWait (NJoin t) LOS_WAIT_FOREVER s; Some (LOS_OK, s) }
      else Some (LOS_NOK, s))"

definition OsTaskSetDetachUnsafe :: "nat \<Rightarrow> kstate \<Rightarrow> (u32 \<times> kstate) option" where
  "OsTaskSetDetachUnsafe t s =
     (if status s t AND OS_TASK_FLAG_JOINABLE \<noteq> 0
      then if k_ListEmpty (NJoin t) s
           then do { s \<leftarrow> k_ListDelete (NJoin t) s; Some (LOS_OK, clr_status t OS_TASK_FLAG_JOINABLE s) }
           else Some (LOS_ERRNO_TSK_NOT_JOIN, s)
      else Some (LOS_NOK, s))"

definition LOS_TaskJoin :: "u32 \<Rightarrow> kstate \<Rightarrow> (nat res \<times> kstate) option" where
  "LOS_TaskJoin tid s =
     (if OsCheckTaskIDValid tid s \<noteq> LOS_OK then Some (Ret (OsCheckTaskIDValid tid s), s)
      else if os_int_active s then Some (Ret LOS_ERRNO_TSK_NOT_ALLOW_IN_INT, s)
      else if g_losTaskLock s \<noteq> 0 then Some (Ret LOS_ERRNO_TSK_SCHED_LOCKED, s)
      else if tid = LOS_CurTaskIDGet s then Some (Ret LOS_ERRNO_TSK_NOT_JOIN_SELF, s)
      else let t = OS_TCB_FROM_TID tid
           in if status s t AND OS_TASK_STATUS_UNUSED \<noteq> 0 then Some (Ret LOS_ERRNO_TSK_NOT_CREATED, s)
              else do {
                (ret, s) \<leftarrow> OsTaskJoinPendUnsafe t s;
                if ret = LOS_OK
                then do { s \<leftarrow> LOS_Schedule s; Some (Wait t, s) }
                else Some (Ret ret, s)
              })"

text \<open>The rest of LOS_TaskJoin; the result is also what is stored through \<open>retval\<close>.\<close>

definition LOS_TaskJoin_resume :: "nat \<Rightarrow> kstate \<Rightarrow> ((u32 \<times> u32) \<times> kstate) option" where
  "LOS_TaskJoin_resume t s = do {
     let retval = joinRetval (tcb s t);
     let s = clr_status t OS_TASK_FLAG_JOINABLE s;
     (stackPtr, s) \<leftarrow> OsRecycleTaskResources t s;
     Some ((LOS_OK, retval), LOS_MemFree stackPtr s)
   }"

definition LOS_TaskDetach :: "u32 \<Rightarrow> kstate \<Rightarrow> (nat res \<times> kstate) option" where
  "LOS_TaskDetach tid s =
     (if OsCheckTaskIDValid tid s \<noteq> LOS_OK then Some (Ret (OsCheckTaskIDValid tid s), s)
      else if os_int_active s then Some (Ret LOS_ERRNO_TSK_NOT_ALLOW_IN_INT, s)
      else let t = OS_TCB_FROM_TID tid
           in if status s t AND OS_TASK_STATUS_UNUSED \<noteq> 0 then Some (Ret LOS_ERRNO_TSK_NOT_CREATED, s)
              else if status s t AND OS_TASK_STATUS_EXIT \<noteq> 0 then LOS_TaskJoin tid s
              else map_option (\<lambda>(r, s). (Ret r, s)) (OsTaskSetDetachUnsafe t s))"

definition OsRunningTaskDelete :: "u32 \<Rightarrow> nat \<Rightarrow> kstate \<Rightarrow> kstate option" where
  "OsRunningTaskDelete tid t s = do {
     s \<leftarrow> k_ListTailInsert NRecycle (NPend t) s;
     let r = unat (g_taskMaxNum s);
     let s = s\<lparr>runTask := Some r\<rparr>;
     let s = upd_tcb r (\<lambda>c. c\<lparr>taskID := tid\<rparr>) s;
     let s = upd_tcb r (\<lambda>c. c\<lparr>taskStatus := status s t OR OS_TASK_STATUS_RUNNING\<rparr>) s;
     let s = upd_tcb r (\<lambda>c. c\<lparr>topOfStack := topOfStack (tcb s t)\<rparr>) s;
     Some (upd_tcb r (\<lambda>c. c\<lparr>taskName := taskName (tcb s t)\<rparr>) s)
   }"

definition LOS_TaskDelete :: "u32 \<Rightarrow> kstate \<Rightarrow> (u32 \<times> kstate) option" where
  "LOS_TaskDelete tid s =
     (if OsCheckTaskIDValid tid s \<noteq> LOS_OK then Some (OsCheckTaskIDValid tid s, s)
      else let t = OS_TCB_FROM_TID tid
           in if status s t AND OS_TASK_FLAG_SYSTEM_TASK \<noteq> 0 then Some (LOS_ERRNO_TSK_OPERATE_SYSTEM_TASK, s)
              else if status s t AND OS_TASK_STATUS_UNUSED \<noteq> 0 then Some (LOS_ERRNO_TSK_NOT_CREATED, s)
              else if status s t AND OS_TASK_STATUS_EXIT \<noteq> 0 then Some (LOS_ERRNO_TSK_ALREADY_EXIT, s)
              else if status s t AND OS_TASK_FLAG_SIGNAL \<noteq> 0 then Some (LOS_ERRNO_TSK_PROCESS_SIGNAL, s)
              else do {
                let s = (if status s t AND OS_TASK_STATUS_RUNNING \<noteq> 0 \<and> g_losTaskLock s \<noteq> 0
                         then s\<lparr>g_losTaskLock := 0\<rparr> else s);
                s \<leftarrow> OsTaskJoinPostUnsafe t s;
                s \<leftarrow> OsSchedTaskExit t s;
                let s = snd (LOS_EventDestroy (Some (EvTask t)) s);
                let s = upd_tcb t (\<lambda>c. c\<lparr>eventMask := 0\<rparr>) (set_event (EvTask t) OS_NULL_INT s);
                if status s t AND OS_TASK_STATUS_RUNNING \<noteq> 0
                then do {
                  s \<leftarrow> (if status s t AND OS_TASK_FLAG_JOINABLE = 0
                        then OsRunningTaskDelete tid t (or_status t OS_TASK_STATUS_UNUSED s) else Some s);
                  s \<leftarrow> LOS_Schedule s;
                  Some (LOS_OK, s)
                }
                else do {
                  let s = upd_tcb t (\<lambda>c. c\<lparr>joinRetval := LOS_CurTaskIDGet s\<rparr>) s;
                  (stackPtr, s) \<leftarrow> OsRecycleTaskResources t s;
                  Some (LOS_OK, LOS_MemFree stackPtr s)
                }
              })"

subsection \<open>Time and priority\<close>

definition LOS_TaskYield :: "kstate \<Rightarrow> (u32 \<times> kstate) option" where
  "LOS_TaskYield s = do { s \<leftarrow> OsSchedYield s; s \<leftarrow> LOS_Schedule s; Some (LOS_OK, s) }"

definition LOS_TaskDelay :: "u32 \<Rightarrow> kstate \<Rightarrow> (u32 \<times> kstate) option" where
  "LOS_TaskDelay tick s =
     (if os_int_active s then Some (LOS_ERRNO_TSK_DELAY_IN_INT, s)
      else if g_losTaskLock s \<noteq> 0 then Some (LOS_ERRNO_TSK_DELAY_IN_LOCK, s)
      else do {
        run \<leftarrow> runTask s;
        if status s run AND OS_TASK_FLAG_SYSTEM_TASK \<noteq> 0 then Some (LOS_ERRNO_TSK_OPERATE_SYSTEM_TASK, s)
        else if tick = 0 then LOS_TaskYield s
        else do { s \<leftarrow> LOS_Schedule (OsSchedDelay run tick s); Some (LOS_OK, s) }
      })"

definition LOS_TaskPriGet :: "u32 \<Rightarrow> kstate \<Rightarrow> u16" where
  "LOS_TaskPriGet tid s =
     (if \<not> OS_TASK_ID_CHECK tid s then ucast OS_INVALID
      else if status s (OS_TCB_FROM_TID tid) AND OS_TASK_STATUS_UNUSED \<noteq> 0 then ucast OS_INVALID
      else priority (tcb s (OS_TCB_FROM_TID tid)))"

definition LOS_TaskPriSet :: "u32 \<Rightarrow> u16 \<Rightarrow> kstate \<Rightarrow> (u32 \<times> kstate) option" where
  "LOS_TaskPriSet tid taskPrio s =
     (if taskPrio > OS_TASK_PRIORITY_LOWEST then Some (LOS_ERRNO_TSK_PRIOR_ERROR, s)
      else if tid = g_idleTaskID s then Some (LOS_ERRNO_TSK_OPERATE_IDLE, s)
      else if cfg_swtmr s \<and> tid = g_swtmrTaskID s then Some (LOS_ERRNO_TSK_OPERATE_SWTMR, s)
      else if \<not> OS_TASK_ID_CHECK tid s then Some (LOS_ERRNO_TSK_ID_INVALID, s)
      else let t = OS_TCB_FROM_TID tid; tempStatus = status s t
           in if tempStatus AND OS_TASK_STATUS_UNUSED \<noteq> 0 then Some (LOS_ERRNO_TSK_NOT_CREATED, s)
              else if tempStatus AND OS_TASK_FLAG_SYSTEM_TASK \<noteq> 0 then Some (LOS_ERRNO_TSK_OPERATE_SYSTEM_TASK, s)
              else do {
                (isReady, s) \<leftarrow> OsSchedModifyTaskSchedParam t taskPrio s;
                s \<leftarrow> (if isReady then LOS_Schedule s else Some s);
                Some (LOS_OK, s)
              })"

definition LOS_CurTaskPriSet :: "u16 \<Rightarrow> kstate \<Rightarrow> (u32 \<times> kstate) option" where
  "LOS_CurTaskPriSet taskPrio s = do { run \<leftarrow> runTask s; LOS_TaskPriSet (taskID (tcb s run)) taskPrio s }"

definition LOS_TaskLock :: "kstate \<Rightarrow> kstate" where
  "LOS_TaskLock s = s\<lparr>g_losTaskLock := g_losTaskLock s + 1\<rparr>"

definition LOS_TaskUnlock :: "kstate \<Rightarrow> kstate option" where
  "LOS_TaskUnlock s =
     (if g_losTaskLock s > 0
      then let s = s\<lparr>g_losTaskLock := g_losTaskLock s - 1\<rparr>
           in if g_losTaskLock s = 0 then LOS_Schedule s else Some s
      else Some s)"

definition LOS_Msleep :: "u32 \<Rightarrow> kstate \<Rightarrow> kstate option" where
  "LOS_Msleep mSecs s =
     (if os_int_active s then Some s
      else let interval = (if mSecs = 0 then 0 else if LOS_MS2Tick mSecs = 0 then 1 else LOS_MS2Tick mSecs)
           in map_option snd (LOS_TaskDelay interval s))"

subsection \<open>Queries\<close>

definition LOS_NextTaskIDGet :: "kstate \<Rightarrow> u32 option" where
  "LOS_NextTaskIDGet s = map_option (\<lambda>t. taskID (tcb s t)) (OsGetTopTask s)"

definition LOS_NewTaskIDGet :: "kstate \<Rightarrow> u32 option" where
  "LOS_NewTaskIDGet s = LOS_NextTaskIDGet s"

definition LOS_CurTaskNameGet :: "kstate \<Rightarrow> u32" where
  "LOS_CurTaskNameGet s = (case runTask s of None \<Rightarrow> 0 | Some t \<Rightarrow> taskName (tcb s t))"

definition LOS_TaskNameGet :: "u32 \<Rightarrow> kstate \<Rightarrow> u32" where
  "LOS_TaskNameGet tid s =
     (if \<not> OS_TASK_ID_CHECK tid s then 0
      else if status s (OS_TCB_FROM_TID tid) AND OS_TASK_STATUS_UNUSED \<noteq> 0 then 0
      else taskName (tcb s (OS_TCB_FROM_TID tid)))"

definition LOS_TaskIsRunning :: "kstate \<Rightarrow> bool" where
  "LOS_TaskIsRunning s = g_taskScheduled s"

definition LOS_TaskStatusGet :: "u32 \<Rightarrow> bool \<Rightarrow> kstate \<Rightarrow> u32 \<times> u32 option" where
  "LOS_TaskStatusGet tid taskStatusp s =
     (if \<not> taskStatusp then (LOS_ERRNO_TSK_PTR_NULL, None)
      else if \<not> OS_TASK_ID_CHECK tid s then (LOS_ERRNO_TSK_ID_INVALID, None)
      else if status s (OS_TCB_FROM_TID tid) AND OS_TASK_STATUS_UNUSED \<noteq> 0 then (LOS_ERRNO_TSK_NOT_CREATED, None)
      else (LOS_OK, Some (ucast (status s (OS_TCB_FROM_TID tid)))))"

record TSK_INFO_S =
  ti_taskID :: u32
  ti_taskStatus :: u16
  ti_taskPrio :: u16
  ti_taskSem :: "nat option"
  ti_taskMux :: "nat option"
  uwSemID :: u32
  uwMuxID :: u32
  uwEvent :: u32
  uwEventMask :: u32
  ti_stackSize :: u32
  uwTopOfStack :: u32
  uwBottomOfStack :: u32
  uwSP :: u32
  uwCurrUsed :: u32
  uwPeakUsed :: u32
  bOvf :: bool

text \<open>\<open>acName\<close> is the address of the name buffer inside the caller's structure.\<close>

definition LOS_TaskInfoGet :: "u32 \<Rightarrow> bool \<Rightarrow> u32 \<Rightarrow> kstate \<Rightarrow> ((u32 \<times> TSK_INFO_S option) \<times> kstate) option" where
  "LOS_TaskInfoGet tid taskInfo acName s =
     (if \<not> taskInfo then Some ((LOS_ERRNO_TSK_PTR_NULL, None), s)
      else if \<not> OS_TASK_ID_CHECK tid s then Some ((LOS_ERRNO_TSK_ID_INVALID, None), s)
      else let t = OS_TCB_FROM_TID tid; c = tcb s t
           in if taskStatus c AND OS_TASK_STATUS_UNUSED \<noteq> 0 then Some ((LOS_ERRNO_TSK_NOT_CREATED, None), s)
              else do {
                let (_, m) = strncpy_s acName LOS_TASK_NAMELEN (taskName c) (LOS_TASK_NAMELEN - 1) (byteMem s);
                let m = m(acName + LOS_TASK_NAMELEN - 1 := 0);
                let bottom = TRUNCATE (topOfStack c + stackSize c) 8;
                peak \<leftarrow> OsGetTaskWaterLine tid (s\<lparr>byteMem := m\<rparr>);
                Some ((LOS_OK, Some \<lparr>ti_taskID = tid, ti_taskStatus = taskStatus c, ti_taskPrio = priority c,
                  ti_taskSem = taskSem c, ti_taskMux = taskMux c,
                  uwSemID = (case taskSem c of None \<Rightarrow> 48 | Some i \<Rightarrow> ucast (semID (g_allSem s i))),
                  uwMuxID = (case taskMux c of None \<Rightarrow> 24 | Some i \<Rightarrow> muxID (g_allMux s i)),
                  uwEvent = uwEventID s (EvTask t), uwEventMask = eventMask c, ti_stackSize = stackSize c,
                  uwTopOfStack = topOfStack c, uwBottomOfStack = bottom, uwSP = stackPointer c,
                  uwCurrUsed = bottom - stackPointer c, uwPeakUsed = peak, bOvf = (peak = OS_NULL_INT)\<rparr>),
                  s\<lparr>byteMem := m\<rparr>)
              })"

end
