(* ===== verification/LosPool.thy ===== *)
theory LosPool
  imports LosKernel
begin

text \<open>
  Pools of control blocks.  Semaphores, mutexes and queues keep their unused
  control blocks in a list, linked through the node that is the wait list of a
  block in use.  The locale \<open>cb_pool\<close> has what taking a block from such a list
  and putting it back do to the kernel's lists, once for the three components.
\<close>

text \<open>Heads the scheduler's invariant says nothing about, except through their members.\<close>

fun quiet :: "node \<Rightarrow> bool" where
  "quiet (NJoin _) = True"
| "quiet (NEvent _) = True"
| "quiet (NSem _) = True"
| "quiet (NMux _) = True"
| "quiet (NQRead _) = True"
| "quiet (NQWrite _) = True"
| "quiet (NQMem _) = True"
| "quiet NUnusedSem = True"
| "quiet NUnusedMux = True"
| "quiet NFreeQueue = True"
| "quiet _ = False"

lemma quiet_plain: "quiet q \<Longrightarrow> plain q"
  by (cases q) (auto simp: plain_def)

lemma kinv_relist:
  assumes I: "kinv n s L" and R: "dl_rep h L'" and H: "\<And>q m. mem L' q m \<Longrightarrow> holds q m"
    and Q: "\<And>q. \<not> quiet q \<Longrightarrow> L' q = L q" and M: "\<And>q t. mem L' q (NPend t) = mem L q (NPend t)"
  shows "kinv n (s\<lparr>dl := h\<rparr>) L'"
proof -
  let ?s = "s\<lparr>dl := h\<rparr>"
  have S: "sched_inv s L" and ok: "sys_ok n s" using I by (simp_all add: kinv_def)
  have L: "L' (NPri p) = L (NPri p)" "L' NTaskSort = L NTaskSort" "L' (NPend t) = L (NPend t)"
    "L' (NSort t) = L (NSort t)" "L' (NSwtmr t) = L (NSwtmr t)" "L' NFreeTask = L NFreeTask"
    "L' NRecycle = L NRecycle" "L' NSwtmrSort = L NSwtmrSort" for p t
    by (rule Q, simp)+
  have "glob_ok ?s L'"
    using sched_inv_glob [OF S] R H unfolding glob_ok_def by (simp add: L)
  moreover have "task_ok ?s L' u" for u
    using sched_inv_task [OF S, of u] M by (subst task_ok_cong [of _ _ s L' L]) (simp_all add: mem_def L)
  moreover have "run_ok ?s" using sched_inv_run_ok [OF S] by (simp add: run_ok_def)
  moreover have "sys_ok n ?s" using ok by (simp add: sys_ok_def idle_slot_def)
  ultimately show ?thesis by (simp add: kinv_def sched_inv_def)
qed

lemma kinv_holds: "kinv n s L \<Longrightarrow> mem L q m \<Longrightarrow> holds q m"
  using glob_ok_holds [of s L q m] sched_inv_glob [of s L] by (simp add: kinv_def)

lemma kinv_rep: "kinv n s L \<Longrightarrow> dl_rep (dl s) L"
  using glob_ok_rep [of s L] sched_inv_glob [of s L] by (simp add: kinv_def)

text \<open>LOS_ListInit of a node that is in no list and heads none.\<close>

lemma kinv_list_init:
  assumes I: "kinv n s L" and x: "x \<notin> covered L \<or> L x = Some []" "quiet x"
  shows "kinv n (k_ListInit x s) (L(x \<mapsto> []))"
proof -
  have e: "\<not> mem L x m" for m
    using x(1) by (auto simp: mem_def dest: covered_head)
  show ?thesis
    unfolding k_ListInit_def
  proof (rule kinv_relist [OF I list_init [OF kinv_rep [OF I] x(1)]])
    show "holds q m" if "mem (L(x \<mapsto> [])) q m" for q m
      using that kinv_holds [OF I, of q m] by (simp split: if_splits)
    show "(L(x \<mapsto> [])) q = L q" if "\<not> quiet q" for q using that x(2) by auto
    show "mem (L(x \<mapsto> [])) q (NPend t) = mem L q (NPend t)" for q t using e by simp
  qed
qed

locale cb_pool =
  fixes U :: node and nd :: "nat \<Rightarrow> node"
  assumes U: "quiet U" "\<not> wait_head U" and nd: "quiet (nd i)" "holds U (nd i)"
    and only: "holds U x \<Longrightarrow> \<exists>i. x = nd i" and inj: "nd i = nd j \<Longrightarrow> i = j"
begin

lemma nd_U: "nd i \<noteq> U"
  using nd(2) [of i] U by (cases U) auto

lemma first_is_node:
  assumes "kinv n s L" "L U = Some (x # xs)"
  obtains i where "x = nd i"
  using only [OF kinv_holds [OF assms(1), of U x]] assms(2) by (auto simp: mem_def)

text \<open>The first unused block is taken and its node becomes an empty list.\<close>

lemma take_law:
  assumes I: "kinv n s L" and q: "L U = Some (nd i # xs)"
  obtains h where "k_ListDelete (nd i) s = Some (s\<lparr>dl := h\<rparr>)"
    "kinv n (s\<lparr>dl := h\<rparr>) (L(U \<mapsto> xs))" "nd i \<notin> covered (L(U \<mapsto> xs))"
    "kinv n (k_ListInit (nd i) (s\<lparr>dl := h\<rparr>)) (L(U \<mapsto> xs, nd i \<mapsto> []))"
proof -
  have x: "nd i \<in> set (nd i # xs)" by simp
  obtain h where h: "LOS_ListDelete (nd i) (dl s) = Some h" "dl_rep h (L(U \<mapsto> remove1 (nd i) (nd i # xs)))"
    using list_delete [OF kinv_rep [OF I] q x] by blast
  have R: "dl_rep h (L(U \<mapsto> xs))" using h(2) by simp
  have nc: "nd i \<notin> covered (L(U \<mapsto> xs))"
    using covered_after_delete [OF kinv_rep [OF I] q x] by simp
  have np: "nd j \<noteq> NPend t" for j t using nd(1) [of j] by auto
  have K: "kinv n (s\<lparr>dl := h\<rparr>) (L(U \<mapsto> xs))"
  proof (rule kinv_relist [OF I R])
    show "holds q' m" if "mem (L(U \<mapsto> xs)) q' m" for q' m
      using that kinv_holds [OF I, of q' m] q by (auto simp: mem_def split: if_splits)
    show "(L(U \<mapsto> xs)) q' = L q'" if "\<not> quiet q'" for q' using that U by auto
    show "mem (L(U \<mapsto> xs)) q' (NPend t) = mem L q' (NPend t)" for q' t
      using q np [of i t, symmetric] by (auto simp: mem_def)
  qed
  show thesis
    by (rule that [OF k_List_eq(3) [OF h(1)] K nc]) (rule kinv_list_init [OF K disjI1 [OF nc] nd(1)])
qed

text \<open>A block with an empty list goes back to the front of the pool.\<close>

lemma put_law:
  assumes I: "kinv n s L" and q: "L U = Some xs" and e: "L (nd i) = Some []"
  obtains h where "k_ListAdd U (nd i) s = Some (s\<lparr>dl := h\<rparr>)" "kinv n (s\<lparr>dl := h\<rparr>) (L(nd i := None, U \<mapsto> nd i # xs))"
proof -
  let ?L = "L(nd i := None)"
  have R: "dl_rep (dl s) ?L" by (rule list_drop [OF kinv_rep [OF I]])
  have dis: "nd i \<notin> set ys" if "L q' = Some ys" for q' ys
    using dl_rep_head_not_elem [OF kinv_rep [OF I] that e] .
  have nc: "nd i \<notin> covered ?L"
    using dis by (auto simp: covered_def split: if_splits)
  have q1: "?L U = Some xs" using q nd_U [of i] by auto
  obtain h where h: "LOS_ListAdd U (nd i) (dl s) = Some h" "dl_rep h (?L(U \<mapsto> nd i # xs))"
    using list_head_insert [OF R q1 nc] by blast
  have np: "nd i \<noteq> NPend t" for t using nd(1) [of i] by auto
  have K: "kinv n (s\<lparr>dl := h\<rparr>) (?L(U \<mapsto> nd i # xs))"
  proof (rule kinv_relist [OF I h(2)])
    show "holds q' m" if "mem (?L(U \<mapsto> nd i # xs)) q' m" for q' m
      using that kinv_holds [OF I, of q' m] q nd(2) by (auto simp: mem_def split: if_splits)
    show "(?L(U \<mapsto> nd i # xs)) q' = L q'" if "\<not> quiet q'" for q' using that U nd by auto
    show "mem (?L(U \<mapsto> nd i # xs)) q' (NPend t) = mem L q' (NPend t)" for q' t
      using q e np [of t] nd_U [of i] by (auto simp: mem_def)
  qed
  show thesis by (rule that [OF k_List_eq(1) [OF h(1)] K])
qed

end

interpretation sem_pool: cb_pool NUnusedSem NSem
proof
  show "holds NUnusedSem x \<Longrightarrow> \<exists>i. x = NSem i" for x by (cases x) auto
qed simp_all

interpretation mux_pool: cb_pool NUnusedMux NMux
proof
  show "holds NUnusedMux x \<Longrightarrow> \<exists>i. x = NMux i" for x by (cases x) auto
qed simp_all

interpretation queue_pool: cb_pool NFreeQueue NQWrite
proof
  show "holds NFreeQueue x \<Longrightarrow> \<exists>i. x = NQWrite i" for x by (cases x) auto
qed simp_all

end
