(* ===== verification/LosSem.thy ===== *)
theory LosSem
  imports LosPool
begin

text \<open>
  Semaphores, kernel/src/los_sem.c.  A handle is an index into g_allSem; an out
  parameter is part of the result, and \<open>False\<close> for it is a NULL pointer.
  LOS_SemPend is split where the caller goes to sleep.
\<close>

abbreviation (input) LOSCFG_BASE_IPC_SEM_LIMIT :: nat where "LOSCFG_BASE_IPC_SEM_LIMIT \<equiv> 48"
abbreviation (input) OS_SEM_COUNTING_MAX_COUNT :: u16 where "OS_SEM_COUNTING_MAX_COUNT \<equiv> 0xFFFF"
abbreviation (input) OS_SEM_BINARY_MAX_COUNT :: u16 where "OS_SEM_BINARY_MAX_COUNT \<equiv> 1"
abbreviation (input) OS_SEM_UNUSED :: u16 where "OS_SEM_UNUSED \<equiv> 0"
abbreviation (input) OS_SEM_USED :: u16 where "OS_SEM_USED \<equiv> 1"

abbreviation (input) LOS_ERRNO_SEM_NO_MEMORY :: u32 where "LOS_ERRNO_SEM_NO_MEMORY \<equiv> 0x02000700"
abbreviation (input) LOS_ERRNO_SEM_INVALID :: u32 where "LOS_ERRNO_SEM_INVALID \<equiv> 0x02000701"
abbreviation (input) LOS_ERRNO_SEM_PTR_NULL :: u32 where "LOS_ERRNO_SEM_PTR_NULL \<equiv> 0x02000702"
abbreviation (input) LOS_ERRNO_SEM_ALL_BUSY :: u32 where "LOS_ERRNO_SEM_ALL_BUSY \<equiv> 0x02000703"
abbreviation (input) LOS_ERRNO_SEM_UNAVAILABLE :: u32 where "LOS_ERRNO_SEM_UNAVAILABLE \<equiv> 0x02000704"
abbreviation (input) LOS_ERRNO_SEM_PEND_INTERR :: u32 where "LOS_ERRNO_SEM_PEND_INTERR \<equiv> 0x02000705"
abbreviation (input) LOS_ERRNO_SEM_PEND_IN_LOCK :: u32 where "LOS_ERRNO_SEM_PEND_IN_LOCK \<equiv> 0x02000706"
abbreviation (input) LOS_ERRNO_SEM_TIMEOUT :: u32 where "LOS_ERRNO_SEM_TIMEOUT \<equiv> 0x02000707"
abbreviation (input) LOS_ERRNO_SEM_OVERFLOW :: u32 where "LOS_ERRNO_SEM_OVERFLOW \<equiv> 0x02000708"
abbreviation (input) LOS_ERRNO_SEM_PENDED :: u32 where "LOS_ERRNO_SEM_PENDED \<equiv> 0x02000709"
abbreviation (input) LOS_ERRNO_SEM_PEND_IN_SYSTEM_TASK :: u32 where "LOS_ERRNO_SEM_PEND_IN_SYSTEM_TASK \<equiv> 0x0200070B"

abbreviation sem :: "kstate \<Rightarrow> nat \<Rightarrow> LosSemCB" where
  "sem s i \<equiv> g_allSem s i"

definition upd_sem :: "nat \<Rightarrow> (LosSemCB \<Rightarrow> LosSemCB) \<Rightarrow> kstate \<Rightarrow> kstate" where
  "upd_sem i f s = s\<lparr>g_allSem := (g_allSem s)(i := f (g_allSem s i))\<rparr>"

fun GET_SEM_LIST :: "node \<Rightarrow> nat option" where
  "GET_SEM_LIST (NSem i) = Some i"
| "GET_SEM_LIST _ = None"

primrec sem_init_loop :: "nat list \<Rightarrow> kstate \<Rightarrow> kstate option" where
  "sem_init_loop [] s = Some s"
| "sem_init_loop (i # is) s = do {
     s \<leftarrow> k_ListTailInsert NUnusedSem (NSem i)
          (upd_sem i (\<lambda>c. c\<lparr>semID := of_nat i, semStat := OS_SEM_UNUSED\<rparr>) s);
     sem_init_loop is s
   }"

definition OsSemInit :: "kstate \<Rightarrow> (u32 \<times> kstate) option" where
  "OsSemInit s =
     (let s = k_ListInit NUnusedSem s;
          (p, s) = LOS_MemAlloc s
      in if p = 0 then Some (LOS_ERRNO_SEM_NO_MEMORY, s)
         else do { s \<leftarrow> sem_init_loop [0..<LOSCFG_BASE_IPC_SEM_LIMIT] s; Some (LOS_OK, s) })"

definition OsSemCreate :: "u16 \<Rightarrow> u16 \<Rightarrow> bool \<Rightarrow> kstate \<Rightarrow> ((u32 \<times> u32 option) \<times> kstate) option" where
  "OsSemCreate count maxCount semHandle s =
     (if \<not> semHandle then Some ((LOS_ERRNO_SEM_PTR_NULL, None), s)
      else if count > maxCount then Some ((LOS_ERRNO_SEM_OVERFLOW, None), s)
      else if k_ListEmpty NUnusedSem s then Some ((LOS_ERRNO_SEM_ALL_BUSY, None), s)
      else do {
        unusedSem \<leftarrow> pstNext (dl s) NUnusedSem;
        s \<leftarrow> k_ListDelete unusedSem s;
        i \<leftarrow> GET_SEM_LIST unusedSem;
        let s = upd_sem i (\<lambda>c. c\<lparr>semCount := count, semStat := OS_SEM_USED, maxSemCount := maxCount\<rparr>) s;
        let s = k_ListInit (NSem i) s;
        Some ((LOS_OK, Some (ucast (semID (sem s i)))), s)
      })"

definition LOS_SemCreate :: "u16 \<Rightarrow> bool \<Rightarrow> kstate \<Rightarrow> ((u32 \<times> u32 option) \<times> kstate) option" where
  "LOS_SemCreate count semHandle s = OsSemCreate count OS_SEM_COUNTING_MAX_COUNT semHandle s"

definition LOS_BinarySemCreate :: "u16 \<Rightarrow> bool \<Rightarrow> kstate \<Rightarrow> ((u32 \<times> u32 option) \<times> kstate) option" where
  "LOS_BinarySemCreate count semHandle s = OsSemCreate count OS_SEM_BINARY_MAX_COUNT semHandle s"

definition LOS_SemDelete :: "u32 \<Rightarrow> kstate \<Rightarrow> (u32 \<times> kstate) option" where
  "LOS_SemDelete semHandle s =
     (let i = unat semHandle
      in if i \<ge> LOSCFG_BASE_IPC_SEM_LIMIT then Some (LOS_ERRNO_SEM_INVALID, s)
         else if semStat (sem s i) = OS_SEM_UNUSED then Some (LOS_ERRNO_SEM_INVALID, s)
         else if \<not> k_ListEmpty (NSem i) s then Some (LOS_ERRNO_SEM_PENDED, s)
         else do {
           s \<leftarrow> k_ListAdd NUnusedSem (NSem i) s;
           Some (LOS_OK, upd_sem i (\<lambda>c. c\<lparr>semStat := OS_SEM_UNUSED\<rparr>) s)
         })"

definition OsSemValidCheck :: "nat \<Rightarrow> kstate \<Rightarrow> u32 option" where
  "OsSemValidCheck i s =
     (if semStat (sem s i) = OS_SEM_UNUSED then Some LOS_ERRNO_SEM_INVALID
      else if os_int_active s then Some LOS_ERRNO_SEM_PEND_INTERR
      else if g_losTaskLock s \<noteq> 0 then Some LOS_ERRNO_SEM_PEND_IN_LOCK
      else do {
        run \<leftarrow> runTask s;
        Some (if status s run AND OS_TASK_FLAG_SYSTEM_TASK \<noteq> 0 then LOS_ERRNO_SEM_PEND_IN_SYSTEM_TASK
              else LOS_OK)
      })"

text \<open>A sleeping caller remembers its task (\<open>runningTask\<close>).\<close>

definition LOS_SemPend :: "u32 \<Rightarrow> u32 \<Rightarrow> kstate \<Rightarrow> (nat res \<times> kstate) option" where
  "LOS_SemPend semHandle timeout s =
     (let i = unat semHandle
      in if i \<ge> LOSCFG_BASE_IPC_SEM_LIMIT then Some (Ret LOS_ERRNO_SEM_INVALID, s)
         else do {
           retErr \<leftarrow> OsSemValidCheck i s;
           if retErr \<noteq> LOS_OK then Some (Ret retErr, s)
           else do {
             run \<leftarrow> runTask s;
             if semCount (sem s i) > 0
             then Some (Ret LOS_OK, upd_sem i (\<lambda>c. c\<lparr>semCount := semCount c - 1\<rparr>) s)
             else if timeout = 0 then Some (Ret LOS_ERRNO_SEM_UNAVAILABLE, s)
             else do {
               let s = upd_tcb run (\<lambda>c. c\<lparr>taskSem := Some i\<rparr>) s;
               s \<leftarrow> OsSchedTaskWait (NSem i) timeout s;
               s \<leftarrow> LOS_Schedule s;
               Some (Wait run, s)
             }
           }
         })"

definition LOS_SemPend_resume :: "nat \<Rightarrow> kstate \<Rightarrow> u32 \<times> kstate" where
  "LOS_SemPend_resume run s =
     (if status s run AND OS_TASK_STATUS_TIMEOUT \<noteq> 0
      then (LOS_ERRNO_SEM_TIMEOUT, clr_status run OS_TASK_STATUS_TIMEOUT s)
      else (LOS_OK, s))"

definition LOS_SemPost :: "u32 \<Rightarrow> kstate \<Rightarrow> (u32 \<times> kstate) option" where
  "LOS_SemPost semHandle s =
     (let i = unat semHandle
      in if i \<ge> LOSCFG_BASE_IPC_SEM_LIMIT then Some (LOS_ERRNO_SEM_INVALID, s)
         else if semStat (sem s i) = OS_SEM_UNUSED then Some (LOS_ERRNO_SEM_INVALID, s)
         else if maxSemCount (sem s i) = semCount (sem s i) then Some (LOS_ERRNO_SEM_OVERFLOW, s)
         else if \<not> k_ListEmpty (NSem i) s
         then do {
           first \<leftarrow> pstNext (dl s) (NSem i);
           resumedTask \<leftarrow> OS_TCB_FROM_PENDLIST first;
           let s = upd_tcb resumedTask (\<lambda>c. c\<lparr>taskSem := None\<rparr>) s;
           s \<leftarrow> OsSchedTaskWake resumedTask s;
           s \<leftarrow> LOS_Schedule s;
           Some (LOS_OK, s)
         }
         else Some (LOS_OK, upd_sem i (\<lambda>c. c\<lparr>semCount := semCount c + 1\<rparr>) s))"

text \<open>The second component is what is stored through \<open>currVal\<close>.\<close>

definition LOS_SemGetValue :: "u32 \<Rightarrow> kstate \<Rightarrow> u32 \<times> i32 option" where
  "LOS_SemGetValue semHandle s =
     (let i = unat semHandle
      in if i \<ge> LOSCFG_BASE_IPC_SEM_LIMIT then (LOS_ERRNO_SEM_INVALID, None)
         else (0, Some (ucast (semCount (sem s i)))))"

subsection \<open>The invariant\<close>

definition sem_ok :: "kstate \<Rightarrow> (node \<Rightarrow> node list option) \<Rightarrow> nat \<Rightarrow> bool" where
  "sem_ok s L i \<longleftrightarrow> semID (sem s i) = of_nat i \<and>
     (semStat (sem s i) = OS_SEM_UNUSED \<longleftrightarrow> mem L NUnusedSem (NSem i)) \<and>
     (semStat (sem s i) \<noteq> OS_SEM_UNUSED \<longrightarrow>
        (\<exists>xs. L (NSem i) = Some xs \<and> (xs \<noteq> [] \<longrightarrow> semCount (sem s i) = 0))) \<and>
     (semStat (sem s i) \<noteq> OS_SEM_UNUSED \<longrightarrow> semCount (sem s i) \<le> maxSemCount (sem s i))"

definition sem_inv :: "kstate \<Rightarrow> (node \<Rightarrow> node list option) \<Rightarrow> bool" where
  "sem_inv s L \<longleftrightarrow> (\<forall>i<LOSCFG_BASE_IPC_SEM_LIMIT. sem_ok s L i) \<and> L NUnusedSem \<noteq> None \<and>
     (\<forall>i. mem L NUnusedSem (NSem i) \<longrightarrow> i < LOSCFG_BASE_IPC_SEM_LIMIT)"

lemma sem_inv_D:
  assumes "sem_inv s L" "i < LOSCFG_BASE_IPC_SEM_LIMIT"
  shows "semID (sem s i) = of_nat i" "semStat (sem s i) \<noteq> OS_SEM_UNUSED \<Longrightarrow> semCount (sem s i) \<le> maxSemCount (sem s i)"
    "semStat (sem s i) = OS_SEM_UNUSED \<longleftrightarrow> mem L NUnusedSem (NSem i)"
    "semStat (sem s i) \<noteq> OS_SEM_UNUSED \<Longrightarrow> \<exists>xs. L (NSem i) = Some xs \<and> (xs \<noteq> [] \<longrightarrow> semCount (sem s i) = 0)"
  using assms by (auto simp: sem_inv_def sem_ok_def)

text \<open>A change of one semaphore's record and wait list.\<close>

lemma sem_inv_change:
  assumes I: "sem_inv s L" and i: "sem_ok s' L' i"
    and o: "\<And>j. j \<noteq> i \<Longrightarrow> sem s' j = sem s j" "\<And>j. j \<noteq> i \<Longrightarrow> L' (NSem j) = L (NSem j)"
    and u: "\<And>j. j \<noteq> i \<Longrightarrow> mem L' NUnusedSem (NSem j) = mem L NUnusedSem (NSem j)" "L' NUnusedSem \<noteq> None"
      "i < LOSCFG_BASE_IPC_SEM_LIMIT"
  shows "sem_inv s' L'"
  unfolding sem_inv_def
proof (intro conjI allI impI)
  show "sem_ok s' L' j" if "j < LOSCFG_BASE_IPC_SEM_LIMIT" for j
    using I i that o u by (cases "j = i") (simp_all add: sem_inv_def sem_ok_def)
  show "L' NUnusedSem \<noteq> None" by (rule u)
  show "j < LOSCFG_BASE_IPC_SEM_LIMIT" if "mem L' NUnusedSem (NSem j)" for j
    using that I u by (cases "j = i") (simp_all add: sem_inv_def)
qed

subsection \<open>Specification and refinement\<close>

text \<open>A semaphore as its users see it: the count, its limit, and the tasks waiting, first come first.\<close>

type_synonym asem = "nat \<times> nat \<times> nat list"

definition sem_abs :: "kstate \<Rightarrow> (node \<Rightarrow> node list option) \<Rightarrow> nat \<Rightarrow> asem" where
  "sem_abs s L i = (unat (semCount (sem s i)), unat (maxSemCount (sem s i)), map sleeper (the (L (NSem i))))"

fun sem_post_spec :: "asem \<Rightarrow> u32 \<times> asem" where
  "sem_post_spec (c, m, ws) =
     (if c = m then (LOS_ERRNO_SEM_OVERFLOW, (c, m, ws))
      else (LOS_OK, case ws of [] \<Rightarrow> (c + 1, m, []) | w # ws' \<Rightarrow> (c, m, ws')))"

fun sem_pend_spec :: "nat \<Rightarrow> u32 \<Rightarrow> asem \<Rightarrow> nat res \<times> asem" where
  "sem_pend_spec t timeout (c, m, ws) =
     (if 0 < c then (Ret LOS_OK, (c - 1, m, ws))
      else if timeout = 0 then (Ret LOS_ERRNO_SEM_UNAVAILABLE, (c, m, ws))
      else (Wait t, (c, m, ws @ [t])))"

lemma kinv_upd_sem [simp]: "kinv n (upd_sem i f s) L = kinv n s L"
  by (simp add: upd_sem_def)

lemma xkeep_upd_sem: "xkeep {Sem_pool} s (upd_sem i f s)"
  by (simp add: xkeep_def upd_sem_def runs_def)

lemma sem_inv_lists:
  assumes "sem_inv s L" "g_allSem s' = g_allSem s" "\<And>i. L' (NSem i) = L (NSem i)" "L' NUnusedSem = L NUnusedSem"
  shows "sem_inv s' L'"
  using assms by (simp add: sem_inv_def sem_ok_def mem_def)

lemma sem_post_law:
  assumes I: "kinv (Suc n) s L" and S: "sem_inv s L" and i: "unat h < LOSCFG_BASE_IPC_SEM_LIMIT"
    and used: "semStat (sem s (unat h)) \<noteq> OS_SEM_UNUSED"
  obtains s' L' where "LOS_SemPost h s = Some (fst (sem_post_spec (sem_abs s L (unat h))), s')"
    "kinv n s' L'" "sem_inv s' L'" "sem_abs s' L' (unat h) = snd (sem_post_spec (sem_abs s L (unat h)))"
    "\<And>j. j \<noteq> unat h \<Longrightarrow> sem_abs s' L' j = sem_abs s L j"
    "\<And>q. plain q \<Longrightarrow> q \<noteq> NSem (unat h) \<Longrightarrow> L' q = L q" "xkeep {Sem_pool} s s'"
proof -
  define i where "i = unat h"
  have il: "i < LOSCFG_BASE_IPC_SEM_LIMIT" and us: "semStat (sem s i) \<noteq> OS_SEM_UNUSED" using i used by (simp_all add: i_def)
  note D = sem_inv_D [OF S il]
  obtain xs where xs: "L (NSem i) = Some xs" "xs \<noteq> [] \<longrightarrow> semCount (sem s i) = 0" using D(4) us by blast
  have le: "unat (semCount (sem s i)) \<le> unat (maxSemCount (sem s i))" using D(2) [OF us] by (simp add: word_le_nat_alt)
  have em: "k_ListEmpty (NSem i) s \<longleftrightarrow> xs = []" by (rule list_empty [OF kinv_rep [OF I] xs(1)])
  have abs: "sem_abs s L i = (unat (semCount (sem s i)), unat (maxSemCount (sem s i)), map sleeper xs)"
    by (simp add: sem_abs_def xs(1))
  have ul: "\<not> i \<ge> LOSCFG_BASE_IPC_SEM_LIMIT" using il by simp
  consider (full) "maxSemCount (sem s i) = semCount (sem s i)"
    | (wake) x ys where "maxSemCount (sem s i) \<noteq> semCount (sem s i)" "xs = x # ys"
    | (count) "maxSemCount (sem s i) \<noteq> semCount (sem s i)" "xs = []" by (cases xs) auto
  then show thesis
  proof cases
    case full
    have "LOS_SemPost h s = Some (LOS_ERRNO_SEM_OVERFLOW, s)"
      using ul us full by (simp add: LOS_SemPost_def Let_def i_def [symmetric])
    then show thesis
      by (intro that [OF _ kinv_later [OF I] S]) (simp_all add: i_def [symmetric] abs full)
  next
    case count
    let ?s = "upd_sem i (\<lambda>c. c\<lparr>semCount := semCount c + 1\<rparr>) s"
    have O: "LOS_SemPost h s = Some (LOS_OK, ?s)"
      using ul us count em by (simp add: LOS_SemPost_def Let_def i_def [symmetric])
    have lt: "unat (semCount (sem s i)) < unat (maxSemCount (sem s i))"
      using le count(1) by (metis le_neq_implies_less word_unat_eq_iff)
    have u: "unat (semCount (sem s i) + 1) = unat (semCount (sem s i)) + 1"
      by (rule unat_Suc16 [OF lt])
    have S': "sem_inv ?s L"
      by (rule sem_inv_change [OF S, of _ _ i])
         (use D il us xs count(2) lt u S in \<open>simp_all add: sem_ok_def upd_sem_def word_le_nat_alt sem_inv_def\<close>)
    have ne: "unat (semCount (sem s i)) \<noteq> unat (maxSemCount (sem s i))" using lt by simp
    show thesis
      by (rule that [OF _ _ S' _ _ _ xkeep_upd_sem])
         (use O kinv_later [OF I] ne u count(2) xs(1) in \<open>simp_all add: i_def [symmetric] abs sem_abs_def upd_sem_def\<close>)
  next
    case (wake x ys)
    have w: "wait_head (NSem i)" by simp
    obtain t where t: "x = NPend t" using kinv_member [OF I w, of x ys] xs(1) wake(2) by blast
    have f: "pstNext (dl s) (NSem i) = Some (NPend t)" using list_first [OF kinv_rep [OF I] xs(1)] wake(2) t by simp
    let ?s = "upd_tcb t (\<lambda>c. c\<lparr>taskSem := None\<rparr>) s"
    have I1: "kinv (Suc n) ?s L" by (rule kinv_cong [OF I]) (simp_all add: upd_tcb_def ipc_sched_def)
    have q: "L (NSem i) = Some (NPend t # ys)" using xs(1) wake(2) t by simp
    obtain s1 s' L' where 1: "OsSchedTaskWake t ?s = Some s1" "ikeep ?s s1" "runTask s1 = runTask ?s" "LOS_Schedule s1 = Some s'"
      "kinv n s' L'" "ikeep ?s s'" and Q: "\<And>q'. plain q' \<Longrightarrow> L' q' = (if q' = NSem i then Some ys else L q')"
      and x1: "xkeep {} ?s s'"
      by (rule ks.wake_first_law [OF I1 q w]) (rule that; assumption)
    have X: "xkeep {Sem_pool} s s'"
      by (rule xkeep_trans [OF xkeep_upd_tcb xkeep_mono [OF x1]]) simp_all
    have O: "LOS_SemPost h s = Some (LOS_OK, s')"
      using ul us wake em f 1(1,4) by (simp add: LOS_SemPost_def Let_def i_def [symmetric])
    have g: "g_allSem s' = g_allSem s" using ikeep_sel(1) [OF 1(6)] by (simp add: upd_tcb_def)
    have p: "plain (NSem j)" "plain NUnusedSem" for j by (simp_all add: plain_def)
    have S': "sem_inv s' L'"
      by (rule sem_inv_change [OF S, of _ _ i])
         (use D il us xs wake(2) S Q p g in \<open>simp_all add: sem_ok_def sem_inv_def mem_def\<close>)
    have ne: "unat (semCount (sem s i)) \<noteq> unat (maxSemCount (sem s i))" using wake(1) by (metis word_unat_eq_iff)
    show thesis
      by (rule that [OF _ 1(5) S' _ _ _ X])
         (use O ne wake(2) xs(1) g Q p in \<open>simp_all add: i_def [symmetric] abs sem_abs_def\<close>)
  qed
qed

lemma sem_valid_iff:
  assumes "runTask s = Some t"
  shows "OsSemValidCheck i s = Some LOS_OK \<longleftrightarrow>
    semStat (sem s i) \<noteq> OS_SEM_UNUSED \<and> \<not> os_int_active s \<and> g_losTaskLock s = 0 \<and>
    status s t AND OS_TASK_FLAG_SYSTEM_TASK = 0"
  using assms by (simp add: OsSemValidCheck_def)

lemma sem_pend_law:
  assumes I: "kinv (Suc n) s L" and S: "sem_inv s L" and i: "unat h < LOSCFG_BASE_IPC_SEM_LIMIT"
    and ok: "OsSemValidCheck (unat h) s = Some LOS_OK" and r: "runTask s = Some t"
    and st: "\<not> blocked (status s t)" "taskID (tcb s t) \<noteq> g_idleTaskID s" and on: "g_taskScheduled s"
  obtains s' L' where "LOS_SemPend h timeout s = Some (fst (sem_pend_spec t timeout (sem_abs s L (unat h))), s')"
    "kinv n s' L'" "sem_inv s' L'" "sem_abs s' L' (unat h) = snd (sem_pend_spec t timeout (sem_abs s L (unat h)))"
    "\<And>j. j \<noteq> unat h \<Longrightarrow> sem_abs s' L' j = sem_abs s L j"
    "\<And>q. plain q \<Longrightarrow> q \<noteq> NSem (unat h) \<Longrightarrow> L' q = L q"
    "fst (sem_pend_spec t timeout (sem_abs s L (unat h))) = Wait t \<Longrightarrow>
       is_pend (status s' t) \<and> (\<exists>new. runTask s' = Some new \<and> new \<noteq> t \<and> top_of s' new)" "xkeep {Sem_pool} s s'"
proof -
  define i where "i = unat h"
  have ul: "\<not> i \<ge> LOSCFG_BASE_IPC_SEM_LIMIT" and il: "i < LOSCFG_BASE_IPC_SEM_LIMIT" using i by (simp_all add: i_def)
  have v: "semStat (sem s i) \<noteq> OS_SEM_UNUSED" "g_losTaskLock s = 0" "OsSemValidCheck i s = Some LOS_OK"
    using ok sem_valid_iff [OF r] by (simp_all add: i_def)
  note D = sem_inv_D [OF S il]
  obtain xs where xs: "L (NSem i) = Some xs" "xs \<noteq> [] \<longrightarrow> semCount (sem s i) = 0" using D(4) v(1) by blast
  have abs: "sem_abs s L i = (unat (semCount (sem s i)), unat (maxSemCount (sem s i)), map sleeper xs)"
    by (simp add: sem_abs_def xs(1))
  consider (take) "semCount (sem s i) \<noteq> 0" | (busy) "semCount (sem s i) = 0" "timeout = 0"
    | (sleep) "semCount (sem s i) = 0" "timeout \<noteq> 0" by blast
  then show thesis
  proof cases
    case take
    let ?s = "upd_sem i (\<lambda>c. c\<lparr>semCount := semCount c - 1\<rparr>) s"
    have pos: "0 < semCount (sem s i)" "0 < unat (semCount (sem s i))"
      using take by (simp_all add: word_neq_0_conv unat_gt_0)
    have O: "LOS_SemPend h timeout s = Some (Ret LOS_OK, ?s)"
      using ul v(3) r pos(1) by (simp add: LOS_SemPend_def Let_def i_def [symmetric])
    have u: "unat (semCount (sem s i) - 1) = unat (semCount (sem s i)) - 1" by (rule unat_pred16 [OF pos(2)])
    have S': "sem_inv ?s L"
      by (rule sem_inv_change [OF S, of _ _ i])
         (use D il v xs take u S in \<open>auto simp: sem_ok_def upd_sem_def word_le_nat_alt sem_inv_def\<close>)
    show thesis
      by (rule that [OF _ _ S' _ _ _ _ xkeep_upd_sem])
         (use O kinv_later [OF I] pos u xs(1) in \<open>simp_all add: i_def [symmetric] abs sem_abs_def upd_sem_def\<close>)
  next
    case busy
    have "LOS_SemPend h timeout s = Some (Ret LOS_ERRNO_SEM_UNAVAILABLE, s)"
      using ul v(3) r busy by (simp add: LOS_SemPend_def Let_def i_def [symmetric])
    then show thesis
      by (intro that [OF _ kinv_later [OF I] S]) (simp_all add: i_def [symmetric] abs busy)
  next
    case sleep
    have w: "wait_head (NSem i)" by simp
    let ?s = "upd_tcb t (\<lambda>c. c\<lparr>taskSem := Some i\<rparr>) s"
    have I1: "kinv (Suc n) ?s L" by (rule kinv_cong [OF I]) (simp_all add: upd_tcb_def ipc_sched_def)
    have A: "runTask ?s = Some t" "\<not> blocked (status ?s t)" "taskID (tcb ?s t) \<noteq> g_idleTaskID ?s"
      "g_taskScheduled ?s" "g_losTaskLock ?s = 0"
      using st on r v(2) by (simp_all add: upd_tcb_def)
    obtain s1 s' L' where 1: "OsSchedTaskWait (NSem i) timeout ?s = Some s1" "LOS_Schedule s1 = Some s'" "kinv n s' L'"
      "ikeep ?s s'" and Q: "\<And>q'. plain q' \<Longrightarrow> L' q' = (if q' = NSem i then Some (xs @ [NPend t]) else L q')"
      and p: "is_pend (status s' t)" "is_pend_time (status s' t) \<longleftrightarrow> timeout \<noteq> LOS_WAIT_FOREVER"
      and nw: "\<exists>new. runTask s' = Some new \<and> new \<noteq> t \<and> top_of s' new" and x1: "xkeep {} ?s s'"
      by (rule ks.block_law [OF I1 A(1) xs(1) w A(2-5)]) (rule that; assumption)
    have X: "xkeep {Sem_pool} s s'"
      by (rule xkeep_trans [OF xkeep_upd_tcb xkeep_mono [OF x1]]) simp_all
    have O: "LOS_SemPend h timeout s = Some (Wait t, s')"
      using ul v(3) r sleep 1(1,2) by (simp add: LOS_SemPend_def Let_def i_def [symmetric])
    have g: "g_allSem s' = g_allSem s" using ikeep_sel(1) [OF 1(4)] by (simp add: upd_tcb_def)
    have pl: "plain (NSem j)" "plain NUnusedSem" for j by (simp_all add: plain_def)
    have S': "sem_inv s' L'"
      by (rule sem_inv_change [OF S, of _ _ i])
         (use D il v xs sleep S Q pl g in \<open>simp_all add: sem_ok_def sem_inv_def mem_def\<close>)
    show thesis
      by (rule that [OF _ 1(3) S' _ _ _ _ X])
         (use O sleep xs(1) g Q pl p nw in \<open>simp_all add: i_def [symmetric] abs sem_abs_def\<close>)
  qed
qed

subsection \<open>Creation and deletion\<close>

lemma sem_unused_first:
  assumes "sem_inv s L" "L NUnusedSem = Some (NSem i # us)"
  shows "i < LOSCFG_BASE_IPC_SEM_LIMIT" "semStat (sem s i) = OS_SEM_UNUSED"
proof -
  have m: "mem L NUnusedSem (NSem i)" using assms(2) by (simp add: mem_def)
  then show "i < LOSCFG_BASE_IPC_SEM_LIMIT" using assms(1) by (simp add: sem_inv_def)
  then show "semStat (sem s i) = OS_SEM_UNUSED" using sem_inv_D(3) [OF assms(1)] m by simp
qed

lemma sem_create_law:
  assumes I: "kinv n s L" and S: "sem_inv s L" and u: "L NUnusedSem = Some (NSem i # us)" and c: "count \<le> maxCount"
  obtains s' where "OsSemCreate count maxCount True s = Some ((LOS_OK, Some (of_nat i)), s')"
    "kinv n s' (L(NUnusedSem \<mapsto> us, NSem i \<mapsto> []))" "sem_inv s' (L(NUnusedSem \<mapsto> us, NSem i \<mapsto> []))"
    "sem_abs s' (L(NUnusedSem \<mapsto> us, NSem i \<mapsto> [])) i = (unat count, unat maxCount, [])"
    "semStat (sem s' i) = OS_SEM_USED" "\<And>j. j \<noteq> i \<Longrightarrow> sem s' j = sem s j" "xkeep {Sem_pool} s s'"
proof -
  let ?L = "L(NUnusedSem \<mapsto> us, NSem i \<mapsto> [])"
  note il = sem_unused_first [OF S u]
  note R = kinv_rep [OF I]
  obtain h where h: "k_ListDelete (NSem i) s = Some (s\<lparr>dl := h\<rparr>)"
    "kinv n (k_ListInit (NSem i) (s\<lparr>dl := h\<rparr>)) ?L"
    by (rule sem_pool.take_law [OF I u]) (rule that; assumption)
  have e: "\<not> k_ListEmpty NUnusedSem s" "pstNext (dl s) NUnusedSem = Some (NSem i)"
    using list_empty [OF R u] list_first [OF R u] by simp_all
  define s' where "s' = k_ListInit (NSem i)
    (upd_sem i (\<lambda>c. c\<lparr>semCount := count, semStat := OS_SEM_USED, maxSemCount := maxCount\<rparr>) (s\<lparr>dl := h\<rparr>))"
  have id: "ucast (semID (sem s i)) = (of_nat i :: u32)"
    using sem_inv_D(1) [OF S il(1)] il(1) by (simp add: ucast_of_nat16)
  have O: "OsSemCreate count maxCount True s = Some ((LOS_OK, Some (of_nat i)), s')"
    using c e h(1) id by (auto simp: OsSemCreate_def s'_def k_ListInit_def upd_sem_def Let_def)
  have K: "kinv n s' ?L" by (rule kinv_cong [OF h(2)]) (simp_all add: s'_def k_ListInit_def upd_sem_def)
  have s: "sem s' j = (if j = i then (sem s i)\<lparr>semCount := count, semStat := OS_SEM_USED, maxSemCount := maxCount\<rparr> else sem s j)" for j
    by (simp add: s'_def k_ListInit_def upd_sem_def)
  have d: "NSem i \<notin> set us" using dl_rep_distinct [OF R u] by simp
  have S': "sem_inv s' ?L"
    by (rule sem_inv_change [OF S, of _ _ i])
       (use sem_inv_D(1) [OF S il(1)] c d il(1) u in \<open>auto simp: s sem_ok_def mem_def\<close>)
  have X: "xkeep {Sem_pool} s s'" by (simp add: xkeep_def runs_def s'_def k_ListInit_def upd_sem_def)
  show thesis by (rule that [OF O K S' _ _ _ X]) (simp_all add: s sem_abs_def)
qed

lemma sem_delete_law:
  assumes I: "kinv n s L" and S: "sem_inv s L" and i: "unat h < LOSCFG_BASE_IPC_SEM_LIMIT"
    and used: "semStat (sem s (unat h)) \<noteq> OS_SEM_UNUSED" and e: "L (NSem (unat h)) = Some []"
    and u: "L NUnusedSem = Some us"
  obtains s' where "LOS_SemDelete h s = Some (LOS_OK, s')"
    "kinv n s' (L(NSem (unat h) := None, NUnusedSem \<mapsto> NSem (unat h) # us))"
    "sem_inv s' (L(NSem (unat h) := None, NUnusedSem \<mapsto> NSem (unat h) # us))"
    "semStat (sem s' (unat h)) = OS_SEM_UNUSED" "\<And>j. j \<noteq> unat h \<Longrightarrow> sem s' j = sem s j" "xkeep {Sem_pool} s s'"
proof -
  define i where "i = unat h"
  let ?L = "L(NSem i := None, NUnusedSem \<mapsto> NSem i # us)"
  have ul: "\<not> i \<ge> LOSCFG_BASE_IPC_SEM_LIMIT" and il: "i < LOSCFG_BASE_IPC_SEM_LIMIT" and us: "semStat (sem s i) \<noteq> OS_SEM_UNUSED"
    and e': "L (NSem i) = Some []" using i used e by (simp_all add: i_def)
  obtain h' where h: "k_ListAdd NUnusedSem (NSem i) s = Some (s\<lparr>dl := h'\<rparr>)" "kinv n (s\<lparr>dl := h'\<rparr>) ?L"
    by (rule sem_pool.put_law [OF I u e']) (rule that; assumption)
  have em: "k_ListEmpty (NSem i) s" using list_empty [OF kinv_rep [OF I] e'] by simp
  let ?s = "upd_sem i (\<lambda>c. c\<lparr>semStat := OS_SEM_UNUSED\<rparr>) (s\<lparr>dl := h'\<rparr>)"
  have O: "LOS_SemDelete h s = Some (LOS_OK, ?s)"
    using ul us em h(1) by (simp add: LOS_SemDelete_def Let_def i_def [symmetric])
  have S': "sem_inv ?s ?L"
    by (rule sem_inv_change [OF S, of _ _ i])
       (use sem_inv_D [OF S il] il u in \<open>auto simp: upd_sem_def sem_ok_def mem_def\<close>)
  have X: "xkeep {Sem_pool} s ?s" by (simp add: xkeep_def runs_def upd_sem_def)
  show thesis
    by (rule that [OF O _ _ _ _ X]) (use h(2) S' in \<open>simp_all add: i_def [symmetric] upd_sem_def\<close>)
qed

end
