(* ===== verification/LosMux.thy ===== *)
theory LosMux
  imports LosPool
begin

text \<open>
  Mutexes, kernel/src/los_mux.c.  A handle is an index into g_allMux.  A mutex
  is recursive, and while a task of higher priority waits its owner runs at the
  waiter's priority; the owner's own priority is kept in the control block.
  LOS_MuxPend is split where the caller goes to sleep.
\<close>

abbreviation (input) LOSCFG_BASE_IPC_MUX_LIMIT :: nat where "LOSCFG_BASE_IPC_MUX_LIMIT \<equiv> 24"
abbreviation (input) OS_MUX_UNUSED :: u8 where "OS_MUX_UNUSED \<equiv> 0"
abbreviation (input) OS_MUX_USED :: u8 where "OS_MUX_USED \<equiv> 1"

abbreviation (input) LOS_ERRNO_MUX_NO_MEMORY :: u32 where "LOS_ERRNO_MUX_NO_MEMORY \<equiv> 0x02001D00"
abbreviation (input) LOS_ERRNO_MUX_INVALID :: u32 where "LOS_ERRNO_MUX_INVALID \<equiv> 0x02001D01"
abbreviation (input) LOS_ERRNO_MUX_PTR_NULL :: u32 where "LOS_ERRNO_MUX_PTR_NULL \<equiv> 0x02001D02"
abbreviation (input) LOS_ERRNO_MUX_ALL_BUSY :: u32 where "LOS_ERRNO_MUX_ALL_BUSY \<equiv> 0x02001D03"
abbreviation (input) LOS_ERRNO_MUX_UNAVAILABLE :: u32 where "LOS_ERRNO_MUX_UNAVAILABLE \<equiv> 0x02001D04"
abbreviation (input) LOS_ERRNO_MUX_IN_INTERR :: u32 where "LOS_ERRNO_MUX_IN_INTERR \<equiv> 0x02001D05"
abbreviation (input) LOS_ERRNO_MUX_PEND_IN_LOCK :: u32 where "LOS_ERRNO_MUX_PEND_IN_LOCK \<equiv> 0x02001D06"
abbreviation (input) LOS_ERRNO_MUX_TIMEOUT :: u32 where "LOS_ERRNO_MUX_TIMEOUT \<equiv> 0x02001D07"
abbreviation (input) LOS_ERRNO_MUX_PENDED :: u32 where "LOS_ERRNO_MUX_PENDED \<equiv> 0x02001D09"
abbreviation (input) LOS_ERRNO_MUX_PEND_IN_SYSTEM_TASK :: u32 where "LOS_ERRNO_MUX_PEND_IN_SYSTEM_TASK \<equiv> 0x02001D0D"

abbreviation mux :: "kstate \<Rightarrow> nat \<Rightarrow> LosMuxCB" where
  "mux s i \<equiv> g_allMux s i"

definition upd_mux :: "nat \<Rightarrow> (LosMuxCB \<Rightarrow> LosMuxCB) \<Rightarrow> kstate \<Rightarrow> kstate" where
  "upd_mux i f s = s\<lparr>g_allMux := (g_allMux s)(i := f (g_allMux s i))\<rparr>"

fun GET_MUX_LIST :: "node \<Rightarrow> nat option" where
  "GET_MUX_LIST (NMux i) = Some i"
| "GET_MUX_LIST _ = None"

primrec mux_init_loop :: "nat list \<Rightarrow> kstate \<Rightarrow> kstate option" where
  "mux_init_loop [] s = Some s"
| "mux_init_loop (i # is) s = do {
     s \<leftarrow> k_ListTailInsert NUnusedMux (NMux i)
          (upd_mux i (\<lambda>c. c\<lparr>muxID := of_nat i, owner := None, muxStat := OS_MUX_UNUSED\<rparr>) s);
     mux_init_loop is s
   }"

definition OsMuxInit :: "kstate \<Rightarrow> (u32 \<times> kstate) option" where
  "OsMuxInit s =
     (let s = k_ListInit NUnusedMux s;
          (p, s) = LOS_MemAlloc s
      in if p = 0 then Some (LOS_ERRNO_MUX_NO_MEMORY, s)
         else do { s \<leftarrow> mux_init_loop [0..<LOSCFG_BASE_IPC_MUX_LIMIT] s; Some (LOS_OK, s) })"

definition LOS_MuxCreate :: "bool \<Rightarrow> kstate \<Rightarrow> ((u32 \<times> u32 option) \<times> kstate) option" where
  "LOS_MuxCreate muxHandle s =
     (if \<not> muxHandle then Some ((LOS_ERRNO_MUX_PTR_NULL, None), s)
      else if k_ListEmpty NUnusedMux s then Some ((LOS_ERRNO_MUX_ALL_BUSY, None), s)
      else do {
        unusedMux \<leftarrow> pstNext (dl s) NUnusedMux;
        s \<leftarrow> k_ListDelete unusedMux s;
        i \<leftarrow> GET_MUX_LIST unusedMux;
        let s = upd_mux i (\<lambda>c. c\<lparr>muxCount := 0, muxStat := OS_MUX_USED, mux_priority := 0, owner := None\<rparr>) s;
        let s = k_ListInit (NMux i) s;
        Some ((LOS_OK, Some (muxID (mux s i))), s)
      })"

definition LOS_MuxDelete :: "u32 \<Rightarrow> kstate \<Rightarrow> (u32 \<times> kstate) option" where
  "LOS_MuxDelete muxHandle s =
     (let i = unat muxHandle
      in if i \<ge> LOSCFG_BASE_IPC_MUX_LIMIT then Some (LOS_ERRNO_MUX_INVALID, s)
         else if muxStat (mux s i) = OS_MUX_UNUSED then Some (LOS_ERRNO_MUX_INVALID, s)
         else if \<not> k_ListEmpty (NMux i) s \<or> muxCount (mux s i) \<noteq> 0 then Some (LOS_ERRNO_MUX_PENDED, s)
         else do {
           s \<leftarrow> k_ListAdd NUnusedMux (NMux i) s;
           Some (LOS_OK, upd_mux i (\<lambda>c. c\<lparr>muxStat := OS_MUX_UNUSED\<rparr>) s)
         })"

definition OsMuxValidCheck :: "nat \<Rightarrow> kstate \<Rightarrow> u32 option" where
  "OsMuxValidCheck i s =
     (if muxStat (mux s i) = OS_MUX_UNUSED then Some LOS_ERRNO_MUX_INVALID
      else if os_int_active s then Some LOS_ERRNO_MUX_IN_INTERR
      else if g_losTaskLock s \<noteq> 0 then Some LOS_ERRNO_MUX_PEND_IN_LOCK
      else do {
        run \<leftarrow> runTask s;
        Some (if status s run AND OS_TASK_FLAG_SYSTEM_TASK \<noteq> 0 then LOS_ERRNO_MUX_PEND_IN_SYSTEM_TASK
              else LOS_OK)
      })"

text \<open>A sleeping caller remembers its task (\<open>runningTask\<close>).\<close>

definition LOS_MuxPend :: "u32 \<Rightarrow> u32 \<Rightarrow> kstate \<Rightarrow> (nat res \<times> kstate) option" where
  "LOS_MuxPend muxHandle timeout s =
     (let i = unat muxHandle
      in if i \<ge> LOSCFG_BASE_IPC_MUX_LIMIT then Some (Ret LOS_ERRNO_MUX_INVALID, s)
         else do {
           retErr \<leftarrow> OsMuxValidCheck i s;
           if retErr \<noteq> LOS_OK then Some (Ret retErr, s)
           else do {
             run \<leftarrow> runTask s;
             if muxCount (mux s i) = 0
             then Some (Ret LOS_OK, upd_mux i (\<lambda>c. c\<lparr>muxCount := muxCount c + 1, owner := Some run,
                                                      mux_priority := priority (tcb s run)\<rparr>) s)
             else if owner (mux s i) = Some run
             then Some (Ret LOS_OK, upd_mux i (\<lambda>c. c\<lparr>muxCount := muxCount c + 1\<rparr>) s)
             else if timeout = 0 then Some (Ret LOS_ERRNO_MUX_UNAVAILABLE, s)
             else do {
               let s = upd_tcb run (\<lambda>c. c\<lparr>taskMux := Some i\<rparr>) s;
               t \<leftarrow> owner (mux s i);
               s \<leftarrow> (if priority (tcb s t) > priority (tcb s run)
                     then map_option snd (OsSchedModifyTaskSchedParam t (priority (tcb s run)) s)
                     else Some s);
               s \<leftarrow> OsSchedTaskWait (NMux i) timeout s;
               s \<leftarrow> LOS_Schedule s;
               Some (Wait run, s)
             }
           }
         })"

definition LOS_MuxPend_resume :: "nat \<Rightarrow> kstate \<Rightarrow> u32 \<times> kstate" where
  "LOS_MuxPend_resume run s =
     (if status s run AND OS_TASK_STATUS_TIMEOUT \<noteq> 0
      then (LOS_ERRNO_MUX_TIMEOUT, clr_status run OS_TASK_STATUS_TIMEOUT s)
      else (LOS_OK, s))"

definition LOS_MuxPost :: "u32 \<Rightarrow> kstate \<Rightarrow> (u32 \<times> kstate) option" where
  "LOS_MuxPost muxHandle s =
     (let i = unat muxHandle
      in if i \<ge> LOSCFG_BASE_IPC_MUX_LIMIT \<or> muxStat (mux s i) = OS_MUX_UNUSED
         then Some (LOS_ERRNO_MUX_INVALID, s)
         else if os_int_active s then Some (LOS_ERRNO_MUX_IN_INTERR, s)
         else if muxCount (mux s i) = 0 \<or> owner (mux s i) \<noteq> runTask s then Some (LOS_ERRNO_MUX_INVALID, s)
         else
           let s = upd_mux i (\<lambda>c. c\<lparr>muxCount := muxCount c - 1\<rparr>) s
           in if muxCount (mux s i) \<noteq> 0 then Some (LOS_OK, s)
              else do {
                t \<leftarrow> owner (mux s i);
                s \<leftarrow> (if priority (tcb s t) \<noteq> mux_priority (mux s i)
                      then map_option snd (OsSchedModifyTaskSchedParam t (mux_priority (mux s i)) s)
                      else Some s);
                if \<not> k_ListEmpty (NMux i) s
                then do {
                  first \<leftarrow> pstNext (dl s) (NMux i);
                  resumedTask \<leftarrow> OS_TCB_FROM_PENDLIST first;
                  let s = upd_mux i (\<lambda>c. c\<lparr>muxCount := 1, owner := Some resumedTask,
                                            mux_priority := priority (tcb s resumedTask)\<rparr>) s;
                  let s = upd_tcb resumedTask (\<lambda>c. c\<lparr>taskMux := None\<rparr>) s;
                  s \<leftarrow> OsSchedTaskWake resumedTask s;
                  s \<leftarrow> LOS_Schedule s;
                  Some (LOS_OK, s)
                }
                else Some (LOS_OK, upd_mux i (\<lambda>c. c\<lparr>owner := None\<rparr>) s)
              })"

subsection \<open>The invariant\<close>

text \<open>A task that exists and is not the idle task.\<close>

definition alive :: "kstate \<Rightarrow> nat \<Rightarrow> bool" where
  "alive s t \<longleftrightarrow> \<not> is_unused (status s t) \<and> taskID (tcb s t) \<noteq> g_idleTaskID s"

definition mux_ok :: "kstate \<Rightarrow> (node \<Rightarrow> node list option) \<Rightarrow> nat \<Rightarrow> bool" where
  "mux_ok s L i \<longleftrightarrow> muxID (mux s i) = of_nat i \<and>
     (muxStat (mux s i) = OS_MUX_UNUSED \<longleftrightarrow> mem L NUnusedMux (NMux i)) \<and>
     (muxStat (mux s i) \<noteq> OS_MUX_UNUSED \<longrightarrow>
        (\<exists>xs. L (NMux i) = Some xs \<and>
           (case owner (mux s i) of
              None \<Rightarrow> muxCount (mux s i) = 0 \<and> xs = []
            | Some t \<Rightarrow> muxCount (mux s i) \<noteq> 0 \<and> alive s t \<and> unat (mux_priority (mux s i)) < 32)))"

definition mux_inv :: "kstate \<Rightarrow> (node \<Rightarrow> node list option) \<Rightarrow> bool" where
  "mux_inv s L \<longleftrightarrow> (\<forall>i<LOSCFG_BASE_IPC_MUX_LIMIT. mux_ok s L i) \<and> L NUnusedMux \<noteq> None \<and>
     (\<forall>i. mem L NUnusedMux (NMux i) \<longrightarrow> i < LOSCFG_BASE_IPC_MUX_LIMIT)"

lemma mux_inv_D:
  assumes "mux_inv s L" "i < LOSCFG_BASE_IPC_MUX_LIMIT"
  shows "muxID (mux s i) = of_nat i" "muxStat (mux s i) = OS_MUX_UNUSED \<longleftrightarrow> mem L NUnusedMux (NMux i)"
    "muxStat (mux s i) \<noteq> OS_MUX_UNUSED \<Longrightarrow> \<exists>xs. L (NMux i) = Some xs"
    "muxStat (mux s i) \<noteq> OS_MUX_UNUSED \<Longrightarrow> owner (mux s i) = None \<longleftrightarrow> muxCount (mux s i) = 0"
    "muxStat (mux s i) \<noteq> OS_MUX_UNUSED \<Longrightarrow> owner (mux s i) = None \<Longrightarrow> L (NMux i) = Some []"
    "muxStat (mux s i) \<noteq> OS_MUX_UNUSED \<Longrightarrow> owner (mux s i) = Some t \<Longrightarrow>
       alive s t \<and> unat (mux_priority (mux s i)) < 32"
  using assms by (auto simp: mux_inv_def mux_ok_def split: option.splits)

lemma mux_inv_change:
  assumes I: "mux_inv s L" and i: "mux_ok s' L' i"
    and o: "\<And>j. j \<noteq> i \<Longrightarrow> mux s' j = mux s j" "\<And>j. j \<noteq> i \<Longrightarrow> L' (NMux j) = L (NMux j)"
    and u: "\<And>j. j \<noteq> i \<Longrightarrow> mem L' NUnusedMux (NMux j) = mem L NUnusedMux (NMux j)" "L' NUnusedMux \<noteq> None"
      "i < LOSCFG_BASE_IPC_MUX_LIMIT"
    and a: "\<And>t. alive s t \<Longrightarrow> alive s' t"
  shows "mux_inv s' L'"
  unfolding mux_inv_def
proof (intro conjI allI impI)
  show "mux_ok s' L' j" if "j < LOSCFG_BASE_IPC_MUX_LIMIT" for j
  proof (cases "j = i")
    case True
    then show ?thesis using i by simp
  next
    case False
    then have "mux_ok s L j" using I that by (simp add: mux_inv_def)
    then show ?thesis using o [OF False] u(1) [OF False] a by (auto simp: mux_ok_def split: option.splits)
  qed
  show "L' NUnusedMux \<noteq> None" by (rule u)
  show "j < LOSCFG_BASE_IPC_MUX_LIMIT" if "mem L' NUnusedMux (NMux j)" for j
    using that I u by (cases "j = i") (simp_all add: mux_inv_def)
qed

lemma kinv_upd_mux [simp]: "kinv n (upd_mux i f s) L = kinv n s L"
  by (simp add: upd_mux_def)

lemma xkeep_upd_mux: "xkeep {Mux_pool} s (upd_mux i f s)"
  by (simp add: xkeep_def upd_mux_def runs_def)

lemma pend_alive:
  assumes "kinv n s L" "is_pend (status s t)"
  shows "alive s t" "unat (priority (tcb s t)) < 32"
  using sched_inv_task [of s L t] assms by (auto simp: kinv_def task_ok_def flags_ok_def alive_def)

lemma alive_prio: "kinv n s L \<Longrightarrow> alive s t \<Longrightarrow> unat (priority (tcb s t)) < 32"
  using sched_inv_task [of s L t] by (auto simp: kinv_def task_ok_def alive_def)

lemma alive_ikeep:
  assumes "ikeep s s'" "\<And>u. is_unused (status s' u) = is_unused (status s u)"
  shows "alive s' t = alive s t"
  using ikeep_tcb_sel(2) [OF assms(1), of t] ikeep_sel(10) [OF assms(1)] assms(2) by (simp add: alive_def)

subsection \<open>Specification and refinement\<close>

text \<open>A mutex as its users see it: who holds it and how often, and who waits, first come first.\<close>

type_synonym amux = "(nat \<times> nat) option \<times> nat list"

definition mux_abs :: "kstate \<Rightarrow> (node \<Rightarrow> node list option) \<Rightarrow> nat \<Rightarrow> amux" where
  "mux_abs s L i = (map_option (\<lambda>t. (t, unat (muxCount (mux s i)))) (owner (mux s i)),
                    map sleeper (the (L (NMux i))))"

fun mux_pend_spec :: "nat \<Rightarrow> u32 \<Rightarrow> amux \<Rightarrow> nat res \<times> amux" where
  "mux_pend_spec t timeout (None, ws) = (Ret LOS_OK, (Some (t, 1), ws))"
| "mux_pend_spec t timeout (Some (u, c), ws) =
     (if u = t then (Ret LOS_OK, (Some (u, c + 1), ws))
      else if timeout = 0 then (Ret LOS_ERRNO_MUX_UNAVAILABLE, (Some (u, c), ws))
      else (Wait t, (Some (u, c), ws @ [t])))"

fun mux_post_spec :: "nat \<Rightarrow> amux \<Rightarrow> u32 \<times> amux" where
  "mux_post_spec t (None, ws) = (LOS_ERRNO_MUX_INVALID, (None, ws))"
| "mux_post_spec t (Some (u, c), ws) =
     (if u \<noteq> t then (LOS_ERRNO_MUX_INVALID, (Some (u, c), ws))
      else if c > 1 then (LOS_OK, (Some (u, c - 1), ws))
      else (LOS_OK, case ws of [] \<Rightarrow> (None, []) | w # ws' \<Rightarrow> (Some (w, 1), ws')))"

lemma mux_valid_iff:
  assumes "runTask s = Some t"
  shows "OsMuxValidCheck i s = Some LOS_OK \<longleftrightarrow>
    muxStat (mux s i) \<noteq> OS_MUX_UNUSED \<and> \<not> os_int_active s \<and> g_losTaskLock s = 0 \<and>
    status s t AND OS_TASK_FLAG_SYSTEM_TASK = 0"
  using assms by (simp add: OsMuxValidCheck_def)

text \<open>Giving the owner the waiter's priority, if that is higher (a smaller number).\<close>

definition inherit :: "nat \<Rightarrow> nat \<Rightarrow> kstate \<Rightarrow> kstate option" where
  "inherit u t s =
     (if priority (tcb s u) > priority (tcb s t)
      then map_option snd (OsSchedModifyTaskSchedParam u (priority (tcb s t)) s) else Some s)"

lemma inherit_law:
  assumes I: "kinv n s L" and a: "alive s u" "alive s t"
  obtains s' L' where "inherit u t s = Some s'" "kinv n s' L'"
    "ikeep (set_prio u (min (priority (tcb s u)) (priority (tcb s t))) s) s'"
    "\<And>q. \<not> is_pri q \<Longrightarrow> L' q = L q" "\<And>v. status s' v = status s v" "runTask s' = runTask s"
proof (cases "priority (tcb s u) > priority (tcb s t)")
  case True
  have p: "unat (priority (tcb s t)) < 32" by (rule alive_prio [OF I a(2)])
  have u: "\<not> is_unused (status s u)" "taskID (tcb s u) \<noteq> g_idleTaskID s" using a(1) by (simp_all add: alive_def)
  obtain s' L' where 1: "OsSchedModifyTaskSchedParam u (priority (tcb s t)) s
      = Some (is_ready (status s u) \<or> is_running (status s u), s')"
    "kinv n s' L'" "ikeep (set_prio u (priority (tcb s t)) s) s'"
    and Q: "\<And>q. \<not> is_pri q \<Longrightarrow> L' q = L q" and st: "\<And>v. status s' v = status s v" and r: "runTask s' = runTask s"
    by (rule kinv_modify [OF I u p]) (rule that; assumption)
  have m: "min (priority (tcb s u)) (priority (tcb s t)) = priority (tcb s t)" using True by simp
  show thesis
    by (rule that [OF _ 1(2) _ Q st r]) (use 1(1,3) True m in \<open>simp_all add: inherit_def\<close>)
next
  case False
  then have m: "min (priority (tcb s u)) (priority (tcb s t)) = priority (tcb s u)" by simp
  show thesis
    by (rule that [OF _ I]) (use False m in \<open>simp_all add: inherit_def upd_tcb_def\<close>)
qed

lemma alive_upd_mux [simp]: "alive (s\<lparr>g_allMux := a\<rparr>) t = alive s t"
  by (simp add: alive_def)

lemma mux_pend_law:
  assumes I: "kinv (Suc n) s L" and M: "mux_inv s L" and i: "unat h < LOSCFG_BASE_IPC_MUX_LIMIT"
    and ok: "OsMuxValidCheck (unat h) s = Some LOS_OK" and r: "runTask s = Some t"
    and st: "\<not> blocked (status s t)" "taskID (tcb s t) \<noteq> g_idleTaskID s" and on: "g_taskScheduled s"
    and room: "unat (muxCount (mux s (unat h))) < 65535"
  obtains s' L' where "LOS_MuxPend h timeout s = Some (fst (mux_pend_spec t timeout (mux_abs s L (unat h))), s')"
    "kinv n s' L'" "mux_inv s' L'" "mux_abs s' L' (unat h) = snd (mux_pend_spec t timeout (mux_abs s L (unat h)))"
    "\<And>j. j \<noteq> unat h \<Longrightarrow> mux_abs s' L' j = mux_abs s L j"
    "\<And>u. priority (tcb s' u) = (if fst (mux_pend_spec t timeout (mux_abs s L (unat h))) = Wait t \<and>
        owner (mux s (unat h)) = Some u then min (priority (tcb s u)) (priority (tcb s t)) else priority (tcb s u))"
    "fst (mux_pend_spec t timeout (mux_abs s L (unat h))) = Wait t \<Longrightarrow>
       is_pend (status s' t) \<and> (\<exists>new. runTask s' = Some new \<and> new \<noteq> t \<and> top_of s' new)"
    "\<And>q. plain q \<Longrightarrow> q \<noteq> NMux (unat h) \<Longrightarrow> L' q = L q" "xkeep {Mux_pool} s s'"
proof -
  define i where "i = unat h"
  have ul: "\<not> i \<ge> LOSCFG_BASE_IPC_MUX_LIMIT" and il: "i < LOSCFG_BASE_IPC_MUX_LIMIT" using i by (simp_all add: i_def)
  have v: "muxStat (mux s i) \<noteq> OS_MUX_UNUSED" "g_losTaskLock s = 0" "OsMuxValidCheck i s = Some LOS_OK"
    using ok mux_valid_iff [OF r] by (simp_all add: i_def)
  note D = mux_inv_D [OF M il]
  obtain xs where xs: "L (NMux i) = Some xs" using D(3) v(1) by blast
  have ta: "alive s t" using st by (simp add: alive_def blocked_def)
  have u1: "unat (muxCount (mux s i) + 1) = unat (muxCount (mux s i)) + 1"
    by (rule unat_Suc16 [of _ "0xFFFF"]) (use room in \<open>simp add: i_def\<close>)
  have abs: "mux_abs s L i = (map_option (\<lambda>t. (t, unat (muxCount (mux s i)))) (owner (mux s i)), map sleeper xs)"
    by (simp add: mux_abs_def xs)
  have tp: "unat (priority (tcb s t)) < 32" by (rule alive_prio [OF I ta])
  consider (free) "owner (mux s i) = None" | (own) "owner (mux s i) = Some t"
    | (busy) u where "owner (mux s i) = Some u" "u \<noteq> t" "timeout = 0"
    | (sleep) u where "owner (mux s i) = Some u" "u \<noteq> t" "timeout \<noteq> 0" by (cases "owner (mux s i)") auto
  then show thesis
  proof cases
    case free
    let ?s = "upd_mux i (\<lambda>c. c\<lparr>muxCount := muxCount c + 1, owner := Some t, mux_priority := priority (tcb s t)\<rparr>) s"
    have c0: "muxCount (mux s i) = 0" using D(4) v(1) free by simp
    have O: "LOS_MuxPend h timeout s = Some (Ret LOS_OK, ?s)"
      using ul v(3) r c0 by (simp add: LOS_MuxPend_def Let_def i_def [symmetric])
    have M': "mux_inv ?s L"
      by (rule mux_inv_change [OF M, of _ _ i])
         (use D il v xs c0 ta tp M in \<open>simp_all add: mux_ok_def upd_mux_def mux_inv_def\<close>)
    show thesis
      by (rule that [OF _ _ M' _ _ _ _ _ xkeep_upd_mux])
         (use O kinv_later [OF I] free xs c0 in \<open>simp_all add: i_def [symmetric] abs mux_abs_def upd_mux_def\<close>)
  next
    case own
    let ?s = "upd_mux i (\<lambda>c. c\<lparr>muxCount := muxCount c + 1\<rparr>) s"
    have c0: "muxCount (mux s i) \<noteq> 0" using D(4) v(1) own by auto
    have O: "LOS_MuxPend h timeout s = Some (Ret LOS_OK, ?s)"
      using ul v(3) r c0 own by (simp add: LOS_MuxPend_def Let_def i_def [symmetric])
    have c1: "muxCount (mux s i) + 1 \<noteq> 0" using u1 by (metis Suc_eq_plus1 nat.simps(3) unat_0)
    have M': "mux_inv ?s L"
      by (rule mux_inv_change [OF M, of _ _ i])
         (use D il v xs c1 own M in \<open>simp_all add: mux_ok_def upd_mux_def mux_inv_def\<close>)
    show thesis
      by (rule that [OF _ _ M' _ _ _ _ _ xkeep_upd_mux])
         (use O kinv_later [OF I] own xs u1 in \<open>simp_all add: i_def [symmetric] abs mux_abs_def upd_mux_def\<close>)
  next
    case busy
    have c0: "muxCount (mux s i) \<noteq> 0" using D(4) v(1) busy by auto
    have O: "LOS_MuxPend h timeout s = Some (Ret LOS_ERRNO_MUX_UNAVAILABLE, s)"
      using ul v(3) r busy c0 by (simp add: LOS_MuxPend_def Let_def i_def [symmetric])
    show thesis
      by (rule that [OF _ kinv_later [OF I] M]) (use O busy in \<open>simp_all add: i_def [symmetric] abs\<close>)
  next
    case (sleep u)
    have w: "wait_head (NMux i)" by simp
    have c0: "muxCount (mux s i) \<noteq> 0" using D(4) v(1) sleep by auto
    have ua: "alive s u" using D(6) v(1) sleep by blast
    let ?s = "upd_tcb t (\<lambda>c. c\<lparr>taskMux := Some i\<rparr>) s"
    have I1: "kinv (Suc n) ?s L" by (rule kinv_cong [OF I]) (simp_all add: upd_tcb_def ipc_sched_def)
    have A1: "alive ?s v = alive s v" for v by (simp add: alive_def upd_tcb_def)
    have ua1: "alive ?s u" and ta1: "alive ?s t" using A1 ua ta by simp_all
    have P1: "priority (tcb ?s v) = priority (tcb s v)" "status ?s v = status s v" "taskID (tcb ?s v) = taskID (tcb s v)" for v
      by (simp_all add: upd_tcb_def)
    obtain s1 L1 where 1: "inherit u t ?s = Some s1" "kinv (Suc n) s1 L1"
      "ikeep (set_prio u (min (priority (tcb ?s u)) (priority (tcb ?s t))) ?s) s1"
      and Q1: "\<And>q. \<not> is_pri q \<Longrightarrow> L1 q = L q" and st1: "\<And>v. status s1 v = status ?s v" and r1: "runTask s1 = runTask ?s"
      by (rule inherit_law [OF I1 ua1 ta1]) (rule that; assumption)
    note k1 = ikeep_sel [OF 1(3)] and kt1 = ikeep_tcb_sel [OF 1(3)]
    have A: "runTask s1 = Some t" "\<not> blocked (status s1 t)" "taskID (tcb s1 t) \<noteq> g_idleTaskID s1"
      "g_taskScheduled s1" "g_losTaskLock s1 = 0"
      using st on r v(2) k1(8,9,10) kt1(2) [of t] sleep(2) by (auto simp: upd_tcb_def r1 st1)
    have x1: "L1 (NMux i) = Some xs" using Q1 xs by simp
    obtain s2 s' L' where 2: "OsSchedTaskWait (NMux i) timeout s1 = Some s2" "LOS_Schedule s2 = Some s'" "kinv n s' L'"
      "ikeep s1 s'" and Q: "\<And>q'. plain q' \<Longrightarrow> L' q' = (if q' = NMux i then Some (xs @ [NPend t]) else L1 q')"
      and p: "is_pend (status s' t)" "is_pend_time (status s' t) \<longleftrightarrow> timeout \<noteq> LOS_WAIT_FOREVER"
      and nw: "\<exists>new. runTask s' = Some new \<and> new \<noteq> t \<and> top_of s' new"
      and un: "\<And>v. is_unused (status s' v) = is_unused (status s1 v)" and x2: "xkeep {} s1 s'"
      by (rule ks.block_law [OF 1(2) A(1) x1 w A(2-5)]) (rule that; assumption)
    have O: "LOS_MuxPend h timeout s = Some (Wait t, s')"
      using ul v(3) r sleep c0 1(1) 2(1,2)
      by (simp add: LOS_MuxPend_def Let_def i_def [symmetric] inherit_def upd_tcb_def)
    have X1: "xkeep {Mux_pool} ?s s1" by (rule xkeep_set_prio [OF 1(3) st1 r1])
    have X: "xkeep {Mux_pool} s s'"
      by (rule xkeep_trans [OF xkeep_upd_tcb xkeep_trans [OF X1 xkeep_mono [OF x2]]]) simp_all
    have QX: "plain q \<Longrightarrow> q \<noteq> NMux (unat h) \<Longrightarrow> L' q = L q" for q
      using Q [of q] Q1 [of q] by (simp add: plain_def i_def)
    have g: "g_allMux s' = g_allMux s" using ikeep_sel(2) [OF 2(4)] k1(2) by (simp add: upd_tcb_def)
    have al': "alive s' v = alive s v" for v
      using alive_ikeep [OF 2(4) un, of v] st1 k1(10) kt1(2) [of v] by (simp add: alive_def upd_tcb_def)
    have pl: "plain (NMux j)" "plain NUnusedMux" for j by (simp_all add: plain_def)
    have Q': "L' (NMux j) = (if j = i then Some (xs @ [NPend t]) else L (NMux j))" "L' NUnusedMux = L NUnusedMux" for j
      using Q [OF pl(1)] Q [OF pl(2)] Q1 by simp_all
    have M': "mux_inv s' L'"
      by (rule mux_inv_change [OF M, of _ _ i])
         (use D il v xs c0 sleep M Q' g al' in \<open>simp_all add: mux_ok_def mem_def\<close>, simp add: mux_inv_def)
    have pr: "priority (tcb s' v) = (if v = u then min (priority (tcb s u)) (priority (tcb s t)) else priority (tcb s v))" for v
      using ikeep_tcb_sel(1) [OF 2(4), of v] kt1(1) [of v] by (simp add: upd_tcb_def)
    show thesis
      by (rule that [OF _ 2(3) M' _ _ _ _ QX X])
         (use O sleep xs g Q' p nw pr in \<open>simp_all add: i_def [symmetric] abs mux_abs_def\<close>)
  qed
qed

text \<open>Giving the owner its own priority back.\<close>

definition restore_prio :: "nat \<Rightarrow> u16 \<Rightarrow> kstate \<Rightarrow> kstate option" where
  "restore_prio t p s =
     (if priority (tcb s t) \<noteq> p then map_option snd (OsSchedModifyTaskSchedParam t p s) else Some s)"

lemma restore_law:
  assumes I: "kinv n s L" and a: "alive s t" and p: "unat p < 32"
  obtains s' L' where "restore_prio t p s = Some s'" "kinv n s' L'" "ikeep (set_prio t p s) s'"
    "\<And>q. \<not> is_pri q \<Longrightarrow> L' q = L q" "\<And>v. status s' v = status s v" "runTask s' = runTask s"
proof (cases "priority (tcb s t) = p")
  case True
  show thesis by (rule that [OF _ I]) (use True in \<open>auto simp: restore_prio_def upd_tcb_def\<close>)
next
  case False
  have u: "\<not> is_unused (status s t)" "taskID (tcb s t) \<noteq> g_idleTaskID s" using a by (simp_all add: alive_def)
  obtain s' L' where 1: "OsSchedModifyTaskSchedParam t p s = Some (is_ready (status s t) \<or> is_running (status s t), s')"
    "kinv n s' L'" "ikeep (set_prio t p s) s'"
    and Q: "\<And>q. \<not> is_pri q \<Longrightarrow> L' q = L q" and st: "\<And>v. status s' v = status s v" and r: "runTask s' = runTask s"
    by (rule kinv_modify [OF I u p]) (rule that; assumption)
  show thesis by (rule that [OF _ 1(2,3) Q st r]) (use 1(1) False in \<open>simp add: restore_prio_def\<close>)
qed

lemma mux_post_law:
  assumes I: "kinv (Suc n) s L" and M: "mux_inv s L" and i: "unat h < LOSCFG_BASE_IPC_MUX_LIMIT"
    and used: "muxStat (mux s (unat h)) \<noteq> OS_MUX_UNUSED" "\<not> os_int_active s" and r: "runTask s = Some t"
  obtains s' L' where "LOS_MuxPost h s = Some (fst (mux_post_spec t (mux_abs s L (unat h))), s')"
    "kinv n s' L'" "mux_inv s' L'" "mux_abs s' L' (unat h) = snd (mux_post_spec t (mux_abs s L (unat h)))"
    "\<And>j. j \<noteq> unat h \<Longrightarrow> mux_abs s' L' j = mux_abs s L j"
    "\<And>u. priority (tcb s' u) = (if u = t \<and> owner (mux s (unat h)) = Some t \<and> muxCount (mux s (unat h)) = 1
        then mux_priority (mux s (unat h)) else priority (tcb s u))"
    "\<And>q. plain q \<Longrightarrow> q \<noteq> NMux (unat h) \<Longrightarrow> L' q = L q" "xkeep {Mux_pool} s s'"
proof -
  define i where "i = unat h"
  have ul: "\<not> i \<ge> LOSCFG_BASE_IPC_MUX_LIMIT" and il: "i < LOSCFG_BASE_IPC_MUX_LIMIT" using i by (simp_all add: i_def)
  have v: "muxStat (mux s i) \<noteq> OS_MUX_UNUSED" using used by (simp add: i_def)
  note D = mux_inv_D [OF M il]
  obtain xs where xs: "L (NMux i) = Some xs" using D(3) v(1) by blast
  have abs: "mux_abs s L i = (map_option (\<lambda>t. (t, unat (muxCount (mux s i)))) (owner (mux s i)), map sleeper xs)"
    by (simp add: mux_abs_def xs)
  have pl: "plain (NMux j)" "plain NUnusedMux" for j by (simp_all add: plain_def)
  consider (bad) "owner (mux s i) \<noteq> Some t" | (nested) "owner (mux s i) = Some t" "muxCount (mux s i) \<noteq> 1"
    | (release) "owner (mux s i) = Some t" "muxCount (mux s i) = 1" by blast
  then show thesis
  proof cases
    case bad
    have "LOS_MuxPost h s = Some (LOS_ERRNO_MUX_INVALID, s)"
      using ul v used bad r by (simp add: LOS_MuxPost_def Let_def i_def [symmetric])
    moreover have "fst (mux_post_spec t (mux_abs s L i)) = LOS_ERRNO_MUX_INVALID"
      "snd (mux_post_spec t (mux_abs s L i)) = mux_abs s L i"
      using bad by (cases "owner (mux s i)"; simp add: abs)+
    ultimately show thesis
      by (intro that [OF _ kinv_later [OF I] M]) (use bad in \<open>simp_all add: i_def [symmetric]\<close>)
  next
    case nested
    let ?s = "upd_mux i (\<lambda>c. c\<lparr>muxCount := muxCount c - 1\<rparr>) s"
    have c0: "muxCount (mux s i) \<noteq> 0" using D(4) v(1) nested by auto
    have c1: "muxCount (mux s i) - 1 \<noteq> 0" using nested(2) by (simp add: diff_eq_eq)
    have u: "unat (muxCount (mux s i) - 1) = unat (muxCount (mux s i)) - 1"
      by (rule unat_pred16) (use c0 in \<open>simp add: unat_gt_0\<close>)
    have g: "unat (muxCount (mux s i)) > 1"
      using u c1 by (metis diff_is_0_eq' not_less unat_eq_zero)
    have O: "LOS_MuxPost h s = Some (LOS_OK, ?s)"
      using ul v used nested r c0 c1 by (simp add: LOS_MuxPost_def Let_def i_def [symmetric] upd_mux_def)
    have M': "mux_inv ?s L"
      by (rule mux_inv_change [OF M, of _ _ i])
         (use D il v xs c1 nested M in \<open>simp_all add: mux_ok_def upd_mux_def mux_inv_def\<close>)
    show thesis
      by (rule that [OF _ _ M' _ _ _ _ xkeep_upd_mux])
         (use O kinv_later [OF I] nested xs u g in \<open>simp_all add: i_def [symmetric] abs mux_abs_def upd_mux_def\<close>)
  next
    case release
    let ?p = "mux_priority (mux s i)"
    let ?s = "upd_mux i (\<lambda>c. c\<lparr>muxCount := muxCount c - 1\<rparr>) s"
    have ta: "alive ?s t" and p: "unat ?p < 32" using D(6) v release by (simp_all add: upd_mux_def)
    have I1: "kinv (Suc n) ?s L" using I by simp
    obtain s1 L1 where 1: "restore_prio t ?p ?s = Some s1" "kinv (Suc n) s1 L1" "ikeep (set_prio t ?p ?s) s1"
      and Q1: "\<And>q. \<not> is_pri q \<Longrightarrow> L1 q = L q" and st1: "\<And>v. status s1 v = status ?s v" and r1: "runTask s1 = runTask ?s"
      by (rule restore_law [OF I1 ta p]) (rule that; assumption)
    note k1 = ikeep_sel [OF 1(3)] and kt1 = ikeep_tcb_sel [OF 1(3)]
    have X1: "xkeep {Mux_pool} s s1" by (rule xkeep_trans [OF xkeep_upd_mux xkeep_set_prio [OF 1(3) st1 r1]])
    have m1: "g_allMux s1 = (g_allMux s)(i := (mux s i)\<lparr>muxCount := 0\<rparr>)" using k1(2) release by (simp add: upd_mux_def upd_tcb_def)
    have x1: "L1 (NMux i) = Some xs" using Q1 xs by simp
    have em: "k_ListEmpty (NMux i) s1 \<longleftrightarrow> xs = []" by (rule list_empty [OF kinv_rep [OF 1(2)] x1])
    have pr1: "priority (tcb s1 v) = (if v = t then ?p else priority (tcb s v))" for v
      using kt1(1) [of v] by (simp add: upd_tcb_def upd_mux_def)
    have al1: "alive s1 v = alive s v" for v
      using st1 [of v] k1(10) kt1(2) [of v] by (simp add: alive_def upd_tcb_def upd_mux_def split: if_splits)
    have O1: "LOS_MuxPost h s = (if \<not> k_ListEmpty (NMux i) s1
                then do {
                  first \<leftarrow> pstNext (dl s1) (NMux i);
                  resumedTask \<leftarrow> OS_TCB_FROM_PENDLIST first;
                  let s = upd_mux i (\<lambda>c. c\<lparr>muxCount := 1, owner := Some resumedTask,
                                            mux_priority := priority (tcb s1 resumedTask)\<rparr>) s1;
                  let s = upd_tcb resumedTask (\<lambda>c. c\<lparr>taskMux := None\<rparr>) s;
                  s \<leftarrow> OsSchedTaskWake resumedTask s;
                  s \<leftarrow> LOS_Schedule s;
                  Some (LOS_OK, s)
                }
                else Some (LOS_OK, upd_mux i (\<lambda>c. c\<lparr>owner := None\<rparr>) s1))"
      using ul v used release r 1(1)
      by (simp add: LOS_MuxPost_def Let_def i_def [symmetric] restore_prio_def upd_mux_def cong: if_cong)
    show thesis
    proof (cases xs)
      case Nil
      let ?s' = "upd_mux i (\<lambda>c. c\<lparr>owner := None\<rparr>) s1"
      have O: "LOS_MuxPost h s = Some (LOS_OK, ?s')" using O1 em Nil by simp
      have M': "mux_inv ?s' L1"
        by (rule mux_inv_change [OF M, of _ _ i])
           (use D il v xs release M Nil Q1 m1 al1 x1 in \<open>simp_all add: mux_ok_def upd_mux_def mux_inv_def mem_def\<close>)
      have QX: "plain q \<Longrightarrow> q \<noteq> NMux (unat h) \<Longrightarrow> L1 q = L q" for q using Q1 [of q] by (simp add: plain_def)
      show thesis
        by (rule that [OF _ _ M' _ _ _ QX xkeep_trans [OF X1 xkeep_upd_mux]])
           (use O kinv_later [OF 1(2)] release xs Nil x1 m1 Q1 pr1 in
             \<open>simp_all add: i_def [symmetric] abs mux_abs_def upd_mux_def\<close>)
    next
      case (Cons x ys)
      have w: "wait_head (NMux i)" by simp
      obtain w where wt: "x = NPend w" "is_pend (status s1 w)"
        using kinv_member [OF 1(2) w, of x ys] x1 Cons by blast
      note wa = pend_alive [OF 1(2) wt(2)]
      have f: "pstNext (dl s1) (NMux i) = Some (NPend w)" using list_first [OF kinv_rep [OF 1(2)] x1] Cons wt by simp
      let ?s2 = "upd_tcb w (\<lambda>c. c\<lparr>taskMux := None\<rparr>)
        (upd_mux i (\<lambda>c. c\<lparr>muxCount := 1, owner := Some w, mux_priority := priority (tcb s1 w)\<rparr>) s1)"
      have I2: "kinv (Suc n) ?s2 L1" by (rule kinv_cong [OF 1(2)]) (simp_all add: upd_tcb_def upd_mux_def ipc_sched_def)
      have q: "L1 (NMux i) = Some (NPend w # ys)" using x1 Cons wt by simp
      obtain s2 s' L' where 2: "OsSchedTaskWake w ?s2 = Some s2" "ikeep ?s2 s2" "runTask s2 = runTask ?s2" "LOS_Schedule s2 = Some s'"
        "kinv n s' L'" "ikeep ?s2 s'" and Q: "\<And>q'. plain q' \<Longrightarrow> L' q' = (if q' = NMux i then Some ys else L1 q')"
        and un: "\<And>u. is_unused (status s' u) = is_unused (status ?s2 u)" and x2: "xkeep {} ?s2 s'"
        by (rule ks.wake_first_law [OF I2 q w]) (rule that; assumption)
      have O: "LOS_MuxPost h s = Some (LOS_OK, s')" using O1 em Cons f 2(1,4) by simp
      have g: "g_allMux s' = (g_allMux s)(i := (mux s i)\<lparr>muxCount := 1, owner := Some w, mux_priority := priority (tcb s1 w)\<rparr>)"
        using ikeep_sel(2) [OF 2(6)] m1 by (simp add: upd_tcb_def upd_mux_def)
      have al': "alive s' u = alive s u" for u
        using alive_ikeep [OF 2(6) un, of u] al1 [of u] by (cases "u = w") (simp_all add: alive_def upd_tcb_def upd_mux_def)
      have Q': "L' (NMux j) = (if j = i then Some ys else L (NMux j))" "L' NUnusedMux = L NUnusedMux" for j
        using Q [OF pl(1)] Q [OF pl(2)] Q1 by simp_all
      have pr: "priority (tcb s' u) = (if u = t then ?p else priority (tcb s u))" for u
        using ikeep_tcb_sel(1) [OF 2(6), of u] pr1 [of u] by (simp add: upd_tcb_def upd_mux_def split: if_splits)
      have M': "mux_inv s' L'"
        by (rule mux_inv_change [OF M, of _ _ i])
           (use D il v xs release M Q' g al' wa al1 in \<open>simp_all add: mux_ok_def mux_inv_def mem_def\<close>)
      have QX: "plain q \<Longrightarrow> q \<noteq> NMux (unat h) \<Longrightarrow> L' q = L q" for q
        using Q [of q] Q1 [of q] by (simp add: plain_def i_def)
      have X: "xkeep {Mux_pool} s s'"
        by (rule xkeep_trans [OF xkeep_trans [OF X1 xkeep_upd_mux] xkeep_trans [OF xkeep_upd_tcb xkeep_mono [OF x2]]]) simp_all
      show thesis
        by (rule that [OF _ 2(5) M' _ _ _ QX X])
           (use O release xs Cons wt g Q' pr in \<open>simp_all add: i_def [symmetric] abs mux_abs_def\<close>)
    qed
  qed
qed

subsection \<open>Creation and deletion\<close>

lemma mux_unused_first:
  assumes "mux_inv s L" "L NUnusedMux = Some (NMux i # us)"
  shows "i < LOSCFG_BASE_IPC_MUX_LIMIT" "muxStat (mux s i) = OS_MUX_UNUSED"
proof -
  have m: "mem L NUnusedMux (NMux i)" using assms(2) by (simp add: mem_def)
  then show "i < LOSCFG_BASE_IPC_MUX_LIMIT" using assms(1) by (simp add: mux_inv_def)
  then show "muxStat (mux s i) = OS_MUX_UNUSED" using mux_inv_D(2) [OF assms(1)] m by simp
qed

lemma mux_create_law:
  assumes I: "kinv n s L" and S: "mux_inv s L" and u: "L NUnusedMux = Some (NMux i # us)"
  obtains s' where "LOS_MuxCreate True s = Some ((LOS_OK, Some (of_nat i)), s')"
    "kinv n s' (L(NUnusedMux \<mapsto> us, NMux i \<mapsto> []))" "mux_inv s' (L(NUnusedMux \<mapsto> us, NMux i \<mapsto> []))"
    "mux_abs s' (L(NUnusedMux \<mapsto> us, NMux i \<mapsto> [])) i = (None, [])"
    "muxStat (mux s' i) = OS_MUX_USED" "\<And>j. j \<noteq> i \<Longrightarrow> mux s' j = mux s j" "xkeep {Mux_pool} s s'"
proof -
  let ?L = "L(NUnusedMux \<mapsto> us, NMux i \<mapsto> [])"
  note il = mux_unused_first [OF S u]
  note R = kinv_rep [OF I]
  obtain h where h: "k_ListDelete (NMux i) s = Some (s\<lparr>dl := h\<rparr>)"
    "kinv n (k_ListInit (NMux i) (s\<lparr>dl := h\<rparr>)) ?L"
    by (rule mux_pool.take_law [OF I u]) (rule that; assumption)
  have e: "\<not> k_ListEmpty NUnusedMux s" "pstNext (dl s) NUnusedMux = Some (NMux i)"
    using list_empty [OF R u] list_first [OF R u] by simp_all
  define s' where "s' = k_ListInit (NMux i)
    (upd_mux i (\<lambda>c. c\<lparr>muxCount := 0, muxStat := OS_MUX_USED, mux_priority := 0, owner := None\<rparr>) (s\<lparr>dl := h\<rparr>))"
  have O: "LOS_MuxCreate True s = Some ((LOS_OK, Some (of_nat i)), s')"
    using e h(1) mux_inv_D(1) [OF S il(1)] by (auto simp: LOS_MuxCreate_def s'_def k_ListInit_def upd_mux_def Let_def)
  have K: "kinv n s' ?L" by (rule kinv_cong [OF h(2)]) (simp_all add: s'_def k_ListInit_def upd_mux_def)
  have s: "mux s' j = (if j = i then (mux s i)\<lparr>muxCount := 0, muxStat := OS_MUX_USED, mux_priority := 0, owner := None\<rparr>
      else mux s j)" for j
    by (simp add: s'_def k_ListInit_def upd_mux_def)
  have al: "alive s' t = alive s t" for t by (simp add: s'_def k_ListInit_def upd_mux_def alive_def)
  have d: "NMux i \<notin> set us" using dl_rep_distinct [OF R u] by simp
  have S': "mux_inv s' ?L"
    by (rule mux_inv_change [OF S, of _ _ i])
       (use mux_inv_D(1) [OF S il(1)] d il(1) u al in \<open>auto simp: s mux_ok_def mem_def\<close>)
  have X: "xkeep {Mux_pool} s s'" by (simp add: xkeep_def runs_def s'_def k_ListInit_def upd_mux_def)
  show thesis by (rule that [OF O K S' _ _ _ X]) (simp_all add: s mux_abs_def)
qed

text \<open>A mutex that nobody holds can be deleted.\<close>

lemma mux_delete_law:
  assumes I: "kinv n s L" and S: "mux_inv s L" and i: "unat h < LOSCFG_BASE_IPC_MUX_LIMIT"
    and used: "muxStat (mux s (unat h)) \<noteq> OS_MUX_UNUSED" and e: "owner (mux s (unat h)) = None"
    and u: "L NUnusedMux = Some us"
  obtains s' where "LOS_MuxDelete h s = Some (LOS_OK, s')"
    "kinv n s' (L(NMux (unat h) := None, NUnusedMux \<mapsto> NMux (unat h) # us))"
    "mux_inv s' (L(NMux (unat h) := None, NUnusedMux \<mapsto> NMux (unat h) # us))"
    "muxStat (mux s' (unat h)) = OS_MUX_UNUSED" "\<And>j. j \<noteq> unat h \<Longrightarrow> mux s' j = mux s j" "xkeep {Mux_pool} s s'"
proof -
  define i where "i = unat h"
  let ?L = "L(NMux i := None, NUnusedMux \<mapsto> NMux i # us)"
  have ul: "\<not> i \<ge> LOSCFG_BASE_IPC_MUX_LIMIT" and il: "i < LOSCFG_BASE_IPC_MUX_LIMIT" and us: "muxStat (mux s i) \<noteq> OS_MUX_UNUSED"
    and o: "owner (mux s i) = None" using i used e by (simp_all add: i_def)
  note D = mux_inv_D [OF S il]
  have e': "L (NMux i) = Some []" and c: "muxCount (mux s i) = 0" using D(4,5) us o by simp_all
  obtain h' where h: "k_ListAdd NUnusedMux (NMux i) s = Some (s\<lparr>dl := h'\<rparr>)" "kinv n (s\<lparr>dl := h'\<rparr>) ?L"
    by (rule mux_pool.put_law [OF I u e']) (rule that; assumption)
  have em: "k_ListEmpty (NMux i) s" using list_empty [OF kinv_rep [OF I] e'] by simp
  let ?s = "upd_mux i (\<lambda>c. c\<lparr>muxStat := OS_MUX_UNUSED\<rparr>) (s\<lparr>dl := h'\<rparr>)"
  have O: "LOS_MuxDelete h s = Some (LOS_OK, ?s)"
    using ul us em c h(1) by (simp add: LOS_MuxDelete_def Let_def i_def [symmetric])
  have S': "mux_inv ?s ?L"
    by (rule mux_inv_change [OF S, of _ _ i])
       (use D il u in \<open>auto simp: upd_mux_def mux_ok_def mem_def alive_def\<close>)
  have X: "xkeep {Mux_pool} s ?s" by (simp add: xkeep_def runs_def upd_mux_def)
  show thesis
    by (rule that [OF O _ _ _ _ X]) (use h(2) S' in \<open>simp_all add: i_def [symmetric] upd_mux_def\<close>)
qed

text \<open>
  The counter of nested locks is 16 bits wide and not checked: one more lock
  wraps it to zero, and the mutex counts as free while its owner holds it.
\<close>

lemma mux_count_wraps:
  assumes "unat h < LOSCFG_BASE_IPC_MUX_LIMIT" "OsMuxValidCheck (unat h) s = Some LOS_OK"
    "runTask s = Some t" "owner (mux s (unat h)) = Some t" "muxCount (mux s (unat h)) = 0xFFFF"
  shows "\<exists>s'. LOS_MuxPend h timeout s = Some (Ret LOS_OK, s') \<and> muxCount (mux s' (unat h)) = 0 \<and>
           owner (mux s' (unat h)) = Some t"
  using assms by (simp add: LOS_MuxPend_def Let_def upd_mux_def)

end
