(* ===== verification/LosQueue.thy ===== *)
theory LosQueue
  imports LosPool LosMembox
begin

text \<open>
  Message queues, kernel/src/los_queue.c.  The messages of a queue are in a ring
  of \<open>queueLen\<close> nodes of \<open>queueSize\<close> bytes in \<open>byteMem\<close>; the last word of a node is
  the length of its message.  An operation type carries, as in the code, the
  direction in bit 0, head or tail in bit 1 and the pointer mode in bit 2.

  A buffer is \<open>Buf a\<close>, at the address \<open>a\<close>, or \<open>Local ws\<close>, a local variable of the
  caller with the words \<open>ws\<close>, which overlaps no other memory (the functions that
  write a pointer into the queue pass the address of their parameter).
  \<open>*bufferSize\<close> is passed in and returned.
\<close>

abbreviation (input) LOSCFG_BASE_IPC_QUEUE_LIMIT :: nat where "LOSCFG_BASE_IPC_QUEUE_LIMIT \<equiv> 24"
abbreviation (input) OS_QUEUE_UNUSED :: u16 where "OS_QUEUE_UNUSED \<equiv> 0"
abbreviation (input) OS_QUEUE_INUSED :: u16 where "OS_QUEUE_INUSED \<equiv> 1"
abbreviation (input) LOS_NO_WAIT :: u32 where "LOS_NO_WAIT \<equiv> 0"

abbreviation (input) LOS_ERRNO_QUEUE_NO_MEMORY :: u32 where "LOS_ERRNO_QUEUE_NO_MEMORY \<equiv> 0x02000601"
abbreviation (input) LOS_ERRNO_QUEUE_CREATE_NO_MEMORY :: u32 where "LOS_ERRNO_QUEUE_CREATE_NO_MEMORY \<equiv> 0x02000602"
abbreviation (input) LOS_ERRNO_QUEUE_SIZE_TOO_BIG :: u32 where "LOS_ERRNO_QUEUE_SIZE_TOO_BIG \<equiv> 0x02000603"
abbreviation (input) LOS_ERRNO_QUEUE_CB_UNAVAILABLE :: u32 where "LOS_ERRNO_QUEUE_CB_UNAVAILABLE \<equiv> 0x02000604"
abbreviation (input) LOS_ERRNO_QUEUE_NOT_FOUND :: u32 where "LOS_ERRNO_QUEUE_NOT_FOUND \<equiv> 0x02000605"
abbreviation (input) LOS_ERRNO_QUEUE_PEND_IN_LOCK :: u32 where "LOS_ERRNO_QUEUE_PEND_IN_LOCK \<equiv> 0x02000606"
abbreviation (input) LOS_ERRNO_QUEUE_TIMEOUT :: u32 where "LOS_ERRNO_QUEUE_TIMEOUT \<equiv> 0x02000607"
abbreviation (input) LOS_ERRNO_QUEUE_IN_TSKUSE :: u32 where "LOS_ERRNO_QUEUE_IN_TSKUSE \<equiv> 0x02000608"
abbreviation (input) LOS_ERRNO_QUEUE_WRITE_IN_INTERRUPT :: u32 where "LOS_ERRNO_QUEUE_WRITE_IN_INTERRUPT \<equiv> 0x02000609"
abbreviation (input) LOS_ERRNO_QUEUE_NOT_CREATE :: u32 where "LOS_ERRNO_QUEUE_NOT_CREATE \<equiv> 0x0200060A"
abbreviation (input) LOS_ERRNO_QUEUE_IN_TSKWRITE :: u32 where "LOS_ERRNO_QUEUE_IN_TSKWRITE \<equiv> 0x0200060B"
abbreviation (input) LOS_ERRNO_QUEUE_CREAT_PTR_NULL :: u32 where "LOS_ERRNO_QUEUE_CREAT_PTR_NULL \<equiv> 0x0200060C"
abbreviation (input) LOS_ERRNO_QUEUE_PARA_ISZERO :: u32 where "LOS_ERRNO_QUEUE_PARA_ISZERO \<equiv> 0x0200060D"
abbreviation (input) LOS_ERRNO_QUEUE_INVALID :: u32 where "LOS_ERRNO_QUEUE_INVALID \<equiv> 0x0200060E"
abbreviation (input) LOS_ERRNO_QUEUE_READ_PTR_NULL :: u32 where "LOS_ERRNO_QUEUE_READ_PTR_NULL \<equiv> 0x0200060F"
abbreviation (input) LOS_ERRNO_QUEUE_READSIZE_ISZERO :: u32 where "LOS_ERRNO_QUEUE_READSIZE_ISZERO \<equiv> 0x02000610"
abbreviation (input) LOS_ERRNO_QUEUE_WRITE_PTR_NULL :: u32 where "LOS_ERRNO_QUEUE_WRITE_PTR_NULL \<equiv> 0x02000612"
abbreviation (input) LOS_ERRNO_QUEUE_WRITESIZE_ISZERO :: u32 where "LOS_ERRNO_QUEUE_WRITESIZE_ISZERO \<equiv> 0x02000613"
abbreviation (input) LOS_ERRNO_QUEUE_WRITE_SIZE_TOO_BIG :: u32 where "LOS_ERRNO_QUEUE_WRITE_SIZE_TOO_BIG \<equiv> 0x02000615"
abbreviation (input) LOS_ERRNO_QUEUE_ISFULL :: u32 where "LOS_ERRNO_QUEUE_ISFULL \<equiv> 0x02000616"
abbreviation (input) LOS_ERRNO_QUEUE_PTR_NULL :: u32 where "LOS_ERRNO_QUEUE_PTR_NULL \<equiv> 0x02000617"
abbreviation (input) LOS_ERRNO_QUEUE_READ_IN_INTERRUPT :: u32 where "LOS_ERRNO_QUEUE_READ_IN_INTERRUPT \<equiv> 0x02000618"
abbreviation (input) LOS_ERRNO_QUEUE_MAIL_HANDLE_INVALID :: u32 where "LOS_ERRNO_QUEUE_MAIL_HANDLE_INVALID \<equiv> 0x02000619"
abbreviation (input) LOS_ERRNO_QUEUE_MAIL_PTR_INVALID :: u32 where "LOS_ERRNO_QUEUE_MAIL_PTR_INVALID \<equiv> 0x0200061A"
abbreviation (input) LOS_ERRNO_QUEUE_MAIL_FREE_ERROR :: u32 where "LOS_ERRNO_QUEUE_MAIL_FREE_ERROR \<equiv> 0x0200061B"
abbreviation (input) LOS_ERRNO_QUEUE_ISEMPTY :: u32 where "LOS_ERRNO_QUEUE_ISEMPTY \<equiv> 0x0200061D"
abbreviation (input) LOS_ERRNO_QUEUE_BUFFER_SIZE_TOO_BIG :: u32 where "LOS_ERRNO_QUEUE_BUFFER_SIZE_TOO_BIG \<equiv> 0x02000620"

datatype qbuf = Buf u32 | Local "u32 list"

abbreviation que :: "kstate \<Rightarrow> nat \<Rightarrow> LosQueueCB" where
  "que s i \<equiv> g_allQueue s i"

definition upd_que :: "nat \<Rightarrow> (LosQueueCB \<Rightarrow> LosQueueCB) \<Rightarrow> kstate \<Rightarrow> kstate" where
  "upd_que i f s = s\<lparr>g_allQueue := (g_allQueue s)(i := f (g_allQueue s i))\<rparr>"

fun GET_QUEUE_LIST :: "node \<Rightarrow> nat option" where
  "GET_QUEUE_LIST (NQWrite i) = Some i"
| "GET_QUEUE_LIST _ = None"

definition OsGetQueueHandle :: "u32 \<Rightarrow> nat" where
  "OsGetQueueHandle qid = unat qid"

text \<open>readWriteableCnt and readWriteList, indexed by the direction (\<open>True\<close> is OS_QUEUE_WRITE).\<close>

definition rw_cnt :: "bool \<Rightarrow> LosQueueCB \<Rightarrow> u16" where
  "rw_cnt w c = (if w then writableCnt c else readableCnt c)"

definition upd_cnt :: "bool \<Rightarrow> (u16 \<Rightarrow> u16) \<Rightarrow> LosQueueCB \<Rightarrow> LosQueueCB" where
  "upd_cnt w f c = (if w then c\<lparr>writableCnt := f (writableCnt c)\<rparr> else c\<lparr>readableCnt := f (readableCnt c)\<rparr>)"

definition rw_list :: "bool \<Rightarrow> nat \<Rightarrow> node" where
  "rw_list w i = (if w then NQWrite i else NQRead i)"

definition OS_QUEUE_OPERATE_TYPE :: "u32 \<Rightarrow> u32 \<Rightarrow> u32 \<Rightarrow> u32" where
  "OS_QUEUE_OPERATE_TYPE readOrWrite headOrTail pointOrNot =
     push_bit 2 pointOrNot OR push_bit 1 headOrTail OR readOrWrite"

definition OS_QUEUE_IS_WRITE :: "u32 \<Rightarrow> bool" where
  "OS_QUEUE_IS_WRITE type \<longleftrightarrow> type AND 1 = 1"

definition OS_QUEUE_IS_POINT :: "u32 \<Rightarrow> bool" where
  "OS_QUEUE_IS_POINT type \<longleftrightarrow> type AND 4 \<noteq> 0"

definition null_queue :: LosQueueCB where
  "null_queue = \<lparr>queue_buf = 0, queueName = 0, queueState = 0, queueLen = 0, queueSize = 0, queueID = 0,
     queueHead = 0, queueTail = 0, readableCnt = 0, writableCnt = 0\<rparr>"

primrec queue_init_loop :: "nat list \<Rightarrow> kstate \<Rightarrow> kstate option" where
  "queue_init_loop [] s = Some s"
| "queue_init_loop (i # is) s = do {
     s \<leftarrow> k_ListTailInsert NFreeQueue (NQWrite i) (upd_que i (\<lambda>c. c\<lparr>queueID := of_nat i\<rparr>) s);
     queue_init_loop is s
   }"

definition OsQueueInit :: "kstate \<Rightarrow> (u32 \<times> kstate) option" where
  "OsQueueInit s =
     (let (p, s) = LOS_MemAlloc s
      in if p = 0 then Some (LOS_ERRNO_QUEUE_NO_MEMORY, s)
         else do {
           let s = s\<lparr>g_allQueue := (\<lambda>i. if i < LOSCFG_BASE_IPC_QUEUE_LIMIT then null_queue else g_allQueue s i)\<rparr>;
           let s = k_ListInit NFreeQueue s;
           s \<leftarrow> queue_init_loop [0..<LOSCFG_BASE_IPC_QUEUE_LIMIT] s;
           Some (LOS_OK, s)
         })"

definition OsQueueCreate :: "u32 \<Rightarrow> u16 \<Rightarrow> bool \<Rightarrow> u16 \<Rightarrow> kstate \<Rightarrow> ((u32 \<times> u32 option) \<times> kstate) option" where
  "OsQueueCreate name len queueIDp maxMsgSize s =
     (if \<not> queueIDp then Some ((LOS_ERRNO_QUEUE_CREAT_PTR_NULL, None), s)
      else if maxMsgSize > 0xFFFF - 4 then Some ((LOS_ERRNO_QUEUE_SIZE_TOO_BIG, None), s)
      else if len = 0 \<or> maxMsgSize = 0 then Some ((LOS_ERRNO_QUEUE_PARA_ISZERO, None), s)
      else let msgSize = maxMsgSize + 4
           in if 0xFFFFFFFF div (ucast msgSize :: u32) < ucast len
              then Some ((LOS_ERRNO_QUEUE_SIZE_TOO_BIG, None), s)
              else let (queue, s) = LOS_MemAlloc s
              in if queue = 0 then Some ((LOS_ERRNO_QUEUE_CREATE_NO_MEMORY, None), s)
              else if k_ListEmpty NFreeQueue s
              then Some ((LOS_ERRNO_QUEUE_CB_UNAVAILABLE, None), LOS_MemFree queue s)
              else do {
                unusedQueue \<leftarrow> pstNext (dl s) NFreeQueue;
                s \<leftarrow> k_ListDelete unusedQueue s;
                i \<leftarrow> GET_QUEUE_LIST unusedQueue;
                let s = upd_que i (\<lambda>c. c\<lparr>queueName := name, queueLen := len, queueSize := msgSize,
                          queue_buf := queue, queueState := OS_QUEUE_INUSED, readableCnt := 0,
                          writableCnt := len, queueHead := 0, queueTail := 0\<rparr>) s;
                let s = k_ListInit (NQRead i) s;
                let s = k_ListInit (NQWrite i) s;
                let s = k_ListInit (NQMem i) s;
                Some ((LOS_OK, Some (ucast (queueID (que s i)))), s)
              })"

definition LOS_QueueCreate :: "u32 \<Rightarrow> u16 \<Rightarrow> bool \<Rightarrow> u32 \<Rightarrow> u16 \<Rightarrow> kstate \<Rightarrow> ((u32 \<times> u32 option) \<times> kstate) option" where
  "LOS_QueueCreate name len queueIDp flags maxMsgSize s = OsQueueCreate name len queueIDp maxMsgSize s"

text \<open>\<open>bufferSize = None\<close> is a NULL pointer.\<close>

definition OsQueueReadParameterCheck :: "u32 \<Rightarrow> qbuf \<Rightarrow> u32 option \<Rightarrow> u32 \<Rightarrow> kstate \<Rightarrow> u32" where
  "OsQueueReadParameterCheck qid bufferAddr bufferSize timeOut s =
     (if unat qid \<ge> LOSCFG_BASE_IPC_QUEUE_LIMIT then LOS_ERRNO_QUEUE_INVALID
      else if bufferAddr = Buf 0 \<or> bufferSize = None then LOS_ERRNO_QUEUE_READ_PTR_NULL
      else if bufferSize = Some 0 then LOS_ERRNO_QUEUE_READSIZE_ISZERO
      else if timeOut \<noteq> LOS_NO_WAIT \<and> os_int_active s then LOS_ERRNO_QUEUE_READ_IN_INTERRUPT
      else LOS_OK)"

definition OsQueueWriteParameterCheck :: "u32 \<Rightarrow> qbuf \<Rightarrow> u32 \<Rightarrow> u32 \<Rightarrow> kstate \<Rightarrow> u32" where
  "OsQueueWriteParameterCheck qid bufferAddr bufferSize timeOut s =
     (if unat qid \<ge> LOSCFG_BASE_IPC_QUEUE_LIMIT then LOS_ERRNO_QUEUE_INVALID
      else if bufferAddr = Buf 0 then LOS_ERRNO_QUEUE_WRITE_PTR_NULL
      else if bufferSize = 0 then LOS_ERRNO_QUEUE_WRITESIZE_ISZERO
      else if timeOut \<noteq> LOS_NO_WAIT \<and> os_int_active s then LOS_ERRNO_QUEUE_WRITE_IN_INTERRUPT
      else LOS_OK)"

text \<open>The position of the node to use, and the queue with its head or tail moved.\<close>

definition queue_position :: "u32 \<Rightarrow> LosQueueCB \<Rightarrow> (u16 \<times> LosQueueCB) option" where
  "queue_position operateType c =
     (if operateType AND 3 = 0
      then Some (queueHead c,
             c\<lparr>queueHead := if unat (queueHead c) + 1 = unat (queueLen c) then 0 else queueHead c + 1\<rparr>)
      else if operateType AND 3 = 1
      then let c = c\<lparr>queueHead := if queueHead c = 0 then queueLen c - 1 else queueHead c - 1\<rparr>
           in Some (queueHead c, c)
      else if operateType AND 3 = 3
      then Some (queueTail c,
             c\<lparr>queueTail := if unat (queueTail c) + 1 = unat (queueLen c) then 0 else queueTail c + 1\<rparr>)
      else None)"

primrec wr_words :: "u32 \<Rightarrow> u32 list \<Rightarrow> memory \<Rightarrow> memory" where
  "wr_words a [] m = m"
| "wr_words a (w # ws) m = wr_words (a + 4) ws (wr32 a w m)"

text \<open>Copying between a node and the caller's buffer; the result is the new \<open>*bufferSize\<close>.\<close>

definition node_transfer :: "u32 \<Rightarrow> u32 \<Rightarrow> u32 \<Rightarrow> qbuf \<Rightarrow> u32 \<Rightarrow> memory \<Rightarrow> u32 \<times> memory" where
  "node_transfer operateType node sz bufferAddr bufferSize m =
     (if OS_QUEUE_IS_POINT operateType
      then if \<not> OS_QUEUE_IS_WRITE operateType
           then (bufferSize, case bufferAddr of Buf a \<Rightarrow> wr32 a (rd32 m node) m | Local _ \<Rightarrow> m)
           else (bufferSize, case bufferAddr of Buf a \<Rightarrow> wr32 node (rd32 m a) m | Local ws \<Rightarrow> wr_words node (take 1 ws) m)
      else if \<not> OS_QUEUE_IS_WRITE operateType
      then let msgDataSize = rd32 m (node + sz - 4);
               msgDataSize = (if bufferSize < msgDataSize then bufferSize else msgDataSize)
           in case bufferAddr of
                Local _ \<Rightarrow> (msgDataSize, m)
              | Buf a \<Rightarrow> let (rc, m) = memcpy_s a bufferSize node msgDataSize m
                         in if rc \<noteq> EOK then (bufferSize, m) else (msgDataSize, m)
      else let m = wr32 (node + sz - 4) bufferSize m
           in case bufferAddr of
                Local ws \<Rightarrow> (bufferSize, wr_words node ws m)
              | Buf a \<Rightarrow> (bufferSize, snd (memcpy_s node sz a bufferSize m)))"

definition OsQueueBufferOperate :: "nat \<Rightarrow> u32 \<Rightarrow> qbuf \<Rightarrow> u32 \<Rightarrow> kstate \<Rightarrow> u32 \<times> kstate" where
  "OsQueueBufferOperate i operateType bufferAddr bufferSize s =
     (case queue_position operateType (que s i) of
        None \<Rightarrow> (bufferSize, s)
      | Some (pos, c) \<Rightarrow>
          let node = queue_buf c + ucast pos * ucast (queueSize c);
              (n, m) = node_transfer operateType node (ucast (queueSize c)) bufferAddr bufferSize (byteMem s)
          in (n, s\<lparr>g_allQueue := (g_allQueue s)(i := c), byteMem := m\<rparr>))"

definition OsQueueOperateParamCheck :: "LosQueueCB \<Rightarrow> u32 \<Rightarrow> u32 \<Rightarrow> u32" where
  "OsQueueOperateParamCheck c operateType bufferSize =
     (if queueState c = OS_QUEUE_UNUSED then LOS_ERRNO_QUEUE_NOT_CREATE
      else if OS_QUEUE_IS_WRITE operateType \<and> bufferSize > ucast (queueSize c) - 4
      then LOS_ERRNO_QUEUE_WRITE_SIZE_TOO_BIG
      else if bufferSize \<ge> SECUREC_MEM_MAX_LEN then LOS_ERRNO_QUEUE_BUFFER_SIZE_TOO_BIG
      else LOS_OK)"

text \<open>What OsQueueOperate does once it has a readable or writable node: copy, and pass the node on.\<close>

definition queue_transfer :: "nat \<Rightarrow> u32 \<Rightarrow> qbuf \<Rightarrow> u32 \<Rightarrow> kstate \<Rightarrow> (u32 \<times> u32 \<times> kstate) option" where
  "queue_transfer i operateType bufferAddr bufferSize s =
     (let readWriteTmp = (\<not> OS_QUEUE_IS_WRITE operateType);
          (n, s) = OsQueueBufferOperate i operateType bufferAddr bufferSize s
      in if \<not> k_ListEmpty (rw_list readWriteTmp i) s
         then do {
           first \<leftarrow> pstNext (dl s) (rw_list readWriteTmp i);
           resumedTask \<leftarrow> OS_TCB_FROM_PENDLIST first;
           s \<leftarrow> OsSchedTaskWake resumedTask s;
           s \<leftarrow> LOS_Schedule s;
           Some (LOS_OK, n, s)
         }
         else Some (LOS_OK, n, upd_que i (upd_cnt readWriteTmp (\<lambda>k. k + 1)) s))"

text \<open>The locals a sleeping caller of OsQueueOperate keeps.\<close>

record qwait =
  qw_queue :: nat
  qw_type :: u32
  qw_addr :: qbuf
  qw_size :: u32
  qw_task :: nat

definition OsQueueOperate :: "u32 \<Rightarrow> u32 \<Rightarrow> qbuf \<Rightarrow> u32 \<Rightarrow> u32 \<Rightarrow> kstate \<Rightarrow> (qwait res \<times> u32 \<times> kstate) option" where
  "OsQueueOperate qid operateType bufferAddr bufferSize timeOut s =
     (let i = OsGetQueueHandle qid;
          readWrite = OS_QUEUE_IS_WRITE operateType;
          ret = OsQueueOperateParamCheck (que s i) operateType bufferSize
      in if ret \<noteq> LOS_OK then Some (Ret ret, bufferSize, s)
         else if rw_cnt readWrite (que s i) = 0
         then if timeOut = LOS_NO_WAIT
              then Some (Ret (if readWrite then LOS_ERRNO_QUEUE_ISFULL else LOS_ERRNO_QUEUE_ISEMPTY), bufferSize, s)
              else if g_losTaskLock s \<noteq> 0 then Some (Ret LOS_ERRNO_QUEUE_PEND_IN_LOCK, bufferSize, s)
              else do {
                run \<leftarrow> runTask s;
                s \<leftarrow> OsSchedTaskWait (rw_list readWrite i) timeOut s;
                s \<leftarrow> LOS_Schedule s;
                Some (Wait \<lparr>qw_queue = i, qw_type = operateType, qw_addr = bufferAddr,
                            qw_size = bufferSize, qw_task = run\<rparr>, bufferSize, s)
              }
         else do {
           let s = upd_que i (upd_cnt readWrite (\<lambda>k. k - 1)) s;
           (r, n, s) \<leftarrow> queue_transfer i operateType bufferAddr bufferSize s;
           Some (Ret r, n, s)
         })"

definition OsQueueOperate_resume :: "qwait \<Rightarrow> kstate \<Rightarrow> (u32 \<times> u32 \<times> kstate) option" where
  "OsQueueOperate_resume k s =
     (if status s (qw_task k) AND OS_TASK_STATUS_TIMEOUT \<noteq> 0
      then Some (LOS_ERRNO_QUEUE_TIMEOUT, qw_size k, clr_status (qw_task k) OS_TASK_STATUS_TIMEOUT s)
      else queue_transfer (qw_queue k) (qw_type k) (qw_addr k) (qw_size k) s)"

definition LOS_QueueReadCopy ::
  "u32 \<Rightarrow> u32 \<Rightarrow> u32 option \<Rightarrow> u32 \<Rightarrow> kstate \<Rightarrow> (qwait res \<times> u32 option \<times> kstate) option" where
  "LOS_QueueReadCopy qid bufferAddr bufferSize timeOut s =
     (let ret = OsQueueReadParameterCheck qid (Buf bufferAddr) bufferSize timeOut s
      in if ret \<noteq> LOS_OK then Some (Ret ret, bufferSize, s)
         else do {
           n \<leftarrow> bufferSize;
           (r, n, s) \<leftarrow> OsQueueOperate qid (OS_QUEUE_OPERATE_TYPE 0 0 0) (Buf bufferAddr) n timeOut s;
           Some (r, Some n, s)
         })"

definition LOS_QueueWriteHeadCopy :: "u32 \<Rightarrow> qbuf \<Rightarrow> u32 \<Rightarrow> u32 \<Rightarrow> kstate \<Rightarrow> (qwait res \<times> kstate) option" where
  "LOS_QueueWriteHeadCopy qid bufferAddr bufferSize timeOut s =
     (let ret = OsQueueWriteParameterCheck qid bufferAddr bufferSize timeOut s
      in if ret \<noteq> LOS_OK then Some (Ret ret, s)
         else do {
           (r, n, s) \<leftarrow> OsQueueOperate qid (OS_QUEUE_OPERATE_TYPE 1 0 0) bufferAddr bufferSize timeOut s;
           Some (r, s)
         })"

definition LOS_QueueWriteCopy :: "u32 \<Rightarrow> qbuf \<Rightarrow> u32 \<Rightarrow> u32 \<Rightarrow> kstate \<Rightarrow> (qwait res \<times> kstate) option" where
  "LOS_QueueWriteCopy qid bufferAddr bufferSize timeOut s =
     (let ret = OsQueueWriteParameterCheck qid bufferAddr bufferSize timeOut s
      in if ret \<noteq> LOS_OK then Some (Ret ret, s)
         else do {
           (r, n, s) \<leftarrow> OsQueueOperate qid (OS_QUEUE_OPERATE_TYPE 1 1 0) bufferAddr bufferSize timeOut s;
           Some (r, s)
         })"

definition LOS_QueueRead :: "u32 \<Rightarrow> u32 \<Rightarrow> u32 \<Rightarrow> u32 \<Rightarrow> kstate \<Rightarrow> (qwait res \<times> kstate) option" where
  "LOS_QueueRead qid bufferAddr bufferSize timeOut s =
     (let ret = OsQueueReadParameterCheck qid (Buf bufferAddr) (Some bufferSize) timeOut s
      in if ret \<noteq> LOS_OK then Some (Ret ret, s)
         else do {
           (r, n, s) \<leftarrow> OsQueueOperate qid (OS_QUEUE_OPERATE_TYPE 0 0 1) (Buf bufferAddr) bufferSize timeOut s;
           Some (r, s)
         })"

definition LOS_QueueWrite :: "u32 \<Rightarrow> u32 \<Rightarrow> u32 \<Rightarrow> u32 \<Rightarrow> kstate \<Rightarrow> (qwait res \<times> kstate) option" where
  "LOS_QueueWrite qid bufferAddr bufferSize timeOut s =
     (let sz = 4;
          ret = OsQueueWriteParameterCheck qid (Buf bufferAddr) sz timeOut s
      in if ret \<noteq> LOS_OK then Some (Ret ret, s)
         else do {
           (r, n, s) \<leftarrow> OsQueueOperate qid (OS_QUEUE_OPERATE_TYPE 1 1 1) (Local [bufferAddr]) sz timeOut s;
           Some (r, s)
         })"

definition LOS_QueueWriteHead :: "u32 \<Rightarrow> u32 \<Rightarrow> u32 \<Rightarrow> u32 \<Rightarrow> kstate \<Rightarrow> (qwait res \<times> kstate) option" where
  "LOS_QueueWriteHead qid bufferAddr bufferSize timeOut s =
     (if bufferAddr = 0 then Some (Ret LOS_ERRNO_QUEUE_WRITE_PTR_NULL, s)
      else LOS_QueueWriteHeadCopy qid (Local [bufferAddr]) 4 timeOut s)"

text \<open>Mail blocks: the answer is the address of the block, or the task that went to sleep.\<close>

definition OsQueueMailAlloc :: "u32 \<Rightarrow> u32 \<Rightarrow> u32 \<Rightarrow> kstate \<Rightarrow> (nat res \<times> kstate) option" where
  "OsQueueMailAlloc qid mailPool timeOut s =
     (if unat qid \<ge> LOSCFG_BASE_IPC_QUEUE_LIMIT then Some (Ret 0, s)
      else if mailPool = 0 then Some (Ret 0, s)
      else if timeOut \<noteq> LOS_NO_WAIT \<and> os_int_active s then Some (Ret 0, s)
      else let i = OsGetQueueHandle qid
           in if queueState (que s i) = OS_QUEUE_UNUSED then Some (Ret 0, s)
              else let (mem, m) = LOS_MemboxAlloc (LOS_CurTaskIDGet s) mailPool (byteMem s);
                       s = s\<lparr>byteMem := m\<rparr>
                   in if mem \<noteq> 0 then Some (Ret mem, s)
                      else if timeOut = LOS_NO_WAIT then Some (Ret 0, s)
                      else do {
                        run \<leftarrow> runTask s;
                        s \<leftarrow> OsSchedTaskWait (NQMem i) timeOut s;
                        s \<leftarrow> LOS_Schedule s;
                        Some (Wait run, s)
                      })"

definition OsQueueMailAlloc_resume :: "nat \<Rightarrow> kstate \<Rightarrow> u32 \<times> kstate" where
  "OsQueueMailAlloc_resume run s =
     (if status s run AND OS_TASK_STATUS_TIMEOUT \<noteq> 0
      then (0, clr_status run OS_TASK_STATUS_TIMEOUT s)
      else (msg (tcb s run), upd_tcb run (\<lambda>c. c\<lparr>msg := 0\<rparr>) s))"

definition OsQueueMailFree :: "u32 \<Rightarrow> u32 \<Rightarrow> u32 \<Rightarrow> kstate \<Rightarrow> (u32 \<times> kstate) option" where
  "OsQueueMailFree qid mailPool mailMem s =
     (if unat qid \<ge> LOSCFG_BASE_IPC_QUEUE_LIMIT then Some (LOS_ERRNO_QUEUE_MAIL_HANDLE_INVALID, s)
      else if mailPool = 0 then Some (LOS_ERRNO_QUEUE_MAIL_PTR_INVALID, s)
      else let i = OsGetQueueHandle qid
           in if queueState (que s i) = OS_QUEUE_UNUSED then Some (LOS_ERRNO_QUEUE_NOT_CREATE, s)
              else if \<not> k_ListEmpty (NQMem i) s
              then do {
                first \<leftarrow> pstNext (dl s) (NQMem i);
                resumedTask \<leftarrow> OS_TCB_FROM_PENDLIST first;
                let s = upd_tcb resumedTask (\<lambda>c. c\<lparr>msg := mailMem\<rparr>) s;
                s \<leftarrow> OsSchedTaskWake resumedTask s;
                s \<leftarrow> LOS_Schedule s;
                Some (LOS_OK, s)
              }
              else let (r, m) = LOS_MemboxFree mailPool mailMem (byteMem s);
                       s = s\<lparr>byteMem := m\<rparr>
                   in Some (if r \<noteq> LOS_OK then LOS_ERRNO_QUEUE_MAIL_FREE_ERROR else LOS_OK, s))"

definition LOS_QueueDelete :: "u32 \<Rightarrow> kstate \<Rightarrow> (u32 \<times> kstate) option" where
  "LOS_QueueDelete qid s =
     (if unat qid \<ge> LOSCFG_BASE_IPC_QUEUE_LIMIT then Some (LOS_ERRNO_QUEUE_NOT_FOUND, s)
      else let i = OsGetQueueHandle qid; c = que s i
           in if queueState c = OS_QUEUE_UNUSED then Some (LOS_ERRNO_QUEUE_NOT_CREATE, s)
              else if \<not> k_ListEmpty (NQRead i) s then Some (LOS_ERRNO_QUEUE_IN_TSKUSE, s)
              else if \<not> k_ListEmpty (NQWrite i) s then Some (LOS_ERRNO_QUEUE_IN_TSKUSE, s)
              else if \<not> k_ListEmpty (NQMem i) s then Some (LOS_ERRNO_QUEUE_IN_TSKUSE, s)
              else if unat (writableCnt c) + unat (readableCnt c) \<noteq> unat (queueLen c)
              then Some (LOS_ERRNO_QUEUE_IN_TSKWRITE, s)
              else do {
                let queue = queue_buf c;
                let s = upd_que i (\<lambda>c. c\<lparr>queue_buf := 0, queueName := 0, queueState := OS_QUEUE_UNUSED\<rparr>) s;
                s \<leftarrow> k_ListAdd NFreeQueue (NQWrite i) s;
                Some (0, LOS_MemFree queue s)
              })"

record QUEUE_INFO_S =
  qi_queueID :: u32
  qi_queueLen :: u16
  qi_queueSize :: u16
  qi_queueHead :: u16
  qi_queueTail :: u16
  qi_writableCnt :: u16
  qi_readableCnt :: u16
  waitReadTask :: "u32 list"
  waitWriteTask :: "u32 list"
  waitMemTask :: "u32 list"

text \<open>LOS_DL_LIST_FOR_EACH_ENTRY over a wait list, setting one bit per task.\<close>

partial_function (option) wait_bits_loop :: "node \<Rightarrow> node \<Rightarrow> u32 list \<Rightarrow> kstate \<Rightarrow> u32 list option" where
  "wait_bits_loop head cur bits s =
     (if cur = head then Some bits
      else do {
        t \<leftarrow> OS_TCB_FROM_PENDLIST cur;
        let k = unat (drop_bit 5 (taskID (tcb s t)));
        _ \<leftarrow> los_assert (k < length bits);
        nxt \<leftarrow> pstNext (dl s) cur;
        wait_bits_loop head nxt (bits[k := bits ! k OR push_bit (unat (taskID (tcb s t) AND 31)) 1]) s
      })"

definition wait_bits :: "node \<Rightarrow> kstate \<Rightarrow> u32 list option" where
  "wait_bits head s = do { first \<leftarrow> pstNext (dl s) head; wait_bits_loop head first [0] s }"

definition LOS_QueueInfoGet :: "u32 \<Rightarrow> bool \<Rightarrow> kstate \<Rightarrow> (u32 \<times> QUEUE_INFO_S option) option" where
  "LOS_QueueInfoGet qid queueInfo s =
     (if \<not> queueInfo then Some (LOS_ERRNO_QUEUE_PTR_NULL, None)
      else if unat qid \<ge> LOSCFG_BASE_IPC_QUEUE_LIMIT then Some (LOS_ERRNO_QUEUE_INVALID, None)
      else let i = OsGetQueueHandle qid; c = que s i
           in if queueState c = OS_QUEUE_UNUSED
              then Some (LOS_ERRNO_QUEUE_NOT_CREATE, Some \<lparr>qi_queueID = 0, qi_queueLen = 0, qi_queueSize = 0,
                     qi_queueHead = 0, qi_queueTail = 0, qi_writableCnt = 0, qi_readableCnt = 0,
                     waitReadTask = [0], waitWriteTask = [0], waitMemTask = [0]\<rparr>)
              else do {
                r \<leftarrow> wait_bits (NQRead i) s;
                w \<leftarrow> wait_bits (NQWrite i) s;
                m \<leftarrow> wait_bits (NQMem i) s;
                Some (LOS_OK, Some \<lparr>qi_queueID = qid, qi_queueLen = queueLen c, qi_queueSize = queueSize c,
                     qi_queueHead = queueHead c, qi_queueTail = queueTail c, qi_writableCnt = writableCnt c,
                     qi_readableCnt = readableCnt c, waitReadTask = r, waitWriteTask = w, waitMemTask = m\<rparr>)
              })"

subsection \<open>The ring as a list\<close>

text \<open>
  \<open>ring c k\<close>: the head and the tail of the queue enclose \<open>k\<close> nodes.  Position
  \<open>slot_pos c j\<close> is the one \<open>j\<close> places behind the head.
\<close>

definition ring :: "LosQueueCB \<Rightarrow> nat \<Rightarrow> bool" where
  "ring c k \<longleftrightarrow> unat (queueHead c) < unat (queueLen c) \<and> unat (queueTail c) < unat (queueLen c) \<and>
     k \<le> unat (queueLen c) \<and> unat (queueTail c) = (unat (queueHead c) + k) mod unat (queueLen c)"

definition slot_pos :: "LosQueueCB \<Rightarrow> nat \<Rightarrow> nat" where
  "slot_pos c j = (unat (queueHead c) + j) mod unat (queueLen c)"

abbreviation (input) READ_HEAD :: u32 where "READ_HEAD \<equiv> 0"
abbreviation (input) WRITE_HEAD :: u32 where "WRITE_HEAD \<equiv> 1"
abbreviation (input) WRITE_TAIL :: u32 where "WRITE_TAIL \<equiv> 3"

lemma slot_pos_less: "0 < unat (queueLen c) \<Longrightarrow> slot_pos c j < unat (queueLen c)"
  by (simp add: slot_pos_def)

lemma slot_pos_inj:
  assumes j: "j < unat (queueLen c)" and j': "j' < unat (queueLen c)" and e: "slot_pos c j = slot_pos c j'"
  shows "j = j'"
proof -
  have "int (unat (queueHead c) + j) mod int (unat (queueLen c)) = int (unat (queueHead c) + j') mod int (unat (queueLen c))"
    using e unfolding slot_pos_def zmod_int [symmetric] by simp
  from mod_diff_cong [OF this refl, of "int (unat (queueHead c))"]
  have "int j mod int (unat (queueLen c)) = int j' mod int (unat (queueLen c))" by simp
  then have "j mod unat (queueLen c) = j' mod unat (queueLen c)" unfolding zmod_int [symmetric] by (simp only: of_nat_eq_iff)
  then show ?thesis using j j' by simp
qed

lemma ring_read:
  assumes "ring c k" "0 < k" "t AND 3 = READ_HEAD"
  obtains c' where "queue_position t c = Some (queueHead c, c')" "ring c' (k - 1)" "slot_pos c 0 = unat (queueHead c)"
    "\<And>j. slot_pos c' j = slot_pos c (j + 1)" "c' = c\<lparr>queueHead := queueHead c'\<rparr>"
proof -
  let ?n = "unat (queueLen c)" and ?h = "unat (queueHead c)"
  let ?c = "c\<lparr>queueHead := if ?h + 1 = ?n then 0 else queueHead c + 1\<rparr>"
  have h: "?h < ?n" using assms(1) by (simp add: ring_def)
  have n: "?n < 65536" by (rule unat_lt16)
  have u: "unat (queueHead ?c) = (?h + 1) mod ?n"
    using h n by (auto simp: unat_word_ariths)
  have s: "slot_pos ?c j = slot_pos c (j + 1)" for j
    using mod_add_left_eq [of "?h + 1" ?n j] unfolding slot_pos_def u by (simp add: ac_simps)
  have "unat (queueTail c) = slot_pos c k" using assms(1) by (simp add: ring_def slot_pos_def)
  then have "unat (queueTail ?c) = slot_pos ?c (k - 1)" using s [of "k - 1"] assms(2) by simp
  then have R: "ring ?c (k - 1)" using assms(1,2) u h unfolding ring_def slot_pos_def by auto
  show thesis
    by (rule that [OF _ R]) (use assms h s in \<open>simp_all add: queue_position_def slot_pos_def\<close>)
qed

lemma ring_write_tail:
  assumes "ring c k" "k < unat (queueLen c)" "t AND 3 = WRITE_TAIL"
  obtains c' where "queue_position t c = Some (queueTail c, c')" "ring c' (k + 1)" "slot_pos c k = unat (queueTail c)"
    "\<And>j. slot_pos c' j = slot_pos c j" "c' = c\<lparr>queueTail := queueTail c'\<rparr>"
proof -
  let ?n = "unat (queueLen c)" and ?h = "unat (queueTail c)"
  let ?c = "c\<lparr>queueTail := if ?h + 1 = ?n then 0 else queueTail c + 1\<rparr>"
  have h: "?h < ?n" using assms(1) by (simp add: ring_def)
  have n: "?n < 65536" by (rule unat_lt16)
  have u: "unat (queueTail ?c) = (?h + 1) mod ?n"
    using h n by (auto simp: unat_word_ariths)
  have s: "slot_pos ?c j = slot_pos c j" for j
    unfolding slot_pos_def by simp
  have k: "?h = (unat (queueHead c) + k) mod ?n" using assms(1) by (simp add: ring_def)
  have t: "((unat (queueHead c) + k) mod ?n + 1) mod ?n = (unat (queueHead c) + (k + 1)) mod ?n"
    using mod_add_left_eq [of "unat (queueHead c) + k" ?n 1] by (simp add: ac_simps)
  have "unat (queueTail ?c) = (unat (queueHead c) + (k + 1)) mod ?n" using u unfolding k t .
  then have R: "ring ?c (k + 1)" using assms(1,2) u h unfolding ring_def by auto
  show thesis
    by (rule that [OF _ R]) (use assms k s in \<open>simp_all add: queue_position_def slot_pos_def\<close>)
qed

lemma ring_write_head:
  assumes "ring c k" "k < unat (queueLen c)" "t AND 3 = WRITE_HEAD"
  obtains c' where "queue_position t c = Some (queueHead c', c')" "ring c' (k + 1)"
    "slot_pos c' 0 = unat (queueHead c')" "\<And>j. slot_pos c' (j + 1) = slot_pos c j" "c' = c\<lparr>queueHead := queueHead c'\<rparr>"
proof -
  let ?n = "unat (queueLen c)" and ?h = "unat (queueHead c)"
  let ?c = "c\<lparr>queueHead := if queueHead c = 0 then queueLen c - 1 else queueHead c - 1\<rparr>"
  have h: "?h < ?n" using assms(1) by (simp add: ring_def)
  have u: "unat (queueHead ?c) = (if ?h = 0 then ?n - 1 else ?h - 1)"
    using h by (cases "queueLen c = 0") (auto simp: unat_minus_one unat_eq_zero)
  then have u': "(unat (queueHead ?c) + 1) mod ?n = ?h" "unat (queueHead ?c) < ?n" using h by auto
  have s: "slot_pos ?c (j + 1) = slot_pos c j" for j
    using mod_add_left_eq [of "unat (queueHead ?c) + 1" ?n j] u' unfolding slot_pos_def by (simp add: ac_simps)
  have "unat (queueTail c) = slot_pos c k" using assms(1) by (simp add: ring_def slot_pos_def)
  then have "unat (queueTail ?c) = slot_pos ?c (k + 1)" unfolding s by simp
  then have R: "ring ?c (k + 1)" using assms(1,2) u' unfolding ring_def slot_pos_def by auto
  have "slot_pos ?c 0 = unat (queueHead ?c)" using u' by (simp add: slot_pos_def)
  then show thesis
    by (intro that [OF _ R]) (use assms s in \<open>simp_all add: queue_position_def Let_def\<close>)
qed

text \<open>Memories that agree on the addresses from \<open>lo\<close> up to \<open>hi\<close>.\<close>

definition agree :: "nat \<Rightarrow> nat \<Rightarrow> memory \<Rightarrow> memory \<Rightarrow> bool" where
  "agree lo hi m m' \<longleftrightarrow> (\<forall>x. lo \<le> unat x \<and> unat x < hi \<longrightarrow> m x = m' x)"

lemma agreeD: "agree lo hi m m' \<Longrightarrow> lo \<le> unat x \<Longrightarrow> unat x < hi \<Longrightarrow> m x = m' x"
  by (simp add: agree_def)

definition node_lo :: "LosQueueCB \<Rightarrow> nat \<Rightarrow> nat" where
  "node_lo c p = unat (queue_buf c) + p * unat (queueSize c)"

definition node_at :: "LosQueueCB \<Rightarrow> nat \<Rightarrow> u32" where
  "node_at c p = of_nat (node_lo c p)"

definition msg_len :: "memory \<Rightarrow> LosQueueCB \<Rightarrow> nat \<Rightarrow> u32" where
  "msg_len m c p = rd32 m (node_at c p + ucast (queueSize c) - 4)"

definition msg_of :: "memory \<Rightarrow> LosQueueCB \<Rightarrow> nat \<Rightarrow> u8 list" where
  "msg_of m c p = bytes m (node_at c p) (unat (msg_len m c p))"

definition msg_ok :: "memory \<Rightarrow> LosQueueCB \<Rightarrow> nat \<Rightarrow> bool" where
  "msg_ok m c p \<longleftrightarrow> 0 < msg_len m c p \<and> unat (msg_len m c p) + 4 \<le> unat (queueSize c)"

definition buf_ok :: "LosQueueCB \<Rightarrow> bool" where
  "buf_ok c \<longleftrightarrow> queue_buf c \<noteq> 0 \<and> 4 < queueSize c \<and>
     unat (queue_buf c) + unat (queueLen c) * unat (queueSize c) \<le> 2 ^ 32"

definition ring_end :: "LosQueueCB \<Rightarrow> nat" where
  "ring_end c = unat (queue_buf c) + unat (queueLen c) * unat (queueSize c)"

definition apart :: "u32 \<Rightarrow> nat \<Rightarrow> LosQueueCB \<Rightarrow> bool" where
  "apart a n c \<longleftrightarrow> a \<noteq> 0 \<and> unat a + n \<le> 2 ^ 32 \<and> (unat a + n \<le> unat (queue_buf c) \<or> ring_end c \<le> unat a)"

definition outside :: "LosQueueCB \<Rightarrow> nat \<Rightarrow> memory \<Rightarrow> memory \<Rightarrow> bool" where
  "outside c p m m' \<longleftrightarrow> (\<forall>x. unat x < node_lo c p \<or> node_lo c p + unat (queueSize c) \<le> unat x \<longrightarrow> m x = m' x)"

text \<open>
  What is in node \<open>p\<close>: a message with its length in the last word (\<open>copy_at\<close>), or
  a pointer in the first word (\<open>ptr_at\<close>).  \<open>ring_holds get m c q\<close>: the ring holds the
  sequence \<open>q\<close>, head first.
\<close>

definition copy_at :: "memory \<Rightarrow> LosQueueCB \<Rightarrow> nat \<Rightarrow> u8 list option" where
  "copy_at m c p = (if msg_ok m c p then Some (msg_of m c p) else None)"

definition ptr_at :: "memory \<Rightarrow> LosQueueCB \<Rightarrow> nat \<Rightarrow> u32 option" where
  "ptr_at m c p = Some (rd32 m (node_at c p))"

definition ring_holds :: "(memory \<Rightarrow> LosQueueCB \<Rightarrow> nat \<Rightarrow> 'a option) \<Rightarrow> memory \<Rightarrow> LosQueueCB \<Rightarrow> 'a list \<Rightarrow> bool" where
  "ring_holds get m c q \<longleftrightarrow> buf_ok c \<and> ring c (length q) \<and> (\<forall>j < length q. get m c (slot_pos c j) = Some (q ! j))"

lemma buf_ok_head: "buf_ok (c\<lparr>queueHead := h\<rparr>) = buf_ok c"
  by (simp add: buf_ok_def)

lemma buf_ok_tail: "buf_ok (c\<lparr>queueTail := h\<rparr>) = buf_ok c"
  by (simp add: buf_ok_def)

lemma node_inside:
  assumes "buf_ok c" "p < unat (queueLen c)"
  shows "unat (queue_buf c) \<le> node_lo c p" "node_lo c p + unat (queueSize c) \<le> ring_end c" "ring_end c \<le> 2 ^ 32"
    "4 < unat (queueSize c)" "unat (node_at c p) = node_lo c p" "node_at c p \<noteq> 0"
proof -
  have "(p + 1) * unat (queueSize c) \<le> unat (queueLen c) * unat (queueSize c)" using assms(2) by (intro mult_right_mono) auto
  then show i: "unat (queue_buf c) \<le> node_lo c p" "node_lo c p + unat (queueSize c) \<le> ring_end c" "ring_end c \<le> 2 ^ 32"
    using assms(1) by (simp_all add: node_lo_def ring_end_def buf_ok_def)
  show z: "4 < unat (queueSize c)" using assms(1) by (simp add: buf_ok_def word_less_nat_alt)
  have "node_lo c p < 2 ^ 32" using i z by linarith
  then show u: "unat (node_at c p) = node_lo c p" by (simp add: node_at_def unat_of_nat)
  have "unat (queue_buf c) \<noteq> 0" using assms(1) by (simp add: buf_ok_def unat_eq_zero)
  then have "unat (node_at c p) \<noteq> 0" using u i(1) by linarith
  then show "node_at c p \<noteq> 0" by auto
qed

lemma node_apart:
  assumes "p \<noteq> p'"
  shows "node_lo c p + unat (queueSize c) \<le> node_lo c p' \<or> node_lo c p' + unat (queueSize c) \<le> node_lo c p"
proof -
  have "p < p' \<or> p' < p" using assms by auto
  then have "(p + 1) * unat (queueSize c) \<le> p' * unat (queueSize c) \<or> (p' + 1) * unat (queueSize c) \<le> p * unat (queueSize c)"
    by (metis Suc_eq_plus1 Suc_leI mult_le_mono1)
  then show ?thesis by (auto simp: node_lo_def)
qed

lemma node_code:
  "queue_buf c + ucast (pos :: u16) * ucast (queueSize c) = node_at c (unat pos)"
  by (simp add: node_at_def node_lo_def unsigned_ucast_eq)

lemma msg_len_addr:
  assumes "buf_ok c" "p < unat (queueLen c)"
  shows "unat (node_at c p + ucast (queueSize c) - 4) = node_lo c p + unat (queueSize c) - 4"
proof -
  note n = node_inside [OF assms]
  have e: "node_at c p + ucast (queueSize c) - 4 = node_at c p + of_nat (unat (queueSize c) - 4)"
    using n(4) by (simp add: of_nat_diff)
  have "unat (node_at c p) + (unat (queueSize c) - 4) < 2 ^ 32" using n by linarith
  from unat_add_nat [OF this] show ?thesis unfolding e using n by simp
qed

lemma msg_agree:
  assumes b: "buf_ok c" and p: "p < unat (queueLen c)"
    and a: "agree (node_lo c p) (node_lo c p + unat (queueSize c)) m m'"
  shows "msg_len m c p = msg_len m' c p" "msg_ok m c p \<longleftrightarrow> msg_ok m' c p" "msg_ok m c p \<Longrightarrow> msg_of m c p = msg_of m' c p"
proof -
  note n = node_inside [OF b p] and l = msg_len_addr [OF b p]
  let ?x = "node_at c p + ucast (queueSize c) - 4"
  have q: "m (?x + of_nat j) = m' (?x + of_nat j)" if "j < 4" for j
  proof -
    have "unat (?x + of_nat j) = unat ?x + j" by (rule unat_add_nat) (use n l that in linarith)
    then show ?thesis by (intro agreeD [OF a]) (use n l that in linarith)+
  qed
  show L: "msg_len m c p = msg_len m' c p"
    unfolding msg_len_def by (rule rd32_cong) (use q [of 0] q [of 1] q [of 2] q [of 3] in simp_all)
  then show "msg_ok m c p \<longleftrightarrow> msg_ok m' c p" by (simp add: msg_ok_def)
  show "msg_of m c p = msg_of m' c p" if o: "msg_ok m c p"
    unfolding msg_of_def L [symmetric]
  proof (rule bytes_cong)
    fix j assume j: "j < unat (msg_len m c p)"
    have "unat (node_at c p + of_nat j) = node_lo c p + j"
      using unat_add_nat [of "node_at c p" j] j n o by (simp add: msg_ok_def)
    then show "m (node_at c p + of_nat j) = m' (node_at c p + of_nat j)"
      by (intro agreeD [OF a]) (use j o [unfolded msg_ok_def] in linarith)+
  qed
qed


locale node_content =
  fixes get :: "memory \<Rightarrow> LosQueueCB \<Rightarrow> nat \<Rightarrow> 'a option"
  assumes get_local: "\<lbrakk>buf_ok c; p < unat (queueLen c);
      agree (node_lo c p) (node_lo c p + unat (queueSize c)) m m'\<rbrakk> \<Longrightarrow> get m c p = get m' c p"
    and get_head: "get m (c\<lparr>queueHead := h\<rparr>) p = get m c p"
    and get_tail: "get m (c\<lparr>queueTail := h\<rparr>) p = get m c p"
begin

lemma get_outside:
  assumes "buf_ok c" "p < unat (queueLen c)" "p' \<noteq> p" "outside c p' m m'"
  shows "get m c p = get m' c p"
  by (rule get_local [OF assms(1,2)])
    (use node_apart [OF assms(3), of c] assms(4) in \<open>auto simp: agree_def outside_def\<close>)

lemma take_head:
  assumes h: "ring_holds get m c (x # q)" and t: "t AND 3 = READ_HEAD"
    and m: "agree (unat (queue_buf c)) (ring_end c) m m'"
  obtains c' where "queue_position t c = Some (queueHead c, c')" "ring_holds get m' c' q"
    "c' = c\<lparr>queueHead := queueHead c'\<rparr>" "get m c (unat (queueHead c)) = Some x" "unat (queueHead c) < unat (queueLen c)"
proof -
  have b: "buf_ok c" and r: "ring c (length (x # q))" using h by (simp_all add: ring_holds_def)
  have l: "0 < unat (queueLen c)" "unat (queueHead c) < unat (queueLen c)" using r by (auto simp: ring_def)
  have z: "0 < length (x # q)" by simp
  obtain c' where c: "queue_position t c = Some (queueHead c, c')" "ring c' (length (x # q) - 1)"
    "slot_pos c 0 = unat (queueHead c)" "\<And>j. slot_pos c' j = slot_pos c (j + 1)" "c' = c\<lparr>queueHead := queueHead c'\<rparr>"
    by (rule ring_read [OF r z t]) (rule that; assumption)
  have g: "get m' c' p = get m c p" if p: "p < unat (queueLen c)" for p
  proof -
    have "get m c p = get m' c p"
      by (rule get_local [OF b p]) (use m node_inside [OF b p] in \<open>auto simp: agree_def\<close>)
    then show ?thesis using get_head [where m = m' and c = c and h = "queueHead c'" and p = p] c(5) by simp
  qed
  have "get m' c' (slot_pos c' j) = Some (q ! j)" if "j < length q" for j
    unfolding c(4) g [OF slot_pos_less [OF l(1)]] using h that unfolding ring_holds_def by (auto dest: spec [of _ "j + 1"])
  moreover have "buf_ok c'" using buf_ok_head [of "queueHead c'" c] b c(5) by simp
  ultimately have "ring_holds get m' c' q" using c(2) by (simp add: ring_holds_def)
  moreover have "get m c (unat (queueHead c)) = Some x" using h c(3) by (auto simp: ring_holds_def dest: spec [of _ 0])
  ultimately show thesis using that c l by blast
qed

lemma put_tail:
  assumes h: "ring_holds get m c q" and k: "length q < unat (queueLen c)" and t: "t AND 3 = WRITE_TAIL"
    and m: "outside c (unat (queueTail c)) m m'" and x: "get m' c (unat (queueTail c)) = Some x"
  obtains c' where "queue_position t c = Some (queueTail c, c')" "ring_holds get m' c' (q @ [x])" "c' = c\<lparr>queueTail := queueTail c'\<rparr>"
proof -
  have b: "buf_ok c" and r: "ring c (length q)" using h by (simp_all add: ring_holds_def)
  have l: "0 < unat (queueLen c)" using k by simp
  obtain c' where c: "queue_position t c = Some (queueTail c, c')" "ring c' (length q + 1)"
    "slot_pos c (length q) = unat (queueTail c)" "\<And>j. slot_pos c' j = slot_pos c j" "c' = c\<lparr>queueTail := queueTail c'\<rparr>"
    by (rule ring_write_tail [OF r k t]) (rule that; assumption)
  have g: "get m' c' p = get m' c p" for p using get_tail [where m = m' and c = c and h = "queueTail c'" and p = p] c(5) by simp
  have "get m' c' (slot_pos c' j) = Some ((q @ [x]) ! j)" if j: "j < length (q @ [x])" for j
  proof (cases "j = length q")
    case True
    then show ?thesis using c(3,4) g x by simp
  next
    case False
    then have j: "j < length q" using j by simp
    then have "slot_pos c (length q) \<noteq> slot_pos c j" using slot_pos_inj [of "length q" c j] k by auto
    then have "get m c (slot_pos c j) = get m' c (slot_pos c j)"
      using get_outside [OF b slot_pos_less [OF l] _ m] c(3) by metis
    then show ?thesis using h j g c(4) by (simp add: ring_holds_def nth_append)
  qed
  moreover have "buf_ok c'" using buf_ok_tail [of "queueTail c'" c] b c(5) by simp
  ultimately have "ring_holds get m' c' (q @ [x])" using c(2) by (simp add: ring_holds_def)
  then show thesis using that c by blast
qed

lemma put_head:
  assumes h: "ring_holds get m c q" and k: "length q < unat (queueLen c)" and t: "t AND 3 = WRITE_HEAD"
    and m: "outside c (unat (queueHead c')) m m'" and x: "get m' c (unat (queueHead c')) = Some x"
    and p: "queue_position t c = Some (pos, c')"
  shows "ring_holds get m' c' (x # q)" "c' = c\<lparr>queueHead := queueHead c'\<rparr>" "pos = queueHead c'"
proof -
  have b: "buf_ok c" and r: "ring c (length q)" using h by (simp_all add: ring_holds_def)
  have l: "0 < unat (queueLen c)" using k by simp
  obtain d where d: "queue_position t c = Some (queueHead d, d)" "ring d (length q + 1)"
    "slot_pos d 0 = unat (queueHead d)" "\<And>j. slot_pos d (j + 1) = slot_pos c j" "d = c\<lparr>queueHead := queueHead d\<rparr>"
    by (rule ring_write_head [OF r k t]) (rule that; assumption)
  have e: "d = c'" "pos = queueHead c'" using d(1) p by simp_all
  note c = d(2-5) [unfolded e(1)]
  have g: "get m' c' p = get m' c p" for p using get_head [where m = m' and c = c and h = "queueHead c'" and p = p] c(4) by simp
  have n: "queueLen c' = queueLen c" using arg_cong [OF c(4), of queueLen] by simp
  have "get m' c' (slot_pos c' j) = Some ((x # q) ! j)" if j: "j < length (x # q)" for j
  proof (cases j)
    case 0
    then show ?thesis using c(2) g x by simp
  next
    case (Suc i)
    then have "slot_pos c' j \<noteq> slot_pos c' 0" using slot_pos_inj [of j c' 0] k n j by auto
    then have "get m c (slot_pos c i) = get m' c (slot_pos c i)"
      using get_outside [OF b slot_pos_less [OF l] _ m] c(2,3) Suc by (metis Suc_eq_plus1)
    then show ?thesis using h j g c(3) [of i] Suc by (simp add: ring_holds_def)
  qed
  moreover have "buf_ok c'" using buf_ok_head [of "queueHead c'" c] b c(4) by simp
  ultimately show "ring_holds get m' c' (x # q)" using c(1) by (simp add: ring_holds_def)
  show "c' = c\<lparr>queueHead := queueHead c'\<rparr>" "pos = queueHead c'" using c(4) e by simp_all
qed

end

lemma copy_at_moved [simp]:
  "copy_at m (c\<lparr>queueHead := h\<rparr>) p = copy_at m c p" "copy_at m (c\<lparr>queueTail := h\<rparr>) p = copy_at m c p"
  by (simp_all add: copy_at_def msg_ok_def msg_of_def msg_len_def node_at_def node_lo_def)

lemma ptr_at_moved [simp]:
  "ptr_at m (c\<lparr>queueHead := h\<rparr>) p = ptr_at m c p" "ptr_at m (c\<lparr>queueTail := h\<rparr>) p = ptr_at m c p"
  by (simp_all add: ptr_at_def node_at_def node_lo_def)

lemma copy_at_agree:
  assumes "buf_ok c" "p < unat (queueLen c)" "agree (node_lo c p) (node_lo c p + unat (queueSize c)) m m'"
  shows "copy_at m c p = copy_at m' c p"
  using msg_agree [OF assms] by (simp add: copy_at_def)

lemma ptr_at_agree:
  assumes b: "buf_ok c" and p: "p < unat (queueLen c)" and a: "agree (node_lo c p) (node_lo c p + unat (queueSize c)) m m'"
  shows "ptr_at m c p = ptr_at m' c p"
proof -
  note n = node_inside [OF b p]
  have q: "m (node_at c p + of_nat j) = m' (node_at c p + of_nat j)" if "j < 4" for j
  proof -
    have "unat (node_at c p + of_nat j) = unat (node_at c p) + j" by (rule unat_add_nat) (use n that in linarith)
    then show ?thesis by (intro agreeD [OF a]) (use n that in linarith)+
  qed
  have "rd32 m (node_at c p) = rd32 m' (node_at c p)"
    by (rule rd32_cong) (use q [of 0] q [of 1] q [of 2] q [of 3] in simp_all)
  then show ?thesis by (simp add: ptr_at_def)
qed

interpretation copy_mode: node_content copy_at
  by unfold_locales (simp_all add: copy_at_agree)

interpretation ptr_mode: node_content ptr_at
  by unfold_locales (simp_all add: ptr_at_agree)

subsection \<open>One transfer\<close>

lemma outside_trans: "outside c p m m' \<Longrightarrow> outside c p m' m'' \<Longrightarrow> outside c p m m''"
  by (simp add: outside_def)

text \<open>A region inside the node, seen from outside the node.\<close>

lemma outside_region:
  fixes a n :: u32
  assumes b: "buf_ok c" and p: "p < unat (queueLen c)"
    and l: "node_lo c p \<le> unat a" "unat a + unat n \<le> node_lo c p + unat (queueSize c)"
    and f: "\<And>x. \<not> x - a < n \<Longrightarrow> m x = m' x"
  shows "outside c p m m'"
  unfolding outside_def
proof (intro allI impI)
  fix x :: u32 assume x: "unat x < node_lo c p \<or> node_lo c p + unat (queueSize c) \<le> unat x"
  have "unat a + unat n \<le> 2 ^ 32" using l node_inside [OF b p] by linarith
  from range_iff [OF this, of x] have "\<not> x - a < n" using x l by auto
  then show "m x = m' x" by (rule f)
qed

lemma wr32_outside:
  assumes b: "buf_ok c" and p: "p < unat (queueLen c)"
    and l: "node_lo c p \<le> unat a" "unat a + 4 \<le> node_lo c p + unat (queueSize c)"
  shows "outside c p m (wr32 a v m)"
  by (rule outside_region [OF b p l(1), of 4]) (use l wr32_frame [of _ a v m] in \<open>simp_all add: not_less\<close>)

text \<open>A buffer of the caller that lies apart from the ring is not touched by a change of a node.\<close>

lemma apart_bytes:
  assumes b: "buf_ok c" and p: "p < unat (queueLen c)" and a: "apart a n c" and o: "outside c p m m'"
  shows "bytes m a n = bytes m' a n"
proof (rule bytes_cong)
  fix j assume j: "j < n"
  note i = node_inside [OF b p]
  have "unat (a + of_nat j) = unat a + j" by (rule unat_add_nat) (use a j in \<open>auto simp: apart_def\<close>)
  then show "m (a + of_nat j) = m' (a + of_nat j)"
    using o a i j by (auto simp: outside_def apart_def)
qed

text \<open>Writing a message from a buffer into node \<open>p\<close>.\<close>

lemma node_write:
  assumes b: "buf_ok c" and p: "p < unat (queueLen c)" and a: "apart a (unat n) c"
    and n: "0 < n" "unat n + 4 \<le> unat (queueSize c)"
    and t: "OS_QUEUE_IS_WRITE t" "\<not> OS_QUEUE_IS_POINT t"
  obtains m' where "node_transfer t (node_at c p) (ucast (queueSize c)) (Buf a) n m = (n, m')"
    "outside c p m m'" "copy_at m' c p = Some (bytes m a (unat n))"
proof -
  note i = node_inside [OF b p] and la = msg_len_addr [OF b p]
  let ?N = "node_at c p" and ?l = "node_at c p + ucast (queueSize c) - 4"
  let ?m = "wr32 ?l n m"
  let ?m' = "mem_copy ?N a n ?m"
  have sz: "unat (queueSize c) < 65536" by (rule unat_lt16)
  have ns: "unat n < 2 ^ 16" using n sz by simp
  have ov: "SECUREC_MEMORY_NO_OVERLAP ?N a n"
  proof (cases "unat a < unat ?N")
    case True
    have "unat a + unat n \<le> unat ?N" using a i True by (auto simp: apart_def)
    then show ?thesis using True unat_lt [of ?N]
      by (simp add: SECUREC_MEMORY_NO_OVERLAP_def word_less_nat_alt word_le_nat_alt unat_word_ariths)
  next
    case False
    have "unat ?N + unat n \<le> unat a" using a i False n by (auto simp: apart_def)
    then show ?thesis using unat_lt [of a] n(1)
      by (simp add: SECUREC_MEMORY_NO_OVERLAP_def word_less_nat_alt word_le_nat_alt unat_word_ariths)
  qed
  have u: "unat (ucast (queueSize c) :: u32) = unat (queueSize c)"
    using sz by (simp add: unsigned_ucast_eq take_bit_nat_eq_self)
  have "SECUREC_MEMCPY_PARAM_OK ?N (ucast (queueSize c)) a n"
    using ov n i(6) a sz u by (simp add: SECUREC_MEMCPY_PARAM_OK_def apart_def word_le_nat_alt)
  then have e: "node_transfer t ?N (ucast (queueSize c)) (Buf a) n m = (n, ?m')"
    using t by (simp add: node_transfer_def memcpy_s_def)
  have o1: "outside c p m ?m" by (rule wr32_outside [OF b p]) (use la i in linarith)+
  have o2: "outside c p ?m ?m'"
    by (rule outside_region [OF b p, of ?N n]) (use i n in \<open>simp_all add: mem_copy_def\<close>)
  have r: "?m' (?l + of_nat j) = ?m (?l + of_nat j)" if "j < 4" for j
  proof -
    have "unat (?l + of_nat j) = unat ?l + j" by (rule unat_add_nat) (use i la that in linarith)
    moreover have "unat ?N + unat n \<le> 2 ^ 32" using i n by linarith
    ultimately have "\<not> ?l + of_nat j - ?N < n" using range_iff [of ?N n "?l + of_nat j"] la i n by auto
    then show ?thesis by (simp add: mem_copy_def)
  qed
  have "rd32 ?m' ?l = rd32 ?m ?l" by (rule rd32_cong) (use r [of 0] r [of 1] r [of 2] r [of 3] in simp_all)
  then have l: "msg_len ?m' c p = n" by (simp add: msg_len_def)
  have "bytes ?m' ?N (unat n) = bytes ?m a (unat n)" by (rule mem_copy_bytes) (use ns in simp)
  also have "... = bytes m a (unat n)" by (rule apart_bytes [OF b p a o1, symmetric])
  finally have "copy_at ?m' c p = Some (bytes m a (unat n))"
    using l n by (simp add: copy_at_def msg_ok_def msg_of_def)
  then show thesis using that e outside_trans [OF o1 o2] by blast
qed

text \<open>Reading node \<open>p\<close> into a buffer: the message, cut to the buffer's size.\<close>

lemma node_read:
  assumes b: "buf_ok c" and p: "p < unat (queueLen c)" and a: "apart a (unat n) c"
    and n: "0 < n" "n < SECUREC_MEM_MAX_LEN" and x: "copy_at m c p = Some x"
    and t: "\<not> OS_QUEUE_IS_WRITE t" "\<not> OS_QUEUE_IS_POINT t"
  obtains k m' where "node_transfer t (node_at c p) (ucast (queueSize c)) (Buf a) n m = (k, m')"
    "unat k = min (unat n) (length x)" "bytes m' a (unat k) = take (unat k) x"
    "\<And>y. \<not> y - a < n \<Longrightarrow> m' y = m y"
proof -
  note i = node_inside [OF b p]
  let ?N = "node_at c p" and ?len = "msg_len m c p"
  let ?k = "if n < ?len then n else ?len"
  have ok: "msg_ok m c p" and xe: "x = bytes m ?N (unat ?len)"
    using x by (simp_all add: copy_at_def msg_of_def split: if_splits)
  have k: "0 < ?k" "?k \<le> n" "unat ?k = min (unat n) (length x)"
    using n ok xe by (auto simp: msg_ok_def word_less_nat_alt word_le_nat_alt)
  have kn: "unat ?k \<le> unat (queueSize c)" using ok k(3) xe by (auto simp: msg_ok_def)
  have z: "0 < unat n" using n(1) by (simp add: word_less_nat_alt)
  have ov: "SECUREC_MEMORY_NO_OVERLAP a ?N ?k"
  proof (cases "unat a < unat ?N")
    case True
    have "unat a + unat ?k \<le> unat ?N" using a i True k by (auto simp: apart_def)
    then show ?thesis using True unat_lt [of ?N]
      by (simp add: SECUREC_MEMORY_NO_OVERLAP_def word_less_nat_alt word_le_nat_alt unat_word_ariths)
  next
    case False
    have "unat ?N + unat ?k \<le> unat a" using a i False kn z by (auto simp: apart_def)
    then show ?thesis using unat_lt [of a] k(1)
      by (simp add: SECUREC_MEMORY_NO_OVERLAP_def word_less_nat_alt word_le_nat_alt unat_word_ariths)
  qed
  then have "SECUREC_MEMCPY_PARAM_OK a n ?N ?k"
    using k i(6) a n by (simp add: SECUREC_MEMCPY_PARAM_OK_def apart_def)
  then have e: "node_transfer t ?N (ucast (queueSize c)) (Buf a) n m = (?k, mem_copy a ?N ?k m)"
    using t by (simp add: node_transfer_def memcpy_s_def Let_def flip: msg_len_def)
  have "unat ?k \<le> 2 ^ 31" using k(2) n(2) by (simp add: word_le_nat_alt word_less_nat_alt)
  from mem_copy_bytes [OF this] have "bytes (mem_copy a ?N ?k m) a (unat ?k) = bytes m ?N (unat ?k)" .
  also have "... = take (unat ?k) x" using k(3) unfolding xe by (simp add: bytes_def take_map)
  finally show thesis
    by (rule that [OF e k(3)]) (use k(2) mem_copy_frame [of ?k n] in auto)
qed

subsection \<open>Messages and credits\<close>

text \<open>
  The ring holds \<open>q\<close>; \<open>r\<close> of its messages are promised to readers that a writer
  has woken and that have not run yet, and \<open>w\<close> free nodes are promised to woken
  writers.  The counters of the queue count the other ones.
\<close>

definition queue_rep :: "kstate \<Rightarrow> nat \<Rightarrow> u8 list list \<Rightarrow> nat \<Rightarrow> nat \<Rightarrow> bool" where
  "queue_rep s i q r w \<longleftrightarrow> ring_holds copy_at (byteMem s) (que s i) q \<and>
     unat (readableCnt (que s i)) + r = length q \<and>
     unat (writableCnt (que s i)) + w + length q = unat (queueLen (que s i))"

definition queue_shape :: "LosQueueCB \<Rightarrow> u32 \<times> u16 \<times> u16 \<times> u16 \<times> u16" where
  "queue_shape c = (queue_buf c, queueState c, queueLen c, queueSize c, queueID c)"

lemma queue_shape_sel:
  assumes "queue_shape c = queue_shape d"
  shows "queue_buf c = queue_buf d" "queueState c = queueState d" "queueLen c = queueLen d" "queueSize c = queueSize d"
    "queueID c = queueID d" "apart a n c = apart a n d" "ring_end c = ring_end d"
  using assms by (simp_all add: queue_shape_def apart_def ring_end_def)

lemma ring_holds_cnt [simp]:
  "ring_holds copy_at m (c\<lparr>readableCnt := k\<rparr>) q = ring_holds copy_at m c q"
  "ring_holds copy_at m (c\<lparr>writableCnt := k\<rparr>) q = ring_holds copy_at m c q"
  by (simp_all add: ring_holds_def buf_ok_def ring_def slot_pos_def copy_at_def msg_ok_def msg_of_def msg_len_def
      node_at_def node_lo_def)

lemma node_at_moved [simp]:
  "node_at (c\<lparr>queueHead := h\<rparr>) p = node_at c p" "node_at (c\<lparr>queueTail := h\<rparr>) p = node_at c p"
  by (simp_all add: node_at_def node_lo_def)

lemma xkeep_upd_que: "xkeep {Queue_pool} s (upd_que i f s)"
  by (simp add: xkeep_def upd_que_def runs_def)

lemma queue_pass_law:
  assumes O: "OsQueueBufferOperate i ty b k0 s0 = (k, s)" and d: "OS_QUEUE_IS_WRITE ty = (\<not> d)"
    and I: "kinv (Suc n) s L" and q: "L (rw_list d i) = Some xs"
  obtains s' L' where "queue_transfer i ty b k0 s0 = Some (LOS_OK, k, s')"
    "kinv n s' L'" "byteMem s' = byteMem s"
    "g_allQueue s' = (if xs = [] then g_allQueue (upd_que i (upd_cnt d (\<lambda>k. k + 1)) s) else g_allQueue s)"
    "\<And>q'. plain q' \<Longrightarrow> L' q' = (if q' = rw_list d i then Some (tl xs) else L q')" "xkeep {Queue_pool} s s'"
proof -
  have em: "k_ListEmpty (rw_list d i) s \<longleftrightarrow> xs = []" by (rule list_empty [OF kinv_rep [OF I] q])
  have wh: "wait_head (rw_list d i)" by (simp add: rw_list_def)
  show thesis
  proof (cases xs)
    case Nil
    have K: "kinv n (upd_que i (upd_cnt d (\<lambda>k. k + 1)) s) L" using kinv_later [OF I] by (simp add: upd_que_def)
    show thesis by (rule that [OF _ K _ _ _ xkeep_upd_que]) (use em Nil q in \<open>simp_all add: queue_transfer_def O d upd_que_def\<close>)
  next
    case (Cons x ys)
    obtain t where t: "x = NPend t" using kinv_member [OF I wh, of x ys] q Cons by blast
    have f: "pstNext (dl s) (rw_list d i) = Some (NPend t)" using list_first [OF kinv_rep [OF I] q] Cons t by simp
    have q1: "L (rw_list d i) = Some (NPend t # ys)" using q Cons t by simp
    obtain s1 s' L' where 1: "OsSchedTaskWake t s = Some s1" "ikeep s s1" "runTask s1 = runTask s" "LOS_Schedule s1 = Some s'"
      "kinv n s' L'" "ikeep s s'" and Q: "\<And>q'. plain q' \<Longrightarrow> L' q' = (if q' = rw_list d i then Some ys else L q')"
      and X: "xkeep {} s s'"
      by (rule ks.wake_first_law [OF I q1 wh]) (rule that; assumption)
    show thesis
      by (rule that [OF _ 1(5) _ _ _ xkeep_mono [OF X]]) (use em Cons f 1(1,4) ikeep_sel [OF 1(6)] Q in \<open>simp_all add: queue_transfer_def O d\<close>)
  qed
qed

text \<open>The whole write: a node is filled and the ring has one message more.\<close>

lemma queue_put:
  assumes H: "ring_holds copy_at m c q" and l: "length q < unat (queueLen c)" and a: "apart a (unat k) c"
    and k: "0 < k" "unat k + 4 \<le> unat (queueSize c)" and ty: "ty = 1 \<or> ty = 3"
  obtains pos c' m' h t where "queue_position ty c = Some (pos, c')"
    "node_transfer ty (node_at c (unat pos)) (ucast (queueSize c)) (Buf a) k m = (k, m')"
    "ring_holds copy_at m' c' (if ty = WRITE_TAIL then q @ [bytes m a (unat k)] else bytes m a (unat k) # q)"
    "c' = c\<lparr>queueHead := h, queueTail := t\<rparr>"
    "\<And>y. unat y < unat (queue_buf c) \<or> ring_end c \<le> unat y \<Longrightarrow> m' y = m y"
proof -
  let ?x = "bytes m a (unat k)"
  have fr: "m' y = m y" if "buf_ok c" "p < unat (queueLen c)" "outside c p m m'" "unat y < unat (queue_buf c) \<or> ring_end c \<le> unat y"
    for p m' y using node_inside [OF that(1,2)] that(3,4) by (auto simp: outside_def)
  have b: "buf_ok c" and rg: "ring c (length q)" using H by (simp_all add: ring_holds_def)
  have tw: "OS_QUEUE_IS_WRITE ty" "\<not> OS_QUEUE_IS_POINT ty" using ty by (auto simp: OS_QUEUE_IS_WRITE_def OS_QUEUE_IS_POINT_def)
  show thesis
  proof (cases "ty = WRITE_TAIL")
    case True
    have t3: "ty AND 3 = WRITE_TAIL" using True by simp
    have p: "unat (queueTail c) < unat (queueLen c)" using rg by (simp add: ring_def)
    obtain m' where m: "node_transfer ty (node_at c (unat (queueTail c))) (ucast (queueSize c)) (Buf a) k m = (k, m')"
      "outside c (unat (queueTail c)) m m'" "copy_at m' c (unat (queueTail c)) = Some ?x"
      by (rule node_write [OF b p a k tw]) (rule that; assumption)
    obtain c' where c: "queue_position ty c = Some (queueTail c, c')" "ring_holds copy_at m' c' (q @ [?x])"
      "c' = c\<lparr>queueTail := queueTail c'\<rparr>"
      by (rule copy_mode.put_tail [OF H l t3 m(2,3)]) (rule that; assumption)
    have e: "c' = c\<lparr>queueHead := queueHead c, queueTail := queueTail c'\<rparr>" by (subst c(3)) simp
    show thesis by (rule that [OF c(1) m(1) _ e fr [OF b p m(2)]]) (use c(2) True in simp_all)
  next
    case False
    have t1: "ty AND 3 = WRITE_HEAD" using False ty by auto
    obtain c' where c: "queue_position ty c = Some (queueHead c', c')" "ring c' (length q + 1)" "c' = c\<lparr>queueHead := queueHead c'\<rparr>"
      by (rule ring_write_head [OF rg l t1]) (rule that; assumption)
    have p: "unat (queueHead c') < unat (queueLen c)"
      using c(2) arg_cong [OF c(3), of queueLen] by (simp add: ring_def)
    obtain m' where m: "node_transfer ty (node_at c (unat (queueHead c'))) (ucast (queueSize c)) (Buf a) k m = (k, m')"
      "outside c (unat (queueHead c')) m m'" "copy_at m' c (unat (queueHead c')) = Some ?x"
      by (rule node_write [OF b p a k tw]) (rule that; assumption)
    have e: "c' = c\<lparr>queueHead := queueHead c', queueTail := queueTail c\<rparr>" by (subst c(3)) simp
    show thesis
      by (rule that [OF c(1) m(1) _ e fr [OF b p m(2)]]) (use copy_mode.put_head(1) [OF H l t1 m(2,3) c(1)] False in simp_all)
  qed
qed

text \<open>A transfer by a task that owns a credit.\<close>

lemma queue_write_law:
  assumes I: "kinv (Suc n) s L" and R: "queue_rep s i q r (Suc w)" and a: "apart a (unat k) (que s i)"
    and k: "0 < k" "unat k + 4 \<le> unat (queueSize (que s i))" and ty: "ty = 1 \<or> ty = 3"
    and rs: "L (NQRead i) = Some rs"
  obtains s' L' where "queue_transfer i ty (Buf a) k s = Some (LOS_OK, k, s')" "kinv n s' L'"
    "queue_rep s' i (if ty = WRITE_TAIL then q @ [bytes (byteMem s) a (unat k)] else bytes (byteMem s) a (unat k) # q)
       (if rs = [] then r else Suc r) w"
    "\<And>q'. plain q' \<Longrightarrow> L' q' = (if q' = NQRead i then Some (tl rs) else L q')"
    "\<And>j. j \<noteq> i \<Longrightarrow> que s' j = que s j"
    "queue_shape (que s' i) = queue_shape (que s i)"
    "\<And>y. unat y < unat (queue_buf (que s i)) \<or> ring_end (que s i) \<le> unat y \<Longrightarrow> byteMem s' y = byteMem s y"
proof -
  let ?c = "que s i" and ?x = "bytes (byteMem s) a (unat k)"
  define q' where "q' = (if ty = WRITE_TAIL then q @ [?x] else ?x # q)"
  have H: "ring_holds copy_at (byteMem s) ?c q" and cr: "unat (readableCnt ?c) + r = length q"
    and cw: "unat (writableCnt ?c) + Suc w + length q = unat (queueLen ?c)"
    using R by (simp_all add: queue_rep_def)
  have l: "length q < unat (queueLen ?c)" using cw by simp
  have tw: "OS_QUEUE_IS_WRITE ty" "\<not> OS_QUEUE_IS_POINT ty" using ty by (auto simp: OS_QUEUE_IS_WRITE_def OS_QUEUE_IS_POINT_def)
  obtain pos c' m' hh tt where B: "queue_position ty ?c = Some (pos, c')"
    "node_transfer ty (node_at ?c (unat pos)) (ucast (queueSize ?c)) (Buf a) k (byteMem s) = (k, m')"
    "ring_holds copy_at m' c' q'" "\<And>y. unat y < unat (queue_buf ?c) \<or> ring_end ?c \<le> unat y \<Longrightarrow> m' y = byteMem s y" and c': "c' = ?c\<lparr>queueHead := hh, queueTail := tt\<rparr>"
    by (rule queue_put [OF H l a k ty]) (rule that [unfolded q'_def]; assumption)
  let ?s = "s\<lparr>g_allQueue := (g_allQueue s)(i := c'), byteMem := m'\<rparr>"
  have O: "OsQueueBufferOperate i ty (Buf a) k s = (k, ?s)"
    using B(1,2) by (simp add: OsQueueBufferOperate_def node_code c')
  have I1: "kinv (Suc n) ?s L" using I by simp
  have d: "OS_QUEUE_IS_WRITE ty = (\<not> False)" using tw by simp
  have q1: "L (rw_list False i) = Some rs" using rs by (simp add: rw_list_def)
  obtain s' L' where P: "queue_transfer i ty (Buf a) k s = Some (LOS_OK, k, s')" "kinv n s' L'" "byteMem s' = byteMem ?s"
    "g_allQueue s' = (if rs = [] then g_allQueue (upd_que i (upd_cnt False (\<lambda>k. k + 1)) ?s) else g_allQueue ?s)"
    "\<And>q'. plain q' \<Longrightarrow> L' q' = (if q' = rw_list False i then Some (tl rs) else L q')"
    by (rule queue_pass_law [OF O d I1 q1]) (rule that; assumption)
  have u: "unat (readableCnt ?c + 1) = unat (readableCnt ?c) + 1"
    by (rule unat_Suc16 [of _ "queueLen ?c"]) (use cr l in simp)
  have lq: "length q' = Suc (length q)" by (simp add: q'_def)
  have "queue_rep s' i q' (if rs = [] then r else Suc r) w"
    using P(3,4) B(3) cr cw u lq by (auto simp: queue_rep_def upd_que_def upd_cnt_def c')
  then show thesis
    by (intro that [OF P(1,2)])
       (use P(3-5) B(4) in \<open>auto simp: q'_def upd_que_def rw_list_def upd_cnt_def queue_shape_def c'\<close>)
qed

lemma queue_read_law:
  assumes I: "kinv (Suc n) s L" and R: "queue_rep s i (x # q) (Suc r) w" and a: "apart a (unat k) (que s i)"
    and k: "0 < k" "k < SECUREC_MEM_MAX_LEN" and ws: "L (NQWrite i) = Some ws"
  obtains k' s' L' where "queue_transfer i 0 (Buf a) k s = Some (LOS_OK, k', s')" "kinv n s' L'"
    "unat k' = min (unat k) (length x)" "bytes (byteMem s') a (unat k') = take (unat k') x"
    "queue_rep s' i q r (if ws = [] then w else Suc w)"
    "\<And>q'. plain q' \<Longrightarrow> L' q' = (if q' = NQWrite i then Some (tl ws) else L q')"
    "\<And>j. j \<noteq> i \<Longrightarrow> que s' j = que s j"
    "queue_shape (que s' i) = queue_shape (que s i)" "\<And>y. \<not> y - a < k \<Longrightarrow> byteMem s' y = byteMem s y"
proof -
  let ?c = "que s i"
  have H: "ring_holds copy_at (byteMem s) ?c (x # q)" and cr: "unat (readableCnt ?c) + Suc r = length (x # q)"
    and cw: "unat (writableCnt ?c) + w + length (x # q) = unat (queueLen ?c)"
    using R by (simp_all add: queue_rep_def)
  have b: "buf_ok ?c" and rg: "ring ?c (length (x # q))" using H by (simp_all add: ring_holds_def)
  have tr: "\<not> OS_QUEUE_IS_WRITE 0" "\<not> OS_QUEUE_IS_POINT 0" by (simp_all add: OS_QUEUE_IS_WRITE_def OS_QUEUE_IS_POINT_def)
  have t0: "(0 :: u32) AND 3 = READ_HEAD" by simp
  have p: "unat (queueHead ?c) < unat (queueLen ?c)" using rg by (simp add: ring_def)
  have x: "copy_at (byteMem s) ?c (unat (queueHead ?c)) = Some x"
    by (rule copy_mode.take_head [OF H t0, of "byteMem s"]) (simp_all add: agree_def)
  obtain k' m' where m: "node_transfer 0 (node_at ?c (unat (queueHead ?c))) (ucast (queueSize ?c)) (Buf a) k (byteMem s) = (k', m')"
    "unat k' = min (unat k) (length x)" "bytes m' a (unat k') = take (unat k') x" "\<And>y. \<not> y - a < k \<Longrightarrow> m' y = byteMem s y"
    by (rule node_read [OF b p a k x tr]) (rule that; assumption)
  have ag: "agree (unat (queue_buf ?c)) (ring_end ?c) (byteMem s) m'"
    unfolding agree_def
  proof (intro allI impI)
    fix y :: u32 assume y: "unat (queue_buf ?c) \<le> unat y \<and> unat y < ring_end ?c"
    have "unat a + unat k \<le> 2 ^ 32" using a by (simp add: apart_def)
    from range_iff [OF this, of y] have "\<not> y - a < k" using a y by (auto simp: apart_def)
    then show "byteMem s y = m' y" using m(4) by simp
  qed
  obtain c' where c: "queue_position 0 ?c = Some (queueHead ?c, c')" "ring_holds copy_at m' c' q"
    "c' = ?c\<lparr>queueHead := queueHead c'\<rparr>"
    by (rule copy_mode.take_head [OF H t0 ag]) (rule that; assumption)
  obtain hh where c': "c' = ?c\<lparr>queueHead := hh\<rparr>" using c(3) by blast
  let ?s = "s\<lparr>g_allQueue := (g_allQueue s)(i := c'), byteMem := m'\<rparr>"
  have O: "OsQueueBufferOperate i 0 (Buf a) k s = (k', ?s)"
    using c(1) m(1) by (simp add: OsQueueBufferOperate_def node_code c')
  have I1: "kinv (Suc n) ?s L" using I by simp
  have d: "OS_QUEUE_IS_WRITE 0 = (\<not> True)" using tr by simp
  have q1: "L (rw_list True i) = Some ws" using ws by (simp add: rw_list_def)
  obtain s' L' where P: "queue_transfer i 0 (Buf a) k s = Some (LOS_OK, k', s')" "kinv n s' L'" "byteMem s' = byteMem ?s"
    "g_allQueue s' = (if ws = [] then g_allQueue (upd_que i (upd_cnt True (\<lambda>k. k + 1)) ?s) else g_allQueue ?s)"
    "\<And>q'. plain q' \<Longrightarrow> L' q' = (if q' = rw_list True i then Some (tl ws) else L q')"
    by (rule queue_pass_law [OF O d I1 q1]) (rule that; assumption)
  have u: "unat (writableCnt ?c + 1) = unat (writableCnt ?c) + 1"
    by (rule unat_Suc16 [of _ "queueLen ?c"]) (use cw in simp)
  have Q: "queue_rep s' i q r (if ws = [] then w else Suc w)"
    using P(3,4) c(2) cr cw u by (auto simp: queue_rep_def upd_que_def upd_cnt_def c')
  show thesis
    by (rule that [OF P(1,2) m(2) _ Q]) (use P(3-5) m(3,4) in \<open>auto simp: upd_que_def rw_list_def upd_cnt_def queue_shape_def c'\<close>)
qed

subsection \<open>The calls\<close>

lemma param_check_write:
  assumes "queueState c \<noteq> OS_QUEUE_UNUSED" "unat k + 4 \<le> unat (queueSize c)"
  shows "OsQueueOperateParamCheck c ty k = LOS_OK"
proof -
  have sz: "unat (queueSize c) < 65536" by (rule unat_lt16)
  have u: "unat (ucast (queueSize c) :: u32) = unat (queueSize c)"
    using sz by (simp add: unsigned_ucast_eq take_bit_nat_eq_self)
  have "unat (ucast (queueSize c) - 4 :: u32) = unat (queueSize c) - 4"
    using assms(2) u by (simp add: unat_sub word_le_nat_alt)
  then have "\<not> k > ucast (queueSize c) - 4" "\<not> k \<ge> SECUREC_MEM_MAX_LEN"
    using assms(2) sz by (simp_all add: word_less_nat_alt word_le_nat_alt)
  then show ?thesis using assms(1) by (simp add: OsQueueOperateParamCheck_def)
qed

lemma queue_rep_take_write:
  assumes "queue_rep s i q r w" "writableCnt (que s i) \<noteq> 0"
  shows "queue_rep (upd_que i (upd_cnt True (\<lambda>k. k - 1)) s) i q r (Suc w)"
proof -
  have "0 < unat (writableCnt (que s i))" using assms(2) by (simp add: unat_gt_0)
  from unat_pred16 [OF this] this assms(1) show ?thesis
    by (simp add: queue_rep_def upd_que_def upd_cnt_def)
qed

lemma queue_rep_take_read:
  assumes "queue_rep s i q r w" "readableCnt (que s i) \<noteq> 0"
  shows "queue_rep (upd_que i (upd_cnt False (\<lambda>k. k - 1)) s) i q (Suc r) w"
proof -
  have "0 < unat (readableCnt (que s i))" using assms(2) by (simp add: unat_gt_0)
  from unat_pred16 [OF this] this assms(1) show ?thesis
    by (auto simp: queue_rep_def upd_que_def upd_cnt_def)
qed

lemma upd_cnt_sel [simp]:
  "queueSize (upd_cnt d f c) = queueSize c" "queueState (upd_cnt d f c) = queueState c" "queueLen (upd_cnt d f c) = queueLen c"
  "queue_buf (upd_cnt d f c) = queue_buf c" "queueID (upd_cnt d f c) = queueID c" "ring_end (upd_cnt d f c) = ring_end c"
  "apart a n (upd_cnt d f c) = apart a n c"
  by (simp_all add: upd_cnt_def apart_def ring_end_def)

lemma queue_send_law:
  assumes I: "kinv (Suc n) s L" and R: "queue_rep s i q r w" and used: "queueState (que s i) \<noteq> OS_QUEUE_UNUSED"
    and a: "apart a (unat k) (que s i)" and k: "0 < k" "unat k + 4 \<le> unat (queueSize (que s i))"
    and ty: "ty = 1 \<or> ty = 3" and free: "writableCnt (que s i) \<noteq> 0" and rs: "L (NQRead i) = Some rs" and i: "unat h = i"
  obtains s' L' where "OsQueueOperate h ty (Buf a) k timeOut s = Some (Ret LOS_OK, k, s')" "kinv n s' L'"
    "queue_rep s' i (if ty = WRITE_TAIL then q @ [bytes (byteMem s) a (unat k)] else bytes (byteMem s) a (unat k) # q)
       (if rs = [] then r else Suc r) w"
    "\<And>q'. plain q' \<Longrightarrow> L' q' = (if q' = NQRead i then Some (tl rs) else L q')"
    "\<And>j. j \<noteq> i \<Longrightarrow> que s' j = que s j"
    "queue_shape (que s' i) = queue_shape (que s i)"
    "\<And>y. unat y < unat (queue_buf (que s i)) \<or> ring_end (que s i) \<le> unat y \<Longrightarrow> byteMem s' y = byteMem s y"
proof -
  let ?s = "upd_que i (upd_cnt True (\<lambda>k. k - 1)) s"
  have e: "que ?s i = upd_cnt True (\<lambda>k. k - 1) (que s i)" "byteMem ?s = byteMem s" "\<And>j. j \<noteq> i \<Longrightarrow> que ?s j = que s j"
    by (simp_all add: upd_que_def)
  have I1: "kinv (Suc n) ?s L" using I by (simp add: upd_que_def)
  have R1: "queue_rep ?s i q r (Suc w)" by (rule queue_rep_take_write [OF R free])
  have a1: "apart a (unat k) (que ?s i)" and k1: "unat k + 4 \<le> unat (queueSize (que ?s i))" using a k e by simp_all
  obtain s' L' where T: "queue_transfer i ty (Buf a) k ?s = Some (LOS_OK, k, s')" "kinv n s' L'"
    "queue_rep s' i (if ty = WRITE_TAIL then q @ [bytes (byteMem ?s) a (unat k)] else bytes (byteMem ?s) a (unat k) # q)
       (if rs = [] then r else Suc r) w"
    "\<And>q'. plain q' \<Longrightarrow> L' q' = (if q' = NQRead i then Some (tl rs) else L q')" "\<And>j. j \<noteq> i \<Longrightarrow> que s' j = que ?s j"
    "queue_shape (que s' i) = queue_shape (que ?s i)"
    "\<And>y. unat y < unat (queue_buf (que ?s i)) \<or> ring_end (que ?s i) \<le> unat y \<Longrightarrow> byteMem s' y = byteMem ?s y"
    by (rule queue_write_law [OF I1 R1 a1 k(1) k1 ty rs]) (rule that; assumption)
  have tw: "OS_QUEUE_IS_WRITE ty" using ty by (auto simp: OS_QUEUE_IS_WRITE_def)
  have O: "OsQueueOperate h ty (Buf a) k timeOut s = Some (Ret LOS_OK, k, s')"
    using T(1) free i tw param_check_write [OF used k(2)]
    by (simp add: OsQueueOperate_def OsGetQueueHandle_def rw_cnt_def)
  show thesis by (rule that [OF O T(2) T(3) [unfolded e(2)] T(4)]) (use T(5-7) e in \<open>simp_all add: queue_shape_def\<close>)
qed

lemma queue_receive_law:
  assumes I: "kinv (Suc n) s L" and R: "queue_rep s i q r w" and used: "queueState (que s i) \<noteq> OS_QUEUE_UNUSED"
    and a: "apart a (unat k) (que s i)" and k: "0 < k" "k < SECUREC_MEM_MAX_LEN"
    and some: "readableCnt (que s i) \<noteq> 0" and ws: "L (NQWrite i) = Some ws" and i: "unat h = i"
  obtains k' s' L' where "OsQueueOperate h 0 (Buf a) k timeOut s = Some (Ret LOS_OK, k', s')" "kinv n s' L'"
    "q \<noteq> []" "unat k' = min (unat k) (length (hd q))" "bytes (byteMem s') a (unat k') = take (unat k') (hd q)"
    "queue_rep s' i (tl q) r (if ws = [] then w else Suc w)"
    "\<And>q'. plain q' \<Longrightarrow> L' q' = (if q' = NQWrite i then Some (tl ws) else L q')"
    "\<And>j. j \<noteq> i \<Longrightarrow> que s' j = que s j"
    "queue_shape (que s' i) = queue_shape (que s i)" "\<And>y. \<not> y - a < k \<Longrightarrow> byteMem s' y = byteMem s y"
proof -
  let ?s = "upd_que i (upd_cnt False (\<lambda>k. k - 1)) s"
  have e: "que ?s i = upd_cnt False (\<lambda>k. k - 1) (que s i)" "\<And>j. j \<noteq> i \<Longrightarrow> que ?s j = que s j"
    by (simp_all add: upd_que_def)
  have I1: "kinv (Suc n) ?s L" using I by (simp add: upd_que_def)
  have "0 < unat (readableCnt (que s i))" using some by (simp add: unat_gt_0)
  then have "0 < length q" using R unfolding queue_rep_def by linarith
  then obtain x q0 where q: "q = x # q0" by (cases q) auto
  have R1: "queue_rep ?s i (x # q0) (Suc r) w" using queue_rep_take_read [OF R some] by (simp add: q)
  have a1: "apart a (unat k) (que ?s i)" using a e by simp
  obtain k' s' L' where T: "queue_transfer i 0 (Buf a) k ?s = Some (LOS_OK, k', s')" "kinv n s' L'"
    "unat k' = min (unat k) (length x)" "bytes (byteMem s') a (unat k') = take (unat k') x"
    "queue_rep s' i q0 r (if ws = [] then w else Suc w)"
    "\<And>q'. plain q' \<Longrightarrow> L' q' = (if q' = NQWrite i then Some (tl ws) else L q')" "\<And>j. j \<noteq> i \<Longrightarrow> que s' j = que ?s j"
    "queue_shape (que s' i) = queue_shape (que ?s i)" "\<And>y. \<not> y - a < k \<Longrightarrow> byteMem s' y = byteMem ?s y"
    by (rule queue_read_law [OF I1 R1 a1 k ws]) (rule that; assumption)
  have "OsQueueOperateParamCheck (que s i) 0 k = LOS_OK"
    using used k by (simp add: OsQueueOperateParamCheck_def OS_QUEUE_IS_WRITE_def)
  then have O: "OsQueueOperate h 0 (Buf a) k timeOut s = Some (Ret LOS_OK, k', s')"
    using T(1) some i by (simp add: OsQueueOperate_def OsGetQueueHandle_def rw_cnt_def OS_QUEUE_IS_WRITE_def)
  show thesis by (rule that [OF O T(2)]) (use T(3-9) e q in \<open>simp_all add: queue_shape_def upd_que_def\<close>)
qed

text \<open>Nothing to read, or no room: the caller goes to sleep in the queue's list.\<close>

lemma queue_sleep_law:
  assumes I: "kinv (Suc n) s L" and ok: "OsQueueOperateParamCheck (que s i) ty k = LOS_OK"
    and none: "rw_cnt (OS_QUEUE_IS_WRITE ty) (que s i) = 0" and to: "timeOut \<noteq> LOS_NO_WAIT" and i: "unat h = i"
    and q: "L (rw_list (OS_QUEUE_IS_WRITE ty) i) = Some xs" and r: "runTask s = Some t"
    and st: "\<not> blocked (status s t)" "taskID (tcb s t) \<noteq> g_idleTaskID s" and on: "g_taskScheduled s" "g_losTaskLock s = 0"
  obtains s' L' where "OsQueueOperate h ty b k timeOut s =
      Some (Wait \<lparr>qw_queue = i, qw_type = ty, qw_addr = b, qw_size = k, qw_task = t\<rparr>, k, s')" "kinv n s' L'"
    "\<And>q'. plain q' \<Longrightarrow> L' q' = (if q' = rw_list (OS_QUEUE_IS_WRITE ty) i then Some (xs @ [NPend t]) else L q')"
    "is_pend (status s' t)" "is_pend_time (status s' t) \<longleftrightarrow> timeOut \<noteq> LOS_WAIT_FOREVER"
    "\<exists>new. runTask s' = Some new \<and> new \<noteq> t \<and> top_of s' new"
    "g_allQueue s' = g_allQueue s" "byteMem s' = byteMem s" "xkeep {} s s'"
proof -
  have w: "wait_head (rw_list (OS_QUEUE_IS_WRITE ty) i)" by (simp add: rw_list_def)
  obtain s1 s' L' where 1: "OsSchedTaskWait (rw_list (OS_QUEUE_IS_WRITE ty) i) timeOut s = Some s1" "LOS_Schedule s1 = Some s'"
    "kinv n s' L'" "ikeep s s'"
    "\<And>q'. plain q' \<Longrightarrow> L' q' = (if q' = rw_list (OS_QUEUE_IS_WRITE ty) i then Some (xs @ [NPend t]) else L q')"
    "is_pend (status s' t)" "is_pend_time (status s' t) \<longleftrightarrow> timeOut \<noteq> LOS_WAIT_FOREVER"
    "\<exists>new. runTask s' = Some new \<and> new \<noteq> t \<and> top_of s' new" and X: "xkeep {} s s'"
    by (rule ks.block_law [OF I r q w st on]) (rule that; assumption)
  have O: "OsQueueOperate h ty b k timeOut s =
      Some (Wait \<lparr>qw_queue = i, qw_type = ty, qw_addr = b, qw_size = k, qw_task = t\<rparr>, k, s')"
    using ok none to i r on(2) 1(1,2) by (simp add: OsQueueOperate_def OsGetQueueHandle_def)
  show thesis by (rule that [OF O 1(3) 1(5-8) _ _ X]) (use ikeep_sel [OF 1(4)] in simp_all)
qed

subsection \<open>Creation and deletion\<close>

text \<open>A node whose initialisation disturbs no list.\<close>

definition fresh :: "(node \<Rightarrow> node list option) \<Rightarrow> node \<Rightarrow> bool" where
  "fresh L x \<longleftrightarrow> x \<notin> covered L \<or> L x = Some []"

definition queue_ok :: "kstate \<Rightarrow> (node \<Rightarrow> node list option) \<Rightarrow> nat \<Rightarrow> bool" where
  "queue_ok s L i \<longleftrightarrow> queueID (que s i) = of_nat i \<and>
     (queueState (que s i) = OS_QUEUE_UNUSED \<longleftrightarrow> mem L NFreeQueue (NQWrite i)) \<and>
     (if queueState (que s i) = OS_QUEUE_UNUSED then fresh L (NQRead i) \<and> fresh L (NQMem i)
      else L (NQRead i) \<noteq> None \<and> L (NQWrite i) \<noteq> None \<and> L (NQMem i) \<noteq> None)"

definition queue_inv :: "kstate \<Rightarrow> (node \<Rightarrow> node list option) \<Rightarrow> bool" where
  "queue_inv s L \<longleftrightarrow> (\<forall>i<LOSCFG_BASE_IPC_QUEUE_LIMIT. queue_ok s L i) \<and> L NFreeQueue \<noteq> None \<and>
     (\<forall>i. mem L NFreeQueue (NQWrite i) \<longrightarrow> i < LOSCFG_BASE_IPC_QUEUE_LIMIT)"

lemma queue_free_first:
  assumes "queue_inv s L" "L NFreeQueue = Some (NQWrite i # us)"
  shows "i < LOSCFG_BASE_IPC_QUEUE_LIMIT" "queueState (que s i) = OS_QUEUE_UNUSED"
    "queueID (que s i) = of_nat i" "fresh L (NQRead i)" "fresh L (NQMem i)"
proof -
  have m: "mem L NFreeQueue (NQWrite i)" using assms(2) by (simp add: mem_def)
  then show i: "i < LOSCFG_BASE_IPC_QUEUE_LIMIT" using assms(1) by (simp add: queue_inv_def)
  then have "queue_ok s L i" using assms(1) by (simp add: queue_inv_def)
  then show "queueState (que s i) = OS_QUEUE_UNUSED" "queueID (que s i) = of_nat i" "fresh L (NQRead i)" "fresh L (NQMem i)"
    using m by (simp_all add: queue_ok_def split: if_splits)
qed

lemma queue_inv_change:
  assumes I: "queue_inv s L" and i: "queue_ok s' L' i" "i < LOSCFG_BASE_IPC_QUEUE_LIMIT"
    and o: "\<And>j. j \<noteq> i \<Longrightarrow> que s' j = que s j" "\<And>j. j \<noteq> i \<Longrightarrow> L' (NQRead j) = L (NQRead j)"
      "\<And>j. j \<noteq> i \<Longrightarrow> L' (NQWrite j) = L (NQWrite j)" "\<And>j. j \<noteq> i \<Longrightarrow> L' (NQMem j) = L (NQMem j)"
    and f: "\<And>j. j \<noteq> i \<Longrightarrow> fresh L (NQRead j) \<Longrightarrow> fresh L' (NQRead j)" "\<And>j. j \<noteq> i \<Longrightarrow> fresh L (NQMem j) \<Longrightarrow> fresh L' (NQMem j)"
    and u: "\<And>j. j \<noteq> i \<Longrightarrow> mem L' NFreeQueue (NQWrite j) = mem L NFreeQueue (NQWrite j)" "L' NFreeQueue \<noteq> None"
  shows "queue_inv s' L'"
  unfolding queue_inv_def
proof (intro conjI allI impI)
  show "queue_ok s' L' j" if "j < LOSCFG_BASE_IPC_QUEUE_LIMIT" for j
    using I i that o u f by (cases "j = i") (simp_all add: queue_inv_def queue_ok_def split: if_splits)
  show "L' NFreeQueue \<noteq> None" by (rule u)
  show "j < LOSCFG_BASE_IPC_QUEUE_LIMIT" if "mem L' NFreeQueue (NQWrite j)" for j
    using that I u i by (cases "j = i") (simp_all add: queue_inv_def)
qed

lemma fresh_upd:
  assumes "fresh L x" "x \<noteq> y" "x \<notin> set xs"
  shows "fresh (L(y \<mapsto> xs)) x"
  using assms covered_upd_in [of x L y xs] by (auto simp: fresh_def)

lemma queue_list_init:
  assumes "kinv n s L" "fresh L x" "quiet x"
  shows "kinv n (k_ListInit x s) (L(x \<mapsto> []))"
  by (rule kinv_list_init [OF assms(1) _ assms(3)]) (use assms(2) in \<open>simp add: fresh_def\<close>)

lemma queue_create_law:
  assumes I: "kinv n s L" and S: "queue_inv s L" and u: "L NFreeQueue = Some (NQWrite i # us)"
    and len: "len \<noteq> 0" and sz: "maxMsgSize \<noteq> 0" "maxMsgSize \<le> 0xFFFF - 4"
    and p: "mallocs s = p # ps" "p \<noteq> 0" "unat p + unat len * (unat maxMsgSize + 4) \<le> 2 ^ 32"
  obtains s' L' where "LOS_QueueCreate name len True flags maxMsgSize s = Some ((LOS_OK, Some (of_nat i)), s')"
    "kinv n s' L'" "queue_inv s' L'" "queue_rep s' i [] 0 0" "queueState (que s' i) = OS_QUEUE_INUSED"
    "L' = L(NFreeQueue \<mapsto> us, NQRead i \<mapsto> [], NQWrite i \<mapsto> [], NQMem i \<mapsto> [])" "mallocs s' = ps"
    "queueLen (que s' i) = len" "unat (queueSize (que s' i)) = unat maxMsgSize + 4"
    "\<And>j. j \<noteq> i \<Longrightarrow> que s' j = que s j"
proof -
  note il = queue_free_first [OF S u]
  let ?s0 = "s\<lparr>mallocs := ps\<rparr>"
  have I0: "kinv n ?s0 L" using I by simp
  note R = kinv_rep [OF I0]
  have z: "unat (maxMsgSize + 4) = unat maxMsgSize + 4"
    using sz(2) by (simp add: word_le_nat_alt unat_word_ariths)
  have zc: "unat (ucast (maxMsgSize + 4) :: u32) = unat maxMsgSize + 4"
    using z unat_lt16 [of "maxMsgSize + 4"] by (simp add: unsigned_ucast_eq take_bit_nat_eq_self)
  have lc: "unat (ucast len :: u32) = unat len"
    using unat_lt16 [of len] by (simp add: unsigned_ucast_eq take_bit_nat_eq_self)
  have "unat len * (unat maxMsgSize + 4) \<le> 0xFFFFFFFF" using p(2,3) unat_gt_0 [of p] by simp
  then have dv: "\<not> 0xFFFFFFFF div (ucast (maxMsgSize + 4) :: u32) < ucast len"
    by (simp add: word_less_nat_alt unat_div zc lc not_less less_eq_div_iff_mult_less_eq)
  obtain h where h: "k_ListDelete (NQWrite i) ?s0 = Some (?s0\<lparr>dl := h\<rparr>)"
    "kinv n (?s0\<lparr>dl := h\<rparr>) (L(NFreeQueue \<mapsto> us))" "NQWrite i \<notin> covered (L(NFreeQueue \<mapsto> us))"
    by (rule queue_pool.take_law [OF I0 u]) (rule that; assumption)
  have e: "\<not> k_ListEmpty NFreeQueue ?s0" "pstNext (dl ?s0) NFreeQueue = Some (NQWrite i)"
    using list_empty [OF R u] list_first [OF R u] by simp_all
  let ?c = "(que s i)\<lparr>queueName := name, queueLen := len, queueSize := maxMsgSize + 4, queue_buf := p,
    queueState := OS_QUEUE_INUSED, readableCnt := 0, writableCnt := len, queueHead := 0, queueTail := 0\<rparr>"
  let ?s1 = "?s0\<lparr>dl := h, g_allQueue := (g_allQueue s)(i := ?c)\<rparr>"
  let ?L1 = "L(NFreeQueue \<mapsto> us)"
  define s' where "s' = k_ListInit (NQMem i) (k_ListInit (NQWrite i) (k_ListInit (NQRead i) ?s1))"
  define L' where "L' = ?L1(NQRead i \<mapsto> [], NQWrite i \<mapsto> [], NQMem i \<mapsto> [])"
  have us: "x \<in> set us \<Longrightarrow> \<exists>j. x = NQWrite j" for x
    using kinv_holds [OF I, of NFreeQueue x] u by (cases x) (auto simp: mem_def)
  have nw: "NQWrite i \<notin> set us" using dl_rep_distinct [OF R u] by simp
  have f: "fresh ?L1 (NQRead i)" "fresh ?L1 (NQMem i)" "fresh ?L1 (NQWrite i)"
    using fresh_upd [OF il(4), of NFreeQueue us] fresh_upd [OF il(5), of NFreeQueue us] us h(3) by (auto simp: fresh_def)
  have "kinv n ?s1 ?L1" by (rule kinv_cong [OF h(2)]) simp_all
  then have K: "kinv n s' L'"
    unfolding s'_def L'_def by (intro queue_list_init fresh_upd f) simp_all
  have id: "ucast (queueID (que s i)) = (of_nat i :: u32)" using il(1,3) by (simp add: ucast_of_nat16)
  have ma: "\<not> maxMsgSize > 0xFFFF - 4" using sz(2) by (simp add: not_less)
  have O: "LOS_QueueCreate name len True flags maxMsgSize s = Some ((LOS_OK, Some (of_nat i)), s')"
    using e h(1) id len sz(1) ma p(1,2) dv
    by (simp add: LOS_QueueCreate_def OsQueueCreate_def LOS_MemAlloc_def upd_que_def k_ListInit_def s'_def Let_def)
  have g: "que s' j = (if j = i then ?c else que s j)" "byteMem s' = byteMem s" "mallocs s' = ps" for j
    by (simp_all add: s'_def k_ListInit_def)
  have l0: "0 < unat len" using len by (simp add: unat_gt_0)
  have "queue_rep s' i [] 0 0"
    using p z l0 sz unat_gt_0 [of maxMsgSize] by (simp add: queue_rep_def g ring_holds_def ring_def buf_ok_def word_less_nat_alt)
  moreover have "queue_inv s' L'"
  proof (rule queue_inv_change [OF S _ il(1)])
    show "queue_ok s' L' i" using il(3) nw by (simp add: queue_ok_def g L'_def mem_def)
    show "fresh L (NQRead j) \<Longrightarrow> fresh L' (NQRead j)" "fresh L (NQMem j) \<Longrightarrow> fresh L' (NQMem j)" if "j \<noteq> i" for j
      unfolding L'_def using that us by (auto intro!: fresh_upd)
    show "mem L' NFreeQueue (NQWrite j) = mem L NFreeQueue (NQWrite j)" if "j \<noteq> i" for j
      using that u by (simp add: L'_def mem_def)
  qed (simp_all add: g L'_def)
  ultimately show thesis
    by (intro that [OF O K]) (simp_all add: g z L'_def)
qed

lemma queue_delete_law:
  assumes I: "kinv n s L" and S: "queue_inv s L" and i: "unat h = i" "i < LOSCFG_BASE_IPC_QUEUE_LIMIT"
    and used: "queueState (que s i) \<noteq> OS_QUEUE_UNUSED" and R: "queue_rep s i q 0 0"
    and e: "L (NQRead i) = Some []" "L (NQWrite i) = Some []" "L (NQMem i) = Some []" and u: "L NFreeQueue = Some us"
  obtains s' where "LOS_QueueDelete h s = Some (LOS_OK, s')" "kinv n s' (L(NQWrite i := None, NFreeQueue \<mapsto> NQWrite i # us))"
    "queue_inv s' (L(NQWrite i := None, NFreeQueue \<mapsto> NQWrite i # us))" "queueState (que s' i) = OS_QUEUE_UNUSED"
    "freed s' = queue_buf (que s i) # freed s" "\<And>j. j \<noteq> i \<Longrightarrow> que s' j = que s j"
proof -
  let ?L = "L(NQWrite i := None, NFreeQueue \<mapsto> NQWrite i # us)"
  obtain h' where h: "k_ListAdd NFreeQueue (NQWrite i) s = Some (s\<lparr>dl := h'\<rparr>)" "kinv n (s\<lparr>dl := h'\<rparr>) ?L"
    by (rule queue_pool.put_law [OF I u e(2)]) (rule that; assumption)
  let ?f = "\<lambda>c. c\<lparr>queue_buf := 0, queueName := 0, queueState := OS_QUEUE_UNUSED\<rparr> :: LosQueueCB"
  have h1: "k_ListAdd NFreeQueue (NQWrite i) (upd_que i ?f s) = Some (upd_que i ?f (s\<lparr>dl := h'\<rparr>))"
    using h(1) by (cases s) (auto simp: k_ListAdd_def upd_que_def split: bind_splits)
  note em = list_empty [OF kinv_rep [OF I] e(1)] list_empty [OF kinv_rep [OF I] e(2)] list_empty [OF kinv_rep [OF I] e(3)]
  have c: "unat (writableCnt (que s i)) + unat (readableCnt (que s i)) = unat (queueLen (que s i))" "queue_buf (que s i) \<noteq> 0"
    using R by (simp_all add: queue_rep_def ring_holds_def buf_ok_def)
  let ?s = "LOS_MemFree (queue_buf (que s i)) (upd_que i ?f (s\<lparr>dl := h'\<rparr>))"
  have O: "LOS_QueueDelete h s = Some (LOS_OK, ?s)"
    using i used em c(1) h1 by (simp add: LOS_QueueDelete_def OsGetQueueHandle_def Let_def)
  have g: "que ?s j = (if j = i then ?f (que s i) else que s j)" for j
    by (simp add: LOS_MemFree_def upd_que_def)
  have ok: "queue_ok s L i" using S i by (simp add: queue_inv_def)
  have Q: "queue_inv ?s ?L"
  proof (rule queue_inv_change [OF S _ i(2)])
    show "queue_ok ?s ?L i" using ok e unfolding queue_ok_def g by (simp add: fresh_def mem_def)
    show "fresh L (NQRead j) \<Longrightarrow> fresh ?L (NQRead j)" "fresh L (NQMem j) \<Longrightarrow> fresh ?L (NQMem j)" if "j \<noteq> i" for j
      using u by (auto simp: fresh_def covered_def split: if_splits)
    show "mem ?L NFreeQueue (NQWrite j) = mem L NFreeQueue (NQWrite j)" if "j \<noteq> i" for j
      using that u by (simp add: mem_def)
  qed (simp_all add: g)
  have K: "kinv n ?s ?L" by (rule kinv_cong [OF h(2)]) (simp_all add: LOS_MemFree_def upd_que_def)
  show thesis
    by (rule that [OF O K Q]) (simp_all add: g, simp add: LOS_MemFree_def c upd_que_def)
qed

text \<open>A queue with a message or a node promised to a task that has not run yet is not deleted.\<close>

lemma queue_delete_promised:
  assumes I: "kinv n s L" and i: "unat h = i" "i < LOSCFG_BASE_IPC_QUEUE_LIMIT"
    and used: "queueState (que s i) \<noteq> OS_QUEUE_UNUSED" and R: "queue_rep s i q r w" "0 < r + w"
    and e: "L (NQRead i) = Some []" "L (NQWrite i) = Some []" "L (NQMem i) = Some []"
  shows "LOS_QueueDelete h s = Some (LOS_ERRNO_QUEUE_IN_TSKWRITE, s)"
proof -
  note em = list_empty [OF kinv_rep [OF I] e(1)] list_empty [OF kinv_rep [OF I] e(2)] list_empty [OF kinv_rep [OF I] e(3)]
  have "unat (writableCnt (que s i)) + unat (readableCnt (que s i)) \<noteq> unat (queueLen (que s i))"
    using R by (auto simp: queue_rep_def)
  then show ?thesis using i used em by (simp add: LOS_QueueDelete_def OsGetQueueHandle_def Let_def)
qed

end
