(* ===== verification/LosSwtmr.thy ===== *)
theory LosSwtmr
  imports LosTask LosQueue
begin

text \<open>
  Software timers, kernel/src/los_swtmr.c (compiled when LOSCFG_BASE_CORE_SWTMR
  is 1, that is \<open>cfg_swtmr\<close>; alignment of timers, LOSCFG_BASE_CORE_SWTMR_ALIGN, is
  off).  A timer is an index into g_swtmrCBArray; the id a user holds also counts
  how often the control block has been reused.  The tick handler calls
  \<open>OsSwtmrScan\<close>, which hands expired timers to the timer task through a message
  queue.
\<close>

abbreviation (input) LOSCFG_BASE_CORE_SWTMR_LIMIT :: u32 where "LOSCFG_BASE_CORE_SWTMR_LIMIT \<equiv> 48"
abbreviation (input) OS_SWTMR_MAX_TIMERID :: u32 where "OS_SWTMR_MAX_TIMERID \<equiv> 0xFFFFFFFF div 48 * 48"
abbreviation (input) OS_SWTMR_STATUS_UNUSED :: u8 where "OS_SWTMR_STATUS_UNUSED \<equiv> 0"
abbreviation (input) OS_SWTMR_STATUS_CREATED :: u8 where "OS_SWTMR_STATUS_CREATED \<equiv> 1"
abbreviation (input) OS_SWTMR_STATUS_TICKING :: u8 where "OS_SWTMR_STATUS_TICKING \<equiv> 2"
abbreviation (input) LOS_SWTMR_MODE_ONCE :: u8 where "LOS_SWTMR_MODE_ONCE \<equiv> 0"
abbreviation (input) LOS_SWTMR_MODE_PERIOD :: u8 where "LOS_SWTMR_MODE_PERIOD \<equiv> 1"
abbreviation (input) LOS_SWTMR_MODE_NO_SELFDELETE :: u8 where "LOS_SWTMR_MODE_NO_SELFDELETE \<equiv> 2"
abbreviation (input) sizeof_SwtmrHandlerItem :: u32 where "sizeof_SwtmrHandlerItem \<equiv> 12"

abbreviation (input) LOS_ERRNO_SWTMR_PTR_NULL :: u32 where "LOS_ERRNO_SWTMR_PTR_NULL \<equiv> 0x02000300"
abbreviation (input) LOS_ERRNO_SWTMR_INTERVAL_NOT_SUITED :: u32 where "LOS_ERRNO_SWTMR_INTERVAL_NOT_SUITED \<equiv> 0x02000301"
abbreviation (input) LOS_ERRNO_SWTMR_MODE_INVALID :: u32 where "LOS_ERRNO_SWTMR_MODE_INVALID \<equiv> 0x02000302"
abbreviation (input) LOS_ERRNO_SWTMR_RET_PTR_NULL :: u32 where "LOS_ERRNO_SWTMR_RET_PTR_NULL \<equiv> 0x02000303"
abbreviation (input) LOS_ERRNO_SWTMR_MAXSIZE :: u32 where "LOS_ERRNO_SWTMR_MAXSIZE \<equiv> 0x02000304"
abbreviation (input) LOS_ERRNO_SWTMR_ID_INVALID :: u32 where "LOS_ERRNO_SWTMR_ID_INVALID \<equiv> 0x02000305"
abbreviation (input) LOS_ERRNO_SWTMR_NOT_CREATED :: u32 where "LOS_ERRNO_SWTMR_NOT_CREATED \<equiv> 0x02000306"
abbreviation (input) LOS_ERRNO_SWTMR_NO_MEMORY :: u32 where "LOS_ERRNO_SWTMR_NO_MEMORY \<equiv> 0x02000307"
abbreviation (input) LOS_ERRNO_SWTMR_QUEUE_CREATE_FAILED :: u32 where "LOS_ERRNO_SWTMR_QUEUE_CREATE_FAILED \<equiv> 0x0200030B"
abbreviation (input) LOS_ERRNO_SWTMR_TASK_CREATE_FAILED :: u32 where "LOS_ERRNO_SWTMR_TASK_CREATE_FAILED \<equiv> 0x0200030C"
abbreviation (input) LOS_ERRNO_SWTMR_NOT_STARTED :: u32 where "LOS_ERRNO_SWTMR_NOT_STARTED \<equiv> 0x0200030D"
abbreviation (input) LOS_ERRNO_SWTMR_STATUS_INVALID :: u32 where "LOS_ERRNO_SWTMR_STATUS_INVALID \<equiv> 0x0200030E"
abbreviation (input) LOS_ERRNO_SWTMR_TICK_PTR_NULL :: u32 where "LOS_ERRNO_SWTMR_TICK_PTR_NULL \<equiv> 0x02000310"

abbreviation swt :: "kstate \<Rightarrow> nat \<Rightarrow> SWTMR_CTRL_S" where
  "swt s i \<equiv> g_swtmrCBArray s i"

definition upd_swt :: "nat \<Rightarrow> (SWTMR_CTRL_S \<Rightarrow> SWTMR_CTRL_S) \<Rightarrow> kstate \<Rightarrow> kstate" where
  "upd_swt i f s = s\<lparr>g_swtmrCBArray := (g_swtmrCBArray s)(i := f (g_swtmrCBArray s i))\<rparr>"

definition OS_SWT_FROM_SID :: "u32 \<Rightarrow> nat" where
  "OS_SWT_FROM_SID swtmrId = unat (swtmrId mod LOSCFG_BASE_CORE_SWTMR_LIMIT)"

fun SWT_FROM_SORT :: "node \<Rightarrow> nat option" where
  "SWT_FROM_SORT (NSwtmr i) = Some i"
| "SWT_FROM_SORT _ = None"

definition OsSwtmrStart :: "nat \<Rightarrow> kstate \<Rightarrow> kstate option" where
  "OsSwtmrStart i s = do {
     let s = upd_swt i (\<lambda>c. c\<lparr>ucState := OS_SWTMR_STATUS_TICKING\<rparr>) s;
     s \<leftarrow> OsAdd2SortLink (NSwtmr i) (tm_startTime (swt s i)) (uwInterval (swt s i)) OS_SORT_LINK_SWTMR s;
     OsSchedUpdateExpireTime s
   }"

definition OsSwtmrDelete :: "nat \<Rightarrow> kstate \<Rightarrow> kstate" where
  "OsSwtmrDelete i s =
     (let s = upd_swt i (\<lambda>c. c\<lparr>usTimerID :=
                if usTimerID c < OS_SWTMR_MAX_TIMERID - LOSCFG_BASE_CORE_SWTMR_LIMIT
                then usTimerID c + LOSCFG_BASE_CORE_SWTMR_LIMIT
                else usTimerID c mod LOSCFG_BASE_CORE_SWTMR_LIMIT\<rparr>) s;
          s = upd_swt i (\<lambda>c. c\<lparr>tm_next := g_swtmrFreeList s\<rparr>) s;
          s = s\<lparr>g_swtmrFreeList := Some i\<rparr>
      in upd_swt i (\<lambda>c. c\<lparr>ucState := OS_SWTMR_STATUS_UNUSED\<rparr>) s)"

definition OsSwtmrStop :: "nat \<Rightarrow> kstate \<Rightarrow> kstate option" where
  "OsSwtmrStop i s = do {
     s \<leftarrow> OsDeleteSortLink (NSwtmr i) s;
     let s = upd_swt i (\<lambda>c. c\<lparr>ucState := OS_SWTMR_STATUS_CREATED, ucOverrun := 0\<rparr>) s;
     OsSchedUpdateExpireTime s
   }"

definition OsSwtmrTimeoutHandle :: "nat \<Rightarrow> kstate \<Rightarrow> kstate option" where
  "OsSwtmrTimeoutHandle i s = do {
     (_, s) \<leftarrow> LOS_QueueWriteCopy (g_swtmrHandlerQueue s)
        (Local [pfnHandler (swt s i), tm_arg (swt s i), usTimerID (swt s i)]) sizeof_SwtmrHandlerItem LOS_NO_WAIT s;
     if ucMode (swt s i) = LOS_SWTMR_MODE_PERIOD
     then OsSwtmrStart i (upd_swt i (\<lambda>c. c\<lparr>ucOverrun := ucOverrun c + 1\<rparr>) s)
     else if ucMode (swt s i) = LOS_SWTMR_MODE_NO_SELFDELETE
     then Some (upd_swt i (\<lambda>c. c\<lparr>ucState := OS_SWTMR_STATUS_CREATED\<rparr>) s)
     else Some s
   }"

text \<open>The loop of OsSwtmrScan over the expired timers.\<close>

partial_function (option) swtmr_scan_loop :: "node \<Rightarrow> u64 \<Rightarrow> kstate \<Rightarrow> kstate option" where
  "swtmr_scan_loop sortList currTime s =
     (if responseTime s sortList \<le> currTime
      then do {
        i \<leftarrow> SWT_FROM_SORT sortList;
        let s = upd_swt i (\<lambda>c. c\<lparr>tm_startTime := responseTime s sortList\<rparr>) s;
        s \<leftarrow> OsDeleteNodeSortLink sortList s;
        s \<leftarrow> OsSwtmrTimeoutHandle i s;
        if k_ListEmpty NSwtmrSort s then Some s
        else do {
          first \<leftarrow> pstNext (dl s) NSwtmrSort;
          nxt \<leftarrow> SORT_ENTRY first;
          swtmr_scan_loop nxt currTime s
        }
      }
      else Some s)"

definition OsSwtmrScan :: "kstate \<Rightarrow> (bool \<times> kstate) option" where
  "OsSwtmrScan s =
     (if k_ListEmpty NSwtmrSort s then Some (False, s)
      else do {
        first \<leftarrow> pstNext (dl s) NSwtmrSort;
        sortList \<leftarrow> SORT_ENTRY first;
        (currTime, s) \<leftarrow> OsGetCurrSchedTimeCycle s;
        let needSchedule = (responseTime s sortList \<le> currTime);
        s \<leftarrow> swtmr_scan_loop sortList currTime s;
        Some (needSchedule, s)
      })"

text \<open>The loop of OsSwtmrResponseTimeReset; it follows the links of the node it has just moved.\<close>

partial_function (option) swtmr_reset_loop :: "node \<Rightarrow> u64 \<Rightarrow> kstate \<Rightarrow> kstate option" where
  "swtmr_reset_loop listNext start s =
     (if listNext = NSwtmrSort then Some s
      else do {
        sortList \<leftarrow> SORT_ENTRY listNext;
        i \<leftarrow> SWT_FROM_SORT sortList;
        s \<leftarrow> OsDeleteNodeSortLink sortList s;
        let s = upd_swt i (\<lambda>c. c\<lparr>tm_startTime := start\<rparr>) s;
        s \<leftarrow> OsSwtmrStart i s;
        nxt \<leftarrow> pstNext (dl s) listNext;
        swtmr_reset_loop nxt start s
      })"

definition OsSwtmrResponseTimeReset :: "u64 \<Rightarrow> kstate \<Rightarrow> kstate option" where
  "OsSwtmrResponseTimeReset start s = do { nxt \<leftarrow> pstNext (dl s) NSwtmrSort; swtmr_reset_loop nxt start s }"

text \<open>A number of cycles as ticks, cut to 32 bits.\<close>

definition swtmr_ticks :: "u64 \<Rightarrow> kstate \<Rightarrow> u32 option" where
  "swtmr_ticks time s = do {
     t \<leftarrow> OS_SYS_CYCLE_TO_TICK time (tk s);
     Some (ucast (if t > 0xFFFFFFFF then 0xFFFFFFFF else t))
   }"

definition OsSwtmrGetNextTimeout :: "kstate \<Rightarrow> (u32 \<times> kstate) option" where
  "OsSwtmrGetNextTimeout s = do {
     (time, s) \<leftarrow> OsSortLinkGetNextExpireTime NSwtmrSort s;
     t \<leftarrow> swtmr_ticks time s;
     Some (t, s)
   }"

definition OsSwtmrTimeGet :: "nat \<Rightarrow> kstate \<Rightarrow> (u32 \<times> kstate) option" where
  "OsSwtmrTimeGet i s = do {
     (now, s) \<leftarrow> OsGetCurrSchedTimeCycle s;
     t \<leftarrow> swtmr_ticks (OsSortLinkGetTargetExpireTime now (NSwtmr i) s) s;
     Some (t, s)
   }"

definition OsSwtmrTaskCreate :: "u32 \<Rightarrow> kstate \<Rightarrow> (u32 \<times> kstate) option" where
  "OsSwtmrTaskCreate name s = do {
     ((ret, tid), s) \<leftarrow> LOS_TaskCreate True (Some \<lparr>pfnTaskEntry = text_addr s Sym_OsSwtmrTask, usTaskPrio = 0,
        uwArg = 0, stackAddr = 0, uwStackSize = LOSCFG_BASE_CORE_TSK_DEFAULT_STACK_SIZE, pcName = name, uwResved = 0\<rparr>) s;
     let s = (case tid of None \<Rightarrow> s | Some i \<Rightarrow> s\<lparr>g_swtmrTaskID := i\<rparr>);
     Some (ret, if ret = LOS_OK
                then or_status (OS_TCB_FROM_TID (g_swtmrTaskID s)) OS_TASK_FLAG_SYSTEM_TASK s else s)
   }"

definition null_swtmr :: SWTMR_CTRL_S where
  "null_swtmr = \<lparr>tm_next = None, ucState = 0, ucMode = 0, ucOverrun = 0, usTimerID = 0, uwInterval = 0,
     tm_arg = 0, pfnHandler = 0, tm_startTime = 0\<rparr>"

primrec swtmr_init_loop :: "nat list \<Rightarrow> nat \<Rightarrow> kstate \<Rightarrow> kstate" where
  "swtmr_init_loop [] temp s = s"
| "swtmr_init_loop (i # is) temp s =
     swtmr_init_loop is i (upd_swt temp (\<lambda>c. c\<lparr>tm_next := Some i\<rparr>) (upd_swt i (\<lambda>c. c\<lparr>usTimerID := of_nat i\<rparr>) s))"

text \<open>\<open>name\<close> is the address of the timer task's name; on an error the memory after the last timer is freed.\<close>

definition OsSwtmrInit :: "u32 \<Rightarrow> kstate \<Rightarrow> (u32 \<times> kstate) option" where
  "OsSwtmrInit name s =
     (let (p, s) = LOS_MemAlloc s
      in if p = 0 then Some (LOS_ERRNO_SWTMR_NO_MEMORY, s)
         else do {
           let s = s\<lparr>g_swtmrCBArray := (\<lambda>i. if i < 48 then null_swtmr else g_swtmrCBArray s i),
                     g_swtmrFreeList := Some 0\<rparr>;
           let s = swtmr_init_loop [1..<48] 0 s;
           let behind = p + 48 * 48;
           ((ret, qid), s) \<leftarrow> LOS_QueueCreate 0 48 True 0 (ucast sizeof_SwtmrHandlerItem) s;
           let s = (case qid of None \<Rightarrow> s | Some i \<Rightarrow> s\<lparr>g_swtmrHandlerQueue := i\<rparr>);
           if ret \<noteq> LOS_OK then Some (LOS_ERRNO_SWTMR_QUEUE_CREATE_FAILED, LOS_MemFree behind s)
           else do {
             (ret, s) \<leftarrow> OsSwtmrTaskCreate name s;
             if ret \<noteq> LOS_OK then Some (LOS_ERRNO_SWTMR_TASK_CREATE_FAILED, LOS_MemFree behind s)
             else case OsGetSortLinkAttribute OS_SORT_LINK_SWTMR s of
                 None \<Rightarrow> Some (LOS_NOK, LOS_MemFree behind s)
               | Some head \<Rightarrow>
                   let (ret, s) = OsSortLinkInit head s
                   in if ret \<noteq> LOS_OK then Some (LOS_NOK, LOS_MemFree behind s) else Some (LOS_OK, s)
           }
         })"

definition LOS_SwtmrCreate ::
  "u32 \<Rightarrow> u8 \<Rightarrow> u32 \<Rightarrow> bool \<Rightarrow> u32 \<Rightarrow> kstate \<Rightarrow> (u32 \<times> u32 option) \<times> kstate" where
  "LOS_SwtmrCreate interval mode handler swtmrId argument s =
     (if interval = 0 then ((LOS_ERRNO_SWTMR_INTERVAL_NOT_SUITED, None), s)
      else if mode \<noteq> LOS_SWTMR_MODE_ONCE \<and> mode \<noteq> LOS_SWTMR_MODE_PERIOD \<and> mode \<noteq> LOS_SWTMR_MODE_NO_SELFDELETE
      then ((LOS_ERRNO_SWTMR_MODE_INVALID, None), s)
      else if handler = 0 then ((LOS_ERRNO_SWTMR_PTR_NULL, None), s)
      else if \<not> swtmrId then ((LOS_ERRNO_SWTMR_RET_PTR_NULL, None), s)
      else case g_swtmrFreeList s of
          None \<Rightarrow> ((LOS_ERRNO_SWTMR_MAXSIZE, None), s)
        | Some i \<Rightarrow>
            let s = s\<lparr>g_swtmrFreeList := tm_next (swt s i)\<rparr>;
                s = upd_swt i (\<lambda>c. c\<lparr>pfnHandler := handler, ucMode := mode, uwInterval := interval, tm_next := None,
                                      tm_arg := argument, ucState := OS_SWTMR_STATUS_CREATED, ucOverrun := 0\<rparr>) s
            in ((LOS_OK, Some (usTimerID (swt s i))),
                set_response (NSwtmr i) OS_SORT_LINK_INVALID_TIME s))"

definition LOS_SwtmrStart :: "u32 \<Rightarrow> kstate \<Rightarrow> (u32 \<times> kstate) option" where
  "LOS_SwtmrStart swtmrId s =
     (let i = OS_SWT_FROM_SID swtmrId
      in if swtmrId \<ge> OS_SWTMR_MAX_TIMERID then Some (LOS_ERRNO_SWTMR_ID_INVALID, s)
         else if usTimerID (swt s i) \<noteq> swtmrId then Some (LOS_ERRNO_SWTMR_NOT_CREATED, s)
         else if ucState (swt s i) = OS_SWTMR_STATUS_UNUSED then Some (LOS_ERRNO_SWTMR_NOT_CREATED, s)
         else if ucState (swt s i) = OS_SWTMR_STATUS_TICKING \<or> ucState (swt s i) = OS_SWTMR_STATUS_CREATED
         then do {
           s \<leftarrow> (if ucState (swt s i) = OS_SWTMR_STATUS_TICKING then OsSwtmrStop i s else Some s);
           (now, s) \<leftarrow> OsGetCurrSchedTimeCycle s;
           s \<leftarrow> OsSwtmrStart i (upd_swt i (\<lambda>c. c\<lparr>tm_startTime := now\<rparr>) s);
           Some (LOS_OK, s)
         }
         else Some (LOS_ERRNO_SWTMR_STATUS_INVALID, s))"

definition LOS_SwtmrStop :: "u32 \<Rightarrow> kstate \<Rightarrow> (u32 \<times> kstate) option" where
  "LOS_SwtmrStop swtmrId s =
     (let i = OS_SWT_FROM_SID swtmrId
      in if swtmrId \<ge> OS_SWTMR_MAX_TIMERID then Some (LOS_ERRNO_SWTMR_ID_INVALID, s)
         else if usTimerID (swt s i) \<noteq> swtmrId then Some (LOS_ERRNO_SWTMR_NOT_CREATED, s)
         else if ucState (swt s i) = OS_SWTMR_STATUS_UNUSED then Some (LOS_ERRNO_SWTMR_NOT_CREATED, s)
         else if ucState (swt s i) = OS_SWTMR_STATUS_CREATED then Some (LOS_ERRNO_SWTMR_NOT_STARTED, s)
         else if ucState (swt s i) = OS_SWTMR_STATUS_TICKING
         then do { s \<leftarrow> OsSwtmrStop i s; Some (LOS_OK, s) }
         else Some (LOS_ERRNO_SWTMR_STATUS_INVALID, s))"

definition LOS_SwtmrTimeGet :: "u32 \<Rightarrow> bool \<Rightarrow> kstate \<Rightarrow> ((u32 \<times> u32 option) \<times> kstate) option" where
  "LOS_SwtmrTimeGet swtmrId tick s =
     (let i = OS_SWT_FROM_SID swtmrId
      in if swtmrId \<ge> OS_SWTMR_MAX_TIMERID then Some ((LOS_ERRNO_SWTMR_ID_INVALID, None), s)
         else if \<not> tick then Some ((LOS_ERRNO_SWTMR_TICK_PTR_NULL, None), s)
         else if usTimerID (swt s i) \<noteq> swtmrId then Some ((LOS_ERRNO_SWTMR_NOT_CREATED, None), s)
         else if ucState (swt s i) = OS_SWTMR_STATUS_UNUSED then Some ((LOS_ERRNO_SWTMR_NOT_CREATED, None), s)
         else if ucState (swt s i) = OS_SWTMR_STATUS_CREATED then Some ((LOS_ERRNO_SWTMR_NOT_STARTED, None), s)
         else if ucState (swt s i) = OS_SWTMR_STATUS_TICKING
         then do { (t, s) \<leftarrow> OsSwtmrTimeGet i s; Some ((LOS_OK, Some t), s) }
         else Some ((LOS_ERRNO_SWTMR_STATUS_INVALID, None), s))"

definition LOS_SwtmrDelete :: "u32 \<Rightarrow> kstate \<Rightarrow> (u32 \<times> kstate) option" where
  "LOS_SwtmrDelete swtmrId s =
     (let i = OS_SWT_FROM_SID swtmrId
      in if swtmrId \<ge> OS_SWTMR_MAX_TIMERID then Some (LOS_ERRNO_SWTMR_ID_INVALID, s)
         else if usTimerID (swt s i) \<noteq> swtmrId then Some (LOS_ERRNO_SWTMR_NOT_CREATED, s)
         else if ucState (swt s i) = OS_SWTMR_STATUS_UNUSED then Some (LOS_ERRNO_SWTMR_NOT_CREATED, s)
         else if ucState (swt s i) = OS_SWTMR_STATUS_TICKING \<or> ucState (swt s i) = OS_SWTMR_STATUS_CREATED
         then do {
           s \<leftarrow> (if ucState (swt s i) = OS_SWTMR_STATUS_TICKING then OsSwtmrStop i s else Some s);
           Some (LOS_OK, OsSwtmrDelete i s)
         }
         else Some (LOS_ERRNO_SWTMR_STATUS_INVALID, s))"

text \<open>
  One round of the timer task, from the answer of its queue read (the code, the
  size read and the item): the handler to call with its argument, if any.
\<close>

definition OsSwtmrTask_round ::
  "u32 \<Rightarrow> u32 \<Rightarrow> u32 \<times> u32 \<times> u32 \<Rightarrow> kstate \<Rightarrow> (u32 \<times> u32) option \<times> kstate" where
  "OsSwtmrTask_round ret readSize item s =
     (case item of (handler, argument, swtmrID) \<Rightarrow>
        if \<not> (ret = LOS_OK \<and> readSize = sizeof_SwtmrHandlerItem) then (None, s)
        else if handler = 0 \<or> swtmrID \<ge> OS_SWTMR_MAX_TIMERID then (None, s)
        else let i = OS_SWT_FROM_SID swtmrID
             in if usTimerID (swt s i) \<noteq> swtmrID then (None, s)
                else (Some (handler, argument),
                      if ucMode (swt s i) = LOS_SWTMR_MODE_ONCE then OsSwtmrDelete i s else s))"

text \<open>The tick interrupt with software timers.\<close>

definition OsTickHandler_swtmr :: "kstate \<Rightarrow> kstate option" where
  "OsTickHandler_swtmr s = OsTickHandler (Some OsSwtmrScan) s"

end
