(* ===== verification/LosBoot.thy ===== *)
theory LosBoot
  imports LosTask LosSem LosMux LosQueue LosSwtmr
begin

text \<open>
  System start: OsTaskInit and OsIdleTaskCreate of kernel/src/los_task.c,
  LOS_KernelInit of kernel/src/los_init.c and the start of the first task,
  HalStartToRun of sub/LiteOS_RTOS_FE.c after OsSchedStart.  \<open>memInit\<close> is the
  answer of OsMemSystemInit, which prepares a pool that LOS_MemAlloc (malloc) does
  not use; \<open>name\<close> is the address of the idle task's name.
\<close>

primrec task_init_loop :: "nat list \<Rightarrow> kstate \<Rightarrow> kstate option" where
  "task_init_loop [] s = Some s"
| "task_init_loop (i # is) s = do {
     s \<leftarrow> k_ListTailInsert NFreeTask (NPend i)
          (upd_tcb i (\<lambda>c. c\<lparr>taskStatus := OS_TASK_STATUS_UNUSED, taskID := of_nat i\<rparr>) s);
     task_init_loop is s
   }"

text \<open>memset_s of the whole array of control blocks, the spare one included.\<close>

definition clear_tasks :: "nat \<Rightarrow> kstate \<Rightarrow> kstate" where
  "clear_tasks n s = foldl (\<lambda>s i. clear_tcb i s) s [0..<n]"

definition OsTaskInit :: "kstate \<Rightarrow> (u32 \<times> kstate) option" where
  "OsTaskInit s =
     (let s = s\<lparr>g_taskMaxNum := of_nat (LOSCFG_BASE_CORE_TSK_LIMIT + 1)\<rparr>;
          (p, s) = LOS_MemAlloc s
      in if p = 0 then Some (LOS_ERRNO_TSK_NO_MEMORY, s)
         else do {
           let s = clear_tasks (LOSCFG_BASE_CORE_TSK_LIMIT + 2) s;
           let s = k_ListInit NRecycle (k_ListInit NFreeTask s);
           s \<leftarrow> task_init_loop [0..<LOSCFG_BASE_CORE_TSK_LIMIT + 1] s;
           let r = LOSCFG_BASE_CORE_TSK_LIMIT + 1;
           let s = s\<lparr>newTask := None, runTask := Some r\<rparr>;
           let s = upd_tcb r (\<lambda>c. c\<lparr>taskID := of_nat r,
                     taskStatus := OS_TASK_STATUS_UNUSED OR OS_TASK_STATUS_RUNNING,
                     priority := OS_TASK_PRIORITY_LOWEST + 1\<rparr>) s;
           let s = s\<lparr>g_idleTaskID := OS_INVALID\<rparr>;
           Some (OsSchedInit s)
         })"

definition OsIdleTaskCreate :: "u32 \<Rightarrow> kstate \<Rightarrow> (u32 \<times> kstate) option" where
  "OsIdleTaskCreate name s = do {
     ((retVal, tid), s) \<leftarrow> LOS_TaskCreateOnly True (Some \<lparr>pfnTaskEntry = text_addr s Sym_OsIdleTask,
        usTaskPrio = OS_TASK_PRIORITY_LOWEST, uwArg = 0, stackAddr = 0,
        uwStackSize = LOSCFG_BASE_CORE_TSK_IDLE_STACK_SIZE, pcName = name, uwResved = 0\<rparr>) s;
     let s = (case tid of None \<Rightarrow> s | Some i \<Rightarrow> s\<lparr>g_idleTaskID := i\<rparr>);
     if retVal \<noteq> LOS_OK then Some (retVal, s)
     else do {
       s \<leftarrow> OsSchedSetIdleTaskSchedParam (OS_TCB_FROM_TID (g_idleTaskID s)) s;
       Some (LOS_OK, s)
     }
   }"

text \<open>The parts that the board's configuration compiles in; the call of OsSwtmrInit is commented out.\<close>

definition LOS_KernelInit :: "u32 \<Rightarrow> u32 \<Rightarrow> kstate \<Rightarrow> (u32 \<times> kstate) option" where
  "LOS_KernelInit memInit name s =
     (if memInit \<noteq> LOS_OK then Some (memInit, s)
      else let (ret, k) = OsTickTimerInit (tk s); s = s\<lparr>tk := k\<rparr>
      in if ret \<noteq> LOS_OK then Some (ret, s)
      else do {
        (ret, s) \<leftarrow> OsTaskInit s;
        if ret \<noteq> LOS_OK then Some (ret, s)
        else do {
          (ret, s) \<leftarrow> OsSemInit s;
          if ret \<noteq> LOS_OK then Some (ret, s)
          else do {
            (ret, s) \<leftarrow> OsMuxInit s;
            if ret \<noteq> LOS_OK then Some (ret, s)
            else do {
              (ret, s) \<leftarrow> OsQueueInit s;
              if ret \<noteq> LOS_OK then Some (ret, s)
              else OsIdleTaskCreate name s
            }
          }
        }
      })"

definition HalStartToRun :: "kstate \<Rightarrow> kstate option" where
  "HalStartToRun s = do {
     new \<leftarrow> newTask s;
     Some (upd_tcb new (\<lambda>c. c\<lparr>taskStatus := OS_TASK_STATUS_RUNNING\<rparr>) s)
   }"

end
