(* ===== verification/LosTaskInv.thy ===== *)
theory LosTaskInv
  imports LosTask LosPool
begin

text \<open>
  What the task functions do to the kernel's invariant: recycling control
  blocks, creating and deleting tasks, suspending and resuming them.
\<close>

subsection \<open>Control blocks\<close>

lemma dl_zero_rep:
  assumes "dl_rep h L" "x \<notin> covered L"
  shows "dl_rep \<lparr>pstPrev = (pstPrev h)(x := None), pstNext = (pstNext h)(x := None)\<rparr> L"
proof -
  have "dll \<lparr>pstPrev = (pstPrev h)(x := None), pstNext = (pstNext h)(x := None)\<rparr> q xs = dll h q xs"
    if "L q = Some xs" for q xs
    by (rule dll_cong) (use assms(2) that in \<open>auto simp: covered_def\<close>)
  with assms(1) show ?thesis unfolding dl_rep_def by metis
qed

lemma dl_zero_dl: "dl_rep (dl s) L \<Longrightarrow> x \<notin> covered L \<Longrightarrow> dl_rep (dl (dl_zero x s)) L"
  by (simp add: dl_zero_def dl_zero_rep)

text \<open>A task whose nodes are in no list, and in whose own lists nobody waits.\<close>

definition loose :: "(node \<Rightarrow> node list option) \<Rightarrow> nat \<Rightarrow> bool" where
  "loose L t \<longleftrightarrow> (\<forall>q. \<not> mem L q (NPend t)) \<and> (\<forall>q. \<not> mem L q (NSort t)) \<and>
     (L (NJoin t) = None \<or> L (NJoin t) = Some []) \<and>
     (L (NEvent (EvTask t)) = None \<or> L (NEvent (EvTask t)) = Some [])"

definition free_lists :: "nat \<Rightarrow> (node \<Rightarrow> node list option) \<Rightarrow> node \<Rightarrow> node list option" where
  "free_lists t L = L(NJoin t := None, NEvent (EvTask t) := None, NFreeTask \<mapsto> NPend t # the (L NFreeTask))"

definition free_tcb :: "LosTaskCB \<Rightarrow> LosTaskCB" where
  "free_tcb c = null_tcb\<lparr>taskID := taskID c, taskStatus := OS_TASK_STATUS_UNUSED\<rparr>"

lemma mem_free_lists:
  assumes "kinv n s L" "loose L t"
  shows "mem (free_lists t L) q m \<longleftrightarrow> mem L q m \<or> q = NFreeTask \<and> m = NPend t"
proof -
  have "L NFreeTask \<noteq> None" using assms(1) by (simp add: kinv_def sched_inv_def glob_ok_def)
  then show ?thesis using assms(2) by (auto simp: mem_def free_lists_def loose_def)
qed

lemma not_covered:
  assumes "kinv n s L" "\<And>q. \<not> mem L q x" "L x = None"
  shows "x \<notin> covered L"
  using assms(2,3) unfolding covered_def mem_def by auto

lemma kinv_shape:
  assumes "kinv n s L"
  shows "L (NPend t) = None" "L (NSort t) = None" "L NFreeTask \<noteq> None" "L NRecycle \<noteq> None"
    "sched_inv s L" "sys_ok n s" "glob_ok s L"
  using assms by (simp_all add: kinv_def sched_inv_def glob_ok_def)

lemma kinv_not_mem: "kinv n s L \<Longrightarrow> \<not> mem L q (NJoin t) \<and> \<not> mem L q (NEvent e)"
  using kinv_holds [of n s L q "NJoin t"] kinv_holds [of n s L q "NEvent e"] by auto

lemma insert_free_law:
  assumes I: "kinv n s L" and l: "loose L t" and r: "runTask s \<noteq> Some t"
    and i: "taskID (tcb s t) \<noteq> g_idleTaskID s"
  obtains h s' where "OsInsertTCBToFreeList t s = Some s'"
    "s' = s\<lparr>dl := h, responseTime := (responseTime s)(NSort t := 0), uwEventID := (uwEventID s)(EvTask t := 0),
      g_taskCBArray := (g_taskCBArray s)(t := free_tcb (tcb s t))\<rparr>"
    "kinv n s' (free_lists t L)"
proof -
  note K = kinv_shape [OF I]
  let ?L = "L(NJoin t := None, NEvent (EvTask t) := None)"
  let ?s1 = "dl_zero (NPend t) (dl_zero (NSort t) (dl_zero (NJoin t) (dl_zero (NEvent (EvTask t)) s)))"
  have R0: "dl_rep (dl s) ?L" by (intro list_drop kinv_rep [OF I])
  have sub: "covered ?L \<subseteq> covered L" by (auto simp: covered_def split: if_splits)
  have nc: "NPend t \<notin> covered ?L" "NSort t \<notin> covered ?L" "NJoin t \<notin> covered ?L" "NEvent (EvTask t) \<notin> covered ?L"
    using l K kinv_not_mem [OF I] unfolding covered_def loose_def mem_def
    by (auto split: if_splits)
  have R1: "dl_rep (dl ?s1) ?L" by (intro dl_zero_dl R0 nc)
  obtain xs where xs: "L NFreeTask = Some xs" using K(3) by blast
  have "?L NFreeTask = Some xs" using xs by simp
  from list_head_insert [OF R1 this nc(1)] obtain h where
    h: "LOS_ListAdd NFreeTask (NPend t) (dl ?s1) = Some h" "dl_rep h (?L(NFreeTask \<mapsto> NPend t # xs))" .
  let ?s = "s\<lparr>dl := h, responseTime := (responseTime s)(NSort t := 0), uwEventID := (uwEventID s)(EvTask t := 0),
      g_taskCBArray := (g_taskCBArray s)(t := free_tcb (tcb s t))\<rparr>"
  have O: "OsInsertTCBToFreeList t s = Some ?s"
    using h(1)
    by (simp add: OsInsertTCBToFreeList_def clear_tcb_def Let_def upd_tcb_def set_event_def set_response_def
        k_ListAdd_def dl_zero_def free_tcb_def)
  have L': "free_lists t L = ?L(NFreeTask \<mapsto> NPend t # xs)" using xs by (simp add: free_lists_def)
  note M = mem_free_lists [OF I l]
  have "glob_ok ?s (free_lists t L)"
  proof -
    have srt: "the (free_lists t L NTaskSort) = the (L NTaskSort)" "free_lists t L NTaskSort = L NTaskSort"
      by (simp_all add: free_lists_def)
    have ns: "NSort t \<notin> set (the (L NTaskSort))"
      using l K(7) by (auto simp: loose_def mem_def glob_ok_def)
    have sorted: "sorted (map (responseTime ?s) (the (L NTaskSort)))"
      by (rule sorted_map_cong [of "responseTime s"]) (use K(7) ns in \<open>auto simp: glob_ok_def\<close>)
    have H: "mem (free_lists t L) q m \<longrightarrow> holds q m" for q m
      using M [of q m] kinv_holds [OF I, of q m] by auto
    show ?thesis
      using K(7) H sorted h(2) unfolding glob_ok_def L' [symmetric] by (simp add: srt) (simp add: free_lists_def)
  qed
  moreover have "task_ok ?s (free_lists t L) u" for u
  proof (cases "u = t")
    case True
    have "\<not> bit (1 :: u16) k" if "k \<noteq> 0" for k using that by (simp add: bit_simps)
    then show ?thesis using True l i K(7)
      unfolding task_ok_def flags_ok_def M loc_ok_def ready_def delayed_def loose_def
      by (auto simp: free_tcb_def null_tcb_def)
  next
    case False
    then show ?thesis
      using sched_inv_task [OF K(5), of u] by (subst task_ok_cong [of _ _ s _ L]) (simp_all add: M)
  qed
  moreover have "run_ok ?s" using sched_inv_run_ok [OF K(5)] r by (auto simp: run_ok_def)
  moreover have "sys_ok n ?s"
    using K(6) r unfolding sys_ok_def idle_slot_def
    by (auto simp: free_tcb_def null_tcb_def)
  ultimately have "kinv n ?s (free_lists t L)" by (simp add: kinv_def sched_inv_def)
  then show thesis by (rule that [OF O refl])
qed


text \<open>What is cleared does not matter, except for the task's id.\<close>

lemma insert_free_upd:
  "taskID (f (tcb s t)) = taskID (tcb s t) \<Longrightarrow> OsInsertTCBToFreeList t (upd_tcb t f s) = OsInsertTCBToFreeList t s"
  by (simp add: OsInsertTCBToFreeList_def clear_tcb_def Let_def upd_tcb_def dl_zero_def set_event_def set_response_def)

definition own_stack :: "LosTaskCB \<Rightarrow> u32" where
  "own_stack c = (if bit (taskStatus c) 11 then topOfStack c else 0)"

lemma recycle_free:
  assumes "\<not> bit (status s t) 15"
  shows "OsRecycleTaskResources t s = map_option (\<lambda>s'. (own_stack (tcb s t), s')) (OsInsertTCBToFreeList t s)"
proof -
  have c: "clr_status t OS_TASK_FLAG_STACK_FREE (upd_tcb t (\<lambda>c. c\<lparr>topOfStack := 0\<rparr>) s) =
    upd_tcb t (\<lambda>c. c\<lparr>topOfStack := 0, taskStatus := taskStatus c AND NOT OS_TASK_FLAG_STACK_FREE\<rparr>) s"
    by (simp add: los_defs)
  have f: "OsInsertTCBToFreeList t (clr_status t OS_TASK_FLAG_STACK_FREE (upd_tcb t (\<lambda>c. c\<lparr>topOfStack := 0\<rparr>) s)) =
    OsInsertTCBToFreeList t s"
    unfolding c by (rule insert_free_upd) simp
  have j: "status s t AND OS_TASK_FLAG_JOINABLE = 0"
    "status (clr_status t OS_TASK_FLAG_STACK_FREE (upd_tcb t (\<lambda>c. c\<lparr>topOfStack := 0\<rparr>) s)) t AND OS_TASK_FLAG_JOINABLE = 0"
    using assms by (simp_all add: c upd_tcb_def flag_simps)
  show ?thesis
  proof (cases "bit (status s t) 11 \<and> topOfStack (tcb s t) \<noteq> 0")
    case True
    then show ?thesis
      using j by (simp add: OsRecycleTaskResources_def own_stack_def flag_simps f split: option.splits bind_splits)
  next
    case False
    then show ?thesis
      using j by (auto simp: OsRecycleTaskResources_def own_stack_def flag_simps split: option.splits bind_splits)
  qed
qed

subsection \<open>The recycling loop\<close>

text \<open>The control blocks in the free list and in the recycle list belong to no task any more.\<close>

definition spare :: "(node \<Rightarrow> node list option) \<Rightarrow> nat \<Rightarrow> bool" where
  "spare L t \<longleftrightarrow> mem L NFreeTask (NPend t) \<or> mem L NRecycle (NPend t)"

definition spare_ok :: "kstate \<Rightarrow> (node \<Rightarrow> node list option) \<Rightarrow> bool" where
  "spare_ok s L \<longleftrightarrow> (\<forall>t. spare L t \<longrightarrow>
     t < unat (g_taskMaxNum s) \<and> taskID (tcb s t) = of_nat t \<and>
     \<not> bit (status s t) 15 \<and> runTask s \<noteq> Some t \<and> taskID (tcb s t) \<noteq> g_idleTaskID s \<and>
     (L (NJoin t) = None \<or> L (NJoin t) = Some []) \<and>
     (L (NEvent (EvTask t)) = None \<or> L (NEvent (EvTask t)) = Some []))"

lemma take_spare_law:
  assumes I: "kinv n s L" and U: "U = NRecycle \<or> U = NFreeTask" and q: "L U = Some (NPend t # xs)" and ok: "spare_ok s L"
  obtains h where "k_ListDelete (NPend t) s = Some (s\<lparr>dl := h\<rparr>)" "kinv n (s\<lparr>dl := h\<rparr>) (L(U \<mapsto> xs))"
    "loose (L(U \<mapsto> xs)) t" "is_unused (status s t)"
proof -
  note K = kinv_shape [OF I]
  have m: "mem L U (NPend t)" using q by (simp add: mem_def)
  obtain h L' where 1: "k_ListDelete (NPend t) s = Some (s\<lparr>dl := h\<rparr>)" "but t (s\<lparr>dl := h\<rparr>) L'"
    "L' = L(U \<mapsto> remove1 (NPend t) (the (L U)))"
    and M: "\<And>q' m. mem L' q' m \<longleftrightarrow> mem L q' m \<and> m \<noteq> NPend t"
    by (rule but_delete_pend [OF sched_inv_but [OF K(5)] m]) (use U in \<open>auto intro: that\<close>)
  have L': "L' = L(U \<mapsto> xs)" using 1(3) q by simp
  have u: "is_unused (status s t)"
    using sched_inv_task [OF K(5), of t] m U by (auto simp: task_ok_def loc_ok_def)
  have ns: "\<not> mem L q' (NSort t)" for q'
    using sched_inv_task [OF K(5), of t] u kinv_holds [OF I, of q' "NSort t"]
    by (auto simp: task_ok_def delayed_def flags_ok_def)
  have T: "task_ok (s\<lparr>dl := h\<rparr>) L' t"
    using sched_inv_task [OF K(5), of t] u unfolding task_ok_def ready_def loc_ok_def delayed_def M flags_ok_def by auto
  have R: "run_ok (s\<lparr>dl := h\<rparr>)" using sched_inv_run_ok [OF K(5)] by (simp add: run_ok_def)
  have S: "sys_ok n (s\<lparr>dl := h\<rparr>)" using K(6) by (simp add: sys_ok_def idle_slot_def)
  have I': "kinv n (s\<lparr>dl := h\<rparr>) L'" using but_close [OF 1(2) T R] S by (simp add: kinv_def)
  have "loose L' t" using ok m ns U unfolding loose_def M by (auto simp: spare_ok_def spare_def L')
  then show thesis using that [OF 1(1)] I' u by (simp add: L')
qed


text \<open>What recycling leaves alone.\<close>

definition rkeep :: "kstate \<Rightarrow> kstate \<Rightarrow> bool" where
  "rkeep s s' \<longleftrightarrow> s' = s\<lparr>dl := dl s', responseTime := responseTime s', uwEventID := uwEventID s',
     g_taskCBArray := g_taskCBArray s', freed := freed s'\<rparr>"

lemma rkeep_refl: "rkeep s s"
  by (simp add: rkeep_def)

lemma rkeep_trans: "rkeep s s' \<Longrightarrow> rkeep s' s'' \<Longrightarrow> rkeep s s''"
  by (cases s; cases s'; cases s'') (simp add: rkeep_def)

lemma rkeep_sel:
  assumes "rkeep s s'"
  shows "runTask s' = runTask s" "g_idleTaskID s' = g_idleTaskID s" "mallocs s' = mallocs s"
    "g_taskScheduled s' = g_taskScheduled s" "g_losTaskLock s' = g_losTaskLock s" "stackMem s' = stackMem s"
    "g_taskMaxNum s' = g_taskMaxNum s" "text_addr s' = text_addr s" "g_schedTimeSliceMin s' = g_schedTimeSliceMin s"
  by (subst assms [unfolded rkeep_def], simp)+

lemma free_lists_recycle: "free_lists t (L(NRecycle \<mapsto> xs)) = (free_lists t L)(NRecycle \<mapsto> xs)"
  by (auto simp: free_lists_def)

lemma free_lists_sel:
  "free_lists t L NRecycle = L NRecycle" "free_lists t L NFreeTask = Some (NPend t # the (L NFreeTask))"
  "u \<noteq> t \<Longrightarrow> free_lists t L (NJoin u) = L (NJoin u)"
  "u \<noteq> t \<Longrightarrow> free_lists t L (NEvent (EvTask u)) = L (NEvent (EvTask u))"
  by (simp_all add: free_lists_def)

lemma kinv_mem_free [simp]: "kinv n (LOS_MemFree p s) L = kinv n s L"
  by (simp add: LOS_MemFree_def)

lemma recycle_loop_law:
  "\<lbrakk> kinv n s L; L NRecycle = Some (map NPend ts); spare_ok s L \<rbrakk> \<Longrightarrow>
   \<exists>s'. OsRecycleFinishedTask s = Some s' \<and> kinv n s' (fold free_lists ts (L(NRecycle \<mapsto> []))) \<and> rkeep s s' \<and>
     (\<forall>u. tcb s' u = (if u \<in> set ts then free_tcb (tcb s u) else tcb s u)) \<and> spare_ok s' (fold free_lists ts (L(NRecycle \<mapsto> []))) \<and>
     freed s' = rev (filter (\<lambda>p. p \<noteq> 0) (map (\<lambda>t. own_stack (tcb s t)) ts)) @ freed s"
proof (induction ts arbitrary: s L)
  case Nil
  have "k_ListEmpty NRecycle s"
    using list_empty [OF kinv_rep [OF Nil.prems(1)] Nil.prems(2)] by simp
  then have "OsRecycleFinishedTask s = Some s" by (simp add: OsRecycleFinishedTask.simps)
  moreover have "L(NRecycle \<mapsto> []) = L" using Nil.prems(2) by (simp add: fun_upd_idem)
  ultimately show ?case using Nil.prems(1,3) by (simp add: rkeep_refl)
next
  case (Cons t ts)
  have q: "L NRecycle = Some (NPend t # map NPend ts)" using Cons.prems(2) by simp
  have d: "t \<notin> set ts" using dl_rep_distinct [OF kinv_rep [OF Cons.prems(1)] q] by auto
  obtain h where 1: "k_ListDelete (NPend t) s = Some (s\<lparr>dl := h\<rparr>)" "kinv n (s\<lparr>dl := h\<rparr>) (L(NRecycle \<mapsto> map NPend ts))"
    "loose (L(NRecycle \<mapsto> map NPend ts)) t"
    by (rule take_spare_law [OF Cons.prems(1) disjI1 [OF refl] q Cons.prems(3)]) (rule that; assumption)
  have c: "\<not> bit (status s t) 15" "runTask s \<noteq> Some t" "taskID (tcb s t) \<noteq> g_idleTaskID s"
    using Cons.prems(3) q by (auto simp: spare_ok_def spare_def mem_def)
  let ?L = "free_lists t (L(NRecycle \<mapsto> map NPend ts))"
  obtain h' s1 where 2: "OsInsertTCBToFreeList t (s\<lparr>dl := h\<rparr>) = Some s1"
    "s1 = (s\<lparr>dl := h\<rparr>)\<lparr>dl := h', responseTime := (responseTime (s\<lparr>dl := h\<rparr>))(NSort t := 0),
        uwEventID := (uwEventID (s\<lparr>dl := h\<rparr>))(EvTask t := 0),
        g_taskCBArray := (g_taskCBArray (s\<lparr>dl := h\<rparr>))(t := free_tcb (tcb (s\<lparr>dl := h\<rparr>) t))\<rparr>"
    "kinv n s1 ?L"
    by (rule insert_free_law [OF 1(2,3)]) (use c in \<open>auto intro: that\<close>)
  let ?s = "LOS_MemFree (own_stack (tcb s t)) s1"
  have rk: "rkeep s ?s" by (simp add: 2(2) rkeep_def LOS_MemFree_def)
  have tcb: "tcb ?s u = (if u = t then free_tcb (tcb s t) else tcb s u)" for u
    by (simp add: 2(2) LOS_MemFree_def)
  have run: "runTask ?s = runTask s" "g_idleTaskID ?s = g_idleTaskID s" using rkeep_sel(1,2) [OF rk] .
  have sp: "spare ?L u \<longleftrightarrow> spare L u" for u
    using q kinv_shape(3) [OF Cons.prems(1)] by (auto simp: spare_def mem_def free_lists_def)
  have ok: "spare_ok ?s ?L"
    unfolding spare_ok_def sp tcb run
  proof (intro allI impI)
    fix u assume "spare L u"
    with Cons.prems(3) show "u < unat (g_taskMaxNum ?s) \<and> taskID (if u = t then free_tcb (tcb s t) else tcb s u) = of_nat u \<and>
        \<not> bit (taskStatus (if u = t then free_tcb (tcb s t) else tcb s u)) 15 \<and> runTask s \<noteq> Some u \<and>
        taskID (if u = t then free_tcb (tcb s t) else tcb s u) \<noteq> g_idleTaskID s \<and>
        (?L (NJoin u) = None \<or> ?L (NJoin u) = Some []) \<and>
        (?L (NEvent (EvTask u)) = None \<or> ?L (NEvent (EvTask u)) = Some [])"
      by (cases "u = t") (auto simp: spare_ok_def free_tcb_def null_tcb_def free_lists_def rkeep_sel(7) [OF rk])
  qed
  have L: "?L NRecycle = Some (map NPend ts)" "?L(NRecycle \<mapsto> []) = free_lists t (L(NRecycle \<mapsto> []))"
    by (simp_all add: free_lists_sel free_lists_recycle)
  have I': "kinv n ?s ?L" using 2(3) by simp
  from Cons.IH [OF I' L(1) ok] obtain s' where
    3: "OsRecycleFinishedTask ?s = Some s'" "kinv n s' (fold free_lists ts (?L(NRecycle \<mapsto> [])))" "rkeep ?s s'"
    "\<forall>u. tcb s' u = (if u \<in> set ts then free_tcb (tcb ?s u) else tcb ?s u)"
    and 4: "spare_ok s' (fold free_lists ts (?L(NRecycle \<mapsto> [])))"
    and 5: "freed s' = rev (filter (\<lambda>p. p \<noteq> 0) (map (\<lambda>t. own_stack (tcb ?s t)) ts)) @ freed ?s" by blast
  have ne: "\<not> k_ListEmpty NRecycle s"
    using list_empty [OF kinv_rep [OF Cons.prems(1)] q] by simp
  have hd: "pstNext (dl s) NRecycle = Some (NPend t)" using list_first [OF kinv_rep [OF Cons.prems(1)] q] by simp
  have O: "OsRecycleFinishedTask s = Some s'"
    using ne hd 1(1) recycle_free [of "s\<lparr>dl := h\<rparr>" t] c(1) 2(1) 3(1)
    by (subst OsRecycleFinishedTask.simps) simp
  have m: "map (\<lambda>t. own_stack (tcb ?s t)) ts = map (\<lambda>t. own_stack (tcb s t)) ts"
    using d by (auto simp: tcb)
  have F: "freed s' = rev (filter (\<lambda>p. p \<noteq> 0) (map (\<lambda>t. own_stack (tcb s t)) (t # ts))) @ freed s"
    using 5 unfolding m by (simp add: 2(2) LOS_MemFree_def)
  have U: "\<forall>u. tcb s' u = (if u \<in> set (t # ts) then free_tcb (tcb s u) else tcb s u)"
    using 3(4) d unfolding tcb by auto
  have "kinv n s' (fold free_lists (t # ts) (L(NRecycle \<mapsto> [])))" using 3(2) unfolding L(2) by (simp only: fold_simps)
  moreover have "spare_ok s' (fold free_lists (t # ts) (L(NRecycle \<mapsto> [])))" using 4 unfolding L(2) by (simp only: fold_simps)
  ultimately show ?case using O rkeep_trans [OF rk 3(3)] U F by blast
qed

subsection \<open>The stack of a new task\<close>

lemma down8: "unat (x AND NOT 7 :: u32) = unat x - unat x mod 8"
proof -
  have m: "(7 :: u32) = mask 3" by (simp add: mask_eq_exp_minus_1)
  have e: "x AND NOT 7 = push_bit 3 (drop_bit 3 x)"
  proof (rule bit_word_eqI)
    fix n assume "n < LENGTH(32)"
    show "bit (x AND NOT 7) n = bit (push_bit 3 (drop_bit 3 x)) n"
    proof (cases "3 \<le> n")
      case True
      then obtain k where "n = 3 + k" using le_Suc_ex by blast
      then show ?thesis unfolding m by (auto simp: bit_simps)
    next
      case False
      then show ?thesis unfolding m by (simp add: bit_simps)
    qed
  qed
  have tb: "take_bit 32 (unat x) = unat x" using unat_lt [of x] by (simp add: take_bit_nat_eq_self)
  have "unat (push_bit 3 (drop_bit 3 x)) = take_bit 32 (push_bit 3 (drop_bit 3 (unat x)))"
    using tb by (simp add: unsigned_push_bit_eq unsigned_drop_bit_eq)
  moreover have "push_bit 3 (drop_bit 3 (unat x)) = unat x - unat x mod 8"
    by (simp add: push_bit_eq_mult drop_bit_eq_div minus_mod_eq_mult_div)
  ultimately show ?thesis
    unfolding e using unat_lt [of x] by (simp add: take_bit_nat_eq_self)
qed

lemma up8: "unat x + 7 < 2 ^ 32 \<Longrightarrow> unat (LOS_Align x 8) = 8 * ((unat x + 7) div 8)"
proof -
  assume a: "unat x + 7 < 2 ^ 32"
  have u: "unat (x + 7) = unat x + 7" using a by (simp add: unat_word_ariths)
  have "x < x + 7" unfolding word_less_nat_alt u by simp
  then have "LOS_Align x 8 = (x + 7) AND NOT 7" by (simp add: LOS_Align_def)
  then show ?thesis using down8 [of "x + 7"] u by (simp add: minus_mod_eq_mult_div)
qed

text \<open>Where OsNewTaskInit puts the stack of a task, and how large it is.\<close>

definition stack_base :: "TSK_INIT_PARAM_S \<Rightarrow> kstate \<Rightarrow> u32" where
  "stack_base p s = (if stackAddr p = 0 then hd (mallocs s) else LOS_Align (stackAddr p) 8)"

definition stack_len :: "TSK_INIT_PARAM_S \<Rightarrow> u32" where
  "stack_len p = (if stackAddr p = 0 then LOS_Align (uwStackSize p) 8
     else TRUNCATE (uwStackSize p - (LOS_Align (stackAddr p) 8 - stackAddr p)) 8)"

text \<open>
  The parameters are acceptable and there is memory for the stack: the next
  block malloc returns, or the buffer of the caller; no word of it is the magic
  word of a task that can still run.
\<close>

definition stack_given :: "TSK_INIT_PARAM_S \<Rightarrow> kstate \<Rightarrow> bool" where
  "stack_given p s \<longleftrightarrow> 0x130 \<le> uwStackSize p \<and> uwStackSize p \<le> LOSCFG_SYS_HEAP_SIZE \<and> stack_base p s \<noteq> 0 \<and>
     (if stackAddr p = 0 then mallocs s \<noteq> [] \<and> unat (stack_base p s) + unat (stack_len p) \<le> 2 ^ 32
      else unat (stackAddr p) + unat (uwStackSize p) \<le> 2 ^ 32)"

lemma stack_len_law:
  assumes "stack_given p s"
  shows "0x128 \<le> unat (stack_len p)" "unat (stack_len p) \<le> 0x40000" "unat (stack_base p s) + unat (stack_len p) \<le> 2 ^ 32"
proof -
  have z: "0x130 \<le> unat (uwStackSize p)" "unat (uwStackSize p) \<le> 0x40000"
    using assms by (simp_all add: stack_given_def word_le_nat_alt)
  have "0x128 \<le> unat (stack_len p) \<and> unat (stack_len p) \<le> 0x40000 \<and> unat (stack_base p s) + unat (stack_len p) \<le> 2 ^ 32"
  proof (cases "stackAddr p = 0")
    case True
    have "unat (stack_len p) = 8 * ((unat (uwStackSize p) + 7) div 8)"
      using up8 [of "uwStackSize p"] z True by (simp add: stack_len_def)
    then show ?thesis using z True assms unfolding stack_given_def by (simp; linarith)
  next
    case False
    have f: "unat (stackAddr p) + unat (uwStackSize p) \<le> 2 ^ 32" using False assms by (simp add: stack_given_def)
    let ?a = "LOS_Align (stackAddr p) 8"
    have a: "unat ?a = 8 * ((unat (stackAddr p) + 7) div 8)" by (rule up8) (use f z in linarith)
    have d: "unat (?a - stackAddr p) = unat ?a - unat (stackAddr p)"
      by (rule unat_sub) (simp add: word_le_nat_alt a; linarith)
    have dl: "unat ?a - unat (stackAddr p) \<le> 7" "unat (stackAddr p) \<le> unat ?a" unfolding a by linarith+
    have e: "unat (uwStackSize p - (?a - stackAddr p)) = unat (uwStackSize p) - (unat ?a - unat (stackAddr p))"
      by (subst unat_sub) (use d dl z in \<open>simp_all add: word_le_nat_alt\<close>)
    let ?X = "unat (uwStackSize p - (?a - stackAddr p))"
    have ln: "unat (stack_len p) = ?X - ?X mod 8" using False down8 by (simp add: stack_len_def TRUNCATE_def)
    have b: "stack_base p s = ?a" using False by (simp add: stack_base_def)
    have X: "297 \<le> ?X" "?X \<le> 0x40000" "unat ?a + ?X \<le> 2 ^ 32" using e dl z f by linarith+
    have l8: "x - x mod 8 \<le> x" "297 \<le> x \<longrightarrow> 296 \<le> x - x mod 8" for x :: nat by presburger+
    have "unat (stack_len p) \<le> ?X" "296 \<le> unat (stack_len p)" unfolding ln using l8 [of ?X] X(1) by blast+
    then show ?thesis using X unfolding b by (intro conjI) linarith+
  qed
  then show "0x128 \<le> unat (stack_len p)" "unat (stack_len p) \<le> 0x40000" "unat (stack_base p s) + unat (stack_len p) \<le> 2 ^ 32"
    by simp_all
qed

lemma store_words_frame: "(\<And>i. i < length ws \<Longrightarrow> a + 4 * of_nat i \<noteq> x) \<Longrightarrow> store_words a ws m x = m x"
proof (induction ws arbitrary: a m)
  case (Cons w ws)
  have "store_words (a + 4) ws (m(a \<mapsto> w)) x = (m(a \<mapsto> w)) x"
  proof (rule Cons.IH)
    fix i assume "i < length ws"
    then show "a + 4 + 4 * of_nat i \<noteq> x" using Cons.prems [of "Suc i"] by (simp add: algebra_simps)
  qed
  moreover have "a \<noteq> x" using Cons.prems [of 0] by simp
  ultimately show ?case by simp
qed simp

lemma store_words_at:
  "\<lbrakk> i < length ws; length ws \<le> 2 ^ 29 \<rbrakk> \<Longrightarrow> store_words a ws m (a + 4 * of_nat i) = Some (ws ! i)"
proof (induction ws arbitrary: a m i)
  case (Cons w ws)
  show ?case
  proof (cases i)
    case 0
    have "store_words (a + 4) ws (m(a \<mapsto> w)) a = (m(a \<mapsto> w)) a"
    proof (rule store_words_frame)
      fix j assume j: "j < length ws"
      have "unat (4 * of_nat (Suc j) :: u32) = 4 * Suc j"
        using j Cons.prems(2) by (simp add: unat_word_ariths unat_of_nat)
      then have "(4 * of_nat (Suc j) :: u32) \<noteq> 0" by (metis unsigned_0 mult_is_0 nat.distinct(1) zero_neq_numeral)
      then show "a + 4 + 4 * of_nat j \<noteq> a" by (simp add: algebra_simps)
    qed
    then show ?thesis using 0 by simp
  next
    case (Suc j)
    have e: "a + 4 * of_nat (Suc j) = a + 4 + 4 * of_nat j" by (simp add: algebra_simps)
    show ?thesis unfolding Suc e store_words.simps nth_Cons_Suc by (rule Cons.IH) (use Cons.prems Suc in simp_all)
  qed
qed simp

definition frame_words :: "u32 \<Rightarrow> kstate \<Rightarrow> u32 list" where
  "frame_words tid s = [0x04040404, 0x05050505, 0x06060606, 0x07070707, 0x08080808, 0x09090909, 0x10101010, 0x11111111,
     0, tid, 0x01010101, 0x02020202, 0x03030303, 0x12121212,
     text_addr s Sym_ArchSysExit, text_addr s Sym_OsTaskEntry, 0x01000000]"

definition new_tcb :: "TSK_INIT_PARAM_S \<Rightarrow> kstate \<Rightarrow> LosTaskCB \<Rightarrow> LosTaskCB" where
  "new_tcb p s c = c\<lparr>arg := uwArg p, stackSize := stack_len p, taskSem := None, taskMux := None,
     taskStatus := OS_TASK_STATUS_SUSPEND OR (if bit (uwResved p) 31 then OS_TASK_FLAG_JOINABLE else 0)
       OR (if stackAddr p = 0 then OS_TASK_FLAG_STACK_FREE else 0),
     priority := usTaskPrio p, timeSlice := 0, waitTimes := 0, taskEntry := pfnTaskEntry p, eventMask := 0,
     taskName := pcName p, msg := 0, topOfStack := stack_base p s, stackPointer := stack_base p s + stack_len p - 68\<rparr>"

definition new_stack :: "TSK_INIT_PARAM_S \<Rightarrow> u32 \<Rightarrow> kstate \<Rightarrow> u32 \<Rightarrow> u32 option" where
  "new_stack p tid s = store_words (stack_base p s + stack_len p - 68) (frame_words tid s)
     ((\<lambda>a. if a - stack_base p s < stack_len p \<and> (a - stack_base p s) AND 3 = 0 then Some OS_TASK_STACK_INIT else stackMem s a)
        (stack_base p s \<mapsto> OS_TASK_MAGIC_WORD))"

lemma small_bit: "unat x < 2 ^ k \<Longrightarrow> k < 32 \<Longrightarrow> \<not> bit (x :: u32) k"
proof
  assume a: "unat x < 2 ^ k" "k < 32" "bit x k"
  then have "bit (unat x) k" by (simp add: bit_unsigned_iff)
  with a(1) show False by (simp add: bit_iff_odd)
qed

lemma new_task_eq:
  assumes g: "stack_given p s"
  shows "OsNewTaskInit t p s = Some (LOS_OK,
    (let s1 = k_ListInit (NEvent (EvTask t)) s; s2 = (if bit (uwResved p) 31 then k_ListInit (NJoin t) s1 else s1)
     in s2\<lparr>g_taskCBArray := (g_taskCBArray s)(t := new_tcb p s (tcb s t)),
       responseTime := (responseTime s)(NSort t := OS_SORT_LINK_INVALID_TIME),
       uwEventID := (uwEventID s)(EvTask t := 0),
       mallocs := (if stackAddr p = 0 then tl (mallocs s) else mallocs s),
       stackMem := new_stack p (taskID (tcb s t)) s\<rparr>))"
proof -
  note l = stack_len_law [OF g]
  have mp: "SECUREC_MEMSET_PARAM_OK (stack_base p s) (stack_len p) (stack_len p)"
    using l(2) g by (simp add: SECUREC_MEMSET_PARAM_OK_def stack_given_def word_le_nat_alt)
  have j: "uwResved p AND LOS_TASK_ATTR_JOINABLE \<noteq> 0 \<longleftrightarrow> bit (uwResved p) 31"
    using and_exp_eq_0_iff_not_bit [of "uwResved p" 31] by simp
  have nz: "stack_len p \<noteq> 0" using l(1) by auto
  have ma: "LOS_MemAllocAlign (stack_len p) 8 s' = (hd (mallocs s), s'\<lparr>mallocs := tl (mallocs s)\<rparr>)"
    if "stackAddr p = 0" "mallocs s' = mallocs s" for s'
  proof -
    have e: "stack_len p + 8 - 4 = 4 + stack_len p" by simp
    have u: "unat (4 + stack_len p) = unat (stack_len p) + 4" using l(2) by (simp add: unat_word_ariths)
    have b: "\<not> bit (4 + stack_len p) 31" "\<not> bit (4 + stack_len p) 30"
      using small_bit [of "4 + stack_len p" 31] small_bit [of "4 + stack_len p" 30] l(2) unfolding u by simp_all
    have "mallocs s \<noteq> []" using g that by (simp add: stack_given_def)
    moreover have "\<not> stack_len p < 8" "\<not> 8 - 4 > 0xFFFFFFFF - stack_len p"
      using l by (simp_all add: word_less_nat_alt unat_sub_if' word_size)
    ultimately show ?thesis
      using that nz b unfolding LOS_MemAllocAlign_def LOS_MemAlloc_def e
      by (cases "mallocs s") (simp_all add: OS_MEM_IS_POW_TWO_def Let_def)
  qed
  have b0: "stack_base p s \<noteq> 0" using g by (simp add: stack_given_def)
  note defs = OsNewTaskInit_def j Let_def LOS_EventInit_def los_defs set_event_def stack_fill_def ArchTskStackInit_def
    new_tcb_def new_stack_def frame_words_def
  show ?thesis
  proof (cases "stackAddr p = 0")
    case True
    have e: "LOS_Align (uwStackSize p) 8 = stack_len p" "hd (mallocs s) = stack_base p s"
      using True by (simp_all add: stack_len_def stack_base_def)
    show ?thesis
      by (cases "bit (uwResved p) 31"; simp add: defs True e ma [OF True, unfolded e] mp b0 del: store_words.simps cong: if_cong; intro kstate.equality; simp; cases "tcb s t"; simp)
  next
    case False
    have e: "TRUNCATE (uwStackSize p - (stack_base p s - stackAddr p)) 8 = stack_len p"
      "LOS_Align (stackAddr p) 8 = stack_base p s"
      using False by (simp_all add: stack_len_def stack_base_def)
    show ?thesis
      by (cases "bit (uwResved p) 31"; simp add: defs False e mp b0 del: store_words.simps cong: if_cong; intro kstate.equality; simp; cases "tcb s t"; simp)
  qed
qed

subsection \<open>Creating a task\<close>

definition frame_addr :: "TSK_INIT_PARAM_S \<Rightarrow> kstate \<Rightarrow> u32" where
  "frame_addr p s = stack_base p s + stack_len p - 68"

lemma frame_word_addr:
  assumes "stack_given p s" "i < 17"
  shows "unat (frame_addr p s + 4 * of_nat i) = unat (stack_base p s) + unat (stack_len p) - 68 + 4 * i"
proof -
  note l = stack_len_law [OF assms(1)]
  have a: "frame_addr p s = stack_base p s + (stack_len p - 68)" by (simp add: frame_addr_def)
  have u: "unat (stack_len p - 68) = unat (stack_len p) - 68" using l(1) by (simp add: unat_sub word_le_nat_alt)
  have b: "unat (frame_addr p s) = unat (stack_base p s) + (unat (stack_len p) - 68)"
    unfolding a using unat_add_nat [of "stack_base p s" "unat (stack_len p - 68)"] l u by simp
  have "unat (frame_addr p s + of_nat (4 * i)) = unat (frame_addr p s) + 4 * i"
    by (rule unat_add_nat) (use b l assms(2) in linarith)
  then show ?thesis using b l by simp
qed

text \<open>A new stack changes only the words of its own region, and its first word is the magic word.\<close>

lemma new_stack_magic: "stack_given p s \<Longrightarrow> new_stack p tid s (stack_base p s) = Some OS_TASK_MAGIC_WORD"
proof -
  assume g: "stack_given p s"
  have "new_stack p tid s (stack_base p s) =
    ((\<lambda>a. if a - stack_base p s < stack_len p \<and> (a - stack_base p s) AND 3 = 0 then Some OS_TASK_STACK_INIT else stackMem s a)
        (stack_base p s \<mapsto> OS_TASK_MAGIC_WORD)) (stack_base p s)"
    unfolding new_stack_def
  proof (rule store_words_frame)
    fix i assume "i < length (frame_words tid s)"
    then have i: "i < 17" by (simp add: frame_words_def)
    have "unat (frame_addr p s + 4 * of_nat i) \<noteq> unat (stack_base p s)"
      using frame_word_addr [OF g i] stack_len_law [OF g] by linarith
    then show "stack_base p s + stack_len p - 68 + 4 * of_nat i \<noteq> stack_base p s" by (metis frame_addr_def)
  qed
  then show ?thesis by simp
qed

lemma new_stack_other:
  assumes g: "stack_given p s" and x: "\<not> x - stack_base p s < stack_len p"
  shows "new_stack p tid s x = stackMem s x"
proof -
  note l = stack_len_law [OF g]
  have r: "\<not> (unat (stack_base p s) \<le> unat x \<and> unat x < unat (stack_base p s) + unat (stack_len p))"
    using x range_iff [OF l(3), of x] by simp
  have "new_stack p tid s x =
    ((\<lambda>a. if a - stack_base p s < stack_len p \<and> (a - stack_base p s) AND 3 = 0 then Some OS_TASK_STACK_INIT else stackMem s a)
        (stack_base p s \<mapsto> OS_TASK_MAGIC_WORD)) x"
    unfolding new_stack_def
  proof (rule store_words_frame)
    fix i assume "i < length (frame_words tid s)"
    then have i: "i < 17" by (simp add: frame_words_def)
    have "unat (frame_addr p s + 4 * of_nat i) \<noteq> unat x"
      using frame_word_addr [OF g i] l r i by linarith
    then show "stack_base p s + stack_len p - 68 + 4 * of_nat i \<noteq> x" by (metis frame_addr_def)
  qed
  moreover have "x \<noteq> stack_base p s" using r l(1) by auto
  ultimately show ?thesis using x by simp
qed

lemma new_stack_frame:
  assumes "i < 17"
  shows "new_stack p tid s (frame_addr p s + 4 * of_nat i) = Some (frame_words tid s ! i)"
  unfolding new_stack_def frame_addr_def by (rule store_words_at) (use assms in \<open>simp_all add: frame_words_def\<close>)

text \<open>No word of the new stack is the magic word of a task that can still run.\<close>

definition stack_apart :: "TSK_INIT_PARAM_S \<Rightarrow> kstate \<Rightarrow> bool" where
  "stack_apart p s \<longleftrightarrow> (\<forall>u. \<not> is_unused (status s u) \<and> \<not> is_exit (status s u) \<or> runTask s = Some u \<longrightarrow>
     \<not> topOfStack (tcb s u) - stack_base p s < stack_len p)"

definition new_lists :: "TSK_INIT_PARAM_S \<Rightarrow> nat \<Rightarrow> (node \<Rightarrow> node list option) \<Rightarrow> node \<Rightarrow> node list option" where
  "new_lists p t L = (let L1 = L(NEvent (EvTask t) \<mapsto> []) in if bit (uwResved p) 31 then L1(NJoin t \<mapsto> []) else L1)"

lemma new_tcb_bit: "bit (taskStatus (new_tcb p s c)) k \<longleftrightarrow>
    k = 1 \<or> k = 15 \<and> bit (uwResved p) 31 \<or> k = 11 \<and> stackAddr p = 0"
  by (auto simp: new_tcb_def flag_simps)

lemma kinv_new_task:
  assumes I: "kinv n s L" and l: "loose L t" and r: "runTask s \<noteq> Some t"
    and g: "stack_given p s" and ap: "stack_apart p s" and i: "taskID (tcb s t) \<noteq> g_idleTaskID s"
    and pr: "unat (usTaskPrio p) < 32" and u: "is_unused (status s t)"
  obtains s' where "OsNewTaskInit t p s = Some (LOS_OK, s')" "kinv n s' (new_lists p t L)"
    "\<And>u. tcb s' u = (if u = t then new_tcb p s (tcb s t) else tcb s u)" "runTask s' = runTask s"
    "stackMem s' = new_stack p (taskID (tcb s t)) s" "g_idleTaskID s' = g_idleTaskID s"
    "g_taskMaxNum s' = g_taskMaxNum s" "g_taskScheduled s' = g_taskScheduled s" "g_losTaskLock s' = g_losTaskLock s"
    "mallocs s' = (if stackAddr p = 0 then tl (mallocs s) else mallocs s)"
    "responseTime s' (NSort t) = OS_SORT_LINK_INVALID_TIME"
proof -
  note K = kinv_shape [OF I]
  let ?s1 = "k_ListInit (NEvent (EvTask t)) s"
  have c1: "NEvent (EvTask t) \<notin> covered L \<or> L (NEvent (EvTask t)) = Some []"
    using l kinv_not_mem [OF I] not_covered [OF I] unfolding loose_def by blast
  have I1: "kinv n ?s1 (L(NEvent (EvTask t) \<mapsto> []))" by (rule kinv_list_init [OF I c1]) simp
  let ?s2 = "if bit (uwResved p) 31 then k_ListInit (NJoin t) ?s1 else ?s1"
  have c2: "NJoin t \<notin> covered (L(NEvent (EvTask t) \<mapsto> [])) \<or> (L(NEvent (EvTask t) \<mapsto> [])) (NJoin t) = Some []"
    using l kinv_not_mem [OF I1] not_covered [OF I1, of "NJoin t"] unfolding loose_def by auto
  have I2: "kinv n ?s2 (new_lists p t L)"
    using I1 kinv_list_init [OF I1 c2] by (simp add: new_lists_def Let_def)
  let ?s = "?s2\<lparr>g_taskCBArray := (g_taskCBArray s)(t := new_tcb p s (tcb s t)),
       responseTime := (responseTime s)(NSort t := OS_SORT_LINK_INVALID_TIME),
       uwEventID := (uwEventID s)(EvTask t := 0),
       mallocs := (if stackAddr p = 0 then tl (mallocs s) else mallocs s),
       stackMem := new_stack p (taskID (tcb s t)) s\<rparr>"
  have O: "OsNewTaskInit t p s = Some (LOS_OK, ?s)" using new_task_eq [OF g] by (simp add: Let_def)
  have e: "g_taskCBArray ?s2 = g_taskCBArray s" "responseTime ?s2 = responseTime s" "runTask ?s2 = runTask s"
    "g_idleTaskID ?s2 = g_idleTaskID s" "g_queueBitmap ?s2 = g_queueBitmap s" "cfg_swtmr ?s2 = cfg_swtmr s"
    "tk ?s2 = tk s" "stackMem ?s2 = stackMem s" "g_taskScheduled ?s2 = g_taskScheduled s"
    by (simp_all add: los_defs)
  note K2 = kinv_shape [OF I2]
  have nm: "\<not> mem (new_lists p t L) q (NPend t)" "\<not> mem (new_lists p t L) q (NSort t)" for q
    using l by (auto simp: loose_def new_lists_def mem_def Let_def)
  have "glob_ok ?s (new_lists p t L)"
    by (rule glob_ok_cong [OF K2(7)]) (use nm in \<open>auto simp: e\<close>)
  moreover have "task_ok ?s (new_lists p t L) v" for v
  proof (cases "v = t")
    case True
    show ?thesis unfolding True
    proof (rule task_ok_idle_nodes)
      show "flags_ok (status ?s t)" "\<not> is_ready (status ?s t)" "\<not> is_pend (status ?s t)" "\<not> delayed ?s t"
        "is_running (status ?s t) \<and> \<not> is_unused (status ?s t) \<longrightarrow> runTask ?s = Some t"
        by (simp_all add: flags_ok_def delayed_def new_tcb_bit)
    qed (use nm pr i e in \<open>simp_all add: new_tcb_def\<close>)
  next
    case False
    then show ?thesis
      using sched_inv_task [OF K2(5), of v] by (subst task_ok_cong [of _ _ ?s2 _ "new_lists p t L"]) (simp_all add: e)
  qed
  moreover have "run_ok ?s" using sched_inv_run_ok [OF K(5)] r e by (auto simp: run_ok_def)
  moreover have "sys_ok n ?s"
    using K(6) r ap new_stack_other [OF g] new_stack_magic [OF g]
    unfolding sys_ok_def idle_slot_def stack_apart_def by (auto simp: e new_tcb_def)
  ultimately have "kinv n ?s (new_lists p t L)" by (simp add: kinv_def sched_inv_def)
  then show thesis by (rule that [OF O]) (simp_all add: los_defs)
qed

lemma fold_free_sel:
  "fold free_lists ts L NRecycle = L NRecycle"
  "L NFreeTask \<noteq> None \<Longrightarrow> fold free_lists ts L NFreeTask = Some (map NPend (rev ts) @ the (L NFreeTask))"
  "\<lbrakk> q \<noteq> NFreeTask; \<And>t. q \<noteq> NJoin t; \<And>t. q \<noteq> NEvent (EvTask t) \<rbrakk> \<Longrightarrow> fold free_lists ts L q = L q"
proof (induction ts arbitrary: L)
  case (Cons t ts)
  { case 1 show ?case using Cons(1) by (simp add: free_lists_sel) }
  { case 2
    have "free_lists t L NFreeTask \<noteq> None" by (simp add: free_lists_sel)
    from Cons(2) [of "free_lists t L", OF this] show ?case by (simp add: free_lists_sel) }
  { case 3
    then have "free_lists t L q = L q" by (simp add: free_lists_def)
    with Cons(3) [of "free_lists t L", OF 3] show ?case by simp }
qed auto

text \<open>
  LOS_TaskCreateOnly: the recycled control blocks are free again, and the first
  free one becomes the new task, suspended and in no list.
\<close>

definition spares :: "nat list \<Rightarrow> nat list \<Rightarrow> (node \<Rightarrow> node list option) \<Rightarrow> bool" where
  "spares fs rs L \<longleftrightarrow> L NFreeTask = Some (map NPend fs) \<and> L NRecycle = Some (map NPend rs)"

lemma create_only_law:
  assumes I: "kinv n s L" and sp: "spare_ok s L" "spares fs rs L" and c: "OsTaskInitParamCheck (Some p0) s = (LOS_OK, Some p)"
    and g: "stack_given p s" and ap: "stack_apart p s" and pr: "unat (usTaskPrio p) < 32" and t: "rev rs @ fs = t # fs'"
  obtains s' L' where "LOS_TaskCreateOnly True (Some p0) s = Some ((LOS_OK, Some (of_nat t)), s')" "kinv n s' L'"
    "spare_ok s' L'" "spares fs' [] L'" "loose L' t"
    "tcb s' t = new_tcb p s (free_tcb (tcb s t)) \<or> tcb s' t = new_tcb p s (tcb s t)" "t < unat (g_taskMaxNum s)" "taskID (tcb s' t) = of_nat t" "of_nat t \<noteq> g_idleTaskID s"
    "\<And>u. u \<notin> set (t # rs) \<Longrightarrow> tcb s' u = tcb s u" "runTask s' = runTask s" "runTask s \<noteq> Some t"
    "stackMem s' = new_stack p (of_nat t) s" "g_idleTaskID s' = g_idleTaskID s" "g_taskScheduled s' = g_taskScheduled s"
    "g_losTaskLock s' = g_losTaskLock s" "responseTime s' (NSort t) = OS_SORT_LINK_INVALID_TIME"
    "g_taskMaxNum s' = g_taskMaxNum s"
proof -
  let ?L1 = "fold free_lists rs (L(NRecycle \<mapsto> []))"
  have rs: "L NRecycle = Some (map NPend rs)" using sp(2) by (simp add: spares_def)
  from recycle_loop_law [OF I rs sp(1)] obtain s1 where
    1: "OsRecycleFinishedTask s = Some s1" "kinv n s1 ?L1" "rkeep s s1"
      "\<forall>u. tcb s1 u = (if u \<in> set rs then free_tcb (tcb s u) else tcb s u)" "spare_ok s1 ?L1" by blast
  note k = rkeep_sel [OF 1(3)]
  have "(L(NRecycle \<mapsto> [])) NFreeTask \<noteq> None" using sp(2) by (simp add: spares_def)
  from fold_free_sel(2) [of "L(NRecycle \<mapsto> [])", OF this, of rs] have f: "?L1 NFreeTask = Some (NPend t # map NPend fs')"
    using t sp(2) by (simp add: spares_def) (metis list.simps(9) map_append)
  have r1: "?L1 NRecycle = Some []" by (simp add: fold_free_sel)
  obtain h where 2: "k_ListDelete (NPend t) s1 = Some (s1\<lparr>dl := h\<rparr>)"
    "kinv n (s1\<lparr>dl := h\<rparr>) (?L1(NFreeTask \<mapsto> map NPend fs'))" "loose (?L1(NFreeTask \<mapsto> map NPend fs')) t" "is_unused (status s1 t)"
    by (rule take_spare_law [OF 1(2) disjI2 [OF refl] f 1(5)]) (rule that; assumption)
  have st: "spare ?L1 t" using f by (simp add: spare_def mem_def)
  have tt: "t < unat (g_taskMaxNum s1)" "taskID (tcb s1 t) = of_nat t" "runTask s1 \<noteq> Some t"
    "taskID (tcb s1 t) \<noteq> g_idleTaskID s1"
    using 1(5) st unfolding spare_ok_def by blast+
  have sb: "stack_base p (s1\<lparr>dl := h\<rparr>) = stack_base p s" using k by (simp add: stack_base_def)
  have g1: "stack_given p (s1\<lparr>dl := h\<rparr>)" using g k(3) unfolding stack_given_def sb by (simp split: if_splits)
  have nr: "runTask s \<noteq> Some u" if "u \<in> set rs" for u
    using that rs sp(1) by (auto simp: spare_ok_def spare_def mem_def)
  have ap1: "stack_apart p (s1\<lparr>dl := h\<rparr>)"
    using ap 1(4) k(1) nr unfolding stack_apart_def sb by (auto simp: free_tcb_def null_tcb_def split: if_splits)
  let ?s2 = "s1\<lparr>dl := h\<rparr>" and ?L2 = "?L1(NFreeTask \<mapsto> map NPend fs')"
  have x: "runTask ?s2 \<noteq> Some t" "taskID (tcb ?s2 t) \<noteq> g_idleTaskID ?s2" "is_unused (status ?s2 t)" using tt 2(4) by simp_all
  obtain s' where 3: "OsNewTaskInit t p ?s2 = Some (LOS_OK, s')" "kinv n s' (new_lists p t ?L2)"
    and T3: "\<And>u. tcb s' u = (if u = t then new_tcb p ?s2 (tcb ?s2 t) else tcb ?s2 u)"
    and 4: "runTask s' = runTask ?s2" "stackMem s' = new_stack p (taskID (tcb ?s2 t)) ?s2" "g_idleTaskID s' = g_idleTaskID ?s2"
    "g_taskMaxNum s' = g_taskMaxNum ?s2" "g_taskScheduled s' = g_taskScheduled ?s2" "g_losTaskLock s' = g_losTaskLock ?s2"
    "mallocs s' = (if stackAddr p = 0 then tl (mallocs ?s2) else mallocs ?s2)"
    "responseTime s' (NSort t) = OS_SORT_LINK_INVALID_TIME"
    by (rule kinv_new_task [OF 2(2,3) x(1) g1 ap1 x(2) pr x(3)]) (rule that; assumption)
  have d: "t \<notin> set fs'"
    using dl_rep_distinct [OF kinv_rep [OF 1(2)] f] by auto
  let ?L = "new_lists p t ?L2"
  have nl: "?L NFreeTask = Some (map NPend fs')" "?L NRecycle = Some []"
    using r1 by (simp_all add: new_lists_def Let_def)
  have sp': "spares fs' [] ?L" using nl by (simp add: spares_def)
  have lo: "loose ?L t" using 2(3) by (auto simp: loose_def new_lists_def Let_def mem_def)
  have sk: "spare_ok s' ?L"
    unfolding spare_ok_def
  proof (intro allI impI)
    fix u assume "spare ?L u"
    then have u: "u \<in> set fs'" using nl by (auto simp: spare_def mem_def)
    then have ut: "u \<noteq> t" and s1: "spare ?L1 u" using d f by (auto simp: spare_def mem_def)
    have "?L (NJoin u) = ?L1 (NJoin u)" "?L (NEvent (EvTask u)) = ?L1 (NEvent (EvTask u))"
      using ut by (simp_all add: new_lists_def Let_def)
    with 1(5) [unfolded spare_ok_def, rule_format, OF s1] show "u < unat (g_taskMaxNum s') \<and> taskID (tcb s' u) = of_nat u \<and> \<not> bit (status s' u) 15 \<and>
        runTask s' \<noteq> Some u \<and> taskID (tcb s' u) \<noteq> g_idleTaskID s' \<and> (?L (NJoin u) = None \<or> ?L (NJoin u) = Some []) \<and>
        (?L (NEvent (EvTask u)) = None \<or> ?L (NEvent (EvTask u)) = Some [])"
      using ut by (auto simp: T3 4)
  qed
  have ne: "\<not> k_ListEmpty NFreeTask s1" using list_empty [OF kinv_rep [OF 1(2)] f] by simp
  have hd: "pstNext (dl s1) NFreeTask = Some (NPend t)" using list_first [OF kinv_rep [OF 1(2)] f] by simp
  have nid: "taskID (tcb s' t) = of_nat t" using tt(2) by (simp add: T3 new_tcb_def)
  have O: "LOS_TaskCreateOnly True (Some p0) s = Some ((LOS_OK, Some (of_nat t)), s')"
    using c 1(1) ne hd 2(1) 3(1) nid by (simp add: LOS_TaskCreateOnly_def)
  have nt: "new_tcb p ?s2 = new_tcb p s" by (rule ext) (simp add: new_tcb_def sb)
  have ns: "new_stack p (of_nat t) ?s2 = new_stack p (of_nat t) s"
    unfolding new_stack_def frame_words_def sb using k by (simp cong: if_cong)
  show thesis
  proof (rule that [OF O 3(2) sk sp' lo])
    show "tcb s' t = new_tcb p s (free_tcb (tcb s t)) \<or> tcb s' t = new_tcb p s (tcb s t)"
      using 1(4) by (simp add: T3 nt)
    show "of_nat t \<noteq> g_idleTaskID s" "t < unat (g_taskMaxNum s)" "runTask s \<noteq> Some t" using tt k by simp_all
    show "tcb s' u = tcb s u" if "u \<notin> set (t # rs)" for u using that 1(4) by (simp add: T3)
    show "stackMem s' = new_stack p (of_nat t) s" using 4(2) tt(2) ns by simp
  qed (use k 4 nid in simp_all)
qed

text \<open>
  LOS_TaskCreate: the new task is ready at once, and when the scheduler is on
  the best task runs.
\<close>

lemma task_create_law:
  assumes I: "kinv (Suc n) s L" and sp: "spare_ok s L" "spares fs rs L"
    and c: "OsTaskInitParamCheck (Some p0) s = (LOS_OK, Some p)"
    and g: "stack_given p s" and ap: "stack_apart p s" and pr: "unat (usTaskPrio p) < 32" and t: "rev rs @ fs = t # fs'"
  obtains s' L' where "LOS_TaskCreate True (Some p0) s = Some ((LOS_OK, Some (of_nat t)), s')" "kinv n s' L'" "spares fs' [] L'"
    "taskID (tcb s' t) = of_nat t" "priority (tcb s' t) = usTaskPrio p" "taskEntry (tcb s' t) = pfnTaskEntry p"
    "arg (tcb s' t) = uwArg p" "topOfStack (tcb s' t) = stack_base p s" "stackSize (tcb s' t) = stack_len p"
    "stackPointer (tcb s' t) = frame_addr p s" "stackMem s' = new_stack p (of_nat t) s"
    "ready s' t \<or> runTask s' = Some t" "\<not> blocked (status s' t)"
    "g_taskScheduled s \<and> g_losTaskLock s = 0 \<longrightarrow> (\<exists>new. runTask s' = Some new \<and> top_of s' new)"
    "\<And>u. u \<notin> set (t # rs) \<Longrightarrow> ipc_core (tcb s' u) = ipc_core (tcb s u)"
proof -
  obtain s1 L1 where 1: "LOS_TaskCreateOnly True (Some p0) s = Some ((LOS_OK, Some (of_nat t)), s1)" "kinv (Suc n) s1 L1"
    "spare_ok s1 L1" "spares fs' [] L1" "loose L1 t"
    and T: "tcb s1 t = new_tcb p s (free_tcb (tcb s t)) \<or> tcb s1 t = new_tcb p s (tcb s t)" "t < unat (g_taskMaxNum s)"
      "taskID (tcb s1 t) = of_nat t" "of_nat t \<noteq> g_idleTaskID s"
    and U: "\<And>u. u \<notin> set (t # rs) \<Longrightarrow> tcb s1 u = tcb s u"
    and e: "runTask s1 = runTask s" "runTask s \<noteq> Some t" "stackMem s1 = new_stack p (of_nat t) s"
      "g_idleTaskID s1 = g_idleTaskID s" "g_taskScheduled s1 = g_taskScheduled s" "g_losTaskLock s1 = g_losTaskLock s"
      "responseTime s1 (NSort t) = OS_SORT_LINK_INVALID_TIME" "g_taskMaxNum s1 = g_taskMaxNum s"
    by (rule create_only_law [OF I sp c g ap pr t]) (rule that; assumption)
  obtain d where d: "tcb s1 t = new_tcb p s d" using T(1) by blast
  note K = kinv_shape [OF 1(2)]
  have nm: "\<forall>q. \<not> mem L1 q (NPend t)" "\<not> mem L1 NTaskSort (NSort t)" using 1(5) by (simp_all add: loose_def)
  have b: "bit (status s1 t) k \<longleftrightarrow> k = 1 \<or> k = 15 \<and> bit (uwResved p) 31 \<or> k = 11 \<and> stackAddr p = 0" for k
    by (simp add: d new_tcb_bit)
  have pt: "priority (tcb s1 t) = usTaskPrio p" by (simp add: d new_tcb_def)
  have x: "unat (priority (tcb s1 t)) < 32" "taskID (tcb s1 t) \<noteq> g_idleTaskID s1" using pr T e by (simp_all add: pt)
  obtain s2 h bm L2 where 2: "OsSchedTaskEnQueue t s1 = Some s2"
    "s2 = s1\<lparr>dl := h, g_queueBitmap := bm, g_taskCBArray := (g_taskCBArray s1)(t := enq_tcb s1 (tcb s1 t))\<rparr>"
    "sched_inv s2 L2"
    "L2 = L1(NPri (unat (priority (tcb s1 t))) \<mapsto>
       (if g_schedTimeSliceMin s1 <s timeSlice (tcb s1 t)
        then NPend t # the (L1 (NPri (unat (priority (tcb s1 t)))))
        else the (L1 (NPri (unat (priority (tcb s1 t))))) @ [NPend t]))"
    by (rule enqueue_inv [OF sched_inv_but [OF K(5)] nm e(7) x]) (use sched_inv_run_ok [OF K(5)] in \<open>auto simp: b intro: that\<close>)
  have "frame t s1 s2" unfolding 2(2) by (rule frame_upd)
  then have ok2: "sys_ok (Suc n) s2"
    by (rule sys_ok_frame [OF K(6)]) (simp_all add: 2(2) flag_simps b)
  have I2: "kinv (Suc n) s2 L2" using 2(3) ok2 by (simp add: kinv_def)
  have i2: "ipc_core (tcb s2 u) = ipc_core (tcb s1 u)" for u
    by (cases "tcb s1 t") (simp add: 2(2) ipc_core_def enq_tcb_def)
  have sp2: "spares fs' [] L2" using 1(4) by (simp add: spares_def 2(4))
  have rd2: "ready s2 t" "\<not> blocked (status s2 t)" using x(2) by (auto simp: ready_def blocked_def 2(2) flag_simps b)
  have "\<exists>s' L'. (if g_taskScheduled s2 then LOS_Schedule s2 else Some s2) = Some s' \<and> kinv n s' L' \<and> ikeep s2 s' \<and>
      (\<forall>q. plain q \<longrightarrow> L' q = L2 q) \<and> (\<forall>u k. k \<noteq> 2 \<longrightarrow> k \<noteq> 4 \<longrightarrow> bit (status s' u) k = bit (status s2 u) k) \<and>
      (ready s' t \<or> runTask s' = Some t) \<and>
      (g_taskScheduled s2 \<and> g_losTaskLock s2 = 0 \<longrightarrow> (\<exists>new. runTask s' = Some new \<and> top_of s' new))"
  proof (cases "g_taskScheduled s2")
    case True
    obtain r where r: "runTask s2 = Some r" using kinv_run [OF I2] by blast
    note K2 = kinv_shape [OF I2]
    obtain s' L' where 3: "LOS_Schedule s2 = Some s'" "sched_inv s' L'" "sys_ok n s'" "swframe s2 s'"
      "g_taskScheduled s2 \<and> g_losTaskLock s2 = 0 \<longrightarrow>
         (\<exists>new. runTask s' = Some new \<and> top_of s' new \<and> \<not> blocked (status s' new))"
      "\<not> (g_taskScheduled s2 \<and> g_losTaskLock s2 = 0) \<longrightarrow> s' = s2"
      and Q: "\<And>q. \<not> is_pri q \<Longrightarrow> q \<noteq> NTaskSort \<Longrightarrow> L' q = L2 q"
      and W: "\<And>u. u \<noteq> r \<Longrightarrow> runTask s' \<noteq> Some u \<Longrightarrow> tcb s' u = tcb s2 u"
      by (rule LOS_Schedule_law [OF K2(5,6) r]) (rule that; assumption)
    have "t \<noteq> r" using r e(1,2) by (auto simp: 2(2))
    then have "ready s' t \<or> runTask s' = Some t"
      using W [of t] rd2(1) swframe_sel(1) [OF 3(4)] by (auto simp: ready_def)
    then show ?thesis
      using True 3 Q swframe_bits [OF 3(4)] ikeep_swframe [OF 3(4)]
      by (intro exI [of _ s'] exI [of _ L']) (auto simp: kinv_def plain_def)
  next
    case False
    then show ?thesis using kinv_later [OF I2] rd2 by (intro exI [of _ s2] exI [of _ L2]) simp
  qed
  then obtain s' L' where 3: "(if g_taskScheduled s2 then LOS_Schedule s2 else Some s2) = Some s'" "kinv n s' L'" "ikeep s2 s'"
    "\<forall>q. plain q \<longrightarrow> L' q = L2 q" "\<forall>u k. k \<noteq> 2 \<longrightarrow> k \<noteq> 4 \<longrightarrow> bit (status s' u) k = bit (status s2 u) k"
    "ready s' t \<or> runTask s' = Some t"
    "g_taskScheduled s2 \<and> g_losTaskLock s2 = 0 \<longrightarrow> (\<exists>new. runTask s' = Some new \<and> top_of s' new)" by blast
  have tid: "OS_TCB_FROM_TID (of_nat t) = t" using T(2) unat_lt [of "g_taskMaxNum s"] by (simp add: OS_TCB_FROM_TID_def unat_of_nat)
  have O: "LOS_TaskCreate True (Some p0) s = Some ((LOS_OK, Some (of_nat t)), s')"
    using 1(1) 2(1) 3(1) by (simp add: LOS_TaskCreate_def tid)
  have ic: "ipc_core (tcb s' u) = ipc_core (tcb s1 u)" for u using ikeep_tcb [OF 3(3)] i2 by simp
  note sel = ipc_core_sel [OF ic]
  have more: "taskEntry c = taskEntry c'" "arg c = arg c'" "stackPointer c = stackPointer c'" if "ipc_core c = ipc_core c'" for c c'
    using that by (cases c; cases c'; simp add: ipc_core_def)+
  have sp': "spares fs' [] L'" using sp2 3(4) by (simp add: spares_def plain_def)
  show thesis
  proof (rule that [OF O 3(2) sp'])
    show "stackMem s' = new_stack p (of_nat t) s" using ikeep_sel(15) [OF 3(3)] e(3) by (simp add: 2(2))
    show "\<not> blocked (status s' t)" using rd2(2) 3(5) by (simp add: blocked_def)
    show "g_taskScheduled s \<and> g_losTaskLock s = 0 \<longrightarrow> (\<exists>new. runTask s' = Some new \<and> top_of s' new)"
      using 3(7) e by (simp add: 2(2))
    show "ipc_core (tcb s' u) = ipc_core (tcb s u)" if "u \<notin> set (t # rs)" for u using ic [of u] U [OF that] by simp
  qed (use sel [of t] more [OF ic, of t] T 3(6) pt in \<open>simp_all add: d new_tcb_def frame_addr_def\<close>)
qed

subsection \<open>Deleting a task\<close>

text \<open>The lists of a task in use: at most the task itself waits for its event, at most one other task joins it.\<close>

definition live_lists :: "kstate \<Rightarrow> (node \<Rightarrow> node list option) \<Rightarrow> nat \<Rightarrow> bool" where
  "live_lists s L t \<longleftrightarrow>
     (\<exists>xs. L (NEvent (EvTask t)) = Some xs \<and> set xs \<subseteq> {NPend t}) \<and>
     (if bit (status s t) 15 then L (NJoin t) = Some [] \<or> (\<exists>u. u \<noteq> t \<and> L (NJoin t) = Some [NPend u])
      else L (NJoin t) = None \<or> L (NJoin t) = Some [])"

text \<open>The task that waits for the end of a task.\<close>

definition joiner :: "(node \<Rightarrow> node list option) \<Rightarrow> nat \<Rightarrow> nat option" where
  "joiner L t = (case L (NJoin t) of Some (x # xs) \<Rightarrow> OS_TCB_FROM_PENDLIST x | _ \<Rightarrow> None)"

lemma sys_ok_exit:
  assumes ok: "sys_ok n s" and f: "frame t s s'"
    and e: "\<not> is_unused (status s' t) \<and> \<not> is_exit (status s' t) \<Longrightarrow> \<not> is_unused (status s t) \<and> \<not> is_exit (status s t)"
  shows "sys_ok n s'"
proof -
  have e': "\<not> is_unused (status s' u) \<and> \<not> is_exit (status s' u) \<Longrightarrow> \<not> is_unused (status s u) \<and> \<not> is_exit (status s u)" for u
    using e frame_tcb [OF f, of u] by (cases "u = t") auto
  show ?thesis
    using ok e' unfolding sys_ok_def idle_slot_def frame_sel [OF f] frame_core_sel [OF f] by blast
qed

lemma join_post_law:
  assumes I: "kinv n s L" and l: "live_lists s L t"
  obtains s' L' where "OsTaskJoinPostUnsafe t s = Some s'" "kinv n s' L'" "ikeep s s'" "runTask s' = runTask s"
    "\<And>q. plain q \<Longrightarrow> L' q = (if q = NJoin t \<and> L (NJoin t) \<noteq> None then Some [] else L q)"
    "\<And>u. joiner L t \<noteq> Some u \<Longrightarrow> status s' u = status s u"
    "\<And>u. joiner L t = Some u \<Longrightarrow> u \<noteq> t \<and> \<not> is_pend (status s' u) \<and>
       (is_ready (status s' u) \<longleftrightarrow> \<not> is_suspend (status s u) \<and> \<not> is_running (status s u))"
proof (cases "\<exists>u. u \<noteq> t \<and> L (NJoin t) = Some [NPend u] \<and> bit (status s t) 15")
  case True
  then obtain u where u: "u \<noteq> t" "L (NJoin t) = Some [NPend u]" "bit (status s t) 15" by blast
  have j: "joiner L t = Some u" using u by (simp add: joiner_def)
  obtain s' L' where 1: "OsSchedTaskWake u s = Some s'" "kinv n s' L'" "ikeep s s'" "runTask s' = runTask s"
    "\<forall>q'. plain q' \<longrightarrow> L' q' = (if q' = NJoin t then Some (remove1 (NPend u) [NPend u]) else L q')"
    "\<not> is_pend (status s' u)"
    "is_ready (status s' u) \<longleftrightarrow> \<not> is_suspend (status s u) \<and> \<not> is_running (status s u)"
    "\<forall>v. v \<noteq> u \<longrightarrow> status s' v = status s v"
    using kinv_wake [OF I _ u(2), of u] by auto
  have ne: "\<not> k_ListEmpty (NJoin t) s" using list_empty [OF kinv_rep [OF I] u(2)] by simp
  have hd: "pstNext (dl s) (NJoin t) = Some (NPend u)" using list_first [OF kinv_rep [OF I] u(2)] by simp
  have O: "OsTaskJoinPostUnsafe t s = Some s'"
    using u(3) ne hd 1(1) by (simp add: OsTaskJoinPostUnsafe_def flag_simps)
  show thesis by (rule that [OF O 1(2,3,4)]) (use 1 u j in auto)
next
  case False
  have n: "L (NJoin t) = None \<or> L (NJoin t) = Some []" and e: "bit (status s t) 15 \<Longrightarrow> L (NJoin t) = Some []"
    using l False by (auto simp: live_lists_def split: if_splits)
  have j: "joiner L t = None" using n by (auto simp: joiner_def)
  have O: "OsTaskJoinPostUnsafe t s = Some s"
  proof (cases "bit (status s t) 15")
    case True
    then show ?thesis
      using list_empty [OF kinv_rep [OF I] e] by (simp add: OsTaskJoinPostUnsafe_def)
  next
    case False
    then show ?thesis by (simp add: OsTaskJoinPostUnsafe_def flag_simps)
  qed
  show thesis by (rule that [OF O I ikeep_refl refl]) (use n j in auto)
qed

lemma kinv_exit:
  assumes I: "kinv n s L" and nu: "\<not> is_unused (status s t)" "\<not> is_exit (status s t)" and i: "taskID (tcb s t) \<noteq> g_idleTaskID s"
  obtains s' L' where "OsSchedTaskExit t s = Some s'" "kinv n s' L'" "frame t s s'"
    "\<And>k. bit (status s' t) k = (k = 8 \<or> (bit (status s t) k \<and> k \<noteq> 2 \<and> k \<noteq> 3 \<and> k \<noteq> 5 \<and> k \<noteq> 7))"
    "\<And>q. \<not> mem L' q (NPend t)" "\<And>q. \<not> mem L' q (NSort t)"
    "\<And>q. q \<noteq> NTaskSort \<Longrightarrow> L' q = strips {NPend t} L q"
proof -
  note K = kinv_shape [OF I]
  obtain s' L' where 1: "OsSchedTaskExit t s = Some s'" "sched_inv s' L'" "frame t s s'"
    and b: "\<And>k. bit (status s' t) k = (k = 8 \<or> (bit (status s t) k \<and> k \<noteq> 2 \<and> k \<noteq> 3 \<and> k \<noteq> 5 \<and> k \<noteq> 7))"
    and n: "\<And>q. \<not> mem L' q (NPend t)" "\<And>q. \<not> mem L' q (NSort t)"
    and Q: "\<And>q. q \<noteq> NTaskSort \<Longrightarrow> L' q = strips {NPend t} L q"
    by (rule task_exit_law [OF K(5) nu(1) i]) (rule that; assumption)
  have "sys_ok n s'" by (rule sys_ok_exit [OF K(6) 1(3)]) (simp add: b)
  then have "kinv n s' L'" using 1(2) by (simp add: kinv_def)
  then show thesis by (rule that [OF 1(1) _ 1(3) b n Q])
qed

text \<open>An event nobody waits for is destroyed: its list head is no list any more.\<close>

lemma event_destroy_law:
  assumes I: "kinv n s L" and e: "L (NEvent e) = Some []"
  shows "LOS_EventDestroy (Some e) s = (LOS_OK, dl_zero (NEvent e) s)" "kinv n (dl_zero (NEvent e) s) (L(NEvent e := None))"
proof -
  show "LOS_EventDestroy (Some e) s = (LOS_OK, dl_zero (NEvent e) s)"
    using list_empty [OF kinv_rep [OF I] e] by (simp add: LOS_EventDestroy_def)
  let ?L = "L(NEvent e := None)"
  have nc: "NEvent e \<notin> covered ?L"
    using kinv_not_mem [OF I] unfolding covered_def mem_def by (auto split: if_splits)
  have R: "dl_rep \<lparr>pstPrev = (pstPrev (dl s))(NEvent e := None), pstNext = (pstNext (dl s))(NEvent e := None)\<rparr> ?L"
    by (rule dl_zero_rep [OF list_drop [OF kinv_rep [OF I]] nc])
  show "kinv n (dl_zero (NEvent e) s) ?L"
    unfolding dl_zero_def
    by (rule kinv_relist [OF I R]) (use kinv_holds [OF I] e in \<open>auto simp: mem_def split: if_splits\<close>)
qed

lemma kinv_upd_event: "kinv n (upd_tcb t (\<lambda>c. c\<lparr>eventMask := m\<rparr>) (set_event e v s)) L = kinv n s L"
  by (intro iffI; erule kinv_cong; simp add: los_defs set_event_def ipc_sched_def)

text \<open>The part of LOS_TaskDelete that running and other tasks share.\<close>

lemma delete_prefix_law:
  assumes I: "kinv n s L" and l: "live_lists s L t" and nu: "\<not> is_unused (status s t)" "\<not> is_exit (status s t)"
    and i: "taskID (tcb s t) \<noteq> g_idleTaskID s"
  obtains s1 s2 s' L' where "OsTaskJoinPostUnsafe t s = Some s1" "OsSchedTaskExit t s1 = Some s2"
    "s' = upd_tcb t (\<lambda>c. c\<lparr>eventMask := 0\<rparr>) (set_event (EvTask t) OS_NULL_INT (snd (LOS_EventDestroy (Some (EvTask t)) s2)))"
    "kinv n s' L'" "loose L' t" "L' NFreeTask = L NFreeTask" "L' NRecycle = L NRecycle"
    "\<And>k. bit (status s' t) k = (k = 8 \<or> (bit (status s t) k \<and> k \<noteq> 2 \<and> k \<noteq> 3 \<and> k \<noteq> 5 \<and> k \<noteq> 7))"
    "runTask s' = runTask s" "taskID (tcb s' t) = taskID (tcb s t)" "topOfStack (tcb s' t) = topOfStack (tcb s t)"
    "\<And>u. u \<noteq> t \<Longrightarrow> ipc_core (tcb s' u) = ipc_core (tcb s u)"
    "\<And>u. u \<noteq> t \<Longrightarrow> joiner L t \<noteq> Some u \<Longrightarrow> status s' u = status s u"
    "\<And>u. joiner L t = Some u \<Longrightarrow> u \<noteq> t \<and> \<not> is_pend (status s' u) \<and>
       (is_ready (status s' u) \<longleftrightarrow> \<not> is_suspend (status s u) \<and> \<not> is_running (status s u))"
    "g_idleTaskID s' = g_idleTaskID s" "g_taskMaxNum s' = g_taskMaxNum s" "freed s' = freed s"
    "g_taskScheduled s' = g_taskScheduled s" "g_losTaskLock s' = g_losTaskLock s" "stackMem s' = stackMem s"
proof -
  obtain s1 L1 where 1: "OsTaskJoinPostUnsafe t s = Some s1" "kinv n s1 L1" "ikeep s s1" "runTask s1 = runTask s"
    and Q1: "\<And>q. plain q \<Longrightarrow> L1 q = (if q = NJoin t \<and> L (NJoin t) \<noteq> None then Some [] else L q)"
    and S1: "\<And>u. joiner L t \<noteq> Some u \<Longrightarrow> status s1 u = status s u"
    and J1: "\<And>u. joiner L t = Some u \<Longrightarrow> u \<noteq> t \<and> \<not> is_pend (status s1 u) \<and>
       (is_ready (status s1 u) \<longleftrightarrow> \<not> is_suspend (status s u) \<and> \<not> is_running (status s u))"
    by (rule join_post_law [OF I l]) (rule that; assumption)
  have tt: "status s1 t = status s t" using S1 [of t] J1 [of t] by auto
  note k1 = ikeep_sel [OF 1(3)] and c1 = ikeep_tcb_sel [OF 1(3)]
  have x: "\<not> is_unused (status s1 t)" "\<not> is_exit (status s1 t)" "taskID (tcb s1 t) \<noteq> g_idleTaskID s1"
    using nu i tt k1 c1 by simp_all
  obtain s2 L2 where 2: "OsSchedTaskExit t s1 = Some s2" "kinv n s2 L2" "frame t s1 s2"
    and b2: "\<And>k. bit (status s2 t) k = (k = 8 \<or> (bit (status s1 t) k \<and> k \<noteq> 2 \<and> k \<noteq> 3 \<and> k \<noteq> 5 \<and> k \<noteq> 7))"
    and n2: "\<And>q. \<not> mem L2 q (NPend t)" "\<And>q. \<not> mem L2 q (NSort t)"
    and Q2: "\<And>q. q \<noteq> NTaskSort \<Longrightarrow> L2 q = strips {NPend t} L1 q"
    by (rule kinv_exit [OF 1(2) x]) (rule that; assumption)
  have ev: "L2 (NEvent (EvTask t)) = Some []"
    using l Q1 [of "NEvent (EvTask t)"] Q2 [of "NEvent (EvTask t)"]
    by (auto simp: live_lists_def strips_def plain_def intro!: filter_False)
  let ?s3 = "dl_zero (NEvent (EvTask t)) s2"
  note D = event_destroy_law [OF 2(2) ev]
  define s' where "s' = upd_tcb t (\<lambda>c. c\<lparr>eventMask := 0\<rparr>) (set_event (EvTask t) OS_NULL_INT (snd (LOS_EventDestroy (Some (EvTask t)) s2)))"
  let ?L = "L2(NEvent (EvTask t) := None)"
  have I': "kinv n s' ?L" using D(2) by (simp add: s'_def D(1) kinv_upd_event)
  have jn: "L2 (NJoin t) = None \<or> L2 (NJoin t) = Some []"
    using Q1 [of "NJoin t"] Q2 [of "NJoin t"] by (auto simp: strips_def plain_def)
  have lo: "loose ?L t" using n2 jn by (auto simp: loose_def mem_def split: if_splits)
  have nm: "\<not> mem L q (NPend t)" if "q = NFreeTask \<or> q = NRecycle" for q
    using sched_inv_task [OF kinv_shape(5) [OF I], of t] nu(1) that by (auto simp: task_ok_def loc_ok_def)
  have fr: "?L q = L q" if "q = NFreeTask \<or> q = NRecycle" for q
  proof -
    have "L1 q = L q" using Q1 [of q] that by (auto simp: plain_def)
    moreover from this have "strips {NPend t} L1 q = L1 q" using nm [OF that] by (intro strips_eq) (auto simp: mem_def)
    ultimately show ?thesis using Q2 [of q] that by auto
  qed
  have T: "tcb s' u = (if u = t then (tcb s2 t)\<lparr>eventMask := 0\<rparr> else tcb s2 u)" for u
    by (simp add: s'_def D(1) los_defs set_event_def dl_zero_def)
  have G: "runTask s' = runTask s2" "g_idleTaskID s' = g_idleTaskID s2" "g_taskMaxNum s' = g_taskMaxNum s2" "freed s' = freed s2"
    "g_taskScheduled s' = g_taskScheduled s2" "g_losTaskLock s' = g_losTaskLock s2" "stackMem s' = stackMem s2"
    by (simp_all add: s'_def D(1) los_defs set_event_def dl_zero_def)
  show thesis
  proof (rule that [OF 1(1) 2(1) s'_def I' lo])
    show "ipc_core (tcb s' u) = ipc_core (tcb s u)" if "u \<noteq> t" for u
      using that frame_tcb [OF 2(3) that] ikeep_tcb [OF 1(3), of u] by (simp add: T)
    show "status s' u = status s u" if "u \<noteq> t" "joiner L t \<noteq> Some u" for u
      using that frame_tcb [OF 2(3) that(1)] S1 [OF that(2)] by (simp add: T)
    show "u \<noteq> t \<and> \<not> is_pend (status s' u) \<and>
       (is_ready (status s' u) \<longleftrightarrow> \<not> is_suspend (status s u) \<and> \<not> is_running (status s u))" if "joiner L t = Some u" for u
      using J1 [OF that] frame_tcb [OF 2(3), of u] by (simp add: T)
  qed (use fr [of NFreeTask] fr [of NRecycle] 1(4) k1 c1 frame_sel [OF 2(3)] frame_core_sel [OF 2(3), of t] b2 in \<open>simp_all add: T G tt\<close>)
qed

text \<open>The checks that LOS_TaskDelete makes first.\<close>

definition deletable :: "u32 \<Rightarrow> kstate \<Rightarrow> bool" where
  "deletable tid s \<longleftrightarrow> OsCheckTaskIDValid tid s = LOS_OK \<and>
     (let st = status s (OS_TCB_FROM_TID tid)
      in \<not> bit st 12 \<and> \<not> is_unused st \<and> \<not> is_exit st \<and> \<not> bit st 13)"

lemma retval_loose:
  assumes I: "kinv n s L"
  shows "kinv n (upd_tcb t (\<lambda>c. c\<lparr>joinRetval := v\<rparr>) s) L"
  by (rule kinv_cong [OF I]) (simp_all add: los_defs ipc_sched_def)

lemma recycle_joinable:
  assumes j: "bit (status s t) 15"
  shows "OsRecycleTaskResources t s = Some (own_stack (tcb s t), if own_stack (tcb s t) \<noteq> 0
    then clr_status t OS_TASK_FLAG_STACK_FREE (upd_tcb t (\<lambda>c. c\<lparr>topOfStack := 0\<rparr>) s) else s)"
proof -
  have "bit (status (clr_status t OS_TASK_FLAG_STACK_FREE (upd_tcb t (\<lambda>c. c\<lparr>topOfStack := 0\<rparr>) s)) t) 15"
    using j by (simp add: upd_tcb_def flag_simps)
  then have k: "status (clr_status t OS_TASK_FLAG_STACK_FREE (upd_tcb t (\<lambda>c. c\<lparr>topOfStack := 0\<rparr>) s)) t AND OS_TASK_FLAG_JOINABLE \<noteq> 0"
    "status s t AND OS_TASK_FLAG_JOINABLE \<noteq> 0"
    using j by (simp_all add: flag_simps del: or_clr_sel)
  show ?thesis
  proof (cases "bit (status s t) 11 \<and> topOfStack (tcb s t) \<noteq> 0")
    case True
    then show ?thesis using k by (simp add: OsRecycleTaskResources_def own_stack_def flag_simps(1-20) del: or_clr_sel)
  next
    case False
    then show ?thesis using k by (simp add: OsRecycleTaskResources_def own_stack_def flag_simps(1-20) del: or_clr_sel)
  qed
qed

text \<open>A task that has ended needs no stack.\<close>

lemma stackless_law:
  assumes I: "kinv n s L" and x: "is_exit (status s t)" "runTask s \<noteq> Some t"
  shows "kinv n (clr_status t OS_TASK_FLAG_STACK_FREE (upd_tcb t (\<lambda>c. c\<lparr>topOfStack := 0\<rparr>) s)) L"
proof -
  let ?s = "clr_status t OS_TASK_FLAG_STACK_FREE (upd_tcb t (\<lambda>c. c\<lparr>topOfStack := 0\<rparr>) s)"
  note K = kinv_shape [OF I]
  have b: "bit (status ?s u) k = (bit (status s u) k \<and> \<not> (u = t \<and> k = 11))" for u k
    by (auto simp: upd_tcb_def flag_simps dest: bit_le16)
  have e: "priority (tcb ?s u) = priority (tcb s u)" "taskID (tcb ?s u) = taskID (tcb s u)" "startTime (tcb ?s u) = startTime (tcb s u)"
    "responseTime ?s = responseTime s" "runTask ?s = runTask s" "g_idleTaskID ?s = g_idleTaskID s" "dl ?s = dl s"
    "g_queueBitmap ?s = g_queueBitmap s" "cfg_swtmr ?s = cfg_swtmr s" "tk ?s = tk s" "stackMem ?s = stackMem s"
    "u \<noteq> t \<Longrightarrow> topOfStack (tcb ?s u) = topOfStack (tcb s u)" for u
    by (simp_all add: los_defs)
  have "glob_ok ?s L" by (rule glob_ok_cong [OF K(7)]) (simp_all add: los_defs)
  moreover have "task_ok ?s L u" for u
    using sched_inv_task [OF K(5), of u]
    unfolding task_ok_def loc_ok_def ready_def delayed_def flags_ok_def b e by simp
  moreover have "run_ok ?s" using sched_inv_run_ok [OF K(5)] by (simp add: run_ok_def b e del: or_clr_sel)
  moreover have "sys_ok n ?s"
    using K(6) x by (auto simp: sys_ok_def idle_slot_def los_defs flag_simps)
  ultimately show ?thesis by (simp add: kinv_def sched_inv_def)
qed

text \<open>
  Another task than the running one: its control block is free again, or, when
  it can be joined, keeps its exit status; its stack goes back to the heap.
\<close>

lemma delete_other_law:
  assumes I: "kinv n s L" and d: "deletable tid s" and t: "t = OS_TCB_FROM_TID tid" and l: "live_lists s L t"
    and i: "taskID (tcb s t) \<noteq> g_idleTaskID s" and nr: "\<not> is_running (status s t)"
  obtains s' L' where "LOS_TaskDelete tid s = Some (LOS_OK, s')" "kinv n s' L'" "runTask s' = runTask s"
    "freed s' = (if own_stack (tcb s t) = 0 then freed s else own_stack (tcb s t) # freed s)"
    "\<And>u. u \<noteq> t \<Longrightarrow> ipc_core (tcb s' u) = ipc_core (tcb s u)"
    "\<And>u. u \<noteq> t \<Longrightarrow> joiner L t \<noteq> Some u \<Longrightarrow> status s' u = status s u"
    "\<And>u. joiner L t = Some u \<Longrightarrow> \<not> is_pend (status s' u) \<and> (is_ready (status s' u) \<or> is_suspend (status s u) \<or> is_running (status s u))"
    "\<not> bit (status s t) 15 \<Longrightarrow> status s' t = OS_TASK_STATUS_UNUSED \<and> taskID (tcb s' t) = taskID (tcb s t) \<and>
       L' NFreeTask = Some (NPend t # the (L NFreeTask))"
    "bit (status s t) 15 \<Longrightarrow> is_exit (status s' t) \<and> \<not> is_unused (status s' t) \<and> joinRetval (tcb s' t) = LOS_CurTaskIDGet s \<and>
       L' NFreeTask = L NFreeTask \<and>
       loose L' t \<and> own_stack (tcb s' t) = 0 \<and> taskID (tcb s' t) = taskID (tcb s t) \<and> g_idleTaskID s' = g_idleTaskID s"
proof -
  have f: "\<not> bit (status s t) 12" "\<not> is_unused (status s t)" "\<not> is_exit (status s t)" "\<not> bit (status s t) 13"
    and v: "OsCheckTaskIDValid tid s = LOS_OK"
    using d by (simp_all add: deletable_def Let_def t)
  have r: "runTask s \<noteq> Some t" using nr sched_inv_run_ok [OF kinv_shape(5) [OF I]] by (auto simp: run_ok_def)
  obtain s1 s2 s3 L3 where 1: "OsTaskJoinPostUnsafe t s = Some s1" "OsSchedTaskExit t s1 = Some s2"
    "s3 = upd_tcb t (\<lambda>c. c\<lparr>eventMask := 0\<rparr>) (set_event (EvTask t) OS_NULL_INT (snd (LOS_EventDestroy (Some (EvTask t)) s2)))"
    "kinv n s3 L3" "loose L3 t" "L3 NFreeTask = L NFreeTask" "L3 NRecycle = L NRecycle"
    and b: "\<And>k. bit (status s3 t) k = (k = 8 \<or> (bit (status s t) k \<and> k \<noteq> 2 \<and> k \<noteq> 3 \<and> k \<noteq> 5 \<and> k \<noteq> 7))"
    and e: "runTask s3 = runTask s" "taskID (tcb s3 t) = taskID (tcb s t)" "topOfStack (tcb s3 t) = topOfStack (tcb s t)"
    and c3: "\<And>u. u \<noteq> t \<Longrightarrow> ipc_core (tcb s3 u) = ipc_core (tcb s u)"
    and st3: "\<And>u. u \<noteq> t \<Longrightarrow> joiner L t \<noteq> Some u \<Longrightarrow> status s3 u = status s u"
    and j3: "\<And>u. joiner L t = Some u \<Longrightarrow> u \<noteq> t \<and> \<not> is_pend (status s3 u) \<and>
       (is_ready (status s3 u) \<longleftrightarrow> \<not> is_suspend (status s u) \<and> \<not> is_running (status s u))"
    and g: "g_idleTaskID s3 = g_idleTaskID s" "g_taskMaxNum s3 = g_taskMaxNum s" "freed s3 = freed s"
    "g_taskScheduled s3 = g_taskScheduled s" "g_losTaskLock s3 = g_losTaskLock s" "stackMem s3 = stackMem s"
    by (rule delete_prefix_law [OF I l f(2,3) i]) (rule that; assumption)
  let ?s4 = "upd_tcb t (\<lambda>c. c\<lparr>joinRetval := LOS_CurTaskIDGet s3\<rparr>) s3"
  have I4: "kinv n ?s4 L3" by (rule retval_loose [OF 1(4)])
  have cur: "LOS_CurTaskIDGet s3 = LOS_CurTaskIDGet s"
    using e(1) ipc_core_sel(2) [OF c3] r by (auto simp: LOS_CurTaskIDGet_def split: option.splits)
  have b4: "bit (status ?s4 t) k = (k = 8 \<or> (bit (status s t) k \<and> k \<noteq> 2 \<and> k \<noteq> 3 \<and> k \<noteq> 5 \<and> k \<noteq> 7))" for k
    by (simp add: upd_tcb_def b)
  have os: "own_stack (tcb ?s4 t) = own_stack (tcb s t)" using b4 [of 11] e(3) by (simp add: own_stack_def upd_tcb_def)
  have D: "LOS_TaskDelete tid s = do { (stackPtr, s) \<leftarrow> OsRecycleTaskResources t ?s4; Some (LOS_OK, LOS_MemFree stackPtr s) }"
    using v f nr 1(1,2) b [of 4] and_exp_eq_0_iff_not_bit [of "status s t" 13]
    by (simp add: LOS_TaskDelete_def t [symmetric] flag_simps 1(3) [symmetric] Let_def)
  show thesis
  proof (cases "bit (status s t) 15")
    case False
    have x: "runTask ?s4 \<noteq> Some t" "taskID (tcb ?s4 t) \<noteq> g_idleTaskID ?s4" using r i e g by (simp_all add: upd_tcb_def)
    obtain h s5 where 5: "OsInsertTCBToFreeList t ?s4 = Some s5"
      "s5 = ?s4\<lparr>dl := h, responseTime := (responseTime ?s4)(NSort t := 0), uwEventID := (uwEventID ?s4)(EvTask t := 0),
        g_taskCBArray := (g_taskCBArray ?s4)(t := free_tcb (tcb ?s4 t))\<rparr>"
      "kinv n s5 (free_lists t L3)"
      by (rule insert_free_law [OF I4 1(5) x]) (rule that; assumption)
    have j: "\<not> bit (status ?s4 t) 15" using b4 [of 15] False by simp
    have O: "LOS_TaskDelete tid s = Some (LOS_OK, LOS_MemFree (own_stack (tcb s t)) s5)"
      unfolding D recycle_free [OF j] 5(1) os by simp
    have T: "tcb s5 u = (if u = t then free_tcb (tcb ?s4 t) else tcb s3 u)" for u by (simp add: 5(2) upd_tcb_def)
    have tid: "taskID (tcb ?s4 t) = taskID (tcb s t)" using e(2) by (simp add: upd_tcb_def)
    have "kinv n (LOS_MemFree (own_stack (tcb s t)) s5) (free_lists t L3)" using 5(3) by simp
    then show thesis
    proof (rule that [OF O])
      show "runTask (LOS_MemFree (own_stack (tcb s t)) s5) = runTask s" using e by (simp add: 5(2) LOS_MemFree_def upd_tcb_def)
      show "freed (LOS_MemFree (own_stack (tcb s t)) s5) = (if own_stack (tcb s t) = 0 then freed s else own_stack (tcb s t) # freed s)"
        using g by (simp add: 5(2) LOS_MemFree_def upd_tcb_def)
      let ?s6 = "LOS_MemFree (own_stack (tcb s t)) s5"
      have T6: "g_taskCBArray ?s6 = g_taskCBArray s5" by (simp add: LOS_MemFree_def)
      show "ipc_core (tcb ?s6 u) = ipc_core (tcb s u)" if "u \<noteq> t" for u using c3 [OF that] that unfolding T6 T by simp
      show "status ?s6 u = status s u" if "u \<noteq> t" "joiner L t \<noteq> Some u" for u
        using st3 [OF that] that(1) unfolding T6 T by simp
      show "\<not> is_pend (status ?s6 u) \<and> (is_ready (status ?s6 u) \<or> is_suspend (status s u) \<or> is_running (status s u))"
        if "joiner L t = Some u" for u
        using j3 [OF that] unfolding T6 T by auto
      show "status ?s6 t = OS_TASK_STATUS_UNUSED \<and> taskID (tcb ?s6 t) = taskID (tcb s t) \<and>
        free_lists t L3 NFreeTask = Some (NPend t # the (L NFreeTask))"
        unfolding T6 T free_lists_sel 1(6) using tid by (simp add: free_tcb_def)
      show "is_exit (status ?s6 t) \<and> \<not> is_unused (status ?s6 t) \<and> joinRetval (tcb ?s6 t) = LOS_CurTaskIDGet s \<and>
        free_lists t L3 NFreeTask = L NFreeTask \<and>
       loose (free_lists t L3) t \<and> own_stack (tcb ?s6 t) = 0 \<and> taskID (tcb ?s6 t) = taskID (tcb s t) \<and> g_idleTaskID ?s6 = g_idleTaskID s" if "bit (status s t) 15" using that False by blast
    qed
  next
    case True
    define s5 where "s5 = (if own_stack (tcb s t) \<noteq> 0 then clr_status t OS_TASK_FLAG_STACK_FREE (upd_tcb t (\<lambda>c. c\<lparr>topOfStack := 0\<rparr>) ?s4) else ?s4)"
    have b5: "bit (status s5 t) k = (bit (status ?s4 t) k \<and> \<not> (k = 11 \<and> own_stack (tcb s t) \<noteq> 0))" for k
      by (auto simp: s5_def upd_tcb_def flag_simps dest: bit_le16)
    have G5: "runTask s5 = runTask s3" "freed s5 = freed s3" "joinRetval (tcb s5 t) = LOS_CurTaskIDGet s3"
      "u \<noteq> t \<Longrightarrow> tcb s5 u = tcb s3 u" "g_idleTaskID s5 = g_idleTaskID s3" "taskID (tcb s5 t) = taskID (tcb s3 t)" for u
      by (simp_all add: s5_def los_defs)
    have os5: "own_stack (tcb s5 t) = 0"
    proof (cases "own_stack (tcb s t) = 0")
      case True
      then show ?thesis using os by (simp add: s5_def)
    next
      case False
      then show ?thesis using b5 [of 11] by (simp add: own_stack_def)
    qed
    have R: "OsRecycleTaskResources t ?s4 = Some (own_stack (tcb s t), s5)"
      using recycle_joinable [of ?s4 t] True b4 [of 15] unfolding s5_def os by simp
    have I5: "kinv n s5 L3"
    proof (cases "own_stack (tcb s t) = 0")
      case False
      have x: "is_exit (status ?s4 t)" "runTask ?s4 \<noteq> Some t" using b4 [of 8] e r by (simp_all add: upd_tcb_def)
      have "kinv n (clr_status t OS_TASK_FLAG_STACK_FREE (upd_tcb t (\<lambda>c. c\<lparr>topOfStack := 0\<rparr>) ?s4)) L3"
        by (rule stackless_law [OF I4 x])
      then show ?thesis using False by (simp add: s5_def)
    qed (use I4 in \<open>simp add: s5_def\<close>)
    have O: "LOS_TaskDelete tid s = Some (LOS_OK, LOS_MemFree (own_stack (tcb s t)) s5)"
      unfolding D R by simp
    have "kinv n (LOS_MemFree (own_stack (tcb s t)) s5) L3" using I5 by simp
    then show thesis
    proof (rule that [OF O])
      let ?s6 = "LOS_MemFree (own_stack (tcb s t)) s5"
      have T6: "g_taskCBArray ?s6 = g_taskCBArray s5" by (simp add: LOS_MemFree_def)
      show "runTask ?s6 = runTask s" using e(1) by (simp add: LOS_MemFree_def G5)
      show "freed ?s6 = (if own_stack (tcb s t) = 0 then freed s else own_stack (tcb s t) # freed s)"
        using g(3) by (simp add: LOS_MemFree_def G5)
      show "ipc_core (tcb ?s6 u) = ipc_core (tcb s u)" if "u \<noteq> t" for u using c3 [OF that] G5(4) [OF that] T6 by simp
      show "status ?s6 u = status s u" if "u \<noteq> t" "joiner L t \<noteq> Some u" for u
        using st3 [OF that] G5(4) [OF that(1)] T6 by simp
      show "\<not> is_pend (status ?s6 u) \<and> (is_ready (status ?s6 u) \<or> is_suspend (status s u) \<or> is_running (status s u))"
        if "joiner L t = Some u" for u
        using j3 [OF that] G5(4) [of u] T6 by auto
      show "status ?s6 t = OS_TASK_STATUS_UNUSED \<and> taskID (tcb ?s6 t) = taskID (tcb s t) \<and>
        L3 NFreeTask = Some (NPend t # the (L NFreeTask))" if "\<not> bit (status s t) 15" using that True by blast
      show "is_exit (status ?s6 t) \<and> \<not> is_unused (status ?s6 t) \<and> joinRetval (tcb ?s6 t) = LOS_CurTaskIDGet s \<and>
        L3 NFreeTask = L NFreeTask \<and>
       loose L3 t \<and> own_stack (tcb ?s6 t) = 0 \<and> taskID (tcb ?s6 t) = taskID (tcb s t) \<and> g_idleTaskID ?s6 = g_idleTaskID s"
        using f(2) 1(5,6) cur G5(3,5,6) os5 g(1) e(2) unfolding T6 b5 b4 by (simp add: LOS_MemFree_def)
    qed
  qed
qed

lemma unused_loose:
  assumes I: "kinv n s L" and u: "is_unused (status s r)" "\<not> spare L r"
  shows "\<not> mem L q (NPend r)" "\<not> mem L q (NSort r)"
proof -
  note tk = sched_inv_task [OF kinv_shape(5) [OF I], of r]
  show "\<not> mem L q (NPend r)"
  proof
    assume m: "mem L q (NPend r)"
    from kinv_holds [OF I m] have "wait_head q \<or> is_pri q \<or> q = NFreeTask \<or> q = NRecycle" by simp
    with tk m u show False
      by (cases q) (auto simp: task_ok_def loc_ok_def flags_ok_def ready_def spare_def)
  qed
  show "\<not> mem L q (NSort r)"
    using tk u(1) kinv_holds [OF I, of q "NSort r"] by (auto simp: task_ok_def delayed_def flags_ok_def)
qed

text \<open>
  The running task: its control block waits in the recycle list, and the control
  block after the last one stands for it until the switch.
\<close>

lemma running_delete_law:
  assumes I: "kinv n s L" and run: "runTask s = Some t" and l: "loose L t" and x: "is_exit (status s t)"
    and r: "r = unat (g_taskMaxNum s)" "r \<noteq> t" "\<And>q. \<not> mem L q (NPend r)" "\<And>q. \<not> mem L q (NSort r)"
    and i: "tid \<noteq> g_idleTaskID s" "taskID (tcb s t) \<noteq> g_idleTaskID s" "OS_TCB_FROM_TID (g_idleTaskID s) \<noteq> r"
  obtains s' L' where "OsRunningTaskDelete tid t (or_status t OS_TASK_STATUS_UNUSED s) = Some s'" "kinv n s' L'"
    "L' = L(NRecycle \<mapsto> the (L NRecycle) @ [NPend t])" "runTask s' = Some r"
    "status s' t = status s t OR OS_TASK_STATUS_UNUSED" "taskID (tcb s' t) = taskID (tcb s t)"
    "topOfStack (tcb s' t) = topOfStack (tcb s t)" "\<And>u. u \<noteq> t \<Longrightarrow> u \<noteq> r \<Longrightarrow> tcb s' u = tcb s u"
    "g_taskScheduled s' = g_taskScheduled s" "g_losTaskLock s' = g_losTaskLock s" "freed s' = freed s"
proof -
  note K = kinv_shape [OF I]
  note b = bit_or_iff
  have rn: "is_running (status s t)" using inv_running(1) [OF K(5) run] .
  obtain xs where xs: "L NRecycle = Some xs" using K(4) by blast
  have nc: "NPend t \<notin> covered L" using l K(1) by (intro not_covered [OF I]) (auto simp: loose_def)
  let ?s1 = "or_status t OS_TASK_STATUS_UNUSED s"
  have "dl_rep (dl ?s1) L" using kinv_rep [OF I] by (simp add: los_defs)
  from list_tail_insert [OF this xs nc] obtain h where
    h: "LOS_ListTailInsert NRecycle (NPend t) (dl ?s1) = Some h" "dl_rep h (L(NRecycle \<mapsto> xs @ [NPend t]))" .
  let ?L = "L(NRecycle \<mapsto> xs @ [NPend t])"
  have M: "mem ?L q m \<longleftrightarrow> mem L q m \<or> q = NRecycle \<and> m = NPend t" for q m using xs by (auto simp: mem_def)
  define c where "c = (tcb s r)\<lparr>taskID := tid, taskStatus := (status s t OR OS_TASK_STATUS_UNUSED) OR OS_TASK_STATUS_RUNNING,
     topOfStack := topOfStack (tcb s t), taskName := taskName (tcb s t)\<rparr>"
  let ?s = "?s1\<lparr>dl := h, runTask := Some r, g_taskCBArray := (g_taskCBArray ?s1)(r := c)\<rparr>"
  have O: "OsRunningTaskDelete tid t ?s1 = Some ?s"
    using h(1) r(1,2)
    by (simp add: OsRunningTaskDelete_def k_ListTailInsert_def Let_def los_defs c_def)
  have st: "bit (status ?s t) k \<longleftrightarrow> k = 0 \<or> bit (status s t) k" for k using r(2) by (auto simp: flag_simps)
  have sr: "bit (status ?s r) k \<longleftrightarrow> k = 0 \<or> bit (status s t) k" for k using rn by (auto simp: c_def flag_simps)
  have e: "tcb ?s u = tcb s u" if "u \<noteq> t" "u \<noteq> r" for u using that by simp
  have sel: "responseTime ?s = responseTime s" "g_idleTaskID ?s = g_idleTaskID s" "g_queueBitmap ?s = g_queueBitmap s"
    "cfg_swtmr ?s = cfg_swtmr s" "tk ?s = tk s" "stackMem ?s = stackMem s" "runTask ?s = Some r" "dl ?s = h"
    by (simp_all add: los_defs)
  have "glob_ok ?s ?L"
    by (rule glob_ok_upd [OF K(7)]) (use xs h(2) kinv_holds [OF I, of NRecycle] K(7) in \<open>auto simp: sel mem_def glob_ok_def\<close>)
  moreover have "task_ok ?s ?L u" for u
  proof -
    have tk: "task_ok s L t" by (rule sched_inv_task [OF K(5)])
    consider "u = t" | "u = r" | "u \<noteq> t" "u \<noteq> r" by blast
    then show ?thesis
    proof cases
      case 1
      have tid: "taskID (tcb ?s t) = taskID (tcb s t)" using r(2) by simp
      show ?thesis unfolding 1 task_ok_def loc_ok_def ready_def delayed_def flags_ok_def st M sel tid
        using tk x l i(2) by (auto simp: task_ok_def loc_ok_def flags_ok_def loose_def ready_def delayed_def)
    next
      case 2
      have tid: "taskID (tcb ?s r) = tid" by (simp add: c_def)
      show ?thesis unfolding 2 task_ok_def loc_ok_def ready_def delayed_def flags_ok_def sr M sel tid
        using tk x r(2-4) i(1) rn by (auto simp: task_ok_def flags_ok_def)
    next
      case 3
      have "\<not> (is_running (status s u) \<and> \<not> is_unused (status s u))"
        using sched_inv_task [OF K(5), of u] run 3 by (auto simp: task_ok_def)
      from sched_inv_task [OF K(5), of u] this e [OF 3] show ?thesis
        by (rule task_ok_not_running) (use 3 in \<open>auto simp: M sel simp del: mem_upd\<close>)
    qed
  qed
  moreover have "run_ok ?s" using rn by (simp add: run_ok_def c_def flag_simps)
  moreover have "sys_ok n ?s"
  proof -
    have "startTime (tcb ?s u) \<le> now_of (tk ?s)" for u using K(6) r(2) by (simp add: sys_ok_def sel c_def los_defs)
    moreover have "stackMem ?s (topOfStack (tcb ?s u)) = Some OS_TASK_MAGIC_WORD"
      if "\<not> is_unused (status ?s u) \<and> \<not> is_exit (status ?s u) \<or> runTask ?s = Some u \<and> g_taskScheduled ?s" for u
    proof (cases "u = r")
      case True
      with that sr [of 0] have "g_taskScheduled s" by (auto simp: los_defs)
      then show ?thesis using True K(6) run by (simp add: sys_ok_def sel c_def los_defs)
    next
      case False
      then have ut: "u \<noteq> t" using that st [of 0] by (auto simp: sel)
      with False that have "\<not> is_unused (status s u) \<and> \<not> is_exit (status s u)" using e [of u] by (auto simp: sel)
      then show ?thesis using K(6) e [OF ut False] by (simp add: sys_ok_def sel)
    qed
    moreover have "idle_slot ?s"
      using K(6) i(3) e [of "OS_TCB_FROM_TID (g_idleTaskID s)"] r(2) by (auto simp: sys_ok_def idle_slot_def sel)
    ultimately show ?thesis using K(6) by (simp add: sys_ok_def sel)
  qed
  ultimately have "kinv n ?s ?L" by (simp add: kinv_def sched_inv_def)
  then show thesis by (rule that [OF O]) (use xs r(2) in \<open>simp_all add: los_defs\<close>)
qed

lemma delete_self_law:
  assumes I: "kinv (Suc n) s L" and d: "deletable tid s" and t: "t = OS_TCB_FROM_TID tid" and l: "live_lists s L t"
    and i: "taskID (tcb s t) \<noteq> g_idleTaskID s" and run: "runTask s = Some t" and j: "\<not> bit (status s t) 15"
    and r: "r = unat (g_taskMaxNum s)" "is_unused (status s r)" "\<not> spare L r" "OS_TCB_FROM_TID (g_idleTaskID s) \<noteq> r"
    and on: "g_taskScheduled s"
  obtains s' L' new where "LOS_TaskDelete tid s = Some (LOS_OK, s')" "kinv n s' L'" "runTask s' = Some new" "new \<noteq> t"
    "top_of s' new" "\<not> blocked (status s' new)" "L' NRecycle = Some (the (L NRecycle) @ [NPend t])" "L' NFreeTask = L NFreeTask"
    "is_unused (status s' t)" "taskID (tcb s' t) = taskID (tcb s t)" "own_stack (tcb s' t) = own_stack (tcb s t)"
    "freed s' = freed s"
    "\<And>u. joiner L t = Some u \<Longrightarrow> u \<noteq> t \<and> \<not> is_pend (status s' u)"
    "\<And>u. u \<noteq> t \<Longrightarrow> u \<noteq> r \<Longrightarrow> ipc_core (tcb s' u) = ipc_core (tcb s u)"
proof -
  have f: "\<not> bit (status s t) 12" "\<not> is_unused (status s t)" "\<not> is_exit (status s t)" "\<not> bit (status s t) 13"
    and v: "OsCheckTaskIDValid tid s = LOS_OK"
    using d by (simp_all add: deletable_def Let_def t)
  have v': "tid \<noteq> g_idleTaskID s" "tid < g_taskMaxNum s" using v by (auto simp: OsCheckTaskIDValid_def split: if_splits)
  have rt: "r \<noteq> t" using v'(2) by (simp add: r t OS_TCB_FROM_TID_def word_less_nat_alt)
  have rn: "is_running (status s t)" using inv_running(1) [OF kinv_shape(5) [OF I] run] .
  define s0 where "s0 = (if g_losTaskLock s \<noteq> 0 then s\<lparr>g_losTaskLock := 0\<rparr> else s)"
  have I0: "kinv (Suc n) s0 L" using I by (simp add: s0_def)
  have e0: "tcb s0 = tcb s" "g_idleTaskID s0 = g_idleTaskID s" "runTask s0 = runTask s" "g_taskMaxNum s0 = g_taskMaxNum s"
    "g_taskScheduled s0 = g_taskScheduled s" "freed s0 = freed s" "g_losTaskLock s0 = 0"
    by (simp_all add: s0_def)
  have l0: "live_lists s0 L t" using l by (simp add: live_lists_def e0)
  have x0: "\<not> is_unused (status s0 t)" "\<not> is_exit (status s0 t)" "taskID (tcb s0 t) \<noteq> g_idleTaskID s0"
    using f i by (simp_all add: e0)
  obtain s1 s2 s3 L3 where 1: "OsTaskJoinPostUnsafe t s0 = Some s1" "OsSchedTaskExit t s1 = Some s2"
    "s3 = upd_tcb t (\<lambda>c. c\<lparr>eventMask := 0\<rparr>) (set_event (EvTask t) OS_NULL_INT (snd (LOS_EventDestroy (Some (EvTask t)) s2)))"
    "kinv (Suc n) s3 L3" "loose L3 t" "L3 NFreeTask = L NFreeTask" "L3 NRecycle = L NRecycle"
    and b: "\<And>k. bit (status s3 t) k = (k = 8 \<or> (bit (status s0 t) k \<and> k \<noteq> 2 \<and> k \<noteq> 3 \<and> k \<noteq> 5 \<and> k \<noteq> 7))"
    and e: "runTask s3 = runTask s0" "taskID (tcb s3 t) = taskID (tcb s0 t)" "topOfStack (tcb s3 t) = topOfStack (tcb s0 t)"
    and c3: "\<And>u. u \<noteq> t \<Longrightarrow> ipc_core (tcb s3 u) = ipc_core (tcb s0 u)"
    and st3: "\<And>u. u \<noteq> t \<Longrightarrow> joiner L t \<noteq> Some u \<Longrightarrow> status s3 u = status s0 u"
    and j3: "\<And>u. joiner L t = Some u \<Longrightarrow> u \<noteq> t \<and> \<not> is_pend (status s3 u) \<and>
       (is_ready (status s3 u) \<longleftrightarrow> \<not> is_suspend (status s0 u) \<and> \<not> is_running (status s0 u))"
    and g: "g_idleTaskID s3 = g_idleTaskID s0" "g_taskMaxNum s3 = g_taskMaxNum s0" "freed s3 = freed s0"
    "g_taskScheduled s3 = g_taskScheduled s0" "g_losTaskLock s3 = g_losTaskLock s0" "stackMem s3 = stackMem s0"
    by (rule delete_prefix_law [OF I0 l0 x0]) (rule that; assumption)
  have jr: "joiner L t \<noteq> Some r"
  proof
    assume jr: "joiner L t = Some r"
    then have "mem L (NJoin t) (NPend r)"
      using l by (auto simp: joiner_def live_lists_def mem_def split: if_splits option.splits list.splits)
    then show False using unused_loose(1) [OF I r(2,3)] by blast
  qed
  have u3: "is_unused (status s3 r)" "\<not> spare L3 r"
    using st3 [OF rt jr] r(2,3) 1(6,7) by (simp_all add: e0 spare_def mem_def)
  have run3: "runTask s3 = Some t" "is_exit (status s3 t)" "r = unat (g_taskMaxNum s3)" "tid \<noteq> g_idleTaskID s3"
    "taskID (tcb s3 t) \<noteq> g_idleTaskID s3" "OS_TCB_FROM_TID (g_idleTaskID s3) \<noteq> r"
    using run e g b v' i r(1,4) by (simp_all add: e0)
  obtain s4 L4 where 4: "OsRunningTaskDelete tid t (or_status t OS_TASK_STATUS_UNUSED s3) = Some s4" "kinv (Suc n) s4 L4"
    "L4 = L3(NRecycle \<mapsto> the (L3 NRecycle) @ [NPend t])" "runTask s4 = Some r"
    "status s4 t = status s3 t OR OS_TASK_STATUS_UNUSED" "taskID (tcb s4 t) = taskID (tcb s3 t)"
    "topOfStack (tcb s4 t) = topOfStack (tcb s3 t)"
    and T4: "\<And>u. u \<noteq> t \<Longrightarrow> u \<noteq> r \<Longrightarrow> tcb s4 u = tcb s3 u"
    and g4: "g_taskScheduled s4 = g_taskScheduled s3" "g_losTaskLock s4 = g_losTaskLock s3" "freed s4 = freed s3"
    by (rule running_delete_law [OF 1(4) run3(1) 1(5) run3(2,3) rt unused_loose [OF 1(4) u3] run3(4-6)]) (rule that; assumption)
  obtain s' L' where 5: "LOS_Schedule s4 = Some s'" "kinv n s' L'" "ikeep s4 s'" "\<forall>q. plain q \<longrightarrow> L' q = L4 q"
    "\<forall>u k. k \<noteq> 2 \<longrightarrow> k \<noteq> 4 \<longrightarrow> bit (status s' u) k = bit (status s4 u) k"
    "g_taskScheduled s4 \<and> g_losTaskLock s4 = 0 \<longrightarrow>
       (\<exists>new. runTask s' = Some new \<and> top_of s' new \<and> \<not> blocked (status s' new))"
    using kinv_schedule [OF 4(2)] by blast
  obtain new where new: "runTask s' = Some new" "top_of s' new" "\<not> blocked (status s' new)"
    using 5(6) on g4 g by (auto simp: e0)
  have ut: "is_unused (status s' t)" using 5(5) 4(5) by (simp add: flag_simps)
  have nt: "new \<noteq> t" using new(3) ut by (auto simp: blocked_def)
  have b11: "bit (status s' t) 11 = bit (status s t) 11" using 5(5) 4(5) b [of 11] by (simp add: flag_simps e0)
  have b15: "status s3 t AND OS_TASK_FLAG_JOINABLE = 0" using j b [of 15] by (simp add: flag_simps e0)
  have b4: "status s3 t AND OS_TASK_STATUS_RUNNING \<noteq> 0" using rn b [of 4] by (simp add: flag_simps e0)
  have O: "LOS_TaskDelete tid s = Some (LOS_OK, s')"
    unfolding LOS_TaskDelete_def Let_def t [symmetric]
    using v f rn and_exp_eq_0_iff_not_bit [of "status s t" 13] 1(1,2) b15 b4 4(1) 5(1)
    by (simp add: flag_simps(1-20) s0_def [symmetric] 1(3) [symmetric])
  show thesis
  proof (rule that [OF O 5(2) new(1) nt new(2,3)])
    show "L' NRecycle = Some (the (L NRecycle) @ [NPend t])" "L' NFreeTask = L NFreeTask"
      using 5(4) 4(3) 1(6,7) by (simp_all add: plain_def)
    show "is_unused (status s' t)" by (rule ut)
    show "taskID (tcb s' t) = taskID (tcb s t)" using ikeep_tcb_sel(2) [OF 5(3), of t] 4(6) e(2) by (simp add: e0)
    show "own_stack (tcb s' t) = own_stack (tcb s t)"
      using b11 ikeep_tcb_sel(3) [OF 5(3), of t] 4(7) e(3) by (simp add: own_stack_def e0)
    show "freed s' = freed s" using ikeep_sel(7) [OF 5(3)] g4 g by (simp add: e0)
    show "u \<noteq> t \<and> \<not> is_pend (status s' u)" if "joiner L t = Some u" for u
      using j3 [OF that] 5(5) T4 [of u] jr that by auto
    show "ipc_core (tcb s' u) = ipc_core (tcb s u)" if "u \<noteq> t" "u \<noteq> r" for u
      using ikeep_tcb [OF 5(3), of u] T4 [OF that] c3 [OF that(1)] by (simp add: e0)
  qed
qed

subsection \<open>Suspending, resuming, delaying\<close>

lemma not_idle:
  assumes I: "kinv n s L" and v: "tid \<noteq> g_idleTaskID s"
  shows "taskID (tcb s (OS_TCB_FROM_TID tid)) \<noteq> g_idleTaskID s"
proof
  assume "taskID (tcb s (OS_TCB_FROM_TID tid)) = g_idleTaskID s"
  then have "OS_TCB_FROM_TID tid = OS_TCB_FROM_TID (g_idleTaskID s)"
    using sched_inv_task [OF kinv_shape(5) [OF I], of "OS_TCB_FROM_TID tid"] by (simp add: task_ok_def)
  with v show False by (simp add: OS_TCB_FROM_TID_def word_unat_eq_iff)
qed

lemma valid_id: "OsCheckTaskIDValid tid s = LOS_OK \<Longrightarrow> tid \<noteq> g_idleTaskID s \<and> tid < g_taskMaxNum s"
  by (auto simp: OsCheckTaskIDValid_def split: if_splits)

lemma kinv_suspend:
  assumes I: "kinv n s L" and nu: "\<not> is_unused (status s t)" and i: "taskID (tcb s t) \<noteq> g_idleTaskID s" and pm: "\<not> pmMode s"
  obtains s' L' where "OsSchedSuspend t s = Some s'" "kinv n s' L'" "frame t s s'"
    "\<And>k. bit (status s' t) k = (k = 1 \<or> (bit (status s t) k \<and> k \<noteq> 2))" "\<And>q. \<not> is_pri q \<Longrightarrow> L' q = L q" "ikeep s s'"
proof -
  note K = kinv_shape [OF I]
  obtain s' L' where 1: "OsSchedSuspend t s = Some s'" "sched_inv s' L'" "frame t s s'"
    and b: "\<And>k. bit (status s' t) k = (k = 1 \<or> (bit (status s t) k \<and> k \<noteq> 2))"
    and Q: "\<And>q. \<not> is_pri q \<Longrightarrow> L' q = L q" and c: "sw_core (tcb s' t) = sw_core (tcb s t)"
    by (rule suspend_law [OF K(5) nu i pm]) (rule that; assumption)
  have "sys_ok n s'" by (rule sys_ok_frame [OF K(6) 1(3)]) (simp_all add: b)
  with 1(2) have "kinv n s' L'" by (simp add: kinv_def)
  then show thesis by (rule that [OF 1(1) _ 1(3) b Q ikeep_frame [OF 1(3) c]])
qed

lemma kinv_resume:
  assumes I: "kinv n s L" and nu: "\<not> is_unused (status s t)" and i: "taskID (tcb s t) \<noteq> g_idleTaskID s"
    and nr: "\<not> is_ready (status s t)" "\<not> is_running (status s t)" "\<not> is_exit (status s t)"
  obtains s' L' where "OsSchedResume t s = Some (\<not> is_pend (status s t) \<and> \<not> is_delay (status s t), s')"
    "kinv n s' L'" "frame t s s'"
    "\<And>k. k \<noteq> 2 \<Longrightarrow> bit (status s' t) k = (bit (status s t) k \<and> k \<noteq> 1)"
    "is_ready (status s' t) \<longleftrightarrow> \<not> is_pend (status s t) \<and> \<not> is_delay (status s t)"
    "\<And>q. \<not> is_pri q \<Longrightarrow> L' q = L q" "ikeep s s'"
proof -
  note K = kinv_shape [OF I]
  obtain s' L' where 1: "OsSchedResume t s = Some (\<not> is_pend (status s t) \<and> \<not> is_delay (status s t), s')"
    "sched_inv s' L'" "frame t s s'"
    and b: "\<And>k. k \<noteq> 2 \<Longrightarrow> bit (status s' t) k = (bit (status s t) k \<and> k \<noteq> 1)"
    and rd: "is_ready (status s' t) \<longleftrightarrow> \<not> is_pend (status s t) \<and> \<not> is_delay (status s t)"
    and Q: "\<And>q. \<not> is_pri q \<Longrightarrow> L' q = L q" and c: "sw_core (tcb s' t) = sw_core (tcb s t)"
    by (rule resume_law [OF K(5) nu i nr]) (rule that; assumption)
  have "sys_ok n s'" by (rule sys_ok_frame [OF K(6) 1(3)]) (simp_all add: b)
  with 1(2) have "kinv n s' L'" by (simp add: kinv_def)
  then show thesis by (rule that [OF 1(1) _ 1(3) b rd Q ikeep_frame [OF 1(3) c]])
qed

text \<open>The checks that LOS_TaskSuspend makes.\<close>

definition suspendable :: "u32 \<Rightarrow> kstate \<Rightarrow> bool" where
  "suspendable tid s \<longleftrightarrow> OsCheckTaskIDValid tid s = LOS_OK \<and>
     (let st = status s (OS_TCB_FROM_TID tid)
      in \<not> is_unused st \<and> \<not> bit st 12 \<and> \<not> is_suspend st \<and> \<not> (is_running st \<and> g_losTaskLock s \<noteq> 0))"

lemma suspend_other_law:
  assumes I: "kinv n s L" and d: "suspendable tid s" and t: "t = OS_TCB_FROM_TID tid" and pm: "\<not> pmMode s"
    and run: "runTask s = Some r" "taskID (tcb s r) \<noteq> tid"
  obtains s' L' where "LOS_TaskSuspend tid s = Some (LOS_OK, s')" "kinv n s' L'" "frame t s s'"
    "\<And>k. bit (status s' t) k = (k = 1 \<or> (bit (status s t) k \<and> k \<noteq> 2))" "\<And>q. \<not> is_pri q \<Longrightarrow> L' q = L q" "ikeep s s'"
    "t \<noteq> r \<Longrightarrow> xkeep {} s s'"
proof -
  have f: "\<not> is_unused (status s t)" "\<not> bit (status s t) 12" "\<not> is_suspend (status s t)"
    "is_running (status s t) \<longrightarrow> g_losTaskLock s = 0" and v: "OsCheckTaskIDValid tid s = LOS_OK"
    using d by (auto simp: suspendable_def Let_def t)
  have i: "taskID (tcb s t) \<noteq> g_idleTaskID s" using not_idle [OF I] valid_id [OF v] by (simp add: t)
  obtain s' L' where 1: "OsSchedSuspend t s = Some s'" "kinv n s' L'" "frame t s s'"
    and b: "\<And>k. bit (status s' t) k = (k = 1 \<or> (bit (status s t) k \<and> k \<noteq> 2))" and Q: "\<And>q. \<not> is_pri q \<Longrightarrow> L' q = L q" "ikeep s s'"
    by (rule kinv_suspend [OF I f(1) i pm]) (rule that; assumption)
  have "runTask s' = Some r" "taskID (tcb s' r) \<noteq> tid"
    using run frame_sel(1) [OF 1(3)] frame_core_sel [OF 1(3), of r] by simp_all
  then have O: "LOS_TaskSuspend tid s = Some (LOS_OK, s')"
    using f v 1(1) by (simp add: LOS_TaskSuspend_def t [symmetric] Let_def flag_simps)
  have X: "xkeep {} s s'" if tr: "t \<noteq> r"
  proof (rule xkeep_ikeep [OF Q(2)])
    show "is_unused (status s' u) = is_unused (status s u)" for u
      using b frame_tcb [OF 1(3), of u] by (cases "u = t") simp_all
    show "runs s'" if "runs s"
      using that tr run(1) frame_sel(1) [OF 1(3)] frame_tcb [OF 1(3), of r] by (simp add: runs_def)
  qed
  show thesis by (rule that [OF O 1(2,3) b Q X])
qed

text \<open>A task that suspends itself is switched away from: the next task is the most urgent one left.\<close>

lemma suspend_self_law:
  assumes I: "kinv (Suc n) s L" and d: "suspendable tid s" and t: "t = OS_TCB_FROM_TID tid" and pm: "\<not> pmMode s"
    and run: "runTask s = Some t" "taskID (tcb s t) = tid" and on: "g_taskScheduled s"
  obtains s' L' new where "LOS_TaskSuspend tid s = Some (LOS_OK, s')" "kinv n s' L'" "ikeep s s'"
    "runTask s' = Some new" "new \<noteq> t" "top_of s' new" "is_suspend (status s' t)"
    "\<And>u k. k \<noteq> 2 \<Longrightarrow> k \<noteq> 4 \<Longrightarrow> bit (status s' u) k = (u = t \<and> k = 1 \<or> bit (status s u) k)"
    "\<And>q. plain q \<Longrightarrow> L' q = L q" "xkeep {} s s'"
proof -
  have rn: "is_running (status s t)" using inv_running(1) [OF kinv_shape(5) [OF I] run(1)] .
  have f: "\<not> is_unused (status s t)" "\<not> bit (status s t) 12" "\<not> is_suspend (status s t)"
    "g_losTaskLock s = 0" and v: "OsCheckTaskIDValid tid s = LOS_OK"
    using d rn by (auto simp: suspendable_def Let_def t)
  have nrd: "\<not> is_ready (status s t)" using rn sched_inv_flags [OF kinv_shape(5) [OF I], of t] by (auto simp: flags_ok_def)
  have O1: "OsSchedSuspend t s = Some (or_status t OS_TASK_STATUS_SUSPEND s)"
    using nrd pm by (simp add: OsSchedSuspend_def flag_simps)
  have i: "taskID (tcb s t) \<noteq> g_idleTaskID s" using not_idle [OF I] valid_id [OF v] by (simp add: t)
  obtain s1 L1 where 1: "OsSchedSuspend t s = Some s1" "kinv (Suc n) s1 L1" "frame t s s1"
    and b: "\<And>k. bit (status s1 t) k = (k = 1 \<or> (bit (status s t) k \<and> k \<noteq> 2))" and Q: "\<And>q. \<not> is_pri q \<Longrightarrow> L1 q = L q"
    by (rule kinv_suspend [OF I f(1) i pm]) (rule that; assumption)
  have s1: "s1 = or_status t OS_TASK_STATUS_SUSPEND s" using O1 1(1) by simp
  have g: "g_taskScheduled s1" "g_losTaskLock s1 = 0" "runTask s1 = Some t" "taskID (tcb s1 t) = tid"
    using on f run by (simp_all add: s1 los_defs)
  have K1: "ikeep s s1" by (rule ikeep_frame [OF 1(3)]) (simp add: s1 los_defs sw_core_def)
  obtain s' L' where 2: "LOS_Schedule s1 = Some s'" "kinv n s' L'" "ikeep s1 s'" "\<forall>q. plain q \<longrightarrow> L' q = L1 q"
    "\<forall>u k. k \<noteq> 2 \<longrightarrow> k \<noteq> 4 \<longrightarrow> bit (status s' u) k = bit (status s1 u) k"
    "g_taskScheduled s1 \<and> g_losTaskLock s1 = 0 \<longrightarrow>
       (\<exists>new. runTask s' = Some new \<and> top_of s' new \<and> \<not> blocked (status s' new))"
    using kinv_schedule [OF 1(2)] by blast
  obtain new where new: "runTask s' = Some new" "top_of s' new" "\<not> blocked (status s' new)" using 2(6) g by blast
  have sus: "is_suspend (status s' t)" using 2(5) b by simp
  have ne: "new \<noteq> t" using sus new(3) by (auto simp: blocked_def)
  have O: "LOS_TaskSuspend tid s = Some (LOS_OK, s')"
    using f v 1(1) 2(1) g by (simp add: LOS_TaskSuspend_def t [symmetric] Let_def flag_simps)
  show thesis
  proof (rule that [OF O 2(2) ikeep_trans [OF K1 2(3)] new(1) ne new(2) sus])
    fix u and k :: nat assume "k \<noteq> 2" "k \<noteq> 4"
    then show "bit (status s' u) k = (u = t \<and> k = 1 \<or> bit (status s u) k)"
      using 2(5) b frame_tcb [OF 1(3), of u] by (cases "u = t") simp_all
  next
    show "\<And>q. plain q \<Longrightarrow> L' q = L q" using 2(4) Q by (simp add: plain_def)
    show "xkeep {} s s'"
    proof (rule xkeep_ikeep [OF ikeep_trans [OF K1 2(3)]])
      show "is_unused (status s' u) = is_unused (status s u)" for u
        using 2(5) b frame_tcb [OF 1(3), of u] by (cases "u = t") simp_all
    qed (use new in \<open>auto simp: runs_def\<close>)
  qed
qed

text \<open>The checks that LOS_TaskResume makes. It does not ask whether the task runs or has exited; the law does.\<close>

definition resumable :: "u32 \<Rightarrow> kstate \<Rightarrow> bool" where
  "resumable tid s \<longleftrightarrow> OS_TASK_ID_CHECK tid s \<and> tid \<noteq> g_idleTaskID s \<and>
     (let st = status s (OS_TCB_FROM_TID tid)
      in \<not> is_unused st \<and> is_suspend st \<and> \<not> is_running st \<and> \<not> is_exit st)"

lemma task_resume_law:
  assumes I: "kinv (Suc n) s L" and d: "resumable tid s" and t: "t = OS_TCB_FROM_TID tid"
  obtains s' L' where "LOS_TaskResume tid s = Some (LOS_OK, s')" "kinv n s' L'"
    "ikeep s s'"
    "\<And>u k. k \<noteq> 2 \<Longrightarrow> k \<noteq> 4 \<Longrightarrow> bit (status s' u) k = (bit (status s u) k \<and> (u = t \<longrightarrow> k \<noteq> 1))"
    "is_pend (status s t) \<or> is_delay (status s t) \<Longrightarrow> runTask s' = runTask s"
    "\<not> is_pend (status s t) \<Longrightarrow> \<not> is_delay (status s t) \<Longrightarrow> g_taskScheduled s \<Longrightarrow> g_losTaskLock s = 0 \<Longrightarrow>
       \<exists>new. runTask s' = Some new \<and> top_of s' new"
    "\<And>q. plain q \<Longrightarrow> L' q = L q"
    "\<not> is_pend (status s t) \<Longrightarrow> \<not> is_delay (status s t) \<Longrightarrow> is_ready (status s' t) \<or> runTask s' = Some t"
    "xkeep {} s s'"
proof -
  have f: "\<not> is_unused (status s t)" "is_suspend (status s t)" "\<not> is_running (status s t)" "\<not> is_exit (status s t)"
    "OS_TASK_ID_CHECK tid s" "tid \<noteq> g_idleTaskID s"
    using d by (auto simp: resumable_def Let_def t)
  have i: "taskID (tcb s t) \<noteq> g_idleTaskID s" using not_idle [OF I f(6)] by (simp add: t)
  have nrd: "\<not> is_ready (status s t)" using f(2) sched_inv_flags [OF kinv_shape(5) [OF I], of t] by (auto simp: flags_ok_def)
  let ?need = "\<not> is_pend (status s t) \<and> \<not> is_delay (status s t)"
  obtain s1 L1 where 1: "OsSchedResume t s = Some (?need, s1)" "kinv (Suc n) s1 L1" "frame t s s1"
    and b: "\<And>k. k \<noteq> 2 \<Longrightarrow> bit (status s1 t) k = (bit (status s t) k \<and> k \<noteq> 1)"
    and rd: "is_ready (status s1 t) \<longleftrightarrow> ?need" and Q: "\<And>q. \<not> is_pri q \<Longrightarrow> L1 q = L q" and c1: "ikeep s s1"
    by (rule kinv_resume [OF I f(1) i nrd f(3,4)]) (rule that; assumption)
  have g: "g_taskScheduled s1 = g_taskScheduled s" "g_losTaskLock s1 = g_losTaskLock s" "runTask s1 = runTask s"
    using frame_sel [OF 1(3)] gkeep_sel [OF gkeep_frames, of "{t}" s s1] 1(3) by simp_all
  have b1: "bit (status s1 u) k = (bit (status s u) k \<and> (u = t \<longrightarrow> k \<noteq> 1))" if "k \<noteq> 2" for u k
    using b [OF that] frame_tcb [OF 1(3), of u] by (cases "u = t") simp_all
  have q1: "plain q \<Longrightarrow> L1 q = L q" for q using Q by (simp add: plain_def)
  have ns: "t \<noteq> r" if "runTask s = Some r" "\<not> blocked (status s r)" for r using that f(2) by (auto simp: blocked_def)
  have X1: "xkeep {} s s1"
    by (rule xkeep_ikeep [OF c1]) (use b1 g(3) frame_tcb [OF 1(3)] ns in \<open>auto simp: runs_def\<close>)
  show thesis
  proof (cases "?need \<and> g_taskScheduled s")
    case False
    have O: "LOS_TaskResume tid s = Some (LOS_OK, s1)"
      using False f 1(1) g by (auto simp: LOS_TaskResume_def t [symmetric] Let_def flag_simps)
    show thesis by (rule that [OF O kinv_later [OF 1(2)] c1 _ _ _ q1 _ X1]) (use b1 False g rd in auto)
  next
    case True
    obtain s' L' where 2: "LOS_Schedule s1 = Some s'" "kinv n s' L'" "ikeep s1 s'" "\<forall>q. plain q \<longrightarrow> L' q = L1 q"
      "\<forall>u k. k \<noteq> 2 \<longrightarrow> k \<noteq> 4 \<longrightarrow> bit (status s' u) k = bit (status s1 u) k"
      "g_taskScheduled s1 \<and> g_losTaskLock s1 = 0 \<longrightarrow>
         (\<exists>new. runTask s' = Some new \<and> top_of s' new \<and> \<not> blocked (status s' new))"
      using kinv_schedule [OF 1(2)] by blast
    have O: "LOS_TaskResume tid s = Some (LOS_OK, s')"
      using True f 1(1) g 2(1) by (simp add: LOS_TaskResume_def t [symmetric] Let_def flag_simps)
    show thesis
    proof (rule that [OF O 2(2)])
      show "ikeep s s'" by (rule ikeep_trans [OF c1 2(3)])
      show "xkeep {} s s'" by (rule xkeep_trans [OF X1 schedule_xkeep [OF 1(2) 2(1)]])
      show "\<And>u k. k \<noteq> 2 \<Longrightarrow> k \<noteq> 4 \<Longrightarrow> bit (status s' u) k = (bit (status s u) k \<and> (u = t \<longrightarrow> k \<noteq> 1))"
        using 2(5) b1 by simp
      show "\<And>q. plain q \<Longrightarrow> L' q = L q" using 2(4) q1 by simp
      show "is_pend (status s t) \<or> is_delay (status s t) \<Longrightarrow> runTask s' = runTask s" using True by blast
      obtain r where r: "runTask s1 = Some r" "is_running (status s1 r)" using kinv_run [OF 1(2)] by blast
      have "t \<noteq> r" using r(2) b1 [of 4 t] f(3) by auto
      then show "is_ready (status s' t) \<or> runTask s' = Some t"
        using kinv_schedule_others [OF 1(2) r(1) 2(1), of t] rd True by auto
      show "g_losTaskLock s = 0 \<Longrightarrow> \<exists>new. runTask s' = Some new \<and> top_of s' new" using 2(6) g True by auto
    qed
  qed
qed

text \<open>A delay starts with the flag and the number of ticks; the switch turns them into a place in the sort link.\<close>

lemma kinv_delay:
  assumes I: "kinv n s L" and run: "runTask s = Some r" and f: "\<not> blocked (status s r)"
    and i: "taskID (tcb s r) \<noteq> g_idleTaskID s"
  shows "kinv n (OsSchedDelay r tick s) L"
proof -
  note K = kinv_shape [OF I]
  let ?s = "OsSchedDelay r tick s"
  note run' = inv_running [OF K(5) run]
  have tcb: "tcb ?s r = (tcb s r)\<lparr>taskStatus := status s r OR OS_TASK_STATUS_DELAY, waitTimes := tick\<rparr>"
    "responseTime ?s = responseTime s" "runTask ?s = Some r" "g_idleTaskID ?s = g_idleTaskID s"
    using run by (simp_all add: OsSchedDelay_def los_defs)
  have st: "bit (status ?s r) k = (k = 5 \<or> bit (status s r) k)" for k by (auto simp: tcb flag_simps)
  have B: "but r ?s L" using sched_inv_but [OF K(5)] by (simp add: OsSchedDelay_def)
  have R2: "run_ok ?s" using run'(1) by (simp add: run_ok_def tcb(3) st)
  have T: "task_ok ?s L r"
    using sched_inv_task [OF K(5), of r] f i run run'
    unfolding task_ok_def loc_ok_def ready_def delayed_def flags_ok_def st blocked_def by (simp add: tcb)
  have "sys_ok n ?s"
    using K(6) run by (auto simp: sys_ok_def idle_slot_def OsSchedDelay_def los_defs flag_simps)
  with but_close [OF B T R2] show "kinv n ?s L" by (simp add: kinv_def)
qed

lemma task_delay_law:
  assumes I: "kinv (Suc n) s L" and run: "runTask s = Some r" and f: "\<not> blocked (status s r)"
    and i: "taskID (tcb s r) \<noteq> g_idleTaskID s" and sy: "\<not> bit (status s r) 12"
    and c: "\<not> os_int_active s" "g_losTaskLock s = 0" "g_taskScheduled s" and tick: "tick \<noteq> 0"
  obtains s' L' new where "LOS_TaskDelay tick s = Some (LOS_OK, s')" "kinv n s' L'"
    "runTask s' = Some new" "new \<noteq> r" "top_of s' new" "is_delay (status s' r)" "\<not> is_running (status s' r)"
    "mem L' NTaskSort (NSort r)"
    "responseTime s' (NSort r) = now_of (tk s) + OS_SYS_TICK_TO_CYCLE tick (tk s)"
    "\<And>u k. k \<noteq> 2 \<Longrightarrow> k \<noteq> 4 \<Longrightarrow> bit (status s' u) k = (u = r \<and> k = 5 \<or> bit (status s u) k)"
    "\<And>q. plain q \<Longrightarrow> L' q = L q" "ikeep s s'" "xkeep {} s s'"
proof -
  let ?s = "OsSchedDelay r tick s"
  note I1 = kinv_delay [OF I run f i, of tick]
  note K = kinv_shape [OF I1]
  have e: "runTask ?s = Some r" "waitTimes (tcb ?s r) = tick" "tk ?s = tk s" "g_taskScheduled ?s" "g_losTaskLock ?s = 0"
    using run c by (simp_all add: OsSchedDelay_def los_defs)
  have st: "bit (status ?s u) k = (u = r \<and> k = 5 \<or> bit (status s u) k)" for u k
    by (auto simp: OsSchedDelay_def flag_simps los_defs)
  have K1: "ikeep s ?s" by (cases "tcb s r") (auto simp: ikeep_def OsSchedDelay_def los_defs ipc_core_def)
  obtain s' L' where 1: "LOS_Schedule ?s = Some s'" "sched_inv s' L'" "sys_ok n s'" "swframe ?s s'"
    "g_taskScheduled ?s \<and> g_losTaskLock ?s = 0 \<longrightarrow>
       (\<exists>new. runTask s' = Some new \<and> top_of s' new \<and> \<not> blocked (status s' new))"
    and Q: "\<And>q. \<not> is_pri q \<Longrightarrow> q \<noteq> NTaskSort \<Longrightarrow> L' q = L q"
    and D: "g_taskScheduled ?s \<and> g_losTaskLock ?s = 0 \<Longrightarrow> is_delay (status ?s r) \<or> is_pend_time (status ?s r) \<Longrightarrow>
       responseTime s' (NSort r) = now_of (tk ?s) + OS_SYS_TICK_TO_CYCLE (waitTimes (tcb ?s r)) (tk ?s)"
    by (rule LOS_Schedule_law [OF K(5,6) e(1)]) (rule that; assumption)
  obtain new where new: "runTask s' = Some new" "top_of s' new" "\<not> blocked (status s' new)" using 1(5) e by blast
  have d: "is_delay (status s' r)" using swframe_bits [OF 1(4), of 5 r] st by simp
  have ne: "new \<noteq> r" using d new(3) by (auto simp: blocked_def)
  have u: "\<not> is_unused (status s' r)"
    using swframe_bits [OF 1(4), of 0 r] st [of r 0] f by (simp add: blocked_def)
  have nrn: "\<not> is_running (status s' r)"
    using sched_inv_task [OF 1(2), of r] u ne new(1) by (auto simp: task_ok_def)
  have m: "mem L' NTaskSort (NSort r)" using sched_inv_task [OF 1(2), of r] d nrn by (simp add: task_ok_def delayed_def)
  have O: "LOS_TaskDelay tick s = Some (LOS_OK, s')"
    using c run sy tick 1(1) by (simp add: LOS_TaskDelay_def flag_simps)
  have I': "kinv n s' L'" using 1 by (simp add: kinv_def)
  show thesis
  proof (rule that [OF O I' new(1) ne new(2) d nrn m])
    show "responseTime s' (NSort r) = now_of (tk s) + OS_SYS_TICK_TO_CYCLE tick (tk s)" using D e st by simp
    show "\<And>u k. k \<noteq> 2 \<Longrightarrow> k \<noteq> 4 \<Longrightarrow> bit (status s' u) k = (u = r \<and> k = 5 \<or> bit (status s u) k)"
      using swframe_bits [OF 1(4)] st by simp
    show "\<And>q. plain q \<Longrightarrow> L' q = L q" using Q by (simp add: plain_def)
    show "ikeep s s'" by (rule ikeep_trans [OF K1 ikeep_swframe [OF 1(4)]])
    then show "xkeep {} s s'"
      by (rule xkeep_ikeep) (use swframe_bits [OF 1(4), of 0] st new in \<open>auto simp: runs_def\<close>)
  qed
qed

subsection \<open>Priority, yielding and the scheduler lock\<close>

lemma task_priset_law:
  assumes I: "kinv (Suc n) s L" and t: "t = OS_TCB_FROM_TID tid" and p: "prio \<le> OS_TASK_PRIORITY_LOWEST"
    and v: "tid \<noteq> g_idleTaskID s" "\<not> (cfg_swtmr s \<and> tid = g_swtmrTaskID s)" "OS_TASK_ID_CHECK tid s"
    and f: "\<not> is_unused (status s t)" "\<not> bit (status s t) 12"
  obtains s' L' where "LOS_TaskPriSet tid prio s = Some (LOS_OK, s')" "kinv n s' L'" "ikeep (set_prio t prio s) s'"
    "\<And>u k. k \<noteq> 2 \<Longrightarrow> k \<noteq> 4 \<Longrightarrow> bit (status s' u) k = bit (status s u) k" "\<And>q. plain q \<Longrightarrow> L' q = L q"
    "is_ready (status s t) \<or> is_running (status s t) \<Longrightarrow> g_taskScheduled s \<Longrightarrow> g_losTaskLock s = 0 \<Longrightarrow>
       \<exists>new. runTask s' = Some new \<and> top_of s' new"
    "\<not> (is_ready (status s t) \<or> is_running (status s t)) \<Longrightarrow> runTask s' = runTask s" "xkeep {} s s'"
proof -
  have i: "taskID (tcb s t) \<noteq> g_idleTaskID s" using not_idle [OF I v(1)] by (simp add: t)
  have p': "unat prio < 32" using p by (simp add: word_le_nat_alt)
  let ?rd = "is_ready (status s t) \<or> is_running (status s t)"
  obtain s1 L1 where 1: "OsSchedModifyTaskSchedParam t prio s = Some (?rd, s1)" "kinv (Suc n) s1 L1" "ikeep (set_prio t prio s) s1"
    and Q: "\<And>q. \<not> is_pri q \<Longrightarrow> L1 q = L q" and st: "\<And>u. status s1 u = status s u" and r: "runTask s1 = runTask s"
    by (rule kinv_modify [OF I f(1) i p']) (rule that; assumption)
  have q1: "plain q \<Longrightarrow> L1 q = L q" for q using Q by (simp add: plain_def)
  have X1: "xkeep {} s s1" by (rule xkeep_set_prio [OF 1(3) st r])
  show thesis
  proof (cases ?rd)
    case False
    have O: "LOS_TaskPriSet tid prio s = Some (LOS_OK, s1)"
      using False 1(1) p v f by (auto simp: LOS_TaskPriSet_def t [symmetric] Let_def flag_simps)
    show thesis by (rule that [OF O kinv_later [OF 1(2)] 1(3) _ q1 _ _ X1]) (use st False r in auto)
  next
    case True
    have g: "g_taskScheduled s1 = g_taskScheduled s" "g_losTaskLock s1 = g_losTaskLock s"
      using ikeep_sel [OF 1(3)] by (simp_all add: upd_tcb_def)
    obtain s' L' where 2: "LOS_Schedule s1 = Some s'" "kinv n s' L'" "ikeep s1 s'" "\<forall>q. plain q \<longrightarrow> L' q = L1 q"
      "\<forall>u k. k \<noteq> 2 \<longrightarrow> k \<noteq> 4 \<longrightarrow> bit (status s' u) k = bit (status s1 u) k"
      "g_taskScheduled s1 \<and> g_losTaskLock s1 = 0 \<longrightarrow>
         (\<exists>new. runTask s' = Some new \<and> top_of s' new \<and> \<not> blocked (status s' new))"
      using kinv_schedule [OF 1(2)] by blast
    have O: "LOS_TaskPriSet tid prio s = Some (LOS_OK, s')"
      using True 1(1) p v f 2(1) by (auto simp: LOS_TaskPriSet_def t [symmetric] Let_def flag_simps)
    show thesis
    proof (rule that [OF O 2(2) ikeep_trans [OF 1(3) 2(3)]])
      show "\<And>u k. k \<noteq> 2 \<Longrightarrow> k \<noteq> 4 \<Longrightarrow> bit (status s' u) k = bit (status s u) k" using 2(5) st by simp
      show "\<And>q. plain q \<Longrightarrow> L' q = L q" using 2(4) q1 by simp
      show "xkeep {} s s'" by (rule xkeep_trans [OF X1 schedule_xkeep [OF 1(2) 2(1)]])
    qed (use 2(6) g True in auto)
  qed
qed

lemma task_yield_law:
  assumes I: "kinv (Suc n) s L"
  obtains s' L' where "LOS_TaskYield s = Some (LOS_OK, s')" "kinv n s' L'" "ikeep s s'"
    "\<And>u k. k \<noteq> 2 \<Longrightarrow> k \<noteq> 4 \<Longrightarrow> bit (status s' u) k = bit (status s u) k" "\<And>q. plain q \<Longrightarrow> L' q = L q"
    "g_taskScheduled s \<Longrightarrow> g_losTaskLock s = 0 \<Longrightarrow> \<exists>new. runTask s' = Some new \<and> top_of s' new"
    "xkeep {} s s'"
proof -
  obtain r where r: "runTask s = Some r" using kinv_run [OF I] by blast
  let ?s = "upd_tcb r (\<lambda>c. c\<lparr>timeSlice := 0\<rparr>) s"
  have I1: "kinv (Suc n) ?s L" by (rule kinv_cong [OF I]) (simp_all add: upd_tcb_def ipc_sched_def)
  have K1: "ikeep s ?s" by (cases "tcb s r") (auto simp: ikeep_def upd_tcb_def ipc_core_def)
  have st: "status ?s u = status s u" for u by (simp add: upd_tcb_def)
  obtain s' L' where 2: "LOS_Schedule ?s = Some s'" "kinv n s' L'" "ikeep ?s s'" "\<forall>q. plain q \<longrightarrow> L' q = L q"
    "\<forall>u k. k \<noteq> 2 \<longrightarrow> k \<noteq> 4 \<longrightarrow> bit (status s' u) k = bit (status ?s u) k"
    "g_taskScheduled ?s \<and> g_losTaskLock ?s = 0 \<longrightarrow>
       (\<exists>new. runTask s' = Some new \<and> top_of s' new \<and> \<not> blocked (status s' new))"
    using kinv_schedule [OF I1] by blast
  have O: "LOS_TaskYield s = Some (LOS_OK, s')" using 2(1) r by (simp add: LOS_TaskYield_def OsSchedYield_def)
  have X: "xkeep {} s s'" by (rule xkeep_trans [OF xkeep_upd_tcb schedule_xkeep [OF I1 2(1)]]) simp_all
  show thesis
    by (rule that [OF O 2(2) ikeep_trans [OF K1 2(3)] _ _ _ X])
       (use 2(4-6) st ikeep_sel [OF K1] in auto)
qed

lemma task_unlock_law:
  assumes I: "kinv (Suc n) s L"
  obtains s' L' where "LOS_TaskUnlock s = Some s'" "kinv n s' L'" "ikeep (s\<lparr>g_losTaskLock := g_losTaskLock s'\<rparr>) s'"
    "\<And>u k. k \<noteq> 2 \<Longrightarrow> k \<noteq> 4 \<Longrightarrow> bit (status s' u) k = bit (status s u) k" "\<And>q. plain q \<Longrightarrow> L' q = L q"
    "g_losTaskLock s' = (if g_losTaskLock s > 0 then g_losTaskLock s - 1 else g_losTaskLock s)"
    "g_losTaskLock s = 1 \<Longrightarrow> g_taskScheduled s \<Longrightarrow> \<exists>new. runTask s' = Some new \<and> top_of s' new"
    "g_losTaskLock s \<noteq> 1 \<Longrightarrow> runTask s' = runTask s" "xkeep {} s s'"
proof (cases "g_losTaskLock s = 1")
  case False
  let ?s = "if g_losTaskLock s > 0 then s\<lparr>g_losTaskLock := g_losTaskLock s - 1\<rparr> else s"
  have O: "LOS_TaskUnlock s = Some ?s" using False by (auto simp: LOS_TaskUnlock_def Let_def)
  have I1: "kinv n ?s L" using kinv_later [OF I] by simp
  have X: "xkeep {} s ?s" by (simp add: xkeep_def runs_def)
  show thesis by (rule that [OF O I1 _ _ _ _ _ _ X]) (use False in auto)
next
  case True
  let ?s = "s\<lparr>g_losTaskLock := 0\<rparr>"
  have I1: "kinv (Suc n) ?s L" using I by simp
  obtain s' L' where 2: "LOS_Schedule ?s = Some s'" "kinv n s' L'" "ikeep ?s s'" "\<forall>q. plain q \<longrightarrow> L' q = L q"
    "\<forall>u k. k \<noteq> 2 \<longrightarrow> k \<noteq> 4 \<longrightarrow> bit (status s' u) k = bit (status ?s u) k"
    "g_taskScheduled ?s \<and> g_losTaskLock ?s = 0 \<longrightarrow>
       (\<exists>new. runTask s' = Some new \<and> top_of s' new \<and> \<not> blocked (status s' new))"
    using kinv_schedule [OF I1] by blast
  have O: "LOS_TaskUnlock s = Some s'" using True 2(1) by (simp add: LOS_TaskUnlock_def Let_def)
  have l: "g_losTaskLock s' = 0" using ikeep_sel [OF 2(3)] by simp
  have X: "xkeep {} s s'" by (rule xkeep_trans [OF _ schedule_xkeep [OF I1 2(1)]]) (simp add: xkeep_def runs_def)
  show thesis
    by (rule that [OF O 2(2) _ _ _ _ _ _ X]) (use 2(3-6) True l in auto)
qed

subsection \<open>Joining\<close>

text \<open>The caller waits for a task that runs on; only one task can.\<close>

lemma join_wait_law:
  assumes I: "kinv (Suc n) s L" and v: "OsCheckTaskIDValid tid s = LOS_OK" and t: "t = OS_TCB_FROM_TID tid"
    and run: "runTask s = Some r" "taskID (tcb s r) \<noteq> tid" "\<not> blocked (status s r)" "taskID (tcb s r) \<noteq> g_idleTaskID s"
    and c: "\<not> os_int_active s" "g_losTaskLock s = 0" "g_taskScheduled s"
    and f: "\<not> is_unused (status s t)" "\<not> is_exit (status s t)" "bit (status s t) 15" and q: "L (NJoin t) = Some []"
  obtains s' L' new where "LOS_TaskJoin tid s = Some (Wait t, s')" "kinv n s' L'" "ikeep s s'" "joiner L' t = Some r"
    "is_pend (status s' r)" "\<not> is_pend_time (status s' r)" "runTask s' = Some new" "new \<noteq> r" "top_of s' new"
    "\<And>q. plain q \<Longrightarrow> L' q = (if q = NJoin t then Some [NPend r] else L q)"
proof -
  have w: "wait_head (NJoin t)" by simp
  obtain s1 s' L' where 1: "OsSchedTaskWait (NJoin t) LOS_WAIT_FOREVER s = Some s1" "LOS_Schedule s1 = Some s'" "kinv n s' L'" "ikeep s s'"
    and Q: "\<And>q'. plain q' \<Longrightarrow> L' q' = (if q' = NJoin t then Some ([] @ [NPend r]) else L q')"
    and p: "is_pend (status s' r)" "is_pend_time (status s' r) \<longleftrightarrow> LOS_WAIT_FOREVER \<noteq> LOS_WAIT_FOREVER"
    and new: "\<exists>new. runTask s' = Some new \<and> new \<noteq> r \<and> top_of s' new"
    by (rule ks.block_law [OF I run(1) q w run(3,4) c(3,2)]) (rule that; assumption)
  have e: "k_ListEmpty (NJoin t) s" using list_empty [OF kinv_rep [OF I] q] by simp
  have "LOS_TaskJoin tid s = Some (Wait t, s')"
    using v c f e run(1,2) 1(1,2)
    by (simp add: LOS_TaskJoin_def t [symmetric] OsTaskJoinPendUnsafe_def LOS_CurTaskIDGet_def flag_simps)
  with 1 Q p new show thesis by (auto intro!: that simp: joiner_def plain_def)
qed

text \<open>The rest of the join: the result is handed over, the control block and the stack are free again.\<close>

lemma join_collect_law:
  assumes I: "kinv n s L" and l: "loose L t" and r: "runTask s \<noteq> Some t" and i: "taskID (tcb s t) \<noteq> g_idleTaskID s"
  obtains s' where "LOS_TaskJoin_resume t s = Some ((LOS_OK, joinRetval (tcb s t)), s')"
    "kinv n s' (free_lists t L)" "status s' t = OS_TASK_STATUS_UNUSED" "taskID (tcb s' t) = taskID (tcb s t)"
    "freed s' = (if own_stack (tcb s t) = 0 then freed s else own_stack (tcb s t) # freed s)"
    "\<And>u. u \<noteq> t \<Longrightarrow> tcb s' u = tcb s u" "runTask s' = runTask s"
proof -
  let ?s = "clr_status t OS_TASK_FLAG_JOINABLE s"
  have c: "?s = upd_tcb t (\<lambda>c. c\<lparr>taskStatus := taskStatus c AND NOT OS_TASK_FLAG_JOINABLE\<rparr>) s" by (simp add: los_defs)
  have j: "\<not> bit (status ?s t) 15" by (simp add: flag_simps)
  have os: "own_stack (tcb ?s t) = own_stack (tcb s t)" by (simp add: own_stack_def flag_simps)
  obtain h s1 where 1: "OsInsertTCBToFreeList t s = Some s1"
    "s1 = s\<lparr>dl := h, responseTime := (responseTime s)(NSort t := 0), uwEventID := (uwEventID s)(EvTask t := 0),
      g_taskCBArray := (g_taskCBArray s)(t := free_tcb (tcb s t))\<rparr>" "kinv n s1 (free_lists t L)"
    by (rule insert_free_law [OF I l r i]) (rule that; assumption)
  have "OsInsertTCBToFreeList t ?s = Some s1" unfolding c using insert_free_upd [of _ s t] 1(1) by simp
  then have R: "OsRecycleTaskResources t ?s = Some (own_stack (tcb s t), s1)" using recycle_free [OF j] os by simp
  let ?s2 = "LOS_MemFree (own_stack (tcb s t)) s1"
  have O: "LOS_TaskJoin_resume t s = Some ((LOS_OK, joinRetval (tcb s t)), ?s2)"
    using R by (simp add: LOS_TaskJoin_resume_def)
  have I2: "kinv n ?s2 (free_lists t L)" using 1(3) by (simp add: LOS_MemFree_def)
  show thesis
    by (rule that [OF O I2]) (simp_all add: LOS_MemFree_def 1(2) free_tcb_def)
qed

end
