(* ===== verification/LosSystem.thy ===== *)
theory LosSystem
  imports LosTaskInv LosMux LosSem LosQueue
begin

text \<open>
  The kernel as a system: tasks that call semaphores, mutexes, events, queues and
  task services in any order, blocked calls that go on where they stopped, and
  timer ticks between any two of them.  \<open>step\<close> is one such event; \<open>core_inv\<close> puts
  the invariants of all components together.  The lemmas show that every event
  returns and keeps it.
\<close>

subsection \<open>Calls and their continuations\<close>

text \<open>What a blocked call still has to do when its task runs again.\<close>

datatype cont = KSem nat | KMux nat | KEvent event_wait | KQueue qwait

datatype call =
    SemCreate u16 | BinarySemCreate u16 | SemDelete u32 | SemPend u32 u32 | SemPost u32
  | MuxCreate | MuxDelete u32 | MuxPend u32 u32 | MuxPost u32
  | EventRead evref u32 u32 u32 | EventWrite evref u32 | EventClear evref u32
  | QueueRead u32 u32 u32 u32 | QueueWrite u32 u32 u32 u32 | QueueWriteHead u32 u32 u32 u32
  | TaskDelay u32 | TaskYield | TaskSuspend u32 | TaskResume u32 | TaskPriSet u32 u16 | TaskLock | TaskUnlock

definition ret :: "(u32 \<times> kstate) option \<Rightarrow> (cont res \<times> kstate) option" where
  "ret = map_option (\<lambda>(r, s). (Ret r, s))"

definition cont :: "('k \<Rightarrow> cont) \<Rightarrow> ('k res \<times> kstate) option \<Rightarrow> (cont res \<times> kstate) option" where
  "cont K = map_option (\<lambda>(r, s). (map_res K r, s))"

fun exec :: "call \<Rightarrow> kstate \<Rightarrow> (cont res \<times> kstate) option" where
  "exec (SemCreate n) s = ret (map_option (\<lambda>((r, _), s). (r, s)) (LOS_SemCreate n True s))"
| "exec (BinarySemCreate n) s = ret (map_option (\<lambda>((r, _), s). (r, s)) (LOS_BinarySemCreate n True s))"
| "exec (SemDelete h) s = ret (LOS_SemDelete h s)"
| "exec (SemPend h timeout) s = cont KSem (LOS_SemPend h timeout s)"
| "exec (SemPost h) s = ret (LOS_SemPost h s)"
| "exec MuxCreate s = ret (map_option (\<lambda>((r, _), s). (r, s)) (LOS_MuxCreate True s))"
| "exec (MuxDelete h) s = ret (LOS_MuxDelete h s)"
| "exec (MuxPend h timeout) s = cont KMux (LOS_MuxPend h timeout s)"
| "exec (MuxPost h) s = ret (LOS_MuxPost h s)"
| "exec (EventRead e msk mode timeout) s = cont KEvent (LOS_EventRead (Some e) msk mode timeout s)"
| "exec (EventWrite e v) s = ret (LOS_EventWrite (Some e) v s)"
| "exec (EventClear e m) s = ret (Some (LOS_EventClear (Some e) m s))"
| "exec (QueueRead q a n timeout) s = cont KQueue (map_option (\<lambda>(r, _, s). (r, s)) (LOS_QueueReadCopy q a (Some n) timeout s))"
| "exec (QueueWrite q a n timeout) s = cont KQueue (LOS_QueueWriteCopy q (Buf a) n timeout s)"
| "exec (QueueWriteHead q a n timeout) s = cont KQueue (LOS_QueueWriteHeadCopy q (Buf a) n timeout s)"
| "exec (TaskDelay n) s = ret (LOS_TaskDelay n s)"
| "exec TaskYield s = ret (LOS_TaskYield s)"
| "exec (TaskSuspend tid) s = ret (LOS_TaskSuspend tid s)"
| "exec (TaskResume tid) s = ret (LOS_TaskResume tid s)"
| "exec (TaskPriSet tid p) s = ret (LOS_TaskPriSet tid p s)"
| "exec TaskLock s = Some (Ret LOS_OK, LOS_TaskLock s)"
| "exec TaskUnlock s = map_option (\<lambda>s. (Ret LOS_OK, s)) (LOS_TaskUnlock s)"

fun resume :: "cont \<Rightarrow> kstate \<Rightarrow> (u32 \<times> kstate) option" where
  "resume (KSem t) s = Some (LOS_SemPend_resume t s)"
| "resume (KMux t) s = Some (LOS_MuxPend_resume t s)"
| "resume (KEvent w) s = Some (LOS_EventRead_resume w s)"
| "resume (KQueue w) s = map_option (\<lambda>(r, _, s). (r, s)) (OsQueueOperate_resume w s)"

text \<open>
  How the calls may be used.  The event control blocks are those in \<open>E\<close>, which
  were initialised; a mutex is not locked 65536 times over, which its counter
  cannot hold; a task that has ended is not resumed.
\<close>

fun allowed :: "evref set \<Rightarrow> kstate \<Rightarrow> call \<Rightarrow> bool" where
  "allowed E s (EventRead e _ _ _) = (e \<in> E)"
| "allowed E s (EventWrite e _) = (e \<in> E)"
| "allowed E s (EventClear e _) = (e \<in> E)"
| "allowed E s (MuxPend h _) = (muxCount (mux s (unat h)) \<noteq> 0xFFFF)"
| "allowed E s (TaskResume tid) = (\<not> is_exit (status s (OS_TCB_FROM_TID tid)))"
| "allowed E s _ = True"

text \<open>
  One event of the system.  The state is that of the kernel and, for every task,
  the call it is blocked in.  A running task other than the idle task makes a
  call, or goes on with the call it was blocked in; a tick may come at any time.
\<close>

type_synonym sys = "kstate \<times> (nat \<Rightarrow> cont option)"

inductive step :: "evref set \<Rightarrow> sys \<Rightarrow> sys \<Rightarrow> bool" for E where
  returns: "\<lbrakk> runTask s = Some r; k r = None; taskID (tcb s r) \<noteq> g_idleTaskID s; allowed E s c; exec c s = Some (Ret v, s') \<rbrakk> \<Longrightarrow>
     step E (s, k) (s', k)"
| blocks: "\<lbrakk> runTask s = Some r; k r = None; taskID (tcb s r) \<noteq> g_idleTaskID s; allowed E s c; exec c s = Some (Wait w, s') \<rbrakk> \<Longrightarrow>
     step E (s, k) (s', k(r \<mapsto> w))"
| goes_on: "\<lbrakk> runTask s = Some r; k r = Some w; resume w s = Some (v, s') \<rbrakk> \<Longrightarrow> step E (s, k) (s', k(r := None))"
| ticks: "OsTickHandler None s = Some s' \<Longrightarrow> step E (s, k) (s', k)"

inductive steps :: "evref set \<Rightarrow> nat \<Rightarrow> sys \<Rightarrow> sys \<Rightarrow> bool" for E where
  none: "steps E 0 x x"
| more: "steps E m x y \<Longrightarrow> step E y z \<Longrightarrow> steps E (Suc m) x z"

inductive_cases stepE: "step E x y"

subsection \<open>The invariant of the whole\<close>

text \<open>The ids are the positions in the array, and no task lies outside it.\<close>

definition ids_ok :: "kstate \<Rightarrow> bool" where
  "ids_ok s \<longleftrightarrow> (\<forall>t. (t < unat (g_taskMaxNum s) \<longrightarrow> taskID (tcb s t) = of_nat t) \<and>
     (unat (g_taskMaxNum s) \<le> t \<longrightarrow> is_unused (status s t)))"

definition core_inv :: "evref set \<Rightarrow> nat \<Rightarrow> kstate \<Rightarrow> (node \<Rightarrow> node list option) \<Rightarrow> bool" where
  "core_inv E n s L \<longleftrightarrow> kinv n s L \<and> sem_inv s L \<and> mux_inv s L \<and> queue_inv s L \<and>
     (\<forall>e. event_inv e s L) \<and> (\<forall>e \<in> E. L (NEvent e) \<noteq> None) \<and> ids_ok s \<and> runs s \<and>
     g_taskScheduled s \<and> \<not> pmMode s \<and> \<not> os_int_active s"

text \<open>A task blocked in a queue operation is blocked in a queue that exists.\<close>

definition cont_ok :: "kstate \<Rightarrow> cont \<Rightarrow> bool" where
  "cont_ok s w \<longleftrightarrow> (case w of KQueue q \<Rightarrow> qw_queue q < LOSCFG_BASE_IPC_QUEUE_LIMIT \<and>
     queueState (que s (qw_queue q)) \<noteq> OS_QUEUE_UNUSED | _ \<Rightarrow> True)"

definition sys_inv :: "evref set \<Rightarrow> nat \<Rightarrow> sys \<Rightarrow> (node \<Rightarrow> node list option) \<Rightarrow> bool" where
  "sys_inv E n x L \<longleftrightarrow> core_inv E n (fst x) L \<and> (\<forall>t w. snd x t = Some w \<longrightarrow> cont_ok (fst x) w)"

subsection \<open>What one component leaves of the others\<close>

fun comp_of :: "node \<Rightarrow> comp option" where
  "comp_of (NSem i) = Some Sem_pool"
| "comp_of NUnusedSem = Some Sem_pool"
| "comp_of (NMux i) = Some Mux_pool"
| "comp_of NUnusedMux = Some Mux_pool"
| "comp_of (NQRead i) = Some Queue_pool"
| "comp_of (NQWrite i) = Some Queue_pool"
| "comp_of (NQMem i) = Some Queue_pool"
| "comp_of NFreeQueue = Some Queue_pool"
| "comp_of (NEvent e) = Some Event_pool"
| "comp_of _ = None"

definition lists_keep :: "comp set \<Rightarrow> (node \<Rightarrow> node list option) \<Rightarrow> (node \<Rightarrow> node list option) \<Rightarrow> bool" where
  "lists_keep A L L' \<longleftrightarrow> (\<forall>q c. comp_of q = Some c \<longrightarrow> c \<notin> A \<longrightarrow> L' q = L q)"

lemma comp_plain: "comp_of q = Some c \<Longrightarrow> plain q"
  by (cases q) (auto simp: plain_def)

lemma lists_keep_plain: "(\<And>q. plain q \<Longrightarrow> comp_of q \<noteq> Some c \<Longrightarrow> L' q = L q) \<Longrightarrow> lists_keep {c} L L'"
  unfolding lists_keep_def using comp_plain by fastforce

lemma lists_keep_all: "(\<And>q. plain q \<Longrightarrow> L' q = L q) \<Longrightarrow> lists_keep A L L'"
  by (auto simp: lists_keep_def dest: comp_plain)

lemma mux_keep:
  assumes "mux_inv s L" "g_allMux s' = g_allMux s" "\<And>i. L' (NMux i) = L (NMux i)" "L' NUnusedMux = L NUnusedMux"
    and "\<And>t. alive s' t = alive s t"
  shows "mux_inv s' L'"
proof -
  have "alive s' = alive s" using assms(5) by (rule ext)
  with assms(1-4) show ?thesis by (simp add: mux_inv_def mux_ok_def mem_def cong: option.case_cong)
qed

text \<open>Reader and memory lists are never members, so being free is a matter of their own list alone.\<close>

lemma fresh_iff:
  assumes "kinv n s L" "x = NQRead i \<or> x = NQMem i"
  shows "fresh L x \<longleftrightarrow> L x = None \<or> L x = Some []"
proof -
  have "\<not> mem L q x" for q using kinv_holds [OF assms(1), of q x] assms(2) by auto
  then have "x \<in> covered L \<longleftrightarrow> L x \<noteq> None" by (auto simp: covered_def mem_def)
  then show ?thesis by (auto simp: fresh_def)
qed

lemma queue_keep:
  assumes "queue_inv s L" "kinv n s L" "kinv m s' L'" "\<And>i. queueID (que s' i) = queueID (que s i)"
    "\<And>i. queueState (que s' i) = queueState (que s i)" "L' NFreeQueue = L NFreeQueue"
    "\<And>i. queueState (que s i) = OS_QUEUE_UNUSED \<Longrightarrow> L' (NQRead i) = L (NQRead i) \<and> L' (NQMem i) = L (NQMem i)"
    "\<And>i. (L' (NQRead i) = None) = (L (NQRead i) = None)" "\<And>i. (L' (NQWrite i) = None) = (L (NQWrite i) = None)"
    "\<And>i. (L' (NQMem i) = None) = (L (NQMem i) = None)"
  shows "queue_inv s' L'"
proof -
  have "fresh L' (NQRead i) = fresh L (NQRead i)" "fresh L' (NQMem i) = fresh L (NQMem i)"
    if "queueState (que s i) = OS_QUEUE_UNUSED" for i
    using fresh_iff [OF assms(2)] fresh_iff [OF assms(3)] assms(7) [OF that] by simp_all
  with assms(1,4-6,8-10) show ?thesis by (simp add: queue_inv_def queue_ok_def mem_def)
qed

lemma event_keep:
  assumes "event_inv e s L" "uwEventID s' e = uwEventID s e" "L' (NEvent e) = L (NEvent e)"
    "\<And>t. mem L (NEvent e) (NPend t) \<Longrightarrow> eventMask (tcb s' t) = eventMask (tcb s t) \<and> eventMode (tcb s' t) = eventMode (tcb s t)"
  shows "event_inv e s' L'"
  using assms by (simp add: event_inv_def mem_def)

lemma core_keep:
  assumes C: "core_inv E m s L" and I: "kinv n s' L'" and X: "xkeep A s s'" and Q: "lists_keep A L L'"
    and S: "Sem_pool \<in> A \<Longrightarrow> sem_inv s' L'" and M: "Mux_pool \<in> A \<Longrightarrow> mux_inv s' L'"
    and K: "Queue_pool \<in> A \<Longrightarrow> queue_inv s' L'"
    and V: "Event_pool \<in> A \<Longrightarrow> (\<forall>e. event_inv e s' L') \<and> (\<forall>e \<in> E. L' (NEvent e) \<noteq> None)"
  shows "core_inv E n s' L'"
proof -
  have c: "kinv m s L" "sem_inv s L" "mux_inv s L" "queue_inv s L" "\<And>e. event_inv e s L" "ids_ok s" "runs s"
    "g_taskScheduled s" "\<not> pmMode s" "\<not> os_int_active s" "\<forall>e \<in> E. L (NEvent e) \<noteq> None"
    using C by (simp_all add: core_inv_def)
  have q: "comp_of p = Some k \<Longrightarrow> k \<notin> A \<Longrightarrow> L' p = L p" for p k using Q by (simp add: lists_keep_def)
  have "alive s' t = alive s t" for t using X by (simp add: alive_def xkeep_def)
  then have "mux_inv s' L'" using M mux_keep [OF c(3), of s' L'] X q by (cases "Mux_pool \<in> A") (simp_all add: xkeep_def)
  moreover have "sem_inv s' L'" using S sem_inv_lists [OF c(2), of s' L'] X q by (cases "Sem_pool \<in> A") (simp_all add: xkeep_def)
  moreover have "queue_inv s' L'"
    using K queue_keep [OF c(4,1) I] X q by (cases "Queue_pool \<in> A") (simp_all add: xkeep_def)
  moreover have "(\<forall>e. event_inv e s' L') \<and> (\<forall>e \<in> E. L' (NEvent e) \<noteq> None)"
    using V event_keep [OF c(5), of s' _ L'] X q c(11) by (cases "Event_pool \<in> A") (simp_all add: xkeep_def)
  moreover have "ids_ok s'" "runs s'" "g_taskScheduled s'" "\<not> pmMode s'" "\<not> os_int_active s'"
    using X c by (simp_all add: xkeep_def ids_ok_def)
  ultimately show ?thesis using I by (simp add: core_inv_def)
qed

lemma core_D:
  assumes "core_inv E n s L"
  shows "kinv n s L" "sem_inv s L" "mux_inv s L" "queue_inv s L" "event_inv e s L" "e \<in> E \<Longrightarrow> L (NEvent e) \<noteq> None"
    "ids_ok s" "runs s" "g_taskScheduled s" "\<not> pmMode s" "\<not> os_int_active s"
  using assms by (simp_all add: core_inv_def)

lemma core_later: "core_inv E (Suc n) s L \<Longrightarrow> core_inv E n s L"
  using kinv_later by (simp add: core_inv_def)

subsection \<open>Every call returns and keeps the invariant\<close>

definition served :: "evref set \<Rightarrow> nat \<Rightarrow> kstate \<Rightarrow> kstate \<Rightarrow> bool" where
  "served E n s s' \<longleftrightarrow> (\<exists>L'. core_inv E n s' L') \<and> (\<forall>i. queueState (que s' i) = queueState (que s i))"

lemma served_same: "core_inv E (Suc n) s L \<Longrightarrow> served E n s s"
  using core_later unfolding served_def by blast

lemma served_keep:
  assumes C: "core_inv E m s L" and I: "kinv n s' L'" and X: "xkeep A s s'" and Q: "lists_keep A L L'"
    and S: "Sem_pool \<in> A \<Longrightarrow> sem_inv s' L'" and M: "Mux_pool \<in> A \<Longrightarrow> mux_inv s' L'" and K: "Queue_pool \<notin> A"
    and V: "Event_pool \<in> A \<Longrightarrow> (\<forall>e. event_inv e s' L') \<and> (\<forall>e \<in> E. L' (NEvent e) \<noteq> None)"
  shows "served E n s s'"
proof -
  have "core_inv E n s' L'" by (rule core_keep [OF C I X Q S M _ V]) (use K in blast)+
  moreover have "que s' = que s" using X K by (simp add: xkeep_def)
  ultimately show ?thesis by (auto simp: served_def)
qed

lemma core_run: "core_inv E n s L \<Longrightarrow> runTask s = Some r \<Longrightarrow> \<not> blocked (status s r)"
  by (auto simp: core_inv_def runs_def)

lemma os_sem_create_served:
  assumes C: "core_inv E (Suc n) s L"
  shows "\<exists>v s'. OsSemCreate m mx True s = Some (v, s') \<and> served E n s s'"
proof -
  note D = core_D [OF C]
  obtain us where us: "L NUnusedSem = Some us" using D(2) by (auto simp: sem_inv_def)
  show ?thesis
  proof (cases "us = [] \<or> mx < m")
    case True
    then show ?thesis
      using served_same [OF C] list_empty [OF kinv_rep [OF D(1)] us]
      by (auto simp: OsSemCreate_def)
  next
    case False
    then obtain x us' where u: "L NUnusedSem = Some (x # us')" "m \<le> mx" using us by (cases us) auto
    obtain i where i: "x = NSem i" by (rule sem_pool.first_is_node [OF D(1) u(1)])
    obtain s' where 1: "OsSemCreate m mx True s = Some ((LOS_OK, Some (of_nat i)), s')"
      "kinv (Suc n) s' (L(NUnusedSem \<mapsto> us', NSem i \<mapsto> []))" "sem_inv s' (L(NUnusedSem \<mapsto> us', NSem i \<mapsto> []))"
      "xkeep {Sem_pool} s s'"
      by (rule sem_create_law [OF D(1,2) u(1) [unfolded i] u(2)]) (rule that; assumption)
    have "served E n s s'"
      by (rule served_keep [OF C kinv_later [OF 1(2)] 1(4)]) (use 1(3) in \<open>auto simp: lists_keep_def\<close>)
    then show ?thesis using 1(1) by auto
  qed
qed

lemma sem_create_served:
  assumes C: "core_inv E (Suc n) s L"
  shows "\<exists>v s'. LOS_SemCreate m True s = Some (v, s') \<and> served E n s s'"
    "\<exists>v s'. LOS_BinarySemCreate m True s = Some (v, s') \<and> served E n s s'"
  using os_sem_create_served [OF C] by (simp_all add: LOS_SemCreate_def LOS_BinarySemCreate_def)

lemma sem_delete_served:
  assumes C: "core_inv E (Suc n) s L"
  shows "\<exists>v s'. LOS_SemDelete h s = Some (v, s') \<and> served E n s s'"
proof (cases "unat h < LOSCFG_BASE_IPC_SEM_LIMIT \<and> semStat (sem s (unat h)) \<noteq> OS_SEM_UNUSED")
  case False
  then show ?thesis using served_same [OF C] by (auto simp: LOS_SemDelete_def Let_def)
next
  case True
  note D = core_D [OF C]
  obtain us where us: "L NUnusedSem = Some us" using D(2) by (auto simp: sem_inv_def)
  obtain xs where xs: "L (NSem (unat h)) = Some xs" using sem_inv_D(4) [OF D(2)] True by blast
  show ?thesis
  proof (cases "xs = []")
    case False
    then show ?thesis
      using True served_same [OF C] list_empty [OF kinv_rep [OF D(1)] xs] by (auto simp: LOS_SemDelete_def Let_def)
  next
    case e: True
    have t: "unat h < LOSCFG_BASE_IPC_SEM_LIMIT" "semStat (sem s (unat h)) \<noteq> OS_SEM_UNUSED" "L (NSem (unat h)) = Some []"
      using True xs e by simp_all
    obtain s' where 1: "LOS_SemDelete h s = Some (LOS_OK, s')"
      "kinv (Suc n) s' (L(NSem (unat h) := None, NUnusedSem \<mapsto> NSem (unat h) # us))"
      "sem_inv s' (L(NSem (unat h) := None, NUnusedSem \<mapsto> NSem (unat h) # us))" "xkeep {Sem_pool} s s'"
      by (rule sem_delete_law [OF D(1,2) t us]) (rule that; assumption)
    have "served E n s s'"
      by (rule served_keep [OF C kinv_later [OF 1(2)] 1(4)]) (use 1(3) in \<open>auto simp: lists_keep_def\<close>)
    then show ?thesis using 1(1) by blast
  qed
qed

lemma sem_pend_served:
  assumes C: "core_inv E (Suc n) s L" and r: "runTask s = Some r" "taskID (tcb s r) \<noteq> g_idleTaskID s"
  shows "\<exists>v s'. LOS_SemPend h timeout s = Some (v, s') \<and> served E n s s'"
proof (cases "unat h < LOSCFG_BASE_IPC_SEM_LIMIT \<and> OsSemValidCheck (unat h) s = Some LOS_OK")
  case False
  then show ?thesis
    using served_same [OF C] r by (auto simp: LOS_SemPend_def Let_def OsSemValidCheck_def split: if_splits)
next
  case True
  note D = core_D [OF C]
  have t: "unat h < LOSCFG_BASE_IPC_SEM_LIMIT" "OsSemValidCheck (unat h) s = Some LOS_OK" using True by simp_all
  obtain s' L' where 1: "LOS_SemPend h timeout s = Some (fst (sem_pend_spec r timeout (sem_abs s L (unat h))), s')"
    "kinv n s' L'" "sem_inv s' L'" "xkeep {Sem_pool} s s'"
    and Q: "\<And>q. plain q \<Longrightarrow> q \<noteq> NSem (unat h) \<Longrightarrow> L' q = L q"
    by (rule sem_pend_law [OF D(1,2) t r(1) core_run [OF C r(1)] r(2) D(9)]) (rule that; assumption)
  have "lists_keep {Sem_pool} L L'" by (rule lists_keep_plain) (rule Q; auto)
  from served_keep [OF C 1(2,4) this] 1 show ?thesis by auto
qed

lemma sem_post_served:
  assumes C: "core_inv E (Suc n) s L"
  shows "\<exists>v s'. LOS_SemPost h s = Some (v, s') \<and> served E n s s'"
proof (cases "unat h < LOSCFG_BASE_IPC_SEM_LIMIT \<and> semStat (sem s (unat h)) \<noteq> OS_SEM_UNUSED")
  case False
  then show ?thesis using served_same [OF C] by (auto simp: LOS_SemPost_def Let_def)
next
  case True
  note D = core_D [OF C]
  have t: "unat h < LOSCFG_BASE_IPC_SEM_LIMIT" "semStat (sem s (unat h)) \<noteq> OS_SEM_UNUSED" using True by simp_all
  obtain s' L' where 1: "LOS_SemPost h s = Some (fst (sem_post_spec (sem_abs s L (unat h))), s')"
    "kinv n s' L'" "sem_inv s' L'" "xkeep {Sem_pool} s s'"
    and Q: "\<And>q. plain q \<Longrightarrow> q \<noteq> NSem (unat h) \<Longrightarrow> L' q = L q"
    by (rule sem_post_law [OF D(1,2) t]) (rule that; assumption)
  have "lists_keep {Sem_pool} L L'" by (rule lists_keep_plain) (rule Q; auto)
  from served_keep [OF C 1(2,4) this] 1 show ?thesis by auto
qed

lemma mux_create_served:
  assumes C: "core_inv E (Suc n) s L"
  shows "\<exists>v s'. LOS_MuxCreate True s = Some (v, s') \<and> served E n s s'"
proof -
  note D = core_D [OF C]
  obtain us where us: "L NUnusedMux = Some us" using D(3) by (auto simp: mux_inv_def)
  show ?thesis
  proof (cases us)
    case Nil
    then show ?thesis
      using served_same [OF C] list_empty [OF kinv_rep [OF D(1)] us] by (auto simp: LOS_MuxCreate_def)
  next
    case (Cons x us')
    then have u: "L NUnusedMux = Some (x # us')" using us by simp
    obtain i where i: "x = NMux i" by (rule mux_pool.first_is_node [OF D(1) u])
    obtain s' where 1: "LOS_MuxCreate True s = Some ((LOS_OK, Some (of_nat i)), s')"
      "kinv (Suc n) s' (L(NUnusedMux \<mapsto> us', NMux i \<mapsto> []))" "mux_inv s' (L(NUnusedMux \<mapsto> us', NMux i \<mapsto> []))"
      "xkeep {Mux_pool} s s'"
      by (rule mux_create_law [OF D(1,3) u [unfolded i]]) (rule that; assumption)
    have "served E n s s'"
      by (rule served_keep [OF C kinv_later [OF 1(2)] 1(4)]) (use 1(3) in \<open>auto simp: lists_keep_def\<close>)
    then show ?thesis using 1(1) by auto
  qed
qed

lemma mux_delete_served:
  assumes C: "core_inv E (Suc n) s L"
  shows "\<exists>v s'. LOS_MuxDelete h s = Some (v, s') \<and> served E n s s'"
proof (cases "unat h < LOSCFG_BASE_IPC_MUX_LIMIT \<and> muxStat (mux s (unat h)) \<noteq> OS_MUX_UNUSED \<and> muxCount (mux s (unat h)) = 0")
  case False
  then show ?thesis using served_same [OF C] by (auto simp: LOS_MuxDelete_def Let_def)
next
  case True
  note D = core_D [OF C]
  obtain us where us: "L NUnusedMux = Some us" using D(3) by (auto simp: mux_inv_def)
  have t: "unat h < LOSCFG_BASE_IPC_MUX_LIMIT" "muxStat (mux s (unat h)) \<noteq> OS_MUX_UNUSED" "owner (mux s (unat h)) = None"
    using True mux_inv_D(4) [OF D(3)] by simp_all
  obtain s' where 1: "LOS_MuxDelete h s = Some (LOS_OK, s')"
    "kinv (Suc n) s' (L(NMux (unat h) := None, NUnusedMux \<mapsto> NMux (unat h) # us))"
    "mux_inv s' (L(NMux (unat h) := None, NUnusedMux \<mapsto> NMux (unat h) # us))" "xkeep {Mux_pool} s s'"
    by (rule mux_delete_law [OF D(1,3) t us]) (rule that; assumption)
  have "served E n s s'"
    by (rule served_keep [OF C kinv_later [OF 1(2)] 1(4)]) (use 1(3) in \<open>auto simp: lists_keep_def\<close>)
  then show ?thesis using 1(1) by blast
qed

lemma mux_pend_served:
  assumes C: "core_inv E (Suc n) s L" and r: "runTask s = Some r" "taskID (tcb s r) \<noteq> g_idleTaskID s"
    and room: "muxCount (mux s (unat h)) \<noteq> 0xFFFF"
  shows "\<exists>v s'. LOS_MuxPend h timeout s = Some (v, s') \<and> served E n s s'"
proof (cases "unat h < LOSCFG_BASE_IPC_MUX_LIMIT \<and> OsMuxValidCheck (unat h) s = Some LOS_OK")
  case False
  then show ?thesis
    using served_same [OF C] r by (auto simp: LOS_MuxPend_def Let_def OsMuxValidCheck_def split: if_splits)
next
  case True
  note D = core_D [OF C]
  have t: "unat h < LOSCFG_BASE_IPC_MUX_LIMIT" "OsMuxValidCheck (unat h) s = Some LOS_OK" using True by simp_all
  have "unat (muxCount (mux s (unat h))) \<noteq> 65535" using room by (simp add: word_unat_eq_iff)
  moreover have "unat (muxCount (mux s (unat h))) < 65536" using unsigned_less [of "muxCount (mux s (unat h))"] by simp
  ultimately have c: "unat (muxCount (mux s (unat h))) < 65535" by linarith
  obtain s' L' where 1: "LOS_MuxPend h timeout s = Some (fst (mux_pend_spec r timeout (mux_abs s L (unat h))), s')"
    "kinv n s' L'" "mux_inv s' L'" "xkeep {Mux_pool} s s'"
    and Q: "\<And>q. plain q \<Longrightarrow> q \<noteq> NMux (unat h) \<Longrightarrow> L' q = L q"
    by (rule mux_pend_law [OF D(1,3) t r(1) core_run [OF C r(1)] r(2) D(9) c]) (rule that; assumption)
  have "lists_keep {Mux_pool} L L'" by (rule lists_keep_plain) (rule Q; auto)
  from served_keep [OF C 1(2,4) this] 1 show ?thesis by auto
qed

lemma mux_post_served:
  assumes C: "core_inv E (Suc n) s L" and r: "runTask s = Some r"
  shows "\<exists>v s'. LOS_MuxPost h s = Some (v, s') \<and> served E n s s'"
proof (cases "unat h < LOSCFG_BASE_IPC_MUX_LIMIT \<and> muxStat (mux s (unat h)) \<noteq> OS_MUX_UNUSED")
  case False
  then show ?thesis using served_same [OF C] by (auto simp: LOS_MuxPost_def Let_def)
next
  case True
  note D = core_D [OF C]
  have t: "unat h < LOSCFG_BASE_IPC_MUX_LIMIT" "muxStat (mux s (unat h)) \<noteq> OS_MUX_UNUSED" using True by simp_all
  obtain s' L' where 1: "LOS_MuxPost h s = Some (fst (mux_post_spec r (mux_abs s L (unat h))), s')"
    "kinv n s' L'" "mux_inv s' L'" "xkeep {Mux_pool} s s'"
    and Q: "\<And>q. plain q \<Longrightarrow> q \<noteq> NMux (unat h) \<Longrightarrow> L' q = L q"
    by (rule mux_post_law [OF D(1,3) t D(11) r]) (rule that; assumption)
  have "lists_keep {Mux_pool} L L'" by (rule lists_keep_plain) (rule Q; auto)
  from served_keep [OF C 1(2,4) this] 1 show ?thesis by auto
qed

lemma event_write_served:
  assumes C: "core_inv E (Suc n) s L" and e: "e \<in> E"
  shows "\<exists>v s'. LOS_EventWrite (Some e) v0 s = Some (v, s') \<and> served E n s s'"
proof (cases "v0 AND LOS_ERRTYPE_ERROR = 0")
  case False
  then show ?thesis using served_same [OF C] by (auto simp: LOS_EventWrite_def)
next
  case True
  note D = core_D [OF C]
  obtain xs where xs: "L (NEvent e) = Some xs" using D(6) [OF e] by blast
  obtain s' L' where 1: "LOS_EventWrite (Some e) v0 s = Some (LOS_OK, s')" "kinv n s' L'" "event_inv e s' L'"
    "xkeep {Event_pool} s s'" and Q: "\<And>q. plain q \<Longrightarrow> q \<noteq> NEvent e \<Longrightarrow> L' q = L q" and n: "L' (NEvent e) \<noteq> None"
    and K: "ikeep (set_event e (uwEventID s e OR v0) s) s'"
    by (rule event_write_inv [OF D(1) xs True D(5)]) (rule that; assumption)
  have L: "lists_keep {Event_pool} L L'" by (rule lists_keep_plain) (rule Q; auto)
  have "event_inv e' s' L'" for e'
  proof (cases "e' = e")
    case False
    show ?thesis
      by (rule event_keep [OF D(5)])
        (use False Q [of "NEvent e'"] ikeep_sel(4) [OF K] ikeep_tcb_sel(4,5) [OF K] in \<open>simp_all add: set_event_def plain_def\<close>)
  qed (use 1(3) in simp)
  moreover have "L' (NEvent e') \<noteq> None" if "e' \<in> E" for e'
    using n D(6) [OF that] Q [of "NEvent e'"] by (cases "e' = e") (simp_all add: plain_def)
  ultimately have "served E n s s'" by (intro served_keep [OF C 1(2,4) L]) simp_all
  with 1(1) show ?thesis by blast
qed

lemma event_set_less_served:
  assumes C: "core_inv E (Suc n) s L"
  shows "served E n s (set_event e (uwEventID s e AND m) s)"
proof (rule served_keep [OF C, of _ _ L "{Event_pool}"])
  note D = core_D [OF C]
  have "event_inv e' (set_event e (uwEventID s e AND m) s) L" for e'
  proof (cases "e' = e")
    case True
    then show ?thesis using event_inv_less [OF D(5)] by simp
  next
    case False
    show ?thesis by (rule event_keep [OF D(5)]) (use False in \<open>simp_all add: set_event_def\<close>)
  qed
  then show "(\<forall>e'. event_inv e' (set_event e (uwEventID s e AND m) s) L) \<and> (\<forall>e' \<in> E. L (NEvent e') \<noteq> None)"
    using D(6) by blast
  show "kinv n (set_event e (uwEventID s e AND m) s) L" using kinv_later [OF D(1)] by simp
  show "xkeep {Event_pool} s (set_event e (uwEventID s e AND m) s)" by (simp add: xkeep_def set_event_def runs_def)
qed (simp_all add: lists_keep_def)

lemma event_poll_served:
  assumes C: "core_inv E (Suc n) s L"
  shows "served E n s (snd (event_poll e msk mode s))"
  using event_set_less_served [OF C] served_same [OF C] by (simp add: event_poll_state)

lemma event_read_served:
  assumes C: "core_inv E (Suc n) s L" and r: "runTask s = Some r" "taskID (tcb s r) \<noteq> g_idleTaskID s" and e: "e \<in> E"
  shows "\<exists>v s'. LOS_EventRead (Some e) msk mode timeout s = Some (v, s') \<and> served E n s s'"
proof (cases "OsEventReadParamCheck (Some e) msk mode s = LOS_OK \<and> status s r AND OS_TASK_FLAG_SYSTEM_TASK = 0")
  case False
  then show ?thesis using served_same [OF C] r core_D(11) [OF C] by (auto simp: LOS_EventRead_def Let_def)
next
  case True
  note D = core_D [OF C]
  have c: "OsEventReadParamCheck (Some e) msk mode s = LOS_OK" "status s r AND OS_TASK_FLAG_SYSTEM_TASK = 0" using True by simp_all
  obtain xs where xs: "L (NEvent e) = Some xs" using D(6) [OF e] by blast
  consider (now) "event_holds (uwEventID s e) msk mode" | (refuse) "\<not> event_holds (uwEventID s e) msk mode" "timeout = 0 \<or> g_losTaskLock s \<noteq> 0"
    | (sleep) "\<not> event_holds (uwEventID s e) msk mode" "timeout \<noteq> 0" "g_losTaskLock s = 0" by blast
  then show ?thesis
  proof cases
    case now
    show ?thesis using event_read_now(1) [OF D(1,5) c(1) D(11) r(1) c(2) now] event_poll_served [OF C] by blast
  next
    case refuse
    then show ?thesis using c r D(11) served_same [OF C] by (auto simp: LOS_EventRead_def event_poll_state Let_def)
  next
    case sleep
    obtain s' L' where 1: "LOS_EventRead (Some e) msk mode timeout s = Some (Wait (e, msk, mode, r), s')"
      "kinv n s' L'" "event_inv e s' L'" "L' (NEvent e) = Some (xs @ [NPend r])"
      "uwEventID s' = uwEventID s" "xkeep {Event_pool} s s'"
      and Q: "\<And>q. plain q \<Longrightarrow> q \<noteq> NEvent e \<Longrightarrow> L' q = L q"
      and m: "\<And>u. u \<noteq> r \<Longrightarrow> eventMask (tcb s' u) = eventMask (tcb s u) \<and> eventMode (tcb s' u) = eventMode (tcb s u)"
      by (rule event_read_sleeps [OF D(1,5) xs c(1) D(11) r(1) c(2) core_run [OF C r(1)] r(2) D(9) sleep(3,1,2)])
        (rule that; assumption)
    have L: "lists_keep {Event_pool} L L'" by (rule lists_keep_plain) (rule Q; auto)
    have np: "\<not> mem L (NEvent e') (NPend r)" for e'
      using inv_wait_member [OF kinv_shape(5) [OF D(1)], of "NEvent e'" r] core_run [OF C r(1)] by (auto simp: blocked_def)
    have "event_inv e' s' L'" for e'
    proof (cases "e' = e")
      case False
      show ?thesis
      proof (rule event_keep [OF D(5)])
        show "eventMask (tcb s' t) = eventMask (tcb s t) \<and> eventMode (tcb s' t) = eventMode (tcb s t)" if "mem L (NEvent e') (NPend t)" for t
          using m [of t] np [of e'] that by auto
      qed (use False Q [of "NEvent e'"] 1(5) in \<open>simp_all add: plain_def\<close>)
    qed (use 1(3) in simp)
    moreover have "L' (NEvent e') \<noteq> None" if "e' \<in> E" for e'
      using 1(4) D(6) [OF that] Q [of "NEvent e'"] by (cases "e' = e") (simp_all add: plain_def)
    ultimately have "served E n s s'" by (intro served_keep [OF C 1(2,6) L]) simp_all
    with 1(1) show ?thesis by blast
  qed
qed

lemma served_queue:
  assumes C: "core_inv E m s L" and I: "kinv n s' L'" and X: "xkeep {Queue_pool} s s'"
    and id: "\<And>i. queueID (que s' i) = queueID (que s i)" "\<And>i. queueState (que s' i) = queueState (que s i)"
    and Q: "\<And>q. plain q \<Longrightarrow> q \<noteq> x \<Longrightarrow> L' q = L q" and x: "x = rw_list d i" "queueState (que s i) \<noteq> OS_QUEUE_UNUSED"
      "L x \<noteq> None" "L' x \<noteq> None"
  shows "core_inv E n s' L'" "served E n s s'"
proof -
  note D = core_D [OF C]
  have pl: "plain (NQRead j)" "plain (NQWrite j)" "plain (NQMem j)" "plain NFreeQueue" for j by (simp_all add: plain_def)
  have x': "x = NQWrite i \<or> x = NQRead i" using x(1) by (simp add: rw_list_def split: if_splits)
  have q: "queue_inv s' L'"
  proof (rule queue_keep [OF D(4,1) I id])
    show "L' NFreeQueue = L NFreeQueue" using Q [OF pl(4)] x' by auto
    show "L' (NQRead j) = L (NQRead j) \<and> L' (NQMem j) = L (NQMem j)" if "queueState (que s j) = OS_QUEUE_UNUSED" for j
      using Q [OF pl(1), of j] Q [OF pl(3), of j] x' x(2) that by auto
    show "(L' (NQRead j) = None) = (L (NQRead j) = None)" "(L' (NQWrite j) = None) = (L (NQWrite j) = None)"
      "(L' (NQMem j) = None) = (L (NQMem j) = None)" for j
      using Q [OF pl(1), of j] Q [OF pl(2), of j] Q [OF pl(3), of j] x(3,4) x' by (metis, metis, metis node.distinct)
  qed
  have l: "lists_keep {Queue_pool} L L'" by (rule lists_keep_plain) (rule Q; use x' in auto)
  show c: "core_inv E n s' L'" by (rule core_keep [OF C I X l]) (use q in simp_all)
  show "served E n s s'" using c id(2) by (auto simp: served_def)
qed

lemma queue_lists:
  assumes "core_inv E n s L" "i < LOSCFG_BASE_IPC_QUEUE_LIMIT" "queueState (que s i) \<noteq> OS_QUEUE_UNUSED"
  obtains xs where "L (rw_list d i) = Some xs"
proof -
  have "queue_ok s L i" using core_D(4) [OF assms(1)] assms(2) by (simp add: queue_inv_def)
  then have "L (rw_list d i) \<noteq> None" using assms(3) by (cases d) (simp_all add: queue_ok_def rw_list_def)
  then show thesis using that by blast
qed

text \<open>Filling or emptying a node moves the head or the tail, whatever the caller's buffer is.\<close>

lemma buffer_operate_state:
  obtains k c m where "OsQueueBufferOperate i ty b n0 s = (k, s\<lparr>g_allQueue := (g_allQueue s)(i := c), byteMem := m\<rparr>)"
    "queueID c = queueID (que s i)" "queueState c = queueState (que s i)"
proof (cases "queue_position ty (que s i)")
  case None
  show thesis by (rule that [where k = n0 and c = "que s i" and m = "byteMem s"]) (simp_all add: OsQueueBufferOperate_def None)
next
  case (Some x)
  obtain pos c where x: "x = (pos, c)" by (cases x)
  have "queueID c = queueID (que s i) \<and> queueState c = queueState (que s i)"
    using Some x by (auto simp: queue_position_def Let_def split: if_splits)
  moreover have "\<exists>k m. OsQueueBufferOperate i ty b n0 s = (k, s\<lparr>g_allQueue := (g_allQueue s)(i := c), byteMem := m\<rparr>)"
    using Some x by (auto simp: OsQueueBufferOperate_def Let_def split: prod.splits)
  ultimately show thesis using that by blast
qed

lemma queue_transfer_served:
  assumes C: "core_inv E (Suc n) s L" and i: "i < LOSCFG_BASE_IPC_QUEUE_LIMIT" and u: "queueState (que s i) \<noteq> OS_QUEUE_UNUSED"
  shows "\<exists>v k s'. queue_transfer i ty b n0 s = Some (v, k, s') \<and> served E n s s'"
proof -
  note D = core_D [OF C]
  let ?d = "\<not> OS_QUEUE_IS_WRITE ty"
  obtain xs where xs: "L (rw_list ?d i) = Some xs" by (rule queue_lists [OF C i u])
  obtain k c m where O: "OsQueueBufferOperate i ty b n0 s = (k, s\<lparr>g_allQueue := (g_allQueue s)(i := c), byteMem := m\<rparr>)"
    "queueID c = queueID (que s i)" "queueState c = queueState (que s i)"
    by (rule buffer_operate_state)
  let ?s = "s\<lparr>g_allQueue := (g_allQueue s)(i := c), byteMem := m\<rparr>"
  have I1: "kinv (Suc n) ?s L" using D(1) by simp
  have X1: "xkeep {Queue_pool} s ?s" by (simp add: xkeep_def runs_def)
  have dd: "OS_QUEUE_IS_WRITE ty = (\<not> ?d)" by simp
  obtain s' L' where 1: "queue_transfer i ty b n0 s = Some (LOS_OK, k, s')" "kinv n s' L'"
    "g_allQueue s' = (if xs = [] then g_allQueue (upd_que i (upd_cnt ?d (\<lambda>k. k + 1)) ?s) else g_allQueue ?s)"
    and Q: "\<And>q'. plain q' \<Longrightarrow> L' q' = (if q' = rw_list ?d i then Some (tl xs) else L q')" and X2: "xkeep {Queue_pool} ?s s'"
    by (rule queue_pass_law [OF O(1) dd I1 xs]) (rule that; assumption)
  have pl: "plain (rw_list ?d i)" by (simp add: rw_list_def plain_def)
  have "served E n s s'"
    by (rule served_queue(2) [OF C 1(2) xkeep_trans [OF X1 X2], of "rw_list ?d i" ?d i])
      (use 1(3) O(2,3) Q pl xs u in \<open>auto simp: upd_que_def upd_cnt_def\<close>)
  with 1(1) show ?thesis by blast
qed

lemma queue_operate_served:
  assumes C: "core_inv E (Suc n) s L" and r: "runTask s = Some r" "taskID (tcb s r) \<noteq> g_idleTaskID s"
    and i: "unat q < LOSCFG_BASE_IPC_QUEUE_LIMIT"
  shows "\<exists>v k s'. OsQueueOperate q ty b n0 timeout s = Some (v, k, s') \<and> served E n s s' \<and>
    (\<forall>w. v = Wait w \<longrightarrow> cont_ok s' (KQueue w))"
proof (cases "OsQueueOperateParamCheck (que s (unat q)) ty n0 = LOS_OK")
  case False
  then show ?thesis using served_same [OF C] by (auto simp: OsQueueOperate_def OsGetQueueHandle_def Let_def)
next
  case True
  note D = core_D [OF C]
  let ?rw = "OS_QUEUE_IS_WRITE ty"
  have u: "queueState (que s (unat q)) \<noteq> OS_QUEUE_UNUSED" using True by (auto simp: OsQueueOperateParamCheck_def)
  consider (pass) "rw_cnt ?rw (que s (unat q)) \<noteq> 0"
    | (refuse) "rw_cnt ?rw (que s (unat q)) = 0" "timeout = LOS_NO_WAIT \<or> g_losTaskLock s \<noteq> 0"
    | (sleep) "rw_cnt ?rw (que s (unat q)) = 0" "timeout \<noteq> LOS_NO_WAIT" "g_losTaskLock s = 0" by blast
  then show ?thesis
  proof cases
    case refuse
    then show ?thesis using True served_same [OF C] by (auto simp: OsQueueOperate_def OsGetQueueHandle_def Let_def)
  next
    case pass
    let ?s = "upd_que (unat q) (upd_cnt ?rw (\<lambda>k. k - 1)) s"
    have st: "queueState (que ?s j) = queueState (que s j)" "queueID (que ?s j) = queueID (que s j)" for j
      by (simp_all add: upd_que_def upd_cnt_def)
    have I1: "kinv (Suc n) ?s L" using D(1) by (simp add: upd_que_def)
    have qi: "queue_inv ?s L" by (rule queue_keep [OF D(4,1) I1]) (simp_all add: st)
    have C1: "core_inv E (Suc n) ?s L"
      by (rule core_keep [OF C I1 xkeep_upd_que]) (use qi in \<open>simp_all add: lists_keep_def\<close>)
    have u1: "queueState (que ?s (unat q)) \<noteq> OS_QUEUE_UNUSED" using u st by simp
    obtain v k s' where 1: "queue_transfer (unat q) ty b n0 ?s = Some (v, k, s')" "served E n ?s s'"
      using queue_transfer_served [OF C1 i u1, of ty b n0] by blast
    have O: "OsQueueOperate q ty b n0 timeout s = Some (Ret v, k, s')"
      using True pass 1(1) by (simp add: OsQueueOperate_def OsGetQueueHandle_def Let_def)
    show ?thesis using O 1(2) st by (auto simp: served_def)
  next
    case sleep
    obtain xs where xs: "L (rw_list ?rw (unat q)) = Some xs" by (rule queue_lists [OF C i u])
    obtain s' L' where 1: "OsQueueOperate q ty b n0 timeout s =
        Some (Wait \<lparr>qw_queue = unat q, qw_type = ty, qw_addr = b, qw_size = n0, qw_task = r\<rparr>, n0, s')" "kinv n s' L'"
      "g_allQueue s' = g_allQueue s" "xkeep {} s s'"
      and Q: "\<And>q'. plain q' \<Longrightarrow> L' q' = (if q' = rw_list ?rw (unat q) then Some (xs @ [NPend r]) else L q')"
      by (rule queue_sleep_law [OF D(1) True sleep(1,2) refl xs r(1) core_run [OF C r(1)] r(2) D(9) sleep(3)])
        (rule that; assumption)
    have pl: "plain (rw_list ?rw (unat q))" by (simp add: rw_list_def plain_def)
    have X: "xkeep {Queue_pool} s s'" by (rule xkeep_mono [OF 1(4)]) simp
    have "served E n s s'"
      by (rule served_queue(2) [OF C 1(2) X, of "rw_list ?rw (unat q)" ?rw "unat q"])
        (use 1(3) Q pl xs u in simp_all)
    then show ?thesis using 1(1,3) i u by (auto simp: cont_ok_def)
  qed
qed

text \<open>A timed-out waiter clears its flag.\<close>

lemma clr_timeout_served:
  assumes C: "core_inv E (Suc n) s L"
  shows "served E n s (clr_status t OS_TASK_STATUS_TIMEOUT s)"
proof -
  let ?s = "clr_status t OS_TASK_STATUS_TIMEOUT s"
  note D = core_D [OF C] and K = kinv_shape [OF kinv_later [OF core_D(1) [OF C]]]
  have b: "bit (status ?s u) k = (bit (status s u) k \<and> \<not> (u = t \<and> k = 6))" for u k
    by (auto simp: flag_simps dest: bit_le16)
  have e: "priority (tcb ?s u) = priority (tcb s u)" "taskID (tcb ?s u) = taskID (tcb s u)"
    "responseTime ?s = responseTime s" "runTask ?s = runTask s" "g_idleTaskID ?s = g_idleTaskID s" for u
    by (simp_all add: los_defs)
  have "glob_ok ?s L" by (rule glob_ok_cong [OF K(7)]) (simp_all add: los_defs)
  moreover have "task_ok ?s L u" for u
    using sched_inv_task [OF K(5), of u]
    unfolding task_ok_def loc_ok_def ready_def delayed_def flags_ok_def b e by simp
  moreover have "run_ok ?s" using sched_inv_run_ok [OF K(5)] by (simp add: run_ok_def b e del: or_clr_sel)
  moreover have "sys_ok n ?s"
    using K(6) by (auto simp: sys_ok_def idle_slot_def los_defs flag_simps)
  ultimately have I: "kinv n ?s L" by (simp add: kinv_def sched_inv_def)
  have R: "runs s \<Longrightarrow> runs ?s" by (auto simp: runs_def blocked_def b e simp del: or_clr_sel)
  have X: "xkeep {} s ?s"
    using R by (auto simp: xkeep_def los_defs flag_simps)
  show ?thesis by (rule served_keep [OF C I X]) (simp_all add: lists_keep_def)
qed

lemma served_plain:
  assumes "core_inv E m s L" "kinv n s' L'" "xkeep {} s s'" "\<And>q. plain q \<Longrightarrow> L' q = L q"
  shows "served E n s s'"
  by (rule served_keep [OF assms(1-3) lists_keep_all [OF assms(4)]]) simp_all

lemma task_yield_served:
  assumes C: "core_inv E (Suc n) s L"
  shows "\<exists>v s'. LOS_TaskYield s = Some (v, s') \<and> served E n s s'"
proof -
  obtain s' L' where 1: "LOS_TaskYield s = Some (LOS_OK, s')" "kinv n s' L'" "xkeep {} s s'" and Q: "\<And>q. plain q \<Longrightarrow> L' q = L q"
    by (rule task_yield_law [OF core_D(1) [OF C]]) (rule that; assumption)
  then show ?thesis using served_plain [OF C 1(2,3) Q] by blast
qed

lemma task_delay_served:
  assumes C: "core_inv E (Suc n) s L" and r: "runTask s = Some r" "taskID (tcb s r) \<noteq> g_idleTaskID s"
  shows "\<exists>v s'. LOS_TaskDelay tick s = Some (v, s') \<and> served E n s s'"
proof -
  note D = core_D [OF C]
  consider (yield) "g_losTaskLock s = 0" "\<not> bit (status s r) 12" "tick = 0" | (refuse) "g_losTaskLock s \<noteq> 0 \<or> bit (status s r) 12"
    | (sleep) "g_losTaskLock s = 0" "\<not> bit (status s r) 12" "tick \<noteq> 0" by blast
  then show ?thesis
  proof cases
    case yield
    then show ?thesis using task_yield_served [OF C] r D(11) by (simp add: LOS_TaskDelay_def flag_simps)
  next
    case refuse
    then show ?thesis using served_same [OF C] r D(11) by (auto simp: LOS_TaskDelay_def flag_simps)
  next
    case sleep
    obtain s' L' where 1: "LOS_TaskDelay tick s = Some (LOS_OK, s')" "kinv n s' L'" "xkeep {} s s'"
      and Q: "\<And>q. plain q \<Longrightarrow> L' q = L q"
      by (rule task_delay_law [OF D(1) r(1) core_run [OF C r(1)] r(2) sleep(2) D(11) sleep(1) D(9) sleep(3)])
        (rule that; assumption)
    then show ?thesis using served_plain [OF C 1(2,3) Q] by blast
  qed
qed

lemma core_id:
  assumes "core_inv E n s L" "runTask s = Some r"
  shows "r < unat (g_taskMaxNum s)" "taskID (tcb s r) = of_nat r" "OS_TCB_FROM_TID (of_nat r) = r"
proof -
  have "\<not> is_unused (status s r)" using core_run [OF assms] by (simp add: blocked_def)
  then show l: "r < unat (g_taskMaxNum s)" using core_D(7) [OF assms(1)] by (auto simp: ids_ok_def not_le [symmetric])
  then show "taskID (tcb s r) = of_nat r" using core_D(7) [OF assms(1)] by (simp add: ids_ok_def)
  have "unat (g_taskMaxNum s) < 2 ^ LENGTH(32)" by (rule unsigned_less)
  then have "r < 2 ^ 32" using l by simp
  then show "OS_TCB_FROM_TID (of_nat r) = r" by (simp add: OS_TCB_FROM_TID_def unat_of_nat take_bit_nat_eq_self)
qed

lemma task_suspend_served:
  assumes C: "core_inv E (Suc n) s L"
  shows "\<exists>v s'. LOS_TaskSuspend tid s = Some (v, s') \<and> served E n s s'"
proof (cases "suspendable tid s")
  case False
  then show ?thesis using served_same [OF C]
    by (auto simp: LOS_TaskSuspend_def suspendable_def Let_def flag_simps)
next
  case True
  note D = core_D [OF C]
  obtain r where r: "runTask s = Some r" using D(8) by (auto simp: runs_def)
  note id = core_id [OF C r]
  show ?thesis
  proof (cases "tid = of_nat r")
    case True
    have t: "r = OS_TCB_FROM_TID tid" using True id by simp
    have rt: "taskID (tcb s r) = tid" using id True by simp
    obtain s' L' where 1: "LOS_TaskSuspend tid s = Some (LOS_OK, s')" "kinv n s' L'" "xkeep {} s s'"
      and Q: "\<And>q. plain q \<Longrightarrow> L' q = L q"
      by (rule suspend_self_law [OF D(1) \<open>suspendable tid s\<close> t D(10) r rt D(9)]) (rule that; assumption)
    then show ?thesis using served_plain [OF C 1(2,3) Q] by blast
  next
    case False
    have rt: "taskID (tcb s r) \<noteq> tid" using id False by simp
    have ne: "OS_TCB_FROM_TID tid \<noteq> r"
      using False by (auto simp: OS_TCB_FROM_TID_def)
    obtain s' L' where 1: "LOS_TaskSuspend tid s = Some (LOS_OK, s')" "kinv (Suc n) s' L'"
      and X: "OS_TCB_FROM_TID tid \<noteq> r \<Longrightarrow> xkeep {} s s'" and Q: "\<And>q. \<not> is_pri q \<Longrightarrow> L' q = L q"
      by (rule suspend_other_law [OF D(1) True refl D(10) r rt]) (rule that; assumption)
    have "served E n s s'" by (rule served_plain [OF C kinv_later [OF 1(2)] X [OF ne]]) (simp add: Q plain_def)
    with 1(1) show ?thesis by blast
  qed
qed

lemma task_resume_served:
  assumes C: "core_inv E (Suc n) s L" and x: "\<not> is_exit (status s (OS_TCB_FROM_TID tid))"
  shows "\<exists>v s'. LOS_TaskResume tid s = Some (v, s') \<and> served E n s s'"
proof (cases "resumable tid s")
  case True
  obtain s' L' where 1: "LOS_TaskResume tid s = Some (LOS_OK, s')" "kinv n s' L'" "xkeep {} s s'"
    and Q: "\<And>q. plain q \<Longrightarrow> L' q = L q"
    by (rule task_resume_law [OF core_D(1) [OF C] True refl]) (rule that; assumption)
  then show ?thesis using served_plain [OF C 1(2,3) Q] by blast
next
  case False
  note D = core_D [OF C]
  let ?t = "OS_TCB_FROM_TID tid"
  have "\<not> is_suspend (status s ?t)" if "tid = g_idleTaskID s"
  proof -
    have "taskID (tcb s ?t) = g_idleTaskID s" using that kinv_shape(6) [OF D(1)] by (simp add: sys_ok_def idle_slot_def)
    then show ?thesis using sched_inv_task [OF kinv_shape(5) [OF D(1)], of ?t] that by (simp add: task_ok_def)
  qed
  moreover have "\<not> is_suspend (status s ?t)" if "is_running (status s ?t)" "\<not> is_unused (status s ?t)"
    using sched_inv_task [OF kinv_shape(5) [OF D(1)], of ?t] that core_run [OF C, of ?t] by (simp add: task_ok_def blocked_def)
  ultimately show ?thesis using served_same [OF C] x False
    by (auto simp: LOS_TaskResume_def resumable_def Let_def flag_simps)
qed

lemma task_priset_served:
  assumes C: "core_inv E (Suc n) s L"
  shows "\<exists>v s'. LOS_TaskPriSet tid p s = Some (v, s') \<and> served E n s s'"
proof (cases "p \<le> OS_TASK_PRIORITY_LOWEST \<and> tid \<noteq> g_idleTaskID s \<and> \<not> (cfg_swtmr s \<and> tid = g_swtmrTaskID s) \<and>
    OS_TASK_ID_CHECK tid s \<and> \<not> is_unused (status s (OS_TCB_FROM_TID tid)) \<and> \<not> bit (status s (OS_TCB_FROM_TID tid)) 12")
  case False
  then show ?thesis using served_same [OF C] by (auto simp: LOS_TaskPriSet_def Let_def flag_simps)
next
  case True
  then have c: "p \<le> OS_TASK_PRIORITY_LOWEST" "tid \<noteq> g_idleTaskID s" "\<not> (cfg_swtmr s \<and> tid = g_swtmrTaskID s)"
    "OS_TASK_ID_CHECK tid s" "\<not> is_unused (status s (OS_TCB_FROM_TID tid))" "\<not> bit (status s (OS_TCB_FROM_TID tid)) 12" by simp_all
  obtain s' L' where 1: "LOS_TaskPriSet tid p s = Some (LOS_OK, s')" "kinv n s' L'" "xkeep {} s s'"
    and Q: "\<And>q. plain q \<Longrightarrow> L' q = L q"
    by (rule task_priset_law [OF core_D(1) [OF C] refl c]) (rule that; assumption)
  then show ?thesis using served_plain [OF C 1(2,3) Q] by blast
qed

lemma task_lock_served:
  assumes C: "core_inv E (Suc n) s L"
  shows "served E n s (LOS_TaskLock s)" "\<exists>s'. LOS_TaskUnlock s = Some s' \<and> served E n s s'"
proof -
  note D = core_D [OF C]
  show "served E n s (LOS_TaskLock s)"
    by (rule served_plain [OF C, of _ _ L])
      (use kinv_later [OF D(1)] in \<open>simp_all add: LOS_TaskLock_def xkeep_def runs_def\<close>)
  obtain s' L' where 1: "LOS_TaskUnlock s = Some s'" "kinv n s' L'" "xkeep {} s s'" and Q: "\<And>q. plain q \<Longrightarrow> L' q = L q"
    by (rule task_unlock_law [OF D(1)]) (rule that; assumption)
  then show "\<exists>s'. LOS_TaskUnlock s = Some s' \<and> served E n s s'" using served_plain [OF C 1(2,3) Q] by blast
qed

subsection \<open>A tick and a call that goes on\<close>

text \<open>A tick only takes tasks out of wait lists.\<close>

lemma strips_keeps:
  "mem (strips (NPend ` D) L) q x \<Longrightarrow> mem L q x" "strips N L q = None \<longleftrightarrow> L q = None"
  by (auto simp: strips_def mem_def)

lemma unused_strips:
  assumes "L' q = strips (NPend ` D) L q" "x \<notin> range NPend"
  shows "mem L' q x = mem L q x"
  using assms by (auto simp: strips_def mem_def)

lemma sem_inv_strips:
  assumes "sem_inv s L" "g_allSem s' = g_allSem s" "\<And>q. comp_of q \<noteq> None \<Longrightarrow> L' q = strips (NPend ` D) L q"
  shows "sem_inv s' L'"
proof -
  have m: "mem L' NUnusedSem (NSem i) = mem L NUnusedSem (NSem i)" for i
    by (rule unused_strips [OF assms(3)]) auto
  have "sem_ok s' L' i" if "sem_ok s L i" for i
    using that assms(2) m assms(3) [of "NSem i"] by (auto simp: sem_ok_def strips_def)
  then show ?thesis using assms m by (auto simp: sem_inv_def strips_keeps(2))
qed

lemma mux_inv_strips:
  assumes "mux_inv s L" "g_allMux s' = g_allMux s" "\<And>q. comp_of q \<noteq> None \<Longrightarrow> L' q = strips (NPend ` D) L q"
    and "\<And>t. alive s' t = alive s t"
  shows "mux_inv s' L'"
proof -
  have m: "mem L' NUnusedMux (NMux i) = mem L NUnusedMux (NMux i)" for i
    by (rule unused_strips [OF assms(3)]) auto
  have "mux_ok s' L' i" if "mux_ok s L i" for i
    using that assms(2,4) m assms(3) [of "NMux i"] by (auto simp: mux_ok_def strips_def split: option.splits)
  then show ?thesis using assms m by (auto simp: mux_inv_def strips_keeps(2))
qed

lemma queue_inv_strips:
  assumes "queue_inv s L" "g_allQueue s' = g_allQueue s" "\<And>q. comp_of q \<noteq> None \<Longrightarrow> L' q = strips (NPend ` D) L q"
    and "kinv n s L" "kinv m s' L'"
  shows "queue_inv s' L'"
proof -
  have m: "mem L' NFreeQueue (NQWrite i) = mem L NFreeQueue (NQWrite i)" for i
    by (rule unused_strips [OF assms(3)]) auto
  have "queue_ok s' L' i" if "queue_ok s L i" for i
    using that assms(2) m assms(3) [of "NQRead i"] assms(3) [of "NQWrite i"] assms(3) [of "NQMem i"]
      fresh_iff [OF assms(4)] fresh_iff [OF assms(5)]
    by (auto simp: queue_ok_def strips_def split: if_splits)
  then show ?thesis using assms m by (auto simp: queue_inv_def strips_keeps(2))
qed

lemma tick_served:
  assumes C: "core_inv E (Suc (Suc n)) s L"
  shows "\<exists>s'. OsTickHandler None s = Some s' \<and> served E n s s'"
proof -
  note D = core_D [OF C]
  let ?D = "tick_due (now_of (OsUpdateSysTimeBase (tk s))) s"
  obtain s' L' where 1: "OsTickHandler None s = Some s'" "sched_inv s' L'" "sys_ok n s'"
    and 2: "g_losTaskLock s = 0 \<longrightarrow> (\<exists>new. runTask s' = Some new \<and> top_of s' new \<and> \<not> blocked (status s' new))"
    and 3: "\<And>u k. u \<notin> ?D \<Longrightarrow> k \<noteq> 2 \<Longrightarrow> k \<noteq> 4 \<Longrightarrow> bit (status s' u) k = bit (status s u) k"
    and Q: "\<And>q. \<not> is_pri q \<Longrightarrow> q \<noteq> NTaskSort \<Longrightarrow> L' q = strips (NPend ` ?D) L q"
    and G: "gkeep s s'" and T: "\<And>u. tick_core (tcb s' u) = tick_core (tcb s u)"
    and 4: "g_losTaskLock s \<noteq> 0 \<Longrightarrow> runTask s' = runTask s"
    and 5: "\<And>u k. k < 2 \<or> 7 < k \<Longrightarrow> bit (status s' u) k = bit (status s u) k"
    by (rule tick_law [OF kinv_shape(5,6) [OF D(1)] D(9)]) (rule that; assumption)
  note g = gkeep_sel [OF G]
  have I: "kinv n s' L'" using 1 by (simp add: kinv_def)
  have q: "L' q = strips (NPend ` ?D) L q" if "comp_of q \<noteq> None" for q
    using that by (intro Q) (cases q; simp)+
  have id: "taskID (tcb s' u) = taskID (tcb s u)" "eventMask (tcb s' u) = eventMask (tcb s u)"
    "eventMode (tcb s' u) = eventMode (tcb s u)" for u
    using T [of u] by (cases "tcb s u"; cases "tcb s' u"; simp add: tick_core_def)+
  have al: "alive s' u = alive s u" for u using 5 [of 0 u] by (simp add: alive_def id g)
  have R: "runs s'"
  proof (cases "g_losTaskLock s = 0")
    case True
    with 2 show ?thesis by (auto simp: runs_def)
  next
    case False
    obtain r where r: "runTask s = Some r" "\<not> blocked (status s r)" using D(8) by (auto simp: runs_def)
    have "is_running (status s r)" using sched_inv_run_ok [OF kinv_shape(5) [OF D(1)]] r(1) by (simp add: run_ok_def)
    then have "r \<notin> ?D" by (simp add: tick_due_def due_def delayed_def)
    then show ?thesis using r 3 [of r] 4 [OF False] by (simp add: runs_def blocked_def)
  qed
  have V: "event_inv e s' L'" for e
    using D(5) [of e] q [of "NEvent e"] strips_keeps(1) [of ?D L "NEvent e"]
    by (simp add: event_inv_def id g mem_def)
  have "core_inv E n s' L'"
    unfolding core_inv_def
    using I sem_inv_strips [OF D(2) g(1) q] mux_inv_strips [OF D(3) g(2) q al] queue_inv_strips [OF D(4) g(3) q D(1) I]
      V D(6-11) R 5 [of 0] q
    by (simp add: g ids_ok_def id strips_keeps(2))
  with 1(1) show ?thesis by (auto simp: served_def g)
qed

lemma resume_served:
  assumes C: "core_inv E (Suc n) s L" and w: "cont_ok s w"
  shows "\<exists>v s'. resume w s = Some (v, s') \<and> served E n s s'"
proof (cases w)
  case (KSem t)
  then show ?thesis using clr_timeout_served [OF C, of t] served_same [OF C] by (simp add: LOS_SemPend_resume_def)
next
  case (KMux t)
  then show ?thesis using clr_timeout_served [OF C, of t] served_same [OF C] by (simp add: LOS_MuxPend_resume_def)
next
  case (KEvent w')
  then show ?thesis
    using clr_timeout_served [OF C] event_poll_served [OF C]
    by (cases w') (simp add: LOS_EventRead_resume_def, metis prod.collapse)
next
  case (KQueue w')
  then show ?thesis using w clr_timeout_served [OF C] queue_transfer_served [OF C]
    by (fastforce simp: OsQueueOperate_resume_def cont_ok_def)
qed


lemma queue_call_served:
  assumes C: "core_inv E (Suc n) s L" and r: "runTask s = Some r" "taskID (tcb s r) \<noteq> g_idleTaskID s"
  shows "\<exists>v k s'. LOS_QueueReadCopy q a (Some sz) timeout s = Some (v, k, s') \<and> served E n s s' \<and>
      (\<forall>w. v = Wait w \<longrightarrow> cont_ok s' (KQueue w))"
    "\<exists>v s'. LOS_QueueWriteCopy q b sz timeout s = Some (v, s') \<and> served E n s s' \<and>
      (\<forall>w. v = Wait w \<longrightarrow> cont_ok s' (KQueue w))"
    "\<exists>v s'. LOS_QueueWriteHeadCopy q b sz timeout s = Some (v, s') \<and> served E n s s' \<and>
      (\<forall>w. v = Wait w \<longrightarrow> cont_ok s' (KQueue w))"
proof -
  note O = queue_operate_served [OF C r] and S = served_same [OF C]
  show "\<exists>v k s'. LOS_QueueReadCopy q a (Some sz) timeout s = Some (v, k, s') \<and> served E n s s' \<and>
      (\<forall>w. v = Wait w \<longrightarrow> cont_ok s' (KQueue w))"
  proof (cases "OsQueueReadParameterCheck q (Buf a) (Some sz) timeout s = LOS_OK")
    case True
    then have "unat q < LOSCFG_BASE_IPC_QUEUE_LIMIT"
      by (auto simp: OsQueueReadParameterCheck_def word_le_nat_alt split: if_splits)
    from O [OF this, of "OS_QUEUE_OPERATE_TYPE 0 0 0" "Buf a" sz timeout] True show ?thesis
      by (fastforce simp: LOS_QueueReadCopy_def)
  qed (use S in \<open>simp add: LOS_QueueReadCopy_def Let_def\<close>)
  have i: "unat q < LOSCFG_BASE_IPC_QUEUE_LIMIT" if "OsQueueWriteParameterCheck q b sz timeout s = LOS_OK"
    using that by (auto simp: OsQueueWriteParameterCheck_def word_le_nat_alt split: if_splits)
  show "\<exists>v s'. LOS_QueueWriteCopy q b sz timeout s = Some (v, s') \<and> served E n s s' \<and>
      (\<forall>w. v = Wait w \<longrightarrow> cont_ok s' (KQueue w))"
  proof (cases "OsQueueWriteParameterCheck q b sz timeout s = LOS_OK")
    case True
    from O [OF i [OF this], of "OS_QUEUE_OPERATE_TYPE 1 1 0" b sz timeout] True show ?thesis
      by (fastforce simp: LOS_QueueWriteCopy_def)
  qed (use S in \<open>simp add: LOS_QueueWriteCopy_def Let_def\<close>)
  show "\<exists>v s'. LOS_QueueWriteHeadCopy q b sz timeout s = Some (v, s') \<and> served E n s s' \<and>
      (\<forall>w. v = Wait w \<longrightarrow> cont_ok s' (KQueue w))"
  proof (cases "OsQueueWriteParameterCheck q b sz timeout s = LOS_OK")
    case True
    from O [OF i [OF this], of "OS_QUEUE_OPERATE_TYPE 1 0 0" b sz timeout] True show ?thesis
      by (fastforce simp: LOS_QueueWriteHeadCopy_def)
  qed (use S in \<open>simp add: LOS_QueueWriteHeadCopy_def Let_def\<close>)
qed

text \<open>What a call gives: it returns or blocks, keeps the invariant, and leaves a continuation that can go on.\<close>

definition call_ok :: "evref set \<Rightarrow> nat \<Rightarrow> kstate \<Rightarrow> (cont res \<times> kstate) option \<Rightarrow> bool" where
  "call_ok E n s x \<longleftrightarrow> (\<exists>v s'. x = Some (v, s') \<and> served E n s s' \<and> (\<forall>w. v = Wait w \<longrightarrow> cont_ok s' w))"

lemma map_res_Wait: "map_res K v = Wait w \<longleftrightarrow> (\<exists>k. v = Wait k \<and> w = K k)"
  by (cases v) auto

lemma call_okI:
  "\<exists>v s'. x = Some (v, s') \<and> served E n s s' \<Longrightarrow> call_ok E n s (ret x)"
  "\<exists>v s'. y = Some (v, s') \<and> served E n s s' \<Longrightarrow> call_ok E n s (ret (map_option (\<lambda>((r, _), s). (r, s)) y))"
  "\<exists>v s'. z = Some (v, s') \<and> served E n s s' \<Longrightarrow> (\<And>s k. cont_ok s (K k)) \<Longrightarrow> call_ok E n s (cont K z)"
  "\<exists>v s'. q = Some (v, s') \<and> served E n s s' \<and> (\<forall>w. v = Wait w \<longrightarrow> cont_ok s' (KQueue w)) \<Longrightarrow>
     call_ok E n s (cont KQueue q)"
  "\<exists>v k s'. p = Some (v, k, s') \<and> served E n s s' \<and> (\<forall>w. v = Wait w \<longrightarrow> cont_ok s' (KQueue w)) \<Longrightarrow>
     call_ok E n s (cont KQueue (map_option (\<lambda>(r, _, s). (r, s)) p))"
  by (auto simp: call_ok_def ret_def cont_def map_res_Wait split: prod.splits)


lemma exec_served:
  assumes C: "core_inv E (Suc n) s L" and r: "runTask s = Some r" "taskID (tcb s r) \<noteq> g_idleTaskID s" and a: "allowed E s c"
  shows "call_ok E n s (exec c s)"
proof (cases c)
  case (EventClear e m)
  then show ?thesis using event_set_less_served [OF C] served_same [OF C]
    by (auto simp: LOS_EventClear_def call_ok_def ret_def)
next
  case (SemCreate m)
  then show ?thesis using call_okI(2) [OF sem_create_served(1) [OF C]] by simp
next
  case (BinarySemCreate m)
  then show ?thesis using call_okI(2) [OF sem_create_served(2) [OF C]] by simp
next
  case MuxCreate
  then show ?thesis using call_okI(2) [OF mux_create_served [OF C]] by simp
next
  case TaskLock
  then show ?thesis using task_lock_served(1) [OF C] by (simp add: call_ok_def)
next
  case TaskUnlock
  then show ?thesis using task_lock_served(2) [OF C] by (auto simp: call_ok_def)
next
  case (MuxPend h timeout)
  then show ?thesis using mux_pend_served [OF C r] a by (simp add: call_okI(3) cont_ok_def)
next
  case (EventRead e m k timeout)
  then show ?thesis using event_read_served [OF C r] a by (simp add: call_okI(3) cont_ok_def)
next
  case (SemPend h timeout)
  then show ?thesis using sem_pend_served [OF C r] by (simp add: call_okI(3) cont_ok_def)
next
  case (EventWrite e v)
  then show ?thesis using event_write_served [OF C] a by (simp add: call_okI(1))
next
  case (TaskResume tid)
  then show ?thesis using task_resume_served [OF C] a by (simp add: call_okI(1))
qed (simp_all add: call_okI sem_delete_served [OF C] sem_post_served [OF C]
  mux_delete_served [OF C] mux_post_served [OF C r(1)]
  queue_call_served [OF C r] task_delay_served [OF C r] task_yield_served [OF C]
  task_suspend_served [OF C] task_priset_served [OF C])

subsection \<open>Every event of the system\<close>

lemma sys_served:
  assumes "sys_inv E m (s, k) L" "served E n s s'" "\<And>t w. k' t = Some w \<Longrightarrow> k t = Some w \<or> cont_ok s' w"
  shows "\<exists>L'. sys_inv E n (s', k') L'"
proof -
  have q: "queueState (que s' i) = queueState (que s i)" for i using assms(2) by (simp add: served_def)
  have "cont_ok s' w" if "k' t = Some w" for t w
    using assms(1,3) that by (fastforce simp: sys_inv_def cont_ok_def q split: cont.splits)
  then show ?thesis using assms(2) by (simp add: served_def sys_inv_def)
qed

lemma step_keeps:
  assumes I: "sys_inv E (Suc (Suc n)) x L" and st: "step E x y"
  shows "\<exists>L'. sys_inv E n y L'"
  using st
proof (cases rule: step.cases)
  case (returns s r k c v s')
  have C: "core_inv E (Suc n) s L" using I core_later returns(1) by (simp add: sys_inv_def)
  have "served E n s s'" using exec_served [OF C returns(3,5,6)] returns(7) by (simp add: call_ok_def)
  then show ?thesis using sys_served I unfolding returns(1,2) by blast
next
  case (blocks s r k c w s')
  have C: "core_inv E (Suc n) s L" using I core_later blocks(1) by (simp add: sys_inv_def)
  have "served E n s s'" "cont_ok s' w" using exec_served [OF C blocks(3,5,6)] blocks(7) by (simp_all add: call_ok_def)
  then show ?thesis unfolding blocks(2) by (intro sys_served [OF I [unfolded blocks(1)]]) (auto split: if_splits)
next
  case (goes_on s r k w v s')
  have C: "core_inv E (Suc n) s L" "cont_ok s w" using I core_later goes_on(1,4) by (auto simp: sys_inv_def)
  have "served E n s s'" using resume_served [OF C] goes_on(5) by simp
  then show ?thesis unfolding goes_on(2) by (intro sys_served [OF I [unfolded goes_on(1)]]) (auto split: if_splits)
next
  case (ticks s s' k)
  have "served E n s s'" using tick_served [of E n s L] I ticks(1,3) by (simp add: sys_inv_def)
  then show ?thesis using sys_served I unfolding ticks(1,2) by blast
qed

lemma steps_keep:
  assumes "steps E m x y" "sys_inv E (2 * m + n) x L"
  shows "\<exists>L'. sys_inv E n y L'"
  using assms
proof (induction arbitrary: n rule: steps.induct)
  case (more m x y z)
  then have "\<exists>L'. sys_inv E (Suc (Suc n)) y L'" by (intro more.IH) simp
  then show ?case using step_keeps [OF _ more.hyps(2)] by blast
qed auto

text \<open>Nothing the running task or the timer does gets stuck.\<close>

lemma sys_progress:
  assumes I: "sys_inv E (Suc (Suc n)) (s, k) L"
  shows "\<exists>r. runTask s = Some r"
    "\<lbrakk> runTask s = Some r; taskID (tcb s r) \<noteq> g_idleTaskID s; allowed E s c \<rbrakk> \<Longrightarrow> exec c s \<noteq> None"
    "k r = Some w \<Longrightarrow> resume w s \<noteq> None" "OsTickHandler None s \<noteq> None"
proof -
  have C: "core_inv E (Suc (Suc n)) s L" using I by (simp add: sys_inv_def)
  show "\<exists>r. runTask s = Some r" using core_D(8) [OF C] by (auto simp: runs_def)
  show "exec c s \<noteq> None" if "runTask s = Some r" "taskID (tcb s r) \<noteq> g_idleTaskID s" "allowed E s c"
    using exec_served [OF C that] by (auto simp: call_ok_def)
  show "resume w s \<noteq> None" if "k r = Some w"
    using resume_served [OF C] I that by (fastforce simp: sys_inv_def)
  show "OsTickHandler None s \<noteq> None" using tick_served [OF C] by auto
qed

text \<open>Where the nodes of a task are.\<close>

lemma sched_inv_placed:
  assumes I: "sched_inv s L"
  shows "flags_ok (status s t) \<and>
       (\<forall>p. mem L (NPri p) (NPend t) \<longleftrightarrow> ready s t \<and> p = unat (priority (tcb s t))) \<and>
       (is_pend (status s t) \<longleftrightarrow> (\<exists>!q. wait_head q \<and> mem L q (NPend t))) \<and>
       (mem L NTaskSort (NSort t) \<longleftrightarrow> delayed s t)"
proof -
  have g: "glob_ok s L" using I by (simp add: sched_inv_def)
  have t: "task_ok s L t" by (rule sched_inv_task [OF I])
  have "\<exists>!q. wait_head q \<and> mem L q (NPend t)" if "is_pend (status s t)"
    using t that mem_unique [OF g] unfolding task_ok_def by metis
  then show ?thesis using t by (auto simp: task_ok_def loc_ok_def)
qed

end
