(* ===== verification/LosStart.thy ===== *)
theory LosStart
  imports LosBoot LosSystem
begin

text \<open>
  What the start of the system establishes: LOS_KernelInit leads from the memory
  after reset to a state in which the invariants of all components hold, with all
  pools full, and the start of the first task leads from there, or from the state
  after tasks were created, to a running system.
\<close>

subsection \<open>Loops that fill a pool\<close>

text \<open>
  The free lists of tasks, semaphores, mutexes and queues are filled by loops of
  the same form: set up a control block, append its node.
\<close>

locale init_loop =
  fixes loop :: "nat list \<Rightarrow> kstate \<Rightarrow> kstate option" and U :: node and nd :: "nat \<Rightarrow> node"
    and upd :: "nat \<Rightarrow> kstate \<Rightarrow> kstate"
  assumes loop: "loop [] s = Some s"
      "loop (i # is) s = do { s \<leftarrow> k_ListTailInsert U (nd i) (upd i s); loop is s }"
    and upd: "upd i (s\<lparr>dl := h\<rparr>) = (upd i s)\<lparr>dl := h\<rparr>"
    and inj: "nd i = nd j \<Longrightarrow> i = j"
begin

lemma upd_dl: "dl (upd i s) = dl s"
proof -
  have "upd i s = (upd i s)\<lparr>dl := dl s\<rparr>" using upd [where i = i and s = s and h = "dl s"] by simp
  then show ?thesis by (metis kstate.select_convs(1) kstate.surjective kstate.update_convs(1))
qed

lemma fold_upd: "fold upd is (s\<lparr>dl := h\<rparr>) = (fold upd is s)\<lparr>dl := h\<rparr>"
  by (induction "is" arbitrary: s) (simp_all add: upd)

lemma loop_law:
  assumes "dl_rep (dl s) L" "L U = Some xs" "distinct is" "\<And>i. i \<in> set is \<Longrightarrow> nd i \<notin> covered L"
  shows "\<exists>h. loop is s = Some ((fold upd is s)\<lparr>dl := h\<rparr>) \<and> dl_rep h (L(U \<mapsto> xs @ map nd is))"
  using assms
proof (induction "is" arbitrary: s L xs)
  case Nil
  have "L(U \<mapsto> xs) = L" using Nil.prems(2) by auto
  then show ?case using Nil.prems(1) by (auto intro!: exI [of _ "dl s"] simp: loop)
next
  case (Cons i "is")
  have R: "dl_rep (dl (upd i s)) L" using Cons.prems(1) by (simp add: upd_dl)
  have n: "nd i \<notin> covered L" using Cons.prems(4) by simp
  obtain h where h: "LOS_ListTailInsert U (nd i) (dl (upd i s)) = Some h" "dl_rep h (L(U \<mapsto> xs @ [nd i]))"
    by (rule list_tail_insert [OF R Cons.prems(2) n])
  let ?s = "(upd i s)\<lparr>dl := h\<rparr>"
  have c: "nd j \<notin> covered (L(U \<mapsto> xs @ [nd i]))" if "j \<in> set is" for j
    using that Cons.prems(2-4) covered_upd_in [of "nd j" L U "xs @ [nd i]"] inj [of j i] covered_head [of L U xs]
      covered_elem [of L U xs] by fastforce
  have 1: "dl_rep (dl ?s) (L(U \<mapsto> xs @ [nd i]))" "(L(U \<mapsto> xs @ [nd i])) U = Some (xs @ [nd i])" "distinct is"
    using h(2) Cons.prems(3) by simp_all
  from Cons.IH [OF 1 c]
  have "\<exists>h'. loop is ?s = Some ((fold upd is ?s)\<lparr>dl := h'\<rparr>) \<and> dl_rep h' (L(U \<mapsto> xs @ map nd (i # is)))"
    by (simp add: fun_upd_def cong: if_cong)
  then obtain h' where "loop is ?s = Some ((fold upd is ?s)\<lparr>dl := h'\<rparr>)" "dl_rep h' (L(U \<mapsto> xs @ map nd (i # is)))" by blast
  then show ?case by (intro exI [of _ h']) (simp add: loop k_List_eq(2) [OF h(1)] fold_upd fun_upd_def)
qed

end

interpretation task_loop: init_loop task_init_loop NFreeTask NPend
  "\<lambda>i. upd_tcb i (\<lambda>c. c\<lparr>taskStatus := OS_TASK_STATUS_UNUSED, taskID := of_nat i\<rparr>)"
  by unfold_locales (simp_all add: upd_tcb_def)

interpretation sem_loop: init_loop sem_init_loop NUnusedSem NSem
  "\<lambda>i. upd_sem i (\<lambda>c. c\<lparr>semID := of_nat i, semStat := OS_SEM_UNUSED\<rparr>)"
  by unfold_locales (simp_all add: upd_sem_def)

interpretation mux_loop: init_loop mux_init_loop NUnusedMux NMux
  "\<lambda>i. upd_mux i (\<lambda>c. c\<lparr>muxID := of_nat i, owner := None, muxStat := OS_MUX_UNUSED\<rparr>)"
  by unfold_locales (simp_all add: upd_mux_def)

interpretation queue_loop: init_loop queue_init_loop NFreeQueue NQWrite "\<lambda>i. upd_que i (\<lambda>c. c\<lparr>queueID := of_nat i\<rparr>)"
  by unfold_locales (simp_all add: upd_que_def)

text \<open>All control blocks of a table at once.\<close>

lemma fold_table:
  "distinct is \<Longrightarrow> fold (\<lambda>i g. g(i := f i (g i))) is g = (\<lambda>t. if t \<in> set is then f t (g t) else g t)"
  by (induction "is" arbitrary: g) (auto simp: fun_eq_iff)

lemma fold_upd_table:
  assumes "distinct is"
  shows "fold (\<lambda>i. upd_tcb i (f i)) is s = s\<lparr>g_taskCBArray := \<lambda>t. if t \<in> set is then f t (tcb s t) else tcb s t\<rparr>"
    "fold (\<lambda>i. upd_sem i (g i)) is s = s\<lparr>g_allSem := \<lambda>t. if t \<in> set is then g t (sem s t) else sem s t\<rparr>"
    "fold (\<lambda>i. upd_mux i (k i)) is s = s\<lparr>g_allMux := \<lambda>t. if t \<in> set is then k t (mux s t) else mux s t\<rparr>"
    "fold (\<lambda>i. upd_que i (q i)) is s = s\<lparr>g_allQueue := \<lambda>t. if t \<in> set is then q t (que s t) else que s t\<rparr>"
proof -
  have "fold (\<lambda>i. upd_tcb i (f i)) is s = s\<lparr>g_taskCBArray := fold (\<lambda>i g. g(i := f i (g i))) is (g_taskCBArray s)\<rparr>"
    by (induction "is" arbitrary: s) (simp_all add: upd_tcb_def)
  then show "fold (\<lambda>i. upd_tcb i (f i)) is s = s\<lparr>g_taskCBArray := \<lambda>t. if t \<in> set is then f t (tcb s t) else tcb s t\<rparr>"
    by (simp add: fold_table [OF assms])
  have "fold (\<lambda>i. upd_sem i (g i)) is s = s\<lparr>g_allSem := fold (\<lambda>i t. t(i := g i (t i))) is (g_allSem s)\<rparr>"
    by (induction "is" arbitrary: s) (simp_all add: upd_sem_def)
  then show "fold (\<lambda>i. upd_sem i (g i)) is s = s\<lparr>g_allSem := \<lambda>t. if t \<in> set is then g t (sem s t) else sem s t\<rparr>"
    by (simp add: fold_table [OF assms])
  have "fold (\<lambda>i. upd_mux i (k i)) is s = s\<lparr>g_allMux := fold (\<lambda>i t. t(i := k i (t i))) is (g_allMux s)\<rparr>"
    by (induction "is" arbitrary: s) (simp_all add: upd_mux_def)
  then show "fold (\<lambda>i. upd_mux i (k i)) is s = s\<lparr>g_allMux := \<lambda>t. if t \<in> set is then k t (mux s t) else mux s t\<rparr>"
    by (simp add: fold_table [OF assms])
  have "fold (\<lambda>i. upd_que i (q i)) is s = s\<lparr>g_allQueue := fold (\<lambda>i t. t(i := q i (t i))) is (g_allQueue s)\<rparr>"
    by (induction "is" arbitrary: s) (simp_all add: upd_que_def)
  then show "fold (\<lambda>i. upd_que i (q i)) is s = s\<lparr>g_allQueue := \<lambda>t. if t \<in> set is then q t (que s t) else que s t\<rparr>"
    by (simp add: fold_table [OF assms])
qed

subsection \<open>Task control blocks and ready queues\<close>

lemma clear_tcb_law:
  assumes "dl_rep (dl s) L" "NPend t \<notin> covered L" "NSort t \<notin> covered L" "NJoin t \<notin> covered L" "NEvent (EvTask t) \<notin> covered L"
  shows "\<exists>h. dl_rep h L \<and> clear_tcb t s = s\<lparr>dl := h, g_taskCBArray := (g_taskCBArray s)(t := null_tcb),
    responseTime := (responseTime s)(NSort t := 0), uwEventID := (uwEventID s)(EvTask t := 0)\<rparr>"
proof -
  let ?d = "\<lambda>x h. \<lparr>pstPrev = (pstPrev h)(x := None), pstNext = (pstNext h)(x := None)\<rparr>"
  have "dl_rep (?d (NPend t) (?d (NSort t) (?d (NJoin t) (?d (NEvent (EvTask t)) (dl s))))) L"
    by (intro dl_zero_rep assms)
  then show ?thesis by (intro exI conjI) (assumption, simp add: clear_tcb_def dl_zero_def set_event_def los_defs)
qed

lemma clear_tasks_law:
  assumes "dl_rep (dl s) (\<lambda>_. None)"
  shows "\<exists>h rt ev. clear_tasks n s = s\<lparr>dl := h, responseTime := rt, uwEventID := ev,
    g_taskCBArray := \<lambda>t. if t < n then null_tcb else tcb s t\<rparr> \<and> dl_rep h (\<lambda>_. None)"
  using assms
proof (induction n)
  case 0
  then show ?case
    by (intro exI [of _ "dl s"] exI [of _ "responseTime s"] exI [of _ "uwEventID s"]) (simp add: clear_tasks_def)
next
  case (Suc n)
  then obtain h rt ev where e: "clear_tasks n s = s\<lparr>dl := h, responseTime := rt, uwEventID := ev,
    g_taskCBArray := \<lambda>t. if t < n then null_tcb else tcb s t\<rparr>" and r: "dl_rep h (\<lambda>_. None)" by blast
  have n: "x \<notin> covered (\<lambda>_. None)" for x :: node by (simp add: covered_def)
  have "dl_rep (dl (clear_tasks n s)) (\<lambda>_. None)" using r by (simp add: e)
  from clear_tcb_law [OF this n n n n, of n] obtain h' where h': "dl_rep h' (\<lambda>_. None)"
    "clear_tcb n (clear_tasks n s) = (clear_tasks n s)\<lparr>dl := h', g_taskCBArray := (g_taskCBArray (clear_tasks n s))(n := null_tcb),
       responseTime := (responseTime (clear_tasks n s))(NSort n := 0), uwEventID := (uwEventID (clear_tasks n s))(EvTask n := 0)\<rparr>"
    by blast
  have "clear_tasks (Suc n) s = clear_tcb n (clear_tasks n s)" by (simp add: clear_tasks_def)
  also have "\<dots> = s\<lparr>dl := h', responseTime := rt(NSort n := 0), uwEventID := ev(EvTask n := 0),
    g_taskCBArray := \<lambda>t. if t < Suc n then null_tcb else tcb s t\<rparr>"
    by (subst h'(2)) (simp add: e less_Suc_eq fun_upd_def cong: if_cong, auto simp: fun_eq_iff)
  finally show ?case using h'(1) by blast
qed

definition pri_lists :: "nat \<Rightarrow> (node \<Rightarrow> node list option) \<Rightarrow> node \<Rightarrow> node list option" where
  "pri_lists n L q = (case q of NPri p \<Rightarrow> if p < n then Some [] else L q | _ \<Rightarrow> L q)"

lemma pri_lists_sel [simp]:
  "pri_lists n L (NPri p) = (if p < n then Some [] else L (NPri p))" "\<not> is_pri q \<Longrightarrow> pri_lists n L q = L q"
  by (auto simp: pri_lists_def split: node.splits)

lemma pri_init_law:
  assumes R: "dl_rep (dl s) L" and n: "\<And>p. NPri p \<notin> covered L"
  shows "\<exists>h. foldl (\<lambda>s p. k_ListInit (NPri p) s) s [0..<n] = s\<lparr>dl := h\<rparr> \<and> dl_rep h (pri_lists n L)"
proof (induction n)
  case 0
  have "pri_lists 0 L = L" by (auto simp: pri_lists_def fun_eq_iff split: node.splits)
  then show ?case using R by (intro exI conjI) simp_all
next
  case (Suc n)
  then obtain h where h: "foldl (\<lambda>s p. k_ListInit (NPri p) s) s [0..<n] = s\<lparr>dl := h\<rparr>" "dl_rep h (pri_lists n L)" by blast
  have "NPri n \<notin> covered (pri_lists n L)"
    using n [of n] by (auto simp: covered_def pri_lists_def split: node.splits if_splits)
  then have r: "dl_rep (LOS_ListInit (NPri n) h) ((pri_lists n L)(NPri n \<mapsto> []))" by (intro list_init [OF h(2)]) simp
  have "(pri_lists n L)(NPri n \<mapsto> []) = pri_lists (Suc n) L" by (auto simp: pri_lists_def fun_eq_iff split: node.splits)
  then show ?case using r h(1) by (intro exI [of _ "LOS_ListInit (NPri n) h"]) (simp add: k_ListInit_def)
qed


definition task_table :: "kstate \<Rightarrow> nat \<Rightarrow> LosTaskCB" where
  "task_table s t =
     (if t < 25 then null_tcb\<lparr>taskStatus := OS_TASK_STATUS_UNUSED, taskID := of_nat t\<rparr>
      else if t = 25
      then null_tcb\<lparr>taskID := 25, taskStatus := OS_TASK_STATUS_UNUSED OR OS_TASK_STATUS_RUNNING, priority := 32\<rparr>
      else tcb s t)"

lemma task_init_law:
  assumes m: "mallocs s = a # ms" "a \<noteq> 0"
  obtains h rt ev where "OsTaskInit s = Some (LOS_OK, SchedTimeBaseInit (s\<lparr>g_taskMaxNum := 25, mallocs := ms,
      responseTime := rt, uwEventID := ev, g_taskCBArray := task_table s, newTask := None, runTask := Some 25,
      g_idleTaskID := OS_INVALID, g_queueBitmap := 0, dl := h\<rparr>))"
    "dl_rep h ((pri_lists 32 [NFreeTask \<mapsto> map NPend [0..<25], NRecycle \<mapsto> []])(NTaskSort \<mapsto> []))"
proof -
  let ?s0 = "s\<lparr>g_taskMaxNum := 25, mallocs := ms\<rparr>"
  have "dl_rep (dl ?s0) (\<lambda>_. None)" by (simp add: dl_rep_def)
  from clear_tasks_law [OF this, of 26] obtain h1 rt ev where
    1: "clear_tasks 26 ?s0 = ?s0\<lparr>dl := h1, responseTime := rt, uwEventID := ev,
      g_taskCBArray := \<lambda>t. if t < 26 then null_tcb else tcb ?s0 t\<rparr>" "dl_rep h1 (\<lambda>_. None)" by blast
  let ?s1 = "clear_tasks 26 ?s0"
  let ?s2 = "k_ListInit NRecycle (k_ListInit NFreeTask ?s1)"
  let ?L2 = "[NFreeTask \<mapsto> [], NRecycle \<mapsto> []]"
  have r2: "dl_rep (dl ?s2) ?L2"
    unfolding k_ListInit_def by (simp, intro list_init) (use 1 in \<open>auto simp: covered_def split: if_splits\<close>)
  have c2: "NPend i \<notin> covered ?L2" for i by (auto simp: covered_def split: if_splits)
  have f2: "?L2 NFreeTask = Some []" by simp
  from task_loop.loop_law [OF r2 f2 distinct_upt [of 0 25] c2] obtain h3 where
    3: "task_init_loop [0..<25] ?s2 = Some ((fold (\<lambda>i. upd_tcb i (\<lambda>c. c\<lparr>taskStatus := OS_TASK_STATUS_UNUSED, taskID := of_nat i\<rparr>)) [0..<25] ?s2)\<lparr>dl := h3\<rparr>)"
    "dl_rep h3 (?L2(NFreeTask \<mapsto> [] @ map NPend [0..<25]))" by blast
  let ?L3 = "[NFreeTask \<mapsto> map NPend [0..<25], NRecycle \<mapsto> []]"
  have r3: "dl_rep h3 ?L3" using 3(2) by (simp add: fun_upd_twist)
  let ?s4 = "s\<lparr>g_taskMaxNum := 25, mallocs := ms, dl := h3, responseTime := rt, uwEventID := ev,
     g_taskCBArray := task_table s, newTask := None, runTask := Some 25, g_idleTaskID := OS_INVALID\<rparr>"
  have "NPri p \<notin> covered ?L3" for p by (auto simp: covered_def split: if_splits)
  from pri_init_law [of ?s4 ?L3 32, OF _ this] r3 obtain h5 where
    5: "foldl (\<lambda>s p. k_ListInit (NPri p) s) ?s4 [0..<32] = ?s4\<lparr>dl := h5\<rparr>" "dl_rep h5 (pri_lists 32 ?L3)" by auto
  have r6: "dl_rep (LOS_ListInit NTaskSort h5) ((pri_lists 32 ?L3)(NTaskSort \<mapsto> []))"
    by (intro list_init [OF 5(2)]) (auto simp: covered_def pri_lists_def split: node.splits if_splits)
  have t4: "upd_tcb 25 (\<lambda>c. c\<lparr>taskID := of_nat 25, taskStatus := OS_TASK_STATUS_UNUSED OR OS_TASK_STATUS_RUNNING,
              priority := OS_TASK_PRIORITY_LOWEST + 1\<rparr>)
      ((fold (\<lambda>i. upd_tcb i (\<lambda>c. c\<lparr>taskStatus := OS_TASK_STATUS_UNUSED, taskID := of_nat i\<rparr>)) [0..<25] ?s2)
        \<lparr>dl := h3, newTask := None, runTask := Some 25\<rparr>)\<lparr>g_idleTaskID := OS_INVALID\<rparr> = ?s4"
    unfolding fold_upd_table(1) [OF distinct_upt]
    by (simp add: upd_tcb_def k_ListInit_def 1(1) task_table_def fun_eq_iff del: upt_rec_numeral)
  have O: "OsTaskInit s = Some (LOS_OK, SchedTimeBaseInit (?s4\<lparr>g_queueBitmap := 0, dl := LOS_ListInit NTaskSort h5\<rparr>))"
    using m 3(1) 5(1) t4
    by (simp add: OsTaskInit_def LOS_MemAlloc_def OsSchedInit_def OsGetSortLinkAttribute_def OsSortLinkInit_def k_ListInit_def Let_def)
  show thesis by (rule that [OF _ r6]) (use O in simp)
qed

subsection \<open>Pools\<close>

context init_loop
begin

lemma fill_law:
  assumes "dl_rep (dl s) L" "U \<notin> covered L" "distinct is" "\<And>i. nd i \<notin> covered L \<and> nd i \<noteq> U"
  shows "\<exists>h. loop is (k_ListInit U s) = Some ((fold upd is s)\<lparr>dl := h\<rparr>) \<and> dl_rep h (L(U \<mapsto> map nd is))"
proof -
  have R: "dl_rep (dl (k_ListInit U s)) (L(U \<mapsto> []))" using list_init [OF assms(1)] assms(2) by (simp add: k_ListInit_def)
  have c: "nd i \<notin> covered (L(U \<mapsto> []))" for i using assms(4) [of i] covered_upd_in [of "nd i" L U "[]"] by auto
  have u: "(L(U \<mapsto> [])) U = Some []" by simp
  from loop_law [OF R u assms(3) c] show ?thesis by (auto simp: k_ListInit_def fold_upd fun_upd_def cong: if_cong)
qed

end

lemma pool_init_laws:
  assumes m: "mallocs s = a # ms" "a \<noteq> 0" and R: "dl_rep (dl s) L"
  shows "NUnusedSem \<notin> covered L \<Longrightarrow> (\<And>i. NSem i \<notin> covered L) \<Longrightarrow>
      \<exists>h. OsSemInit s = Some (LOS_OK, s\<lparr>mallocs := ms,
        g_allSem := \<lambda>i. if i < 48 then (sem s i)\<lparr>semID := of_nat i, semStat := OS_SEM_UNUSED\<rparr> else sem s i, dl := h\<rparr>) \<and>
      dl_rep h (L(NUnusedSem \<mapsto> map NSem [0..<48]))"
    "NUnusedMux \<notin> covered L \<Longrightarrow> (\<And>i. NMux i \<notin> covered L) \<Longrightarrow>
      \<exists>h. OsMuxInit s = Some (LOS_OK, s\<lparr>mallocs := ms,
        g_allMux := \<lambda>i. if i < 24 then (mux s i)\<lparr>muxID := of_nat i, owner := None, muxStat := OS_MUX_UNUSED\<rparr> else mux s i, dl := h\<rparr>) \<and>
      dl_rep h (L(NUnusedMux \<mapsto> map NMux [0..<24]))"
    "NFreeQueue \<notin> covered L \<Longrightarrow> (\<And>i. NQWrite i \<notin> covered L) \<Longrightarrow>
      \<exists>h. OsQueueInit s = Some (LOS_OK, s\<lparr>mallocs := ms,
        g_allQueue := \<lambda>i. if i < 24 then null_queue\<lparr>queueID := of_nat i\<rparr> else que s i, dl := h\<rparr>) \<and>
      dl_rep h (L(NFreeQueue \<mapsto> map NQWrite [0..<24]))"
proof -
  let ?s = "s\<lparr>mallocs := ms\<rparr>"
  have R1: "dl_rep (dl ?s) L" using R by simp
  have sw: "s\<lparr>dl := h, mallocs := ms\<rparr> = s\<lparr>mallocs := ms, dl := h\<rparr>" for h by simp
  show "\<exists>h. OsSemInit s = Some (LOS_OK, s\<lparr>mallocs := ms,
        g_allSem := \<lambda>i. if i < 48 then (sem s i)\<lparr>semID := of_nat i, semStat := OS_SEM_UNUSED\<rparr> else sem s i, dl := h\<rparr>) \<and>
      dl_rep h (L(NUnusedSem \<mapsto> map NSem [0..<48]))" if c: "NUnusedSem \<notin> covered L" "\<And>i. NSem i \<notin> covered L"
  proof -
    have n: "NSem i \<notin> covered L \<and> NSem i \<noteq> NUnusedSem" for i using c(2) by simp
    from sem_loop.fill_law [OF R1 c(1) distinct_upt [of 0 48] n] m show ?thesis
      unfolding fold_upd_table(2) [OF distinct_upt] by (auto simp: OsSemInit_def LOS_MemAlloc_def k_ListInit_def sw cong: if_cong)
  qed
  show "\<exists>h. OsMuxInit s = Some (LOS_OK, s\<lparr>mallocs := ms,
        g_allMux := \<lambda>i. if i < 24 then (mux s i)\<lparr>muxID := of_nat i, owner := None, muxStat := OS_MUX_UNUSED\<rparr> else mux s i, dl := h\<rparr>) \<and>
      dl_rep h (L(NUnusedMux \<mapsto> map NMux [0..<24]))" if c: "NUnusedMux \<notin> covered L" "\<And>i. NMux i \<notin> covered L"
  proof -
    have n: "NMux i \<notin> covered L \<and> NMux i \<noteq> NUnusedMux" for i using c(2) by simp
    from mux_loop.fill_law [OF R1 c(1) distinct_upt [of 0 24] n] m show ?thesis
      unfolding fold_upd_table(3) [OF distinct_upt] by (auto simp: OsMuxInit_def LOS_MemAlloc_def k_ListInit_def sw cong: if_cong)
  qed
  let ?s2 = "?s\<lparr>g_allQueue := \<lambda>i. if i < 24 then null_queue else que s i\<rparr>"
  have R2: "dl_rep (dl ?s2) L" using R by simp
  show "\<exists>h. OsQueueInit s = Some (LOS_OK, s\<lparr>mallocs := ms,
        g_allQueue := \<lambda>i. if i < 24 then null_queue\<lparr>queueID := of_nat i\<rparr> else que s i, dl := h\<rparr>) \<and>
      dl_rep h (L(NFreeQueue \<mapsto> map NQWrite [0..<24]))" if c: "NFreeQueue \<notin> covered L" "\<And>i. NQWrite i \<notin> covered L"
  proof -
    have n: "NQWrite i \<notin> covered L \<and> NQWrite i \<noteq> NFreeQueue" for i using c(2) by simp
    from queue_loop.fill_law [OF R2 c(1) distinct_upt [of 0 24] n] m show ?thesis
      unfolding fold_upd_table(4) [OF distinct_upt]
      by (auto simp: OsQueueInit_def LOS_MemAlloc_def k_ListInit_def Let_def cong: if_cong)
  qed
qed

subsection \<open>The idle task\<close>

definition idle_param :: "u32 \<Rightarrow> kstate \<Rightarrow> TSK_INIT_PARAM_S" where
  "idle_param name s = \<lparr>pfnTaskEntry = text_addr s Sym_OsIdleTask, usTaskPrio = OS_TASK_PRIORITY_LOWEST, uwArg = 0,
     stackAddr = 0, uwStackSize = LOSCFG_BASE_CORE_TSK_IDLE_STACK_SIZE, pcName = name, uwResved = 0\<rparr>"

definition idle_tcb :: "u32 \<Rightarrow> kstate \<Rightarrow> LosTaskCB" where
  "idle_tcb name s = (new_tcb (idle_param name s) s (tcb s 0))\<lparr>taskStatus := OS_TASK_STATUS_READY OR OS_TASK_FLAG_STACK_FREE\<rparr>"

lemma idle_create_law:
  assumes R: "dl_rep (dl s) L" and L: "L NRecycle = Some []" "L NFreeTask = Some (NPend 0 # xs)" "NEvent (EvTask 0) \<notin> covered L"
    and g: "stack_given (idle_param name s) s" and n: "name \<noteq> 0" "text_addr s Sym_OsIdleTask \<noteq> 0" and t: "taskID (tcb s 0) = 0"
  obtains h where "OsIdleTaskCreate name s = Some (LOS_OK, s\<lparr>g_taskCBArray := (g_taskCBArray s)(0 := idle_tcb name s),
      responseTime := (responseTime s)(NSort 0 := OS_SORT_LINK_INVALID_TIME), uwEventID := (uwEventID s)(EvTask 0 := 0),
      mallocs := tl (mallocs s), stackMem := new_stack (idle_param name s) 0 s, g_idleTaskID := 0, dl := h\<rparr>)"
    "dl_rep h (L(NFreeTask \<mapsto> xs, NEvent (EvTask 0) \<mapsto> []))"
proof -
  let ?p = "idle_param name s"
  have pc: "OsTaskInitParamCheck (Some ?p) s = (LOS_OK, Some ?p)"
    using n by (simp add: OsTaskInitParamCheck_def idle_param_def Let_def)
  have rc: "OsRecycleFinishedTask s = Some s"
    using list_empty [OF R L(1)] by (subst OsRecycleFinishedTask.simps) simp
  have f: "\<not> LOS_ListEmpty NFreeTask (dl s)" "pstNext (dl s) NFreeTask = Some (NPend 0)"
    using list_empty [OF R L(2)] list_first [OF R L(2)] by simp_all
  obtain h1 where h1: "LOS_ListDelete (NPend 0) (dl s) = Some h1" "dl_rep h1 (L(NFreeTask \<mapsto> remove1 (NPend 0) (NPend 0 # xs)))"
    by (rule list_delete [OF R L(2)]) auto
  let ?s1 = "s\<lparr>dl := h1\<rparr>"
  have sb: "stack_base ?p ?s1 = stack_base ?p s" by (simp add: stack_base_def)
  have g1: "stack_given ?p ?s1" using g unfolding stack_given_def sb by (simp split: if_splits)
  have e1: "new_tcb ?p ?s1 = new_tcb ?p s" "new_stack ?p tid ?s1 = new_stack ?p tid s" for tid
    by (simp_all add: new_tcb_def new_stack_def stack_base_def frame_words_def fun_eq_iff)
  have r1: "bit (uwResved ?p) 31 = False" "stackAddr ?p = 0" by (simp_all add: idle_param_def)
  have c: "NEvent (EvTask 0) \<notin> covered (L(NFreeTask \<mapsto> xs))"
    using L(2,3) covered_upd_in [of "NEvent (EvTask 0)" L NFreeTask xs] by (fastforce simp: covered_def)
  have r2: "dl_rep (LOS_ListInit (NEvent (EvTask 0)) h1) (L(NFreeTask \<mapsto> xs, NEvent (EvTask 0) \<mapsto> []))"
    using list_init [of h1 "L(NFreeTask \<mapsto> xs)" "NEvent (EvTask 0)"] h1(2) c by simp
  have b: "status (s\<lparr>g_taskCBArray := (g_taskCBArray s)(0 := new_tcb ?p s (tcb s 0))\<rparr>) 0 = OS_TASK_STATUS_SUSPEND OR OS_TASK_FLAG_STACK_FREE"
    by (simp add: new_tcb_def idle_param_def)
  let ?c = "new_tcb ?p s (tcb s 0)"
  have i: "taskID ?c = 0" using t by (simp add: new_tcb_def)
  let ?s2 = "k_ListInit (NEvent (EvTask 0)) ?s1\<lparr>g_taskCBArray := (g_taskCBArray s)(0 := ?c),
      responseTime := (responseTime s)(NSort 0 := OS_SORT_LINK_INVALID_TIME), uwEventID := (uwEventID s)(EvTask 0 := 0),
      mallocs := tl (mallocs s), stackMem := new_stack ?p 0 s\<rparr>"
  have N: "OsNewTaskInit 0 ?p ?s1 = Some (LOS_OK, ?s2)" using new_task_eq [OF g1, of 0] t by (simp add: r1 e1 Let_def)
  have T: "LOS_TaskCreateOnly True (Some ?p) s = Some ((LOS_OK, Some 0), ?s2)"
    using pc rc f N k_List_eq(3) [OF h1(1)] i by (simp add: LOS_TaskCreateOnly_def)
  have "OsSchedTaskEnQueue 0 (?s2\<lparr>g_idleTaskID := 0\<rparr>) = Some (s\<lparr>g_taskCBArray := (g_taskCBArray s)(0 := idle_tcb name s),
      responseTime := (responseTime s)(NSort 0 := OS_SORT_LINK_INVALID_TIME), uwEventID := (uwEventID s)(EvTask 0 := 0),
      mallocs := tl (mallocs s), stackMem := new_stack ?p 0 s, g_idleTaskID := 0, dl := LOS_ListInit (NEvent (EvTask 0)) h1\<rparr>)"
    using i b by (simp add: OsSchedTaskEnQueue_def bind_los_assert k_ListInit_def los_defs idle_tcb_def)
  then have O: "OsIdleTaskCreate name s = Some (LOS_OK, s\<lparr>g_taskCBArray := (g_taskCBArray s)(0 := idle_tcb name s),
      responseTime := (responseTime s)(NSort 0 := OS_SORT_LINK_INVALID_TIME), uwEventID := (uwEventID s)(EvTask 0 := 0),
      mallocs := tl (mallocs s), stackMem := new_stack ?p 0 s, g_idleTaskID := 0, dl := LOS_ListInit (NEvent (EvTask 0)) h1\<rparr>)"
    using T by (simp add: OsIdleTaskCreate_def idle_param_def OsSchedSetIdleTaskSchedParam_def OS_TCB_FROM_TID_def)
  show thesis by (rule that [OF O r2])
qed


subsection \<open>The memory after reset, and after LOS_KernelInit\<close>

text \<open>
  After reset the scheduler has not started, the clock can run for \<open>n\<close> periods, and
  malloc has room for the five blocks that are asked for; the last is the stack of the
  idle task.  The positions outside the array of control blocks count as unused.
\<close>

definition reset_ok :: "nat \<Rightarrow> u32 list \<Rightarrow> kstate \<Rightarrow> bool" where
  "reset_ok n ms s \<longleftrightarrow> \<not> g_taskScheduled s \<and> \<not> pmMode s \<and> \<not> os_int_active s \<and> \<not> cfg_swtmr s \<and>
     tick_ok n (tk s) \<and> text_addr s Sym_OsIdleTask \<noteq> 0 \<and>
     (\<forall>t. 25 < t \<longrightarrow> taskStatus (tcb s t) = OS_TASK_STATUS_UNUSED \<and> taskID (tcb s t) = 25 \<and> startTime (tcb s t) = 0) \<and>
     (\<exists>a b c d e. mallocs s = a # b # c # d # e # ms \<and> 0 \<notin> {a, b, c, d, e} \<and> unat e + 0x500 \<le> 2 ^ 32)"

definition bootL :: "node \<Rightarrow> node list option" where
  "bootL = (pri_lists 32 [NFreeTask \<mapsto> map NPend [0..<25], NRecycle \<mapsto> []])(NTaskSort \<mapsto> [],
     NUnusedSem \<mapsto> map NSem [0..<48], NUnusedMux \<mapsto> map NMux [0..<24], NFreeQueue \<mapsto> map NQWrite [0..<24],
     NFreeTask \<mapsto> map NPend [1..<25], NEvent (EvTask 0) \<mapsto> [])"

lemma not_covered_init:
  "L q = None \<Longrightarrow> (\<And>p xs. L p = Some xs \<Longrightarrow> q \<notin> set xs) \<Longrightarrow> q \<notin> covered L"
  by (fastforce simp: covered_def)

lemma kernel_init_law:
  assumes R: "reset_ok n ms s" and n: "name \<noteq> 0"
  obtains s' c where "LOS_KernelInit LOS_OK name s = Some (LOS_OK, s')" "dl_rep (dl s') bootL"
    "\<And>t. tcb s' t = (if t = 0 then c else task_table s t)"
    "taskStatus c = OS_TASK_STATUS_READY OR OS_TASK_FLAG_STACK_FREE" "priority c = 31" "taskID c = 0" "startTime c = 0"
    "stackMem s' (topOfStack c) = Some OS_TASK_MAGIC_WORD" "responseTime s' (NSort 0) = OS_SORT_LINK_INVALID_TIME"
    "runTask s' = Some 25" "g_idleTaskID s' = 0" "g_queueBitmap s' = 0" "g_taskMaxNum s' = 25" "mallocs s' = ms"
    "now_of (tk s') = now_of (tk s)" "tick_ok n (tk s')" "g_losTaskLock s' = g_losTaskLock s"
    "\<not> g_taskScheduled s'" "\<not> pmMode s'" "\<not> os_int_active s'" "\<not> cfg_swtmr s'"
    "\<And>i. i < 48 \<Longrightarrow> semID (sem s' i) = of_nat i \<and> semStat (sem s' i) = OS_SEM_UNUSED"
    "\<And>i. i < 24 \<Longrightarrow> muxID (mux s' i) = of_nat i \<and> muxStat (mux s' i) = OS_MUX_UNUSED"
    "\<And>i. i < 24 \<Longrightarrow> que s' i = null_queue\<lparr>queueID := of_nat i\<rparr>"
    "topOfStack c = mallocs s ! 4"
proof -
  obtain a b c d e where m: "mallocs s = a # b # c # d # e # ms" "0 \<notin> {a, b, c, d, e}" "unat e + 0x500 \<le> 2 ^ 32"
    using R by (auto simp: reset_ok_def)
  define k where "k = (tk s)\<lparr>timer_freq := OS_SYS_CLOCK, g_sysClock := OS_SYS_CLOCK,
    g_cyclesPerTick := OS_SYS_CLOCK div 100, g_sysTimerIsInit := True\<rparr>"
  have k: "OsTickTimerInit (tk s) = (LOS_OK, k)" by (simp add: OsTickTimerInit_def SysTickStart_def k_def)
  have tk: "tick_ok n k" "now_of k = now_of (tk s)" using R by (simp_all add: reset_ok_def tick_ok_def now_of_def k_def)
  let ?s0 = "s\<lparr>tk := k\<rparr>"
  have m0: "mallocs ?s0 = a # b # c # d # e # ms" "a \<noteq> 0" using m by simp_all
  obtain h1 rt ev where 1: "OsTaskInit ?s0 = Some (LOS_OK, SchedTimeBaseInit (?s0\<lparr>g_taskMaxNum := 25, mallocs := b # c # d # e # ms,
      responseTime := rt, uwEventID := ev, g_taskCBArray := task_table ?s0, newTask := None, runTask := Some 25,
      g_idleTaskID := OS_INVALID, g_queueBitmap := 0, dl := h1\<rparr>))"
    and r1: "dl_rep h1 ((pri_lists 32 [NFreeTask \<mapsto> map NPend [0..<25], NRecycle \<mapsto> []])(NTaskSort \<mapsto> []))"
    by (rule task_init_law [OF m0])
  define s1 where "s1 = SchedTimeBaseInit (?s0\<lparr>g_taskMaxNum := 25, mallocs := b # c # d # e # ms,
      responseTime := rt, uwEventID := ev, g_taskCBArray := task_table ?s0, newTask := None, runTask := Some 25,
      g_idleTaskID := OS_INVALID, g_queueBitmap := 0, dl := h1\<rparr>)"
  let ?L1 = "(pri_lists 32 [NFreeTask \<mapsto> map NPend [0..<25], NRecycle \<mapsto> []])(NTaskSort \<mapsto> [])"
  have x1: "dl_rep (dl s1) ?L1" "mallocs s1 = b # c # d # e # ms" "b \<noteq> 0"
    using r1 m by (simp_all add: s1_def SchedTimeBaseInit_def Let_def)
  have c1: "NUnusedSem \<notin> covered ?L1" "NSem i \<notin> covered ?L1" for i
    by (auto simp: covered_def pri_lists_def split: node.splits if_splits)
  obtain h2 where 2: "OsSemInit s1 = Some (LOS_OK, s1\<lparr>mallocs := c # d # e # ms,
        g_allSem := \<lambda>i. if i < 48 then (sem s1 i)\<lparr>semID := of_nat i, semStat := OS_SEM_UNUSED\<rparr> else sem s1 i, dl := h2\<rparr>)"
    "dl_rep h2 (?L1(NUnusedSem \<mapsto> map NSem [0..<48]))"
    using pool_init_laws(1) [OF x1(2,3,1) c1] by blast
  define s2 where "s2 = s1\<lparr>mallocs := c # d # e # ms,
        g_allSem := \<lambda>i. if i < 48 then (sem s1 i)\<lparr>semID := of_nat i, semStat := OS_SEM_UNUSED\<rparr> else sem s1 i, dl := h2\<rparr>"
  let ?L2 = "?L1(NUnusedSem \<mapsto> map NSem [0..<48])"
  have x2: "dl_rep (dl s2) ?L2" "mallocs s2 = c # d # e # ms" "c \<noteq> 0" using 2 m by (simp_all add: s2_def)
  have c2: "NUnusedMux \<notin> covered ?L2" "NMux i \<notin> covered ?L2" for i
    by (auto simp: covered_def pri_lists_def split: node.splits if_splits)
  obtain h3 where 3: "OsMuxInit s2 = Some (LOS_OK, s2\<lparr>mallocs := d # e # ms,
        g_allMux := \<lambda>i. if i < 24 then (mux s2 i)\<lparr>muxID := of_nat i, owner := None, muxStat := OS_MUX_UNUSED\<rparr> else mux s2 i, dl := h3\<rparr>)"
    "dl_rep h3 (?L2(NUnusedMux \<mapsto> map NMux [0..<24]))"
    using pool_init_laws(2) [OF x2(2,3,1) c2] by blast
  define s3 where "s3 = s2\<lparr>mallocs := d # e # ms,
        g_allMux := \<lambda>i. if i < 24 then (mux s2 i)\<lparr>muxID := of_nat i, owner := None, muxStat := OS_MUX_UNUSED\<rparr> else mux s2 i, dl := h3\<rparr>"
  let ?L3 = "?L2(NUnusedMux \<mapsto> map NMux [0..<24])"
  have x3: "dl_rep (dl s3) ?L3" "mallocs s3 = d # e # ms" "d \<noteq> 0" using 3 m by (simp_all add: s3_def)
  have c3: "NFreeQueue \<notin> covered ?L3" "NQWrite i \<notin> covered ?L3" for i
    by (auto simp: covered_def pri_lists_def split: node.splits if_splits)
  obtain h4 where 4: "OsQueueInit s3 = Some (LOS_OK, s3\<lparr>mallocs := e # ms,
        g_allQueue := \<lambda>i. if i < 24 then null_queue\<lparr>queueID := of_nat i\<rparr> else que s3 i, dl := h4\<rparr>)"
    "dl_rep h4 (?L3(NFreeQueue \<mapsto> map NQWrite [0..<24]))"
    using pool_init_laws(3) [OF x3(2,3,1) c3] by blast
  define s4 where "s4 = s3\<lparr>mallocs := e # ms,
        g_allQueue := \<lambda>i. if i < 24 then null_queue\<lparr>queueID := of_nat i\<rparr> else que s3 i, dl := h4\<rparr>"
  let ?L4 = "?L3(NFreeQueue \<mapsto> map NQWrite [0..<24])"
  note S = s4_def s3_def s2_def s1_def SchedTimeBaseInit_def Let_def
  have u: "[0..<25] = 0 # [1..<25 :: nat]" by (simp add: upt_rec)
  have x4: "dl_rep (dl s4) ?L4" "?L4 NRecycle = Some []" "?L4 NFreeTask = Some (NPend 0 # map NPend [1..<25])"
    "NEvent (EvTask 0) \<notin> covered ?L4" "text_addr s4 Sym_OsIdleTask \<noteq> 0" "taskID (tcb s4 0) = 0"
    using 4 R by (simp_all add: S u reset_ok_def task_table_def del: upt_rec_numeral)
      (auto simp: covered_def pri_lists_def split: node.splits if_splits)
  have l: "stack_len (idle_param name s4) = 0x500" by (simp add: stack_len_def idle_param_def LOS_Align_def)
  have g: "stack_given (idle_param name s4) s4"
    using m by (simp add: stack_given_def l stack_base_def) (simp add: idle_param_def S)
  obtain h5 where 5: "OsIdleTaskCreate name s4 = Some (LOS_OK, s4\<lparr>g_taskCBArray := (g_taskCBArray s4)(0 := idle_tcb name s4),
      responseTime := (responseTime s4)(NSort 0 := OS_SORT_LINK_INVALID_TIME), uwEventID := (uwEventID s4)(EvTask 0 := 0),
      mallocs := tl (mallocs s4), stackMem := new_stack (idle_param name s4) 0 s4, g_idleTaskID := 0, dl := h5\<rparr>)"
    "dl_rep h5 (?L4(NFreeTask \<mapsto> map NPend [1..<25], NEvent (EvTask 0) \<mapsto> []))"
    by (rule idle_create_law [OF x4(1-4) g n x4(5,6)])
  have O: "LOS_KernelInit LOS_OK name s = Some (LOS_OK, s4\<lparr>g_taskCBArray := (g_taskCBArray s4)(0 := idle_tcb name s4),
      responseTime := (responseTime s4)(NSort 0 := OS_SORT_LINK_INVALID_TIME), uwEventID := (uwEventID s4)(EvTask 0 := 0),
      mallocs := tl (mallocs s4), stackMem := new_stack (idle_param name s4) 0 s4, g_idleTaskID := 0, dl := h5\<rparr>)"
    using k 1 2(1) 3(1) 4(1) 5(1) by (simp add: LOS_KernelInit_def s1_def [symmetric] s2_def [symmetric] s3_def [symmetric] s4_def [symmetric])
  have T: "tcb s4 t = task_table s t" for t by (simp add: S task_table_def)
  show thesis
    by (rule that [OF O, of "idle_tcb name s4"])
      (use 5(2) T tk R m(1) new_stack_magic [OF g] in \<open>simp_all add: bootL_def reset_ok_def S idle_tcb_def new_tcb_def idle_param_def stack_base_def task_table_def null_tcb_def del: upt_rec_numeral\<close>)
qed

subsection \<open>The invariants before the scheduler starts\<close>

definition init_inv :: "evref set \<Rightarrow> nat \<Rightarrow> kstate \<Rightarrow> (node \<Rightarrow> node list option) \<Rightarrow> bool" where
  "init_inv E n s L \<longleftrightarrow> kinv n s L \<and> sem_inv s L \<and> mux_inv s L \<and> queue_inv s L \<and>
     (\<forall>e. event_inv e s L) \<and> (\<forall>e \<in> E. L (NEvent e) \<noteq> None) \<and> ids_ok s \<and>
     \<not> g_taskScheduled s \<and> \<not> pmMode s \<and> \<not> os_int_active s \<and> \<not> cfg_swtmr s \<and>
     (\<forall>t. \<not> (is_running (status s t) \<and> \<not> is_unused (status s t)))"

lemma bootL_eq:
  "bootL (NPri p) = (if p < 32 then Some [] else None)" "bootL NTaskSort = Some []" "bootL NRecycle = Some []"
  "bootL NFreeTask = Some (map NPend [1..<25])" "bootL NUnusedSem = Some (map NSem [0..<48])"
  "bootL NUnusedMux = Some (map NMux [0..<24])" "bootL NFreeQueue = Some (map NQWrite [0..<24])"
  "bootL (NEvent e) = (if e = EvTask 0 then Some [] else None)" "bootL (NPend t) = None" "bootL (NSort t) = None"
  "bootL (NSwtmr t) = None" "bootL (NJoin t) = None" "bootL (NSem i) = None" "bootL (NMux i) = None"
  "bootL (NQRead i) = None" "bootL (NQWrite i) = None" "bootL (NQMem i) = None" "bootL NSwtmrSort = None"
  by (simp_all add: bootL_def pri_lists_def del: upt_rec_numeral)

lemma bootL_mem:
  "mem bootL q (NPend t) \<longleftrightarrow> q = NFreeTask \<and> 1 \<le> t \<and> t < 25" "\<not> mem bootL q (NSort t)"
  "mem bootL NUnusedSem (NSem i) \<longleftrightarrow> i < 48" "mem bootL NUnusedMux (NMux i) \<longleftrightarrow> i < 24"
  "mem bootL NFreeQueue (NQWrite i) \<longleftrightarrow> i < 24" "mem bootL q m \<Longrightarrow> holds q m"
  by (cases q; auto simp: mem_def bootL_eq split: if_splits simp del: upt_rec_numeral)+

lemma boot_status:
  "bit (OS_TASK_STATUS_UNUSED OR OS_TASK_STATUS_RUNNING) k \<longleftrightarrow> k = 0 \<or> k = 4"
  "bit (OS_TASK_STATUS_READY OR OS_TASK_FLAG_STACK_FREE) k \<longleftrightarrow> k = 2 \<or> k = 11"
proof -
  have e: "(0x11 :: u16) = 2 ^ 0 OR 2 ^ 4" "(0x804 :: u16) = 2 ^ 2 OR 2 ^ 11" by simp_all
  have "bit (0x11 :: u16) k \<longleftrightarrow> k = 0 \<or> k = 4"
    unfolding e by (simp only: bit_or_iff bit_exp_iff possible_bit_word) auto
  then show "bit (OS_TASK_STATUS_UNUSED OR OS_TASK_STATUS_RUNNING) k \<longleftrightarrow> k = 0 \<or> k = 4" by simp
  have "bit (0x804 :: u16) k \<longleftrightarrow> k = 2 \<or> k = 11"
    unfolding e by (simp only: bit_or_iff bit_exp_iff possible_bit_word) auto
  then show "bit (OS_TASK_STATUS_READY OR OS_TASK_FLAG_STACK_FREE) k \<longleftrightarrow> k = 2 \<or> k = 11" by simp
qed

lemma kernel_init_inv:
  assumes R: "reset_ok n ms s" and nm: "name \<noteq> 0"
  obtains s' where "LOS_KernelInit LOS_OK name s = Some (LOS_OK, s')" "init_inv {} n s' bootL"
    "spare_ok s' bootL" "spares [1..<25] [] bootL" "mallocs s' = ms" "g_losTaskLock s' = g_losTaskLock s"
    "OS_TCB_FROM_TID (g_idleTaskID s') = 0" "priority (tcb s' 0) = OS_TASK_PRIORITY_LOWEST" "is_ready (status s' 0)"
    "g_idleTaskID s' = 0" "runTask s' = Some 25" "topOfStack (tcb s' 0) = mallocs s ! 4" "topOfStack (tcb s' 25) = 0"
    "\<And>t. is_unused (status s' t) \<longleftrightarrow> t \<noteq> 0"
proof -
  obtain s' c where O: "LOS_KernelInit LOS_OK name s = Some (LOS_OK, s')" and r: "dl_rep (dl s') bootL"
    and T: "\<And>t. tcb s' t = (if t = 0 then c else task_table s t)"
    and c: "taskStatus c = OS_TASK_STATUS_READY OR OS_TASK_FLAG_STACK_FREE" "priority c = 31" "taskID c = 0" "startTime c = 0"
      "stackMem s' (topOfStack c) = Some OS_TASK_MAGIC_WORD" "responseTime s' (NSort 0) = OS_SORT_LINK_INVALID_TIME"
    and e: "runTask s' = Some 25" "g_idleTaskID s' = 0" "g_queueBitmap s' = 0" "g_taskMaxNum s' = 25" "mallocs s' = ms"
      "now_of (tk s') = now_of (tk s)" "tick_ok n (tk s')" "g_losTaskLock s' = g_losTaskLock s"
      "\<not> g_taskScheduled s'" "\<not> pmMode s'" "\<not> os_int_active s'" "\<not> cfg_swtmr s'"
    and S: "\<And>i. i < 48 \<Longrightarrow> semID (sem s' i) = of_nat i \<and> semStat (sem s' i) = OS_SEM_UNUSED"
    and M: "\<And>i. i < 24 \<Longrightarrow> muxID (mux s' i) = of_nat i \<and> muxStat (mux s' i) = OS_MUX_UNUSED"
    and Q: "\<And>i. i < 24 \<Longrightarrow> que s' i = null_queue\<lparr>queueID := of_nat i\<rparr>"
    and b: "topOfStack c = mallocs s ! 4"
    by (rule kernel_init_law [OF R nm]) (rule that; assumption)
  have out: "taskStatus (tcb s t) = OS_TASK_STATUS_UNUSED" "taskID (tcb s t) = 25" "startTime (tcb s t) = 0" if "25 < t" for t
    using R that by (auto simp: reset_ok_def)
  have st: "bit (status s' t) k \<longleftrightarrow> (if t = 0 then k = 2 \<or> k = 11 else k = 0 \<or> t = 25 \<and> k = 4)" for t k
    using c(1) out(1) [of t] boot_status [of k] by (auto simp: T task_table_def null_tcb_def bit_1_iff)
  have id: "taskID (tcb s' t) = (if t < 25 then of_nat t else 25)" for t
    using c(3) out(2) [of t] by (simp add: T task_table_def)
  have w: "(of_nat t :: u32) = 0 \<longleftrightarrow> t = 0" if "t < 25" for t using that by (simp add: word_unat_eq_iff unat_of_nat)
  then have id0: "taskID (tcb s' t) = 0 \<longleftrightarrow> t = 0" for t by (simp add: id)
  have sT: "startTime (tcb s' t) = 0" for t using c(4) out(3) [of t] by (simp add: T task_table_def null_tcb_def)
  have G: "glob_ok s' bootL"
    using r bootL_mem(6) by (simp add: glob_ok_def bootL_eq e)
  have K: "task_ok s' bootL t" for t
    unfolding task_ok_def flags_ok_def loc_ok_def ready_def delayed_def st bootL_mem e id0
    using c T [of 0] by (auto simp: OS_TCB_FROM_TID_def bootL_mem)
  have "run_ok s'" by (simp add: run_ok_def e st)
  moreover have "sys_ok n s'"
    unfolding sys_ok_def idle_slot_def using e(7,9) c(5) id0 sT T [of 0] by (auto simp: st e OS_TCB_FROM_TID_def)
  ultimately have I: "kinv n s' bootL" using G K by (simp add: kinv_def sched_inv_def)
  have "sem_inv s' bootL" using S by (simp add: sem_inv_def sem_ok_def bootL_mem bootL_eq)
  moreover have "mux_inv s' bootL" using M by (simp add: mux_inv_def mux_ok_def bootL_mem bootL_eq)
  moreover have "queue_inv s' bootL"
    using Q fresh_iff [OF I] by (simp add: queue_inv_def queue_ok_def bootL_mem bootL_eq null_queue_def)
  moreover have "event_inv ev s' bootL" for ev by (simp add: event_inv_def bootL_mem)
  moreover have "ids_ok s'" by (auto simp: ids_ok_def e id st)
  ultimately have J: "init_inv {} n s' bootL" using I e by (simp add: init_inv_def st)
  have sp: "spare_ok s' bootL" by (auto simp: spare_ok_def spare_def bootL_mem bootL_eq e st id w)
  show thesis
    by (rule that [OF O J sp]) (use e c b T [of 0] T [of 25] in
      \<open>simp_all add: spares_def bootL_eq OS_TCB_FROM_TID_def st task_table_def null_tcb_def del: upt_rec_numeral\<close>)
qed

subsection \<open>Starting the scheduler\<close>

lemma init_D:
  assumes "init_inv E n s L"
  shows "kinv n s L" "sem_inv s L" "mux_inv s L" "queue_inv s L" "event_inv e s L" "e \<in> E \<Longrightarrow> L (NEvent e) \<noteq> None"
    "ids_ok s" "\<not> g_taskScheduled s" "\<not> pmMode s" "\<not> os_int_active s" "\<not> cfg_swtmr s"
    "\<not> (is_running (status s t) \<and> \<not> is_unused (status s t))"
  using assms by (simp_all add: init_inv_def)

text \<open>HalStartToRun writes the status of a running task; the invariant reads no other field of it.\<close>

lemma plain_running:
  assumes I: "sched_inv s L" and r: "runTask s = Some t" "\<not> blocked (status s t)"
    and s': "tcb s' t = (tcb s t)\<lparr>taskStatus := OS_TASK_STATUS_RUNNING\<rparr>" "\<And>u. u \<noteq> t \<Longrightarrow> tcb s' u = tcb s u"
      "dl s' = dl s" "responseTime s' = responseTime s" "g_queueBitmap s' = g_queueBitmap s" "runTask s' = runTask s"
      "g_idleTaskID s' = g_idleTaskID s" "cfg_swtmr s' = cfg_swtmr s"
  shows "sched_inv s' L"
proof -
  have G: "glob_ok s L" and K: "\<And>u. task_ok s L u" and R: "is_running (status s t)"
    using I r(1) by (auto simp: sched_inv_def run_ok_def)
  have st: "bit (status s' t) k \<longleftrightarrow> k = 4" for k
    using bit_exp_iff [of 4 k, where 'a = u16] by (auto simp: s'(1) possible_bit_word)
  have T: "task_ok s' L t"
    using K [of t] R r unfolding task_ok_def flags_ok_def loc_ok_def ready_def delayed_def st blocked_def
    by (auto simp: s')
  have U: "task_ok s' L u" for u
    using T task_ok_cong [of s' u s L L] K [of u] s' by (cases "u = t") simp_all
  have "glob_ok s' L" using glob_ok_cong [OF G] s' by simp
  with U R st show ?thesis by (simp add: sched_inv_def run_ok_def s'(6) r(1))
qed

lemma sched_start_law:
  assumes C: "init_inv E (Suc n) s L"
  obtains new s2 L' where "OsGetTopTask s = Some new" "top_of s new" "\<not> blocked (status s new)"
    "OsSchedStart R s = Some s2" "sched_inv s2 L'" "\<And>q. \<not> is_pri q \<Longrightarrow> L' q = L q"
    "runTask s2 = Some new" "newTask s2 = Some new" "g_taskScheduled s2" "tick_ok n (tk s2)" "now_of (tk s) \<le> now_of (tk s2)"
    "tcb s2 new = (tcb s new)\<lparr>startTime := now_of (tk s),
        taskStatus := (status s new OR OS_TASK_STATUS_RUNNING) AND NOT OS_TASK_STATUS_READY\<rparr>"
    "\<And>u. u \<noteq> new \<Longrightarrow> tcb s2 u = tcb s u" "g_allSem s2 = g_allSem s" "g_allMux s2 = g_allMux s" "g_allQueue s2 = g_allQueue s"
    "uwEventID s2 = uwEventID s" "stackMem s2 = stackMem s" "g_idleTaskID s2 = g_idleTaskID s" "g_taskMaxNum s2 = g_taskMaxNum s"
    "\<not> pmMode s2" "\<not> os_int_active s2"
proof -
  note D = init_D [OF C]
  have ok: "sys_ok (Suc n) s" "tick_ok (Suc n) (tk s)" and A: "all_ok s L" and i: "idle_slot s"
    using D(1) by (simp_all add: kinv_def sched_inv_def all_ok_def sys_ok_def)
  obtain new where new: "OsGetTopTask s = Some new" "top_of s new" "ready s new \<or> taskID (tcb s new) = g_idleTaskID s"
    by (rule top_task_ready [OF A i])
  let ?k = "(tk s)\<lparr>g_oldTickTimerBase := now_of (tk s)\<rparr>"
  let ?s1 = "s\<lparr>newTask := Some new, runTask := Some new, tk := ?k\<rparr>"
  have A1: "all_ok ?s1 L"
  proof -
    have "glob_ok ?s1 L" using A glob_ok_cong [of s L ?s1] by (simp add: all_ok_def)
    moreover have "task_ok ?s1 L u" for u
      using A task_ok_not_running [of s L u ?s1 L] D(12) [of u] by (simp add: all_ok_def)
    ultimately show ?thesis by (simp add: all_ok_def)
  qed
  have n1: "ready ?s1 new \<or> taskID (tcb ?s1 new) = g_idleTaskID ?s1" using new(3) by (simp add: ready_def)
  have N1: "\<not> (is_running (status ?s1 u) \<and> \<not> is_unused (status ?s1 u))" for u using D(12) [of u] by simp
  obtain d h bm L' where d: "OsSchedTaskDeQueue new (mark_new new (now_of (tk s)) ?s1) = Some d"
    "d = ?s1\<lparr>dl := h, g_queueBitmap := bm, g_taskCBArray := (g_taskCBArray ?s1)(new := (tcb ?s1 new)\<lparr>
        startTime := now_of (tk s),
        taskStatus := (status ?s1 new OR OS_TASK_STATUS_RUNNING) AND NOT OS_TASK_STATUS_READY\<rparr>)\<rparr>"
    and I: "sched_inv (d\<lparr>runTask := Some new\<rparr>) L'" and Q: "\<And>q. \<not> is_pri q \<Longrightarrow> L' q = L q"
    by (rule run_new_law [OF A1 N1 n1, where now = "now_of (tk s)"]) (rule that; assumption)
  let ?d = "d\<lparr>tk := ?k\<lparr>g_tickTimerStartTime := now_of (tk s)\<rparr>, g_taskScheduled := True,
    g_schedResponseTime := OS_SCHED_MAX_RESPONSE_TIME, g_schedResponseID := OS_INVALID\<rparr>"
  have I1: "sched_inv ?d L'"
  proof -
    have e: "d\<lparr>runTask := Some new\<rparr> = d" using d(2) by simp
    have "glob_ok ?d L'" "run_ok ?d" using I glob_ok_cong [of d L' ?d] by (simp_all add: sched_inv_def e run_ok_def)
    moreover have "task_ok ?d L' u" for u using I task_ok_cong [of ?d u d L' L'] by (simp add: sched_inv_def e)
    ultimately show ?thesis by (simp add: sched_inv_def)
  qed
  have t1: "tick_ok (Suc n) (tk ?d)" "now_of (tk ?d) = now_of (tk s)" using ok(2) by (simp_all add: tick_ok_def now_of_def)
  have g1: "glob_ok ?d L'" using I1 by (simp add: sched_inv_def)
  obtain s2 where 2: "OsSchedSetNextExpireTime (taskID (tcb ?d new)) (startTime (tcb ?d new) + scast (timeSlice (tcb ?d new))) ?d = Some s2"
    "tframe ?d s2" "tick_ok n (tk s2)" "now_of (tk ?d) \<le> now_of (tk s2)"
    by (rule set_next_expire_law [OF g1 t1(1)])
  have m: "OsGetCurrSchedTimeCycle (or_status new OS_TASK_STATUS_RUNNING s\<lparr>newTask := Some new, runTask := Some new\<rparr>) =
     Some (now_of (tk s), or_status new OS_TASK_STATUS_RUNNING s\<lparr>newTask := Some new, runTask := Some new, tk := ?k\<rparr>)"
    using curr_time_law [of "Suc n" "or_status new OS_TASK_STATUS_RUNNING s\<lparr>newTask := Some new, runTask := Some new\<rparr>"] ok(2)
    by (simp add: or_status_def upd_tcb_def)
  have m2: "upd_tcb new (\<lambda>c. c\<lparr>startTime := now_of (tk s)\<rparr>)
      (or_status new OS_TASK_STATUS_RUNNING s\<lparr>newTask := Some new, runTask := Some new, tk := ?k\<rparr>) = mark_new new (now_of (tk s)) ?s1"
    by (simp add: mark_new_def or_status_def upd_tcb_def)
  have O: "OsSchedStart R s = Some s2"
    using 2(1) D(11) d(2) by (simp add: OsSchedStart_def new(1) m m2 d(1) OsTickSysTimerStartTimeSet_def Let_def)
  show thesis
    by (rule that [OF new(1,2) all_ok_chosen [OF A new(3)] O sched_inv_tframe [OF 2(2) I1] Q])
      (use 2(2-4) t1(2) d(2) D(9,10) in \<open>auto simp: tframe_def\<close>)
qed

lemma start_law:
  assumes C: "init_inv E (Suc n) s L"
  obtains new s2 s3 L' where "OsGetTopTask s = Some new" "top_of s new" "OsSchedStart R s = Some s2" "HalStartToRun s2 = Some s3"
    "core_inv E n s3 L'" "runTask s3 = Some new" "\<And>u. u \<noteq> new \<Longrightarrow> tcb s3 u = tcb s u"
    "tcb s3 new = (tcb s new)\<lparr>startTime := now_of (tk s), taskStatus := OS_TASK_STATUS_RUNNING\<rparr>"
    "\<not> blocked (status s new)"
proof -
  note D = init_D [OF C]
  have ok: "sys_ok (Suc n) s" using D(1) by (simp add: kinv_def)
  obtain new s2 L' where 2: "OsGetTopTask s = Some new" "top_of s new" "\<not> blocked (status s new)"
    "OsSchedStart R s = Some s2" "sched_inv s2 L'" and Q: "\<And>q. \<not> is_pri q \<Longrightarrow> L' q = L q" and
    r: "runTask s2 = Some new" "newTask s2 = Some new" "g_taskScheduled s2" "tick_ok n (tk s2)" "now_of (tk s) \<le> now_of (tk s2)" and
    c: "tcb s2 new = (tcb s new)\<lparr>startTime := now_of (tk s),
        taskStatus := (status s new OR OS_TASK_STATUS_RUNNING) AND NOT OS_TASK_STATUS_READY\<rparr>"
    "\<And>u. u \<noteq> new \<Longrightarrow> tcb s2 u = tcb s u" and
    p: "g_allSem s2 = g_allSem s" "g_allMux s2 = g_allMux s" "g_allQueue s2 = g_allQueue s"
    "uwEventID s2 = uwEventID s" "stackMem s2 = stackMem s" "g_idleTaskID s2 = g_idleTaskID s" "g_taskMaxNum s2 = g_taskMaxNum s"
    "\<not> pmMode s2" "\<not> os_int_active s2"
    by (rule sched_start_law [OF C]) (rule that; assumption)
  define s3 where "s3 = upd_tcb new (\<lambda>c. c\<lparr>taskStatus := OS_TASK_STATUS_RUNNING\<rparr>) s2"
  have H: "HalStartToRun s2 = Some s3" by (simp add: HalStartToRun_def r(2) s3_def)
  have c3: "tcb s3 new = (tcb s new)\<lparr>startTime := now_of (tk s), taskStatus := OS_TASK_STATUS_RUNNING\<rparr>"
    "\<And>u. u \<noteq> new \<Longrightarrow> tcb s3 u = tcb s u" by (simp_all add: s3_def upd_tcb_def c)
  have nb: "\<not> blocked (status s2 new)" using 2(3) by (simp add: c(1) blocked_def flag_simps)
  have I: "sched_inv s3 L'"
    by (rule plain_running [OF 2(5) r(1) nb]) (simp_all add: s3_def upd_tcb_def)
  have st: "bit (status s3 new) k \<longleftrightarrow> k = 4" for k
    using bit_exp_iff [of 4 k, where 'a = u16] by (auto simp: c3(1) possible_bit_word)
  have tt: "startTime (tcb s u) \<le> now_of (tk s)" and
    w: "\<not> is_unused (status s u) \<Longrightarrow> \<not> is_exit (status s u) \<Longrightarrow> stackMem s (topOfStack (tcb s u)) = Some OS_TASK_MAGIC_WORD"
    and sl: "idle_slot s" for u
    using ok by (simp_all add: sys_ok_def)
  have un: "is_unused (status s3 u) = is_unused (status s u)" for u
    using 2(3) c3(2) st [of 0] by (cases "u = new") (simp_all add: blocked_def)
  have un2: "taskID (tcb s3 u) = taskID (tcb s u)" for u by (cases "u = new") (simp_all add: c3)
  have un3: "startTime (tcb s3 u) \<le> now_of (tk s2)" for u
    using order_trans [OF tt r(5)] r(5) by (cases "u = new") (simp_all add: c3)
  have m3: "stackMem s3 = stackMem s" "tk s3 = tk s2" by (simp_all add: s3_def upd_tcb_def p(5))
  have mw: "stackMem s (topOfStack (tcb s3 u)) = Some OS_TASK_MAGIC_WORD"
    if "\<not> is_unused (status s3 u) \<and> \<not> is_exit (status s3 u) \<or> u = new" for u
  proof (cases "u = new")
    case True
    then show ?thesis using w [of new] 2(3) by (simp add: c3(1) blocked_def)
  qed (use w [of u] that c3(2) in simp)
  have e: "g_allSem s3 = g_allSem s" "g_allMux s3 = g_allMux s" "g_allQueue s3 = g_allQueue s" "uwEventID s3 = uwEventID s"
    "g_idleTaskID s3 = g_idleTaskID s" "g_taskMaxNum s3 = g_taskMaxNum s" "g_taskScheduled s3" "\<not> pmMode s3" "\<not> os_int_active s3"
    "runTask s3 = Some new"
    using p r by (simp_all add: s3_def upd_tcb_def)
  have "sys_ok n s3"
    unfolding sys_ok_def idle_slot_def m3 e using r(4) un3 sl mw un2 by (simp add: idle_slot_def)
  with I have K: "kinv n s3 L'" by (simp add: kinv_def)
  have "sem_inv s3 L'" by (rule sem_inv_lists [OF D(2)]) (simp_all add: e Q)
  moreover have "mux_inv s3 L'" by (rule mux_keep [OF D(3)]) (simp_all add: e Q alive_def un un2)
  moreover have "queue_inv s3 L'" by (rule queue_keep [OF D(4,1) K]) (simp_all add: e Q)
  moreover have "event_inv ev s3 L'" for ev
  proof (rule event_keep [OF D(5)])
    show "eventMask (tcb s3 t) = eventMask (tcb s t) \<and> eventMode (tcb s3 t) = eventMode (tcb s t)" for t
      by (cases "t = new") (simp_all add: c3)
  qed (simp_all add: e Q)
  moreover have "ids_ok s3" using D(7) by (simp add: ids_ok_def e un un2)
  moreover have "runs s3" by (simp add: runs_def e blocked_def st)
  ultimately have "core_inv E n s3 L'" using K e D(6) by (simp add: core_inv_def Q)
  then show thesis by (rule that [OF 2(1,2,4) H _ e(10) c3(2,1) 2(3)])
qed

subsection \<open>Tasks created before the scheduler starts\<close>

lemma mux_keep_more:
  assumes "mux_inv s L" "g_allMux s' = g_allMux s" "\<And>i. L' (NMux i) = L (NMux i)" "L' NUnusedMux = L NUnusedMux"
    and "\<And>t. alive s t \<Longrightarrow> alive s' t"
  shows "mux_inv s' L'"
  using assms unfolding mux_inv_def mux_ok_def by (fastforce simp: mem_def split: option.splits)

text \<open>When no control block waits to be recycled, only the new task and its lists change.\<close>

lemma create_only_first:
  assumes I: "kinv n s L" and sp: "spare_ok s L" "spares (t # fs) [] L"
    and c: "OsTaskInitParamCheck (Some p0) s = (LOS_OK, Some p)"
    and g: "stack_given p s" and ap: "stack_apart p s" and pr: "unat (usTaskPrio p) < 32"
  obtains s' h where "LOS_TaskCreateOnly True (Some p0) s = Some ((LOS_OK, Some (of_nat t)), s')"
    "kinv n s' (new_lists p t (L(NFreeTask \<mapsto> map NPend fs)))" "loose (new_lists p t (L(NFreeTask \<mapsto> map NPend fs))) t"
    "s' = s\<lparr>dl := h, g_taskCBArray := (g_taskCBArray s)(t := new_tcb p s (tcb s t)),
       responseTime := (responseTime s)(NSort t := OS_SORT_LINK_INVALID_TIME),
       uwEventID := (uwEventID s)(EvTask t := 0), mallocs := (if stackAddr p = 0 then tl (mallocs s) else mallocs s),
       stackMem := new_stack p (of_nat t) s\<rparr>"
    "is_unused (status s t)" "t < unat (g_taskMaxNum s)" "taskID (tcb s t) = of_nat t" "runTask s \<noteq> Some t"
    "taskID (tcb s t) \<noteq> g_idleTaskID s"
proof -
  have q: "L NFreeTask = Some (NPend t # map NPend fs)" "L NRecycle = Some []" using sp(2) by (simp_all add: spares_def)
  have rc: "OsRecycleFinishedTask s = Some s"
    using list_empty [OF kinv_rep [OF I] q(2)] by (subst OsRecycleFinishedTask.simps) simp
  let ?L2 = "L(NFreeTask \<mapsto> map NPend fs)"
  obtain h where 2: "k_ListDelete (NPend t) s = Some (s\<lparr>dl := h\<rparr>)" "kinv n (s\<lparr>dl := h\<rparr>) ?L2" "loose ?L2 t" "is_unused (status s t)"
    by (rule take_spare_law [OF I disjI2 [OF refl] q(1) sp(1)]) (rule that; assumption)
  have st: "spare L t" using q(1) by (simp add: spare_def mem_def)
  have tt: "t < unat (g_taskMaxNum s)" "taskID (tcb s t) = of_nat t" "runTask s \<noteq> Some t" "taskID (tcb s t) \<noteq> g_idleTaskID s"
    using sp(1) st unfolding spare_ok_def by blast+
  let ?s2 = "s\<lparr>dl := h\<rparr>"
  have sb: "stack_base p ?s2 = stack_base p s" by (simp add: stack_base_def)
  have g1: "stack_given p ?s2" using g unfolding stack_given_def sb by (simp split: if_splits)
  have ap1: "stack_apart p ?s2" using ap unfolding stack_apart_def sb by simp
  have x: "runTask ?s2 \<noteq> Some t" "taskID (tcb ?s2 t) \<noteq> g_idleTaskID ?s2" "is_unused (status ?s2 t)" using tt 2(4) by simp_all
  obtain s' where 3: "OsNewTaskInit t p ?s2 = Some (LOS_OK, s')" "kinv n s' (new_lists p t ?L2)"
    by (rule kinv_new_task [OF 2(2,3) x(1) g1 ap1 x(2) pr x(3)]) (rule that; assumption)
  have e1: "new_tcb p ?s2 = new_tcb p s" "new_stack p (of_nat t) ?s2 = new_stack p (of_nat t) s"
    by (simp_all add: new_tcb_def new_stack_def stack_base_def frame_words_def fun_eq_iff)
  have E: "\<exists>h'. s' = s\<lparr>dl := h', g_taskCBArray := (g_taskCBArray s)(t := new_tcb p s (tcb s t)),
       responseTime := (responseTime s)(NSort t := OS_SORT_LINK_INVALID_TIME),
       uwEventID := (uwEventID s)(EvTask t := 0), mallocs := (if stackAddr p = 0 then tl (mallocs s) else mallocs s),
       stackMem := new_stack p (of_nat t) s\<rparr>"
    using 3(1) new_task_eq [OF g1, of t] e1 tt(2) by (auto simp: Let_def k_ListInit_def split: if_splits)
  have lo: "loose (new_lists p t ?L2) t" using 2(3) by (auto simp: loose_def new_lists_def Let_def mem_def)
  have ne: "\<not> k_ListEmpty NFreeTask s" "pstNext (dl s) NFreeTask = Some (NPend t)"
    using list_empty [OF kinv_rep [OF I] q(1)] list_first [OF kinv_rep [OF I] q(1)] by simp_all
  have nid: "taskID (tcb s' t) = of_nat t" using E tt(2) by (auto simp: new_tcb_def)
  have O: "LOS_TaskCreateOnly True (Some p0) s = Some ((LOS_OK, Some (of_nat t)), s')"
    using c rc ne 2(1) 3(1) nid by (simp add: LOS_TaskCreateOnly_def)
  from E obtain h' where "s' = s\<lparr>dl := h', g_taskCBArray := (g_taskCBArray s)(t := new_tcb p s (tcb s t)),
       responseTime := (responseTime s)(NSort t := OS_SORT_LINK_INVALID_TIME),
       uwEventID := (uwEventID s)(EvTask t := 0), mallocs := (if stackAddr p = 0 then tl (mallocs s) else mallocs s),
       stackMem := new_stack p (of_nat t) s\<rparr>" by blast
  then show thesis by (rule that [OF O 3(2) lo _ 2(4) tt])
qed

text \<open>What a new task leaves of the rest: one more task exists, one event block more is valid.\<close>

definition adds_task :: "nat \<Rightarrow> kstate \<Rightarrow> kstate \<Rightarrow> bool" where
  "adds_task t s s' \<longleftrightarrow> g_allSem s' = g_allSem s \<and> g_allMux s' = g_allMux s \<and> g_allQueue s' = g_allQueue s \<and>
     g_idleTaskID s' = g_idleTaskID s \<and> g_taskMaxNum s' = g_taskMaxNum s \<and> g_taskScheduled s' = g_taskScheduled s \<and>
     pmMode s' = pmMode s \<and> runTask s' = runTask s \<and> os_int_active s' = os_int_active s \<and> cfg_swtmr s' = cfg_swtmr s \<and>
     uwEventID s' = (uwEventID s)(EvTask t := 0) \<and> (\<forall>u. u \<noteq> t \<longrightarrow> tcb s' u = tcb s u) \<and>
     taskID (tcb s' t) = taskID (tcb s t) \<and> is_unused (status s t) \<and> \<not> is_unused (status s' t) \<and> \<not> is_running (status s' t)"

definition adds_lists :: "nat \<Rightarrow> nat list \<Rightarrow> (node \<Rightarrow> node list option) \<Rightarrow> (node \<Rightarrow> node list option) \<Rightarrow> bool" where
  "adds_lists t fs L L' \<longleftrightarrow> (\<forall>q. \<not> is_pri q \<longrightarrow> q \<notin> {NFreeTask, NJoin t, NEvent (EvTask t)} \<longrightarrow> L' q = L q) \<and>
     L' NFreeTask = Some (map NPend fs) \<and> L' (NEvent (EvTask t)) = Some []"

lemma adds_D:
  assumes "adds_task t s s2" "adds_lists t fs L L2"
  shows "g_allSem s2 = g_allSem s" "g_allMux s2 = g_allMux s" "g_allQueue s2 = g_allQueue s" "g_idleTaskID s2 = g_idleTaskID s"
    "g_taskMaxNum s2 = g_taskMaxNum s" "g_taskScheduled s2 = g_taskScheduled s" "pmMode s2 = pmMode s" "runTask s2 = runTask s"
    "os_int_active s2 = os_int_active s" "cfg_swtmr s2 = cfg_swtmr s" "uwEventID s2 = (uwEventID s)(EvTask t := 0)"
    "is_unused (status s2 u) \<Longrightarrow> is_unused (status s u)" "taskID (tcb s2 u) = taskID (tcb s u)"
    "\<not> is_pri q \<Longrightarrow> q \<notin> {NFreeTask, NJoin t, NEvent (EvTask t)} \<Longrightarrow> L2 q = L q"
    "L2 NFreeTask = Some (map NPend fs)" "L2 (NEvent (EvTask t)) = Some []" "u \<noteq> t \<Longrightarrow> tcb s2 u = tcb s u"
    "is_unused (status s t)" "\<not> is_running (status s2 t)"
  using assms by (cases "u = t"; simp add: adds_task_def adds_lists_def)+

lemma init_add_task:
  assumes C: "init_inv E n s L" and I2: "kinv n s2 L2" and A: "adds_task t s s2" "adds_lists t fs L L2"
    and lt: "t < unat (g_taskMaxNum s)"
  shows "init_inv (insert (EvTask t) E) n s2 L2"
proof -
  note D = init_D [OF C]
  note e = adds_D(1-11) [OF A] and un = adds_D(12,13) [OF A] and Q = adds_D(14) [OF A] and Q2 = adds_D(15,16) [OF A]
    and c2 = adds_D(17) [OF A] and T = adds_D(18) [OF A]
  have "sem_inv s2 L2" by (rule sem_inv_lists [OF D(2)]) (simp_all add: e Q)
  moreover have "mux_inv s2 L2" by (rule mux_keep_more [OF D(3)]) (use un in \<open>auto simp: e Q alive_def\<close>)
  moreover have "queue_inv s2 L2" by (rule queue_keep [OF D(4,1) I2]) (simp_all add: e Q)
  moreover have "event_inv ev s2 L2" for ev
  proof (cases "ev = EvTask t")
    case True
    then show ?thesis using Q2(2) by (simp add: event_inv_def mem_def)
  next
    case False
    have "tcb s2 u = tcb s u" if "mem L (NEvent ev) (NPend u)" for u
    proof -
      have "is_pend (status s u)" using sched_inv_task [OF kinv_shape(5) [OF D(1)], of u] that by (auto simp: task_ok_def loc_ok_def)
      then show ?thesis using c2 [of u] sched_inv_task [OF kinv_shape(5) [OF D(1)], of t] T by (auto simp: task_ok_def flags_ok_def)
    qed
    then show ?thesis using event_keep [OF D(5) [of ev], of s2 L2] False by (simp add: e Q)
  qed
  moreover have "ids_ok s2"
    using D(7) lt un c2 unfolding ids_ok_def e by (metis not_less)
  moreover have "\<not> (is_running (status s2 u) \<and> \<not> is_unused (status s2 u))" for u
    using D(12) [of u] adds_D(19) [OF A] c2 [of u] by (cases "u = t") auto
  moreover have "\<forall>ev \<in> insert (EvTask t) E. L2 (NEvent ev) \<noteq> None" 
  proof
    fix ev assume "ev \<in> insert (EvTask t) E"
    then show "L2 (NEvent ev) \<noteq> None" using D(6) [of ev] Q2(2) Q [of "NEvent ev"] by (cases "ev = EvTask t") simp_all
  qed
  ultimately show ?thesis using I2 D by (simp add: init_inv_def e)
qed

lemma spare_add_task:
  assumes I: "kinv n s L" and sp: "spare_ok s L" "spares (t # fs) [] L" and A: "adds_task t s s2" "adds_lists t fs L L2"
  shows "spare_ok s2 L2"
proof -
  note e = adds_D(1-11) [OF A] and Q = adds_D(14) [OF A] and Q2 = adds_D(15,16) [OF A] and c2 = adds_D(17) [OF A]
  have q: "L NFreeTask = Some (NPend t # map NPend fs)" "L NRecycle = Some []" using sp(2) by (simp_all add: spares_def)
  have d: "t \<notin> set fs" using dl_rep_distinct [OF kinv_rep [OF I] q(1)] by auto
  show ?thesis
    unfolding spare_ok_def
  proof (intro allI impI)
    fix u assume "spare L2 u"
    then have u: "u \<in> set fs" using Q2 Q [of NRecycle] q(2) by (auto simp: spare_def mem_def)
    then have ut: "u \<noteq> t" and s: "spare L u" using d q by (auto simp: spare_def mem_def)
    show "u < unat (g_taskMaxNum s2) \<and> taskID (tcb s2 u) = of_nat u \<and> \<not> bit (status s2 u) 15 \<and>
        runTask s2 \<noteq> Some u \<and> taskID (tcb s2 u) \<noteq> g_idleTaskID s2 \<and> (L2 (NJoin u) = None \<or> L2 (NJoin u) = Some []) \<and>
        (L2 (NEvent (EvTask u)) = None \<or> L2 (NEvent (EvTask u)) = Some [])"
      using sp(1) [unfolded spare_ok_def, rule_format, OF s] ut by (auto simp: e c2 Q)
  qed
qed

lemma create_stopped_law:
  assumes C: "init_inv E n s L" and sp: "spare_ok s L" "spares (t # fs) [] L"
    and c: "OsTaskInitParamCheck (Some p0) s = (LOS_OK, Some p)"
    and g: "stack_given p s" and ap: "stack_apart p s" and pr: "unat (usTaskPrio p) < 32"
  obtains s' L' where "LOS_TaskCreate True (Some p0) s = Some ((LOS_OK, Some (of_nat t)), s')"
    "init_inv (insert (EvTask t) E) n s' L'" "spare_ok s' L'" "spares fs [] L'" "ready s' t"
    "\<And>u. u \<noteq> t \<Longrightarrow> tcb s' u = tcb s u" "priority (tcb s' t) = usTaskPrio p" "taskEntry (tcb s' t) = pfnTaskEntry p"
    "g_idleTaskID s' = g_idleTaskID s"
proof -
  note D = init_D [OF C]
  let ?L1 = "new_lists p t (L(NFreeTask \<mapsto> map NPend fs))"
  obtain s1 h where 1: "LOS_TaskCreateOnly True (Some p0) s = Some ((LOS_OK, Some (of_nat t)), s1)" "kinv n s1 ?L1" "loose ?L1 t"
    and s1: "s1 = s\<lparr>dl := h, g_taskCBArray := (g_taskCBArray s)(t := new_tcb p s (tcb s t)),
       responseTime := (responseTime s)(NSort t := OS_SORT_LINK_INVALID_TIME),
       uwEventID := (uwEventID s)(EvTask t := 0), mallocs := (if stackAddr p = 0 then tl (mallocs s) else mallocs s),
       stackMem := new_stack p (of_nat t) s\<rparr>"
    and T: "is_unused (status s t)" "t < unat (g_taskMaxNum s)" "taskID (tcb s t) = of_nat t" "runTask s \<noteq> Some t"
      "taskID (tcb s t) \<noteq> g_idleTaskID s"
    by (rule create_only_first [OF D(1) sp c g ap pr]) (rule that; assumption)
  note K = kinv_shape [OF 1(2)]
  have nm: "\<forall>q. \<not> mem ?L1 q (NPend t)" "\<not> mem ?L1 NTaskSort (NSort t)" using 1(3) by (simp_all add: loose_def)
  have b: "bit (status s1 t) k \<longleftrightarrow> k = 1 \<or> k = 15 \<and> bit (uwResved p) 31 \<or> k = 11 \<and> stackAddr p = 0" for k
    by (simp add: s1 new_tcb_bit)
  have x: "responseTime s1 (NSort t) = OS_SORT_LINK_INVALID_TIME" "unat (priority (tcb s1 t)) < 32" "taskID (tcb s1 t) \<noteq> g_idleTaskID s1"
    using pr T by (simp_all add: s1 new_tcb_def)
  obtain s2 h2 bm L2 where 2: "OsSchedTaskEnQueue t s1 = Some s2"
    "s2 = s1\<lparr>dl := h2, g_queueBitmap := bm, g_taskCBArray := (g_taskCBArray s1)(t := enq_tcb s1 (tcb s1 t))\<rparr>"
    "sched_inv s2 L2"
    "L2 = ?L1(NPri (unat (priority (tcb s1 t))) \<mapsto>
       (if g_schedTimeSliceMin s1 <s timeSlice (tcb s1 t)
        then NPend t # the (?L1 (NPri (unat (priority (tcb s1 t)))))
        else the (?L1 (NPri (unat (priority (tcb s1 t))))) @ [NPend t]))"
    by (rule enqueue_inv [OF sched_inv_but [OF K(5)] nm x]) (use sched_inv_run_ok [OF K(5)] in \<open>auto simp: b intro: that\<close>)
  have "frame t s1 s2" unfolding 2(2) by (rule frame_upd)
  then have "sys_ok n s2" by (rule sys_ok_frame [OF K(6)]) (simp_all add: 2(2) flag_simps b)
  then have I2: "kinv n s2 L2" using 2(3) by (simp add: kinv_def)
  have c2: "tcb s2 t = enq_tcb s1 (new_tcb p s (tcb s t))" "\<And>u. u \<noteq> t \<Longrightarrow> tcb s2 u = tcb s u" by (simp_all add: 2(2) s1)
  have b2: "bit (status s2 t) k \<longleftrightarrow> k = 2 \<or> k = 15 \<and> bit (uwResved p) 31 \<or> k = 11 \<and> stackAddr p = 0" for k
    using b [of k] by (auto simp: 2(2) flag_simps)
  have e: "g_allSem s2 = g_allSem s" "g_allMux s2 = g_allMux s" "g_allQueue s2 = g_allQueue s" "g_idleTaskID s2 = g_idleTaskID s"
    "g_taskMaxNum s2 = g_taskMaxNum s" "g_taskScheduled s2 = g_taskScheduled s" "pmMode s2 = pmMode s" "runTask s2 = runTask s"
    "os_int_active s2 = os_int_active s" "cfg_swtmr s2 = cfg_swtmr s" "uwEventID s2 = (uwEventID s)(EvTask t := 0)"
    by (simp_all add: 2(2) s1)
  have Q: "L2 q = L q" if "\<not> is_pri q" "q \<notin> {NFreeTask, NJoin t, NEvent (EvTask t)}" for q
    using that by (auto simp: 2(4) new_lists_def Let_def)
  have Q2: "L2 NFreeTask = Some (map NPend fs)" "L2 (NEvent (EvTask t)) = Some []" by (simp_all add: 2(4) new_lists_def Let_def)
  have at: "adds_task t s s2"
    using T(1) c2(2) b2 [of 0] b2 [of 4] by (simp add: adds_task_def e) (simp add: c2 enq_tcb_def new_tcb_def)
  have al: "adds_lists t fs L L2" using Q Q2 by (simp add: adds_lists_def)
  note J = init_add_task [OF C I2 at al T(2)] and sk = spare_add_task [OF D(1) sp at al]
  have r: "L NRecycle = Some []" using sp(2) by (simp add: spares_def)
  have tid: "OS_TCB_FROM_TID (of_nat t) = t" using T(2) unat_lt [of "g_taskMaxNum s"] by (simp add: OS_TCB_FROM_TID_def unat_of_nat)
  have O: "LOS_TaskCreate True (Some p0) s = Some ((LOS_OK, Some (of_nat t)), s2)"
    using 1(1) 2(1) D(8) e(6) by (simp add: LOS_TaskCreate_def tid)
  show thesis
  proof (rule that [OF O J sk])
    show "spares fs [] L2" using Q2 Q [of NRecycle] r by (simp add: spares_def)
    show "ready s2 t" using adds_D(13) [OF at al, of t] T(5) b2 [of 2] by (simp add: ready_def e)
  qed (simp_all add: c2 e enq_tcb_def new_tcb_def)
qed

subsection \<open>The application's first task\<close>

text \<open>The parameters of a task whose stack is the next block \<open>m\<close> that malloc gives, away from the stack of the idle task.\<close>

definition app_param_ok :: "TSK_INIT_PARAM_S \<Rightarrow> u32 \<Rightarrow> kstate \<Rightarrow> bool" where
  "app_param_ok p m s \<longleftrightarrow> pcName p \<noteq> 0 \<and> pfnTaskEntry p \<noteq> 0 \<and> usTaskPrio p < OS_TASK_PRIORITY_LOWEST \<and> stackAddr p = 0 \<and>
     LOSCFG_BASE_CORE_TSK_MIN_STACK_SIZE \<le> uwStackSize p \<and> uwStackSize p \<le> LOSCFG_SYS_HEAP_SIZE \<and>
     m \<noteq> 0 \<and> unat m + unat (LOS_Align (uwStackSize p) 8) \<le> 2 ^ 32 \<and> \<not> mallocs s ! 4 - m < LOS_Align (uwStackSize p) 8"

lemma boot_law:
  assumes R: "reset_ok (Suc n) (m # ms) s" and nm: "name \<noteq> 0" and p: "app_param_ok p m s"
  obtains s1 s2 s3 s4 L where "LOS_KernelInit LOS_OK name s = Some (LOS_OK, s1)" "init_inv {} (Suc n) s1 bootL"
    "LOS_TaskCreate True (Some p) s1 = Some ((LOS_OK, Some 1), s2)" "OsSchedStart W s2 = Some s3" "HalStartToRun s3 = Some s4"
    "core_inv {EvTask 1} n s4 L" "runTask s4 = Some 1" "status s4 1 = OS_TASK_STATUS_RUNNING"
    "taskEntry (tcb s4 1) = pfnTaskEntry p" "priority (tcb s4 1) = usTaskPrio p" "tcb s4 0 = tcb s1 0"
    "is_ready (status s1 0)" "priority (tcb s1 0) = OS_TASK_PRIORITY_LOWEST"
proof -
  obtain s1 where 1: "LOS_KernelInit LOS_OK name s = Some (LOS_OK, s1)" "init_inv {} (Suc n) s1 bootL"
    and sp: "spare_ok s1 bootL" "spares [1..<25] [] bootL" and m: "mallocs s1 = m # ms" and "g_losTaskLock s1 = g_losTaskLock s"
    and i: "OS_TCB_FROM_TID (g_idleTaskID s1) = 0" "priority (tcb s1 0) = OS_TASK_PRIORITY_LOWEST" "is_ready (status s1 0)"
    "g_idleTaskID s1 = 0" "runTask s1 = Some 25" "topOfStack (tcb s1 0) = mallocs s ! 4" "topOfStack (tcb s1 25) = 0"
    and u: "\<And>t. is_unused (status s1 t) \<longleftrightarrow> t \<noteq> 0"
    by (rule kernel_init_inv [OF R nm]) (rule that; assumption)
  have fs: "[1..<25] = 1 # [2..<25 :: nat]" by (simp add: upt_rec)
  have sp2: "spares (1 # [2..<25]) [] bootL" using sp(2) unfolding fs .
  have c: "OsTaskInitParamCheck (Some p) s1 = (LOS_OK, Some p)"
    using p by (auto simp: app_param_ok_def OsTaskInitParamCheck_def Let_def)
  have b: "stack_base p s1 = m" "stack_len p = LOS_Align (uwStackSize p) 8"
    using p m by (simp_all add: app_param_ok_def stack_base_def stack_len_def)
  have g: "stack_given p s1" using p m unfolding stack_given_def b by (simp add: app_param_ok_def)
  have "unat (0 - m) = 2 ^ 32 - unat m"
    using p by (subst unat_sub_if') (simp add: app_param_ok_def unat_eq_zero)
  then have "\<not> 0 - m < stack_len p"
    using p unfolding b(2) app_param_ok_def word_less_nat_alt by linarith
  then have ap: "stack_apart p s1"
    using p i(5-7) u unfolding stack_apart_def b app_param_ok_def by auto
  have pr: "unat (usTaskPrio p) < 32" using p by (auto simp: app_param_ok_def word_less_nat_alt)
  obtain s2 L2 where 2: "LOS_TaskCreate True (Some p) s1 = Some ((LOS_OK, Some (of_nat 1)), s2)"
    "init_inv (insert (EvTask 1) {}) (Suc n) s2 L2" "spare_ok s2 L2" "spares [2..<25] [] L2" "ready s2 1"
    and c2: "\<And>v. v \<noteq> 1 \<Longrightarrow> tcb s2 v = tcb s1 v" "priority (tcb s2 1) = usTaskPrio p" "taskEntry (tcb s2 1) = pfnTaskEntry p"
    "g_idleTaskID s2 = g_idleTaskID s1"
    by (rule create_stopped_law [OF 1(2) sp(1) sp2 c g ap pr]) (rule that; assumption)
  obtain new s3 s4 L where 3: "OsGetTopTask s2 = Some new" "top_of s2 new" "OsSchedStart W s2 = Some s3" "HalStartToRun s3 = Some s4"
    "core_inv {EvTask 1} n s4 L" "runTask s4 = Some new"
    and c4: "\<And>v. v \<noteq> new \<Longrightarrow> tcb s4 v = tcb s2 v"
      "tcb s4 new = (tcb s2 new)\<lparr>startTime := now_of (tk s2), taskStatus := OS_TASK_STATUS_RUNNING\<rparr>" and nb: "\<not> blocked (status s2 new)"
    by (rule start_law [OF 2(2)]) (rule that; assumption)
  have k0: "taskID (tcb s1 0) = g_idleTaskID s1" using init_D(1) [OF 1(2)] i(1) by (simp add: kinv_def sys_ok_def idle_slot_def)
  have "taskID (tcb s2 new) \<noteq> g_idleTaskID s2" using 3(2) 2(5) by (simp add: top_of_def)
  then have "new = 1" using nb u [of new] c2(1) [of new] c2(4) k0 by (cases "new = 0"; cases "new = 1") (auto simp: blocked_def)
  then show thesis
    using that [OF 1 _ 3(3-5)] 2(1) 3(6) c4 c2 i by simp
qed

end
