(* ===== verification/LosDemo.thy ===== *)
theory LosDemo
  imports LosStart LosTaskInv
begin

text \<open>
  A system in operation: the idle task, a running task that owns a mutex, tasks
  waiting for a semaphore, the mutex, an event and a message, ready tasks of two
  priorities, a delayed task and free control blocks.  It shows that the
  invariants of all components hold together, and the properties are applied to it.
\<close>

subsection \<open>A heap with given lists\<close>

primrec build :: "('n \<Rightarrow> 'n list) \<Rightarrow> 'n list \<Rightarrow> 'n dl_heap option" where
  "build F [] = Some \<lparr>pstPrev = \<lambda>_. None, pstNext = \<lambda>_. None\<rparr>"
| "build F (q # qs) = do { h \<leftarrow> build F qs; insert_all LOS_ListTailInsert q (F q) (LOS_ListInit q h) }"

definition lists_of :: "('n \<Rightarrow> 'n list) \<Rightarrow> 'n list \<Rightarrow> 'n \<Rightarrow> 'n list option" where
  "lists_of F qs q = (if q \<in> set qs then Some (F q) else None)"

subsection \<open>The lists\<close>

definition demo_heads :: "node list" where
  "demo_heads = map NPri [0..<32] @ [NTaskSort, NFreeTask, NRecycle, NSem 0, NSem 1, NUnusedSem, NMux 0, NMux 1,
     NMux 2, NUnusedMux, NQRead 0, NQWrite 0, NQMem 0, NQRead 1, NQWrite 1, NQMem 1, NFreeQueue, NEvent (EvCB 0), NJoin 4, NJoin 8] @
     map (\<lambda>t. NEvent (EvTask t)) [1..<9]"

fun demo_list :: "node \<Rightarrow> node list" where
  "demo_list (NPri p) = (if p = 10 then [NPend 4] else if p = 20 then [NPend 8] else [])"
| "demo_list NTaskSort = [NSort 6]"
| "demo_list NFreeTask = [NPend 9]"
| "demo_list NRecycle = [NPend 10]"
| "demo_list (NJoin t) = (if t = 8 then [NPend 11] else [])"
| "demo_list (NSem i) = (if i = 0 then [NPend 2] else [])"
| "demo_list NUnusedSem = map NSem [2..<48]"
| "demo_list (NMux i) = (if i = 0 then [NPend 3] else [])"
| "demo_list NUnusedMux = map NMux [3..<24]"
| "demo_list (NQRead i) = (if i = 1 then [NPend 7] else [])"
| "demo_list NFreeQueue = map NQWrite [2..<24]"
| "demo_list (NEvent e) = (if e = EvCB 0 then [NPend 5] else [])"
| "demo_list _ = []"

fun demo_home :: "node \<Rightarrow> node option" where
  "demo_home (NPend t) = map_of [(2, NSem 0), (3, NMux 0), (4, NPri 10), (5, NEvent (EvCB 0)), (7, NQRead 1),
     (8, NPri 20), (9, NFreeTask), (10, NRecycle), (11, NJoin 8)] t"
| "demo_home (NSort t) = (if t = 6 then Some NTaskSort else None)"
| "demo_home (NSem i) = (if 2 \<le> i then Some NUnusedSem else None)"
| "demo_home (NMux i) = (if 3 \<le> i then Some NUnusedMux else None)"
| "demo_home (NQWrite i) = (if 2 \<le> i then Some NFreeQueue else None)"
| "demo_home _ = None"

definition demoL :: "node \<Rightarrow> node list option" where
  "demoL = lists_of demo_list demo_heads"

subsection \<open>The control blocks\<close>

definition demo_status :: "nat \<Rightarrow> u16" where
  "demo_status t = (if t = 1 then 0x10 else if t = 6 then 0x20 else if t = 0 then 4 else if t = 4 \<or> t = 8 then 0x8804
     else if t = 2 \<or> t = 3 \<or> t = 5 \<or> t = 7 \<or> t = 11 then 8 else if t = 10 then 0x801 else 1)"

definition demo_prio :: "nat \<Rightarrow> u16" where
  "demo_prio t = (if t = 0 then 31 else if t = 1 \<or> t = 4 then 10 else if t = 2 then 5 else if t = 3 then 12
     else if t = 7 then 6 else if t = 8 then 20 else 8)"

definition demo_task :: "nat \<Rightarrow> LosTaskCB" where
  "demo_task t = \<lparr>stackPointer = 0x10380 + 0x400 * of_nat t, taskStatus = demo_status t, priority = demo_prio t, timeSlice = 0, waitTimes = 0,
     startTime = 0, stackSize = 0x400, topOfStack = (if t < 25 then 0x10000 + 0x400 * of_nat t else 0),taskID = (if t < 25 then of_nat t else 25), taskEntry = 0x100,
     taskSem = (if t = 2 then Some 0 else None), taskMux = (if t = 3 then Some 0 else None), arg = 0, taskName = 0x200,
     joinRetval = 0, eventMask = 3, eventMode = 2, msg = 0\<rparr>"

definition demo_sem :: "nat \<Rightarrow> LosSemCB" where
  "demo_sem i = \<lparr>semStat = (if i < 2 then 1 else 0), semCount = (if i = 1 then 2 else 0), maxSemCount = 3, semID = of_nat i\<rparr>"

definition demo_mux :: "nat \<Rightarrow> LosMuxCB" where
  "demo_mux i = \<lparr>muxStat = (if i < 3 then 1 else 0), muxCount = (if i < 2 then 1 else 0), muxID = of_nat i,
     owner = (if i = 0 then Some 1 else if i = 1 then Some 8 else None), mux_priority = (if i = 0 then 10 else 20)\<rparr>"

definition demo_queue :: "nat \<Rightarrow> LosQueueCB" where
  "demo_queue i = \<lparr>queue_buf = (if i = 0 then 0x1000 else if i = 1 then 0x2000 else 0), queueName = 0,
     queueState = (if i < 2 then 1 else 0), queueLen = 2, queueSize = 12, queueID = of_nat i, queueHead = 0, queueTail = 0,
     readableCnt = 0, writableCnt = 2\<rparr>"

definition demo_tick :: tick_state where
  "demo_tick = \<lparr>g_cyclesPerTick = 250000, g_sysClock = 25000000, g_sysTimerIsInit = True, g_tickTimerStartTime = 0,
     g_tickTimerBase = 1000, g_oldTickTimerBase = 1000, g_tickTimerBaseUpdate = False, timer_freq = 25000000,
     timer_periodMax = 0xFFFFFF, g_SysTickLoad = 501\<rparr>"

definition demo :: kstate where
  "demo = \<lparr>dl = the (build demo_list demo_heads),
     responseTime = (\<lambda>n. if n = NSort 6 then 1200 else OS_SORT_LINK_INVALID_TIME), tk = demo_tick,
     g_taskCBArray = demo_task, runTask = Some 1, newTask = None, g_losTaskLock = 0, g_taskMaxNum = 25, g_idleTaskID = 0,
     g_taskScheduled = True, g_queueBitmap = 0x200800, g_schedResponseID = 0, g_tickIntLock = 0,
     g_schedResponseTime = OS_SCHED_MAX_RESPONSE_TIME, g_schedTimeSlice = 500000, g_schedTimeSliceMin = 1250,
     g_schedTickMinPeriod = 2500, g_tickResponsePrecision = 1250, uwEventID = (\<lambda>_. 0), g_allSem = demo_sem,
     g_allMux = demo_mux, g_allQueue = demo_queue,
     g_swtmrCBArray = (\<lambda>i. \<lparr>tm_next = None, ucState = 0, ucMode = 0, ucOverrun = 0, usTimerID = of_nat i, uwInterval = 0,
        tm_arg = 0, pfnHandler = 0, tm_startTime = 0\<rparr>), g_swtmrFreeList = None, g_swtmrHandlerQueue = 0, g_swtmrTaskID = 0,
     byteMem = (\<lambda>_. 7), stackMem = (\<lambda>_. Some OS_TASK_MAGIC_WORD), mallocs = [0x20000000, 0x20001000], freed = [],
     os_int_active = False, pmMode = False, cfg_swtmr = False, text_addr = (\<lambda>_. 0x300)\<rparr>"

subsection \<open>The lists are where they should be\<close>

lemma build_rep:
  assumes "distinct qs"
    and "\<And>q. q \<in> set qs \<Longrightarrow> distinct (F q)" "\<And>q. q \<in> set qs \<Longrightarrow> home q = None"
    and "\<And>q n. q \<in> set qs \<Longrightarrow> n \<in> set (F q) \<Longrightarrow> home n = Some q"
  shows "\<exists>h. build F qs = Some h \<and> dl_rep h (lists_of F qs)"
  using assms
proof (induction qs)
  case Nil
  show ?case by (simp add: dl_rep_def lists_of_def)
next
  case (Cons q qs)
  then obtain h where h: "build F qs = Some h" "dl_rep h (lists_of F qs)" by auto
  have c: "n \<in> covered (lists_of F qs) \<Longrightarrow> n \<in> set qs \<or> (\<exists>q' \<in> set qs. home n = Some q')" for n
    using Cons.prems(4) by (fastforce simp: covered_def lists_of_def split: if_splits)
  have hq: "home q = None" and hs: "\<And>q'. q' \<in> set qs \<Longrightarrow> home q' = None" using Cons.prems(3) by auto
  have nq: "q \<notin> set qs" using Cons.prems(1) by simp
  have q: "q \<notin> covered (lists_of F qs)" using c [of q] nq hq by auto
  have R: "dl_rep (LOS_ListInit q h) ((lists_of F qs)(q \<mapsto> []))" by (rule list_init [OF h(2)]) (use q in simp)
  have d: "set (F q) \<inter> covered ((lists_of F qs)(q \<mapsto> [])) = {}"
  proof (rule equals0I)
    fix n assume n: "n \<in> set (F q) \<inter> covered ((lists_of F qs)(q \<mapsto> []))"
    then have o: "home n = Some q" using Cons.prems(4) [of q n] by simp
    have "n \<in> covered (lists_of F qs) \<or> n = q" using n covered_upd_in [of n "lists_of F qs" q "[]"] by auto
    then show False using c [of n] o hq hs nq by auto
  qed
  have dF: "distinct (F q)" using Cons.prems(2) by simp
  have e: "((lists_of F qs)(q \<mapsto> [])) q = Some []" by simp
  have u: "((lists_of F qs)(q \<mapsto> []))(q \<mapsto> [] @ F q) = lists_of F (q # qs)" by (auto simp: lists_of_def)
  from dlq.insert_all_law [OF R e dF d] h(1) show ?case unfolding u by auto
qed

lemma demo_rep: "dl_rep (dl demo) demoL"
proof -
  have "\<exists>h. build demo_list demo_heads = Some h \<and> dl_rep h (lists_of demo_list demo_heads)"
  proof (rule build_rep [where home = demo_home])
    show "distinct demo_heads" by (auto simp: demo_heads_def distinct_map inj_on_def)
    show "distinct (demo_list q)" if "q \<in> set demo_heads" for q
      by (cases q) (auto simp: distinct_map inj_on_def)
    show "demo_home q = None" if "q \<in> set demo_heads" for q
      using that by (auto simp: demo_heads_def)
    show "demo_home n = Some q" if "q \<in> set demo_heads" "n \<in> set (demo_list q)" for q n
      by (cases q) (use that in \<open>auto simp: demo_heads_def split: if_splits\<close>)
  qed
  then show ?thesis by (auto simp: demo_def demoL_def)
qed

lemma demoL_eq:
  "demoL (NPri p) = (if p < 32 then Some (demo_list (NPri p)) else None)" "demoL NTaskSort = Some [NSort 6]"
  "demoL NFreeTask = Some [NPend 9]" "demoL NRecycle = Some [NPend 10]"
  "demoL (NSem i) = (if i < 2 then Some (demo_list (NSem i)) else None)" "demoL NUnusedSem = Some (map NSem [2..<48])"
  "demoL (NMux i) = (if i < 3 then Some (demo_list (NMux i)) else None)" "demoL NUnusedMux = Some (map NMux [3..<24])"
  "demoL (NQRead i) = (if i < 2 then Some (demo_list (NQRead i)) else None)"
  "demoL (NQWrite i) = (if i < 2 then Some [] else None)" "demoL (NQMem i) = (if i < 2 then Some [] else None)"
  "demoL NFreeQueue = Some (map NQWrite [2..<24])"
  "demoL (NEvent e) = (case e of EvCB i \<Rightarrow> if i = 0 then Some [NPend 5] else None
     | EvTask u \<Rightarrow> if 1 \<le> u \<and> u < 9 then Some [] else None)"
  "demoL (NPend t) = None" "demoL (NSort t) = None" "demoL (NSwtmr t) = None" "demoL NSwtmrSort = None" "demoL (NJoin t) = (if t = 8 then Some [NPend 11] else if t = 4 then Some [] else None)"
  by (auto simp: demoL_def lists_of_def demo_heads_def split: evref.splits)

lemma demo_mem:
  "mem demoL q (NPend t) \<longleftrightarrow> demo_home (NPend t) = Some q" "mem demoL q (NSort t) \<longleftrightarrow> t = 6 \<and> q = NTaskSort"
  by (cases q; auto simp: mem_def demoL_eq split: if_splits evref.splits)+


lemma demo_sel [simp]:
  "g_taskCBArray demo = demo_task" "runTask demo = Some 1" "g_idleTaskID demo = 0" "g_allSem demo = demo_sem"
  "g_allMux demo = demo_mux" "g_allQueue demo = demo_queue" "tk demo = demo_tick" "g_losTaskLock demo = 0"
  "g_taskScheduled demo = True" "os_int_active demo = False" "cfg_swtmr demo = False" "uwEventID demo = (\<lambda>_. 0)"
  "byteMem demo = (\<lambda>_. 7)" "mallocs demo = [0x20000000, 0x20001000]" "stackMem demo = (\<lambda>_. Some OS_TASK_MAGIC_WORD)"
  "g_queueBitmap demo = 0x200800" "pmMode demo = False" "g_taskMaxNum demo = 25" "freed demo = []"
  "responseTime demo = (\<lambda>n. if n = NSort 6 then 1200 else OS_SORT_LINK_INVALID_TIME)"
  by (simp_all add: demo_def)

lemma demo_task_sel [simp]:
  "taskStatus (demo_task t) = demo_status t" "priority (demo_task t) = demo_prio t"
  "taskID (demo_task t) = (if t < 25 then of_nat t else 25)" "startTime (demo_task t) = 0" "topOfStack (demo_task t) = (if t < 25 then 0x10000 + 0x400 * of_nat t else 0)"
  "eventMask (demo_task t) = 3" "eventMode (demo_task t) = 2"
  by (simp_all add: demo_task_def)

lemma demo_taskID: "taskID (demo_task t) = 0 \<longleftrightarrow> t = 0"
proof -
  have "(of_nat t :: u32) = 0 \<longleftrightarrow> t = 0" if "t < 25"
    using that by (simp add: word_unat_eq_iff unat_of_nat)
  then show ?thesis by simp
qed

lemma demo_bitmap: "p < 32 \<Longrightarrow> bit (0x200800 :: u32) (31 - p) \<longleftrightarrow> p = 10 \<or> p = 20"
proof -
  assume p: "p < 32"
  have e: "(0x200800 :: u32) = 2 ^ 21 OR 2 ^ 11" by simp
  have "bit (0x200800 :: u32) (31 - p) \<longleftrightarrow> 31 - p = 21 \<or> 31 - p = 11"
    unfolding e by (simp only: bit_or_iff bit_exp_iff possible_bit_word) auto
  then show ?thesis using p by auto
qed

lemma demo_glob: "glob_ok demo demoL"
  unfolding glob_ok_def
proof (intro conjI allI impI)
  show "dl_rep (dl demo) demoL" by (rule demo_rep)
  show "holds q n" if "mem demoL q n" for q n
    using that by (cases q) (auto simp: mem_def demoL_eq split: if_splits evref.splits)
  show "bit (g_queueBitmap demo) (31 - p) = (demoL (NPri p) \<noteq> Some [])" if "p < 32" for p
    using that demo_bitmap [OF that] by (simp add: demoL_eq)
qed (simp_all add: demoL_eq)

lemma demo_bits:
  "bit (demo_status t) 0 \<longleftrightarrow> t = 9 \<or> t = 10 \<or> 11 < t" "\<not> bit (demo_status t) (Suc 0)" "bit (demo_status t) 2 \<longleftrightarrow> t = 0 \<or> t = 4 \<or> t = 8"
  "bit (demo_status t) 3 \<longleftrightarrow> t = 2 \<or> t = 3 \<or> t = 5 \<or> t = 7 \<or> t = 11" "bit (demo_status t) 4 \<longleftrightarrow> t = 1"
  "bit (demo_status t) 5 \<longleftrightarrow> t = 6" "\<not> bit (demo_status t) 6" "\<not> bit (demo_status t) 7" "\<not> bit (demo_status t) 8"
  "bit (demo_status t) 11 \<longleftrightarrow> t = 4 \<or> t = 8 \<or> t = 10" "\<not> bit (demo_status t) 12" "\<not> bit (demo_status t) 13"
  "\<not> bit (demo_status t) 14" "bit (demo_status t) 15 \<longleftrightarrow> t = 4 \<or> t = 8"
  by (simp_all add: demo_status_def) presburger+

lemma demo_task_ok: "task_ok demo demoL t"
proof -
  have id: "taskID (demo_task u) = 0 \<longleftrightarrow> u = 0" for u by (rule demo_taskID)
  have p: "unat (demo_prio t) < 32" by (simp add: demo_prio_def)
  show ?thesis
    unfolding task_ok_def flags_ok_def loc_ok_def ready_def delayed_def demo_mem
    using p by (auto simp: demo_bits id OS_TCB_FROM_TID_def demo_prio_def simp del: demo_task_sel(3))
qed

lemma demo_kinv: "n \<le> 1000 \<Longrightarrow> kinv n demo demoL"
  unfolding kinv_def sched_inv_def
  using demo_glob demo_task_ok
  by (auto simp: run_ok_def demo_status_def sys_ok_def tick_ok_def idle_slot_def OS_TCB_FROM_TID_def demo_tick_def now_of_def bit_simps)


lemma demo_pools:
  "mem demoL NUnusedSem (NSem i) \<longleftrightarrow> 2 \<le> i \<and> i < 48" "mem demoL NUnusedMux (NMux i) \<longleftrightarrow> 3 \<le> i \<and> i < 24"
  "mem demoL NFreeQueue (NQWrite i) \<longleftrightarrow> 2 \<le> i \<and> i < 24"
  by (auto simp: mem_def demoL_eq simp del: upt_rec_numeral)

lemma demo_fresh: "2 \<le> i \<Longrightarrow> fresh demoL (NQRead i)" "2 \<le> i \<Longrightarrow> fresh demoL (NQMem i)"
proof -
  have "NQRead i \<notin> set (demo_list q)" "NQMem i \<notin> set (demo_list q)" for q by (cases q; auto)+
  moreover have "NQRead i \<notin> set demo_heads" "NQMem i \<notin> set demo_heads" if "2 \<le> i"
    using that by (auto simp: demo_heads_def)
  ultimately show "2 \<le> i \<Longrightarrow> fresh demoL (NQRead i)" "2 \<le> i \<Longrightarrow> fresh demoL (NQMem i)"
    by (auto simp: fresh_def covered_def demoL_def lists_of_def split: if_splits)
qed

lemma demo_sem_inv: "sem_inv demo demoL"
  by (auto simp: sem_inv_def sem_ok_def demo_sem_def demo_pools) (simp_all add: demoL_eq)

lemma demo_mux_inv: "mux_inv demo demoL"
  by (auto simp: mux_inv_def mux_ok_def demo_mux_def demo_pools alive_def demo_status_def flag_simps) (simp_all add: demoL_eq)

lemma demo_queue_inv: "queue_inv demo demoL"
  by (auto simp: queue_inv_def queue_ok_def demo_queue_def demo_pools demo_fresh) (simp_all add: demoL_eq)

lemma demo_queue_rep: "i < 2 \<Longrightarrow> queue_rep demo i [] 0 0"
  by (simp add: queue_rep_def ring_holds_def ring_def buf_ok_def demo_queue_def)

lemma demo_event_inv: "event_inv (EvCB 0) demo demoL"
  by (auto simp: event_inv_def demo_mem event_args_ok_def event_holds_def)

lemma demo_uncovered: "NSort 1 \<notin> covered demoL"
proof -
  have "NSort 1 \<notin> set (demo_list q)" for q by (cases q) auto
  moreover have "NSort 1 \<notin> set demo_heads" by (auto simp: demo_heads_def)
  ultimately show ?thesis by (auto simp: covered_def demoL_def lists_of_def split: if_splits)
qed

lemma demo_now: "now_of (OsUpdateSysTimeBase demo_tick) = 2001"
  by (simp add: now_of_def OsUpdateSysTimeBase_def SysTickCycleGet_def demo_tick_def)

subsection \<open>Variants\<close>

text \<open>The same system with one message in the first queue, counted or promised to a reader.\<close>

definition demo_sent :: kstate where
  "demo_sent = demo\<lparr>g_allQueue := demo_queue(0 := (demo_queue 0)\<lparr>queueTail := 1, readableCnt := 1, writableCnt := 1\<rparr>),
     byteMem := wr32 0x1008 3 (\<lambda>_. 7)\<rparr>"

lemma demo_sent_kinv: "n \<le> 1000 \<Longrightarrow> kinv n demo_sent demoL"
  unfolding demo_sent_def by (simp add: demo_kinv)

lemma demo_sent_rep: "queue_rep demo_sent 0 [[7, 7, 7]] 0 0"
  by (simp add: queue_rep_def ring_holds_def ring_def buf_ok_def demo_sent_def demo_queue_def slot_pos_def copy_at_def
      msg_ok_def msg_len_def msg_of_def node_at_def node_lo_def bytes_def wr32_def rd32_def upt_rec)

definition demo_promised :: kstate where
  "demo_promised = demo_sent\<lparr>g_allQueue := demo_queue(0 := (demo_queue 0)\<lparr>queueTail := 1, readableCnt := 0, writableCnt := 1\<rparr>)\<rparr>"

lemma demo_promised_kinv: "n \<le> 1000 \<Longrightarrow> kinv n demo_promised demoL"
  unfolding demo_promised_def by (simp add: demo_sent_kinv)

lemma demo_promised_rep: "queue_rep demo_promised 0 [[7, 7, 7]] 1 0"
  using demo_sent_rep by (simp add: queue_rep_def demo_sent_def demo_promised_def)

text \<open>A fresh memory pool of three blocks, and two short strings.\<close>

definition demo_pool :: memory where
  "demo_pool = snd (the (LOS_MemboxInit 0x1000 64 10 (\<lambda>_. 0)))"

definition demo_text :: memory where
  "demo_text a = (if a = 0x200 \<or> a = 0x201 then 65 else if a = 0x100 then 66 else 0)"

lemma demo_pool_rep: "pool_rep demo_pool 0x1000 16 3 [0, 1, 2]"
proof -
  have "\<exists>m'. LOS_MemboxInit 0x1000 64 10 (\<lambda>_. 0) = Some (LOS_OK, m') \<and> pool_rep m' 0x1000 16 3 [0..<3]"
    by (rule membox_init_law [of "0x1000" 64 10 16 3 "\<lambda>_. 0"]) auto
  moreover have "[0..<3] = [0, 1, 2 :: nat]" by (simp add: upt_rec)
  ultimately show ?thesis by (auto simp: demo_pool_def)
qed

subsection \<open>Free control blocks\<close>

lemma demo_spares: "spares [9] [10] demoL"
  by (simp add: spares_def demoL_eq)

lemma demo_spare_ok: "spare_ok demo demoL"
proof -
  have "spare demoL t \<longleftrightarrow> t = 9 \<or> t = 10" for t by (auto simp: spare_def mem_def demoL_eq)
  then show ?thesis by (auto simp: spare_ok_def demoL_eq demo_bits)
qed

lemma demo_live: "live_lists demo demoL 8" "live_lists demo demoL 1" "live_lists demo demoL 2"
  by (auto simp: live_lists_def demoL_eq demo_bits)

text \<open>The parameters of a task that can be joined; its stack comes from the heap.\<close>

definition demo_param :: TSK_INIT_PARAM_S where
  "demo_param = \<lparr>pfnTaskEntry = 0x100, usTaskPrio = 7, uwArg = 5, stackAddr = 0, uwStackSize = 0x400, pcName = 0x200,
     uwResved = 0x80000000\<rparr>"

lemma demo_param_ok: "OsTaskInitParamCheck (Some demo_param) demo = (LOS_OK, Some demo_param)"
  "stack_given demo_param demo" "stack_apart demo_param demo"
proof -
  have l: "LOS_Align 0x400 8 = 0x400" by (simp add: LOS_Align_def)
  show "OsTaskInitParamCheck (Some demo_param) demo = (LOS_OK, Some demo_param)"
    by (simp add: OsTaskInitParamCheck_def demo_param_def Let_def)
  show "stack_given demo_param demo"
    by (simp add: stack_given_def stack_base_def stack_len_def demo_param_def l)
  show "stack_apart demo_param demo"
    unfolding stack_apart_def
  proof (intro allI impI)
    fix u assume "\<not> is_unused (status demo u) \<and> \<not> is_exit (status demo u) \<or> runTask demo = Some u"
    then have "u = 0 \<or> u = 1 \<or> u = 2 \<or> u = 3 \<or> u = 4 \<or> u = 5 \<or> u = 6 \<or> u = 7 \<or> u = 8 \<or> u = 11"
      by (auto simp: demo_bits) presburger
    then show "\<not> topOfStack (tcb demo u) - stack_base demo_param demo < stack_len demo_param"
      by (auto simp: stack_base_def stack_len_def demo_param_def l)
  qed
qed

lemma demo_deletable: "deletable 8 demo" "deletable 1 demo" "OS_TCB_FROM_TID 8 = 8" "OS_TCB_FROM_TID 1 = 1" "OS_TCB_FROM_TID 4 = 4"
  by (simp_all add: deletable_def OsCheckTaskIDValid_def OS_TCB_FROM_TID_def demo_bits Let_def word_le_nat_alt)

lemma demo_kinv_resp: "n \<le> 1000 \<Longrightarrow> kinv n (demo\<lparr>g_schedResponseID := i\<rparr>) demoL"
  by (rule kinv_cong [OF demo_kinv]) simp_all

subsection \<open>The system as a whole\<close>

text \<open>The calls in which the tasks of the system are blocked.\<close>

definition demo_conts :: "nat \<Rightarrow> cont option" where
  "demo_conts t = (if t = 2 then Some (KSem 2) else if t = 3 then Some (KMux 3)
     else if t = 5 then Some (KEvent (EvCB 0, 3, 2, 5))
     else if t = 7 then Some (KQueue \<lparr>qw_queue = 0, qw_type = 0, qw_addr = Buf 0x3000, qw_size = 12, qw_task = 7\<rparr>) else None)"

lemma demo_core: "n \<le> 1000 \<Longrightarrow> core_inv {EvCB 0} n demo demoL"
proof -
  assume n: "n \<le> 1000"
  have "event_inv e demo demoL" for e
    by (cases e) (auto simp: event_inv_def demo_mem event_args_ok_def event_holds_def)
  moreover have "ids_ok demo" by (auto simp: ids_ok_def demo_bits)
  ultimately show ?thesis
    using demo_kinv [OF n] demo_sem_inv demo_mux_inv demo_queue_inv
    by (simp add: core_inv_def demoL_eq runs_def blocked_def demo_bits)
qed

lemma demo_sys_inv: "n \<le> 1000 \<Longrightarrow> sys_inv {EvCB 0} n (demo, demo_conts) demoL"
  using demo_core by (auto simp: sys_inv_def demo_conts_def cont_ok_def demo_queue_def)

lemma demo_steps: "\<exists>y. steps {EvCB 0} 2 (demo, demo_conts) y"
proof -
  have I: "sys_inv {EvCB 0} (Suc (Suc 2)) (demo, demo_conts) demoL" by (rule demo_sys_inv) simp
  obtain v s' where "LOS_TaskYield demo = Some (v, s')"
    using task_yield_served [OF demo_core, of 0] by auto
  then have 1: "step {EvCB 0} (demo, demo_conts) (s', demo_conts)"
    by (intro step.returns [where r = 1 and c = TaskYield and v = v]) (simp_all add: demo_conts_def ret_def)
  obtain L' where "sys_inv {EvCB 0} (Suc (Suc 0)) (s', demo_conts) L'" using step_keeps [OF I [unfolded numeral_2_eq_2] 1] by blast
  then obtain s'' where "OsTickHandler None s' = Some s''" using sys_progress(4) by blast
  then have 2: "step {EvCB 0} (s', demo_conts) (s'', demo_conts)" by (rule step.ticks)
  show ?thesis using steps.more [OF steps.more [OF steps.none 1] 2] by (auto simp: numeral_2_eq_2)
qed

text \<open>The memory of the demonstration after reset: malloc has room for six blocks.\<close>

definition demo_reset :: kstate where
  "demo_reset = demo\<lparr>g_taskScheduled := False, runTask := None,
     g_taskCBArray := (\<lambda>t. (demo_task t)\<lparr>taskID := 25, taskStatus := OS_TASK_STATUS_UNUSED, startTime := 0\<rparr>),
     mallocs := [0x20000000, 0x20001000, 0x20002000, 0x20003000, 0x20004000, 0x20005000]\<rparr>"

lemma demo_reset_ok: "n \<le> 1000 \<Longrightarrow> reset_ok n [0x20005000] demo_reset" "app_param_ok demo_param 0x20005000 demo_reset"
proof -
  have t: "tick_ok n demo_tick" if "n \<le> 1000"
    using that by (simp add: tick_ok_def demo_tick_def now_of_def)
  show "n \<le> 1000 \<Longrightarrow> reset_ok n [0x20005000] demo_reset" using t by (simp add: reset_ok_def demo_reset_def demo_def)
  show "app_param_ok demo_param 0x20005000 demo_reset"
    by (simp add: app_param_ok_def demo_reset_def demo_param_def demo_def LOS_Align_def)
qed

end
