(* ===== verification/PropSystem.thy ===== *)
theory PropSystem
  imports LosDemo
begin

text \<open>
  The properties of the kernel as a whole: tasks that call semaphores, mutexes,
  events, queues and task services in any order, with timer ticks in between.
\<close>





text \<open>
  C3.  The kernel boots.  From memory as it is after reset, LOS\_KernelInit
  succeeds: the idle task is ready with the lowest priority, all other control
  blocks, all semaphores, mutexes and queues are free, and the invariants of all
  components hold.  LOS\_TaskCreate then gives the application's first task the id 1
  and does not switch to it.  Starting the scheduler makes this task run its entry
  function, with the idle task still ready, in a state from which the
  kernel goes on as stated above.
\<close>

theorem kernel_boots:
  assumes "reset_ok (Suc n) (m # ms) s" "name \<noteq> 0" "app_param_ok p m s"
  shows "\<exists>s1 s2 s3 s4 L. LOS_KernelInit LOS_OK name s = Some (LOS_OK, s1) \<and> init_inv {} (Suc n) s1 bootL \<and>
    LOS_TaskCreate True (Some p) s1 = Some ((LOS_OK, Some 1), s2) \<and>
    OsSchedStart W s2 = Some s3 \<and> HalStartToRun s3 = Some s4 \<and>
    sys_inv {EvTask 1} n (s4, \<lambda>_. None) L \<and>
    runTask s4 = Some 1 \<and> status s4 1 = OS_TASK_STATUS_RUNNING \<and>
    taskEntry (tcb s4 1) = pfnTaskEntry p \<and> priority (tcb s4 1) = usTaskPrio p \<and>
    is_ready (status s4 0) \<and> priority (tcb s4 0) = OS_TASK_PRIORITY_LOWEST"
proof -
  obtain s1 s2 s3 s4 L where 1: "LOS_KernelInit LOS_OK name s = Some (LOS_OK, s1)" "init_inv {} (Suc n) s1 bootL"
    "LOS_TaskCreate True (Some p) s1 = Some ((LOS_OK, Some 1), s2)" "OsSchedStart W s2 = Some s3" "HalStartToRun s3 = Some s4"
    and C: "core_inv {EvTask 1} n s4 L" and 2: "runTask s4 = Some 1" "status s4 1 = OS_TASK_STATUS_RUNNING"
    "taskEntry (tcb s4 1) = pfnTaskEntry p" "priority (tcb s4 1) = usTaskPrio p" "tcb s4 0 = tcb s1 0"
    "is_ready (status s1 0)" "priority (tcb s1 0) = OS_TASK_PRIORITY_LOWEST"
    by (rule boot_law [OF assms]) (rule that; assumption)
  have "sys_inv {EvTask 1} n (s4, \<lambda>_. None) L" using C by (simp add: sys_inv_def)
  with 1 2 show ?thesis
    by (intro exI [of _ s1] exI [of _ s2] exI [of _ s3] exI [of _ s4] exI [of _ L]) simp
qed

theorem kernel_boots_witness:
  "\<exists>s1 s2 s3 s4 L. LOS_KernelInit LOS_OK 0x200 demo_reset = Some (LOS_OK, s1) \<and>
    LOS_TaskCreate True (Some demo_param) s1 = Some ((LOS_OK, Some 1), s2) \<and>
    OsSchedStart (\<lambda>_ _. None) s2 = Some s3 \<and> HalStartToRun s3 = Some s4 \<and> sys_inv {EvTask 1} 10 (s4, \<lambda>_. None) L \<and>
    runTask s4 = Some 1 \<and> taskEntry (tcb s4 1) = 0x100 \<and> priority (tcb s4 1) = 7 \<and> is_ready (status s4 0)"
proof -
  have r: "reset_ok (Suc 10) [0x20005000] demo_reset" by (rule demo_reset_ok) simp
  have "(0x200 :: u32) \<noteq> 0" by simp
  from kernel_boots [OF r this demo_reset_ok(2), of "\<lambda>_ _. None"] show ?thesis
    by (fastforce simp: demo_param_def)
qed

end
