(* ===== verification/LosCmsis.thy ===== *)
theory LosCmsis
  imports LosBoot
begin

text \<open>
  The CMSIS-RTOS2 interface, kal/cmsis/cmsis_liteos2.c: functions for
  applications that check their arguments, call the kernel and translate its
  answers.  A handle is the pointer to a control block, so it is the index of the
  block, or the name of an event control block; \<open>None\<close> is NULL.  The variable
  g_kernelState is passed to and returned by the functions that use it.  A call
  that blocks in the kernel returns \<open>Blocked\<close> with what the kernel call has still to
  do; its \<open>_resume\<close> is the rest of the function.
\<close>

datatype osStatus_t = osOK | osError | osErrorTimeout | osErrorResource | osErrorParameter | osErrorNoMemory | osErrorISR

datatype osKernelState_t = osKernelInactive | osKernelReady | osKernelRunning | osKernelLocked | osKernelSuspended | osKernelError

datatype osThreadState_t = osThreadInactive | osThreadReady | osThreadRunning | osThreadBlocked | osThreadTerminated | osThreadError

datatype ('r, 'k) ans = Done 'r | Blocked 'k

text \<open>The answer of a kernel call that may block, with the returned code translated.\<close>

definition answer :: "(u32 \<Rightarrow> 'r) \<Rightarrow> ('k res \<times> kstate) option \<Rightarrow> (('r, 'k) ans \<times> kstate) option" where
  "answer f = map_option (\<lambda>(r, s). (case r of Ret c \<Rightarrow> Done (f c) | Wait k \<Rightarrow> Blocked k, s))"

abbreviation (input) osPriorityNormal :: i32 where "osPriorityNormal \<equiv> 24"
abbreviation (input) osPriorityError :: i32 where "osPriorityError \<equiv> - 1"
abbreviation (input) LOSCFG_BASE_CORE_TSK_DEFAULT_PRIO :: i32 where "LOSCFG_BASE_CORE_TSK_DEFAULT_PRIO \<equiv> 10"
abbreviation (input) osThreadJoinable :: u32 where "osThreadJoinable \<equiv> 1"
abbreviation (input) osFlagsWaitAny :: u32 where "osFlagsWaitAny \<equiv> 0"
abbreviation (input) osFlagsWaitAll :: u32 where "osFlagsWaitAll \<equiv> 1"
abbreviation (input) osFlagsNoClear :: u32 where "osFlagsNoClear \<equiv> 2"
abbreviation (input) osFlagsErrorUnknown :: u32 where "osFlagsErrorUnknown \<equiv> 0xFFFFFFFF"
abbreviation (input) osFlagsErrorTimeout :: u32 where "osFlagsErrorTimeout \<equiv> 0xFFFFFFFE"
abbreviation (input) osFlagsErrorResource :: u32 where "osFlagsErrorResource \<equiv> 0xFFFFFFFD"
abbreviation (input) osFlagsErrorParameter :: u32 where "osFlagsErrorParameter \<equiv> 0xFFFFFFFC"

definition LOS_PRIORITY :: "i32 \<Rightarrow> i32" where
  "LOS_PRIORITY cmsisPriority = LOSCFG_BASE_CORE_TSK_DEFAULT_PRIO - (cmsisPriority - osPriorityNormal)"

definition CMSIS_PRIORITY :: "u16 \<Rightarrow> i32" where
  "CMSIS_PRIORITY losPriority = osPriorityNormal + (LOSCFG_BASE_CORE_TSK_DEFAULT_PRIO - ucast losPriority)"

definition ISVALID_LOS_PRIORITY :: "u16 \<Rightarrow> bool" where
  "ISVALID_LOS_PRIORITY losPrio \<longleftrightarrow> losPrio > 0 \<and> losPrio < OS_TASK_PRIORITY_LOWEST"

subsection \<open>Kernel\<close>

definition osKernelInitialize ::
  "u32 \<Rightarrow> u32 \<Rightarrow> osKernelState_t \<Rightarrow> kstate \<Rightarrow> (osStatus_t \<times> osKernelState_t \<times> kstate) option" where
  "osKernelInitialize memInit name g_kernelState s =
     (if os_int_active s then Some (osErrorISR, g_kernelState, s)
      else if g_kernelState \<noteq> osKernelInactive then Some (osError, g_kernelState, s)
      else do {
        (ret, s) \<leftarrow> LOS_KernelInit memInit name s;
        if ret = LOS_OK then Some (osOK, osKernelReady, s) else Some (osError, g_kernelState, s)
      })"

definition osKernelGetState :: "osKernelState_t \<Rightarrow> kstate \<Rightarrow> osKernelState_t" where
  "osKernelGetState g_kernelState s =
     (if \<not> g_taskScheduled s
      then if g_kernelState = osKernelReady then osKernelReady else osKernelInactive
      else if g_losTaskLock s > 0 then osKernelLocked
      else osKernelRunning)"

text \<open>LOS_Start does not return to its caller; \<open>None\<close> in the place of the status says so.\<close>

definition LOS_Start :: "(u64 \<Rightarrow> kstate \<Rightarrow> kstate option) \<Rightarrow> kstate \<Rightarrow> kstate option" where
  "LOS_Start swtmrReset s = do { s \<leftarrow> OsSchedStart swtmrReset s; HalStartToRun s }"

definition osKernelStart ::
  "(u64 \<Rightarrow> kstate \<Rightarrow> kstate option) \<Rightarrow> osKernelState_t \<Rightarrow> kstate \<Rightarrow> (osStatus_t option \<times> kstate) option" where
  "osKernelStart swtmrReset g_kernelState s =
     (if os_int_active s then Some (Some osErrorISR, s)
      else if g_kernelState \<noteq> osKernelReady then Some (Some osError, s)
      else do { s \<leftarrow> LOS_Start swtmrReset s; Some (None, s) })"

abbreviation (input) KERNEL_UNLOCKED :: i32 where "KERNEL_UNLOCKED \<equiv> 0"
abbreviation (input) KERNEL_LOCKED :: i32 where "KERNEL_LOCKED \<equiv> 1"
abbreviation (input) int_osError :: i32 where "int_osError \<equiv> - 1"
abbreviation (input) int_osErrorISR :: i32 where "int_osErrorISR \<equiv> - 6"

definition osKernelLock :: "kstate \<Rightarrow> i32 \<times> kstate" where
  "osKernelLock s =
     (if os_int_active s then (int_osErrorISR, s)
      else if \<not> g_taskScheduled s then (int_osError, s)
      else if g_losTaskLock s > 0 then (KERNEL_LOCKED, s)
      else (KERNEL_UNLOCKED, LOS_TaskLock s))"

definition osKernelUnlock :: "kstate \<Rightarrow> (i32 \<times> kstate) option" where
  "osKernelUnlock s =
     (if os_int_active s then Some (int_osErrorISR, s)
      else if \<not> g_taskScheduled s then Some (int_osError, s)
      else if g_losTaskLock s > 0
      then do {
        s \<leftarrow> LOS_TaskUnlock s;
        if g_losTaskLock s \<noteq> 0 then Some (int_osError, s) else Some (KERNEL_LOCKED, s)
      }
      else Some (KERNEL_UNLOCKED, s))"

definition osKernelRestoreLock :: "i32 \<Rightarrow> kstate \<Rightarrow> (i32 \<times> kstate) option" where
  "osKernelRestoreLock lock s =
     (if os_int_active s then Some (int_osErrorISR, s)
      else if \<not> g_taskScheduled s then Some (int_osError, s)
      else if lock = KERNEL_UNLOCKED
      then do {
        s \<leftarrow> LOS_TaskUnlock s;
        if g_losTaskLock s \<noteq> 0 then Some (int_osError, s) else Some (KERNEL_UNLOCKED, s)
      }
      else if lock = KERNEL_LOCKED then Some (KERNEL_LOCKED, LOS_TaskLock s)
      else Some (int_osError, s))"

definition osKernelGetTickCount :: "kstate \<Rightarrow> (u32 \<times> kstate) option" where
  "osKernelGetTickCount s = do { (ticks, k) \<leftarrow> LOS_TickCountGet (tk s); Some (ucast ticks, s\<lparr>tk := k\<rparr>) }"

definition osKernelGetTickFreq :: u32 where
  "osKernelGetTickFreq = 100"

definition osKernelGetSysTimerCount :: "kstate \<Rightarrow> (u32 \<times> kstate) option" where
  "osKernelGetSysTimerCount s = do { (cycles, k) \<leftarrow> LOS_SysCycleGet (tk s); Some (ucast cycles, s\<lparr>tk := k\<rparr>) }"

definition osKernelGetSysTimerFreq :: "kstate \<Rightarrow> u32" where
  "osKernelGetSysTimerFreq s = g_sysClock (tk s)"

text \<open>\<open>kernelId\<close> is the address of the string KERNEL_ID, of 14 bytes; a status and the two version numbers are returned.\<close>

definition osKernelGetInfo :: "u32 \<Rightarrow> bool \<Rightarrow> u32 \<Rightarrow> u32 \<Rightarrow> kstate \<Rightarrow> (osStatus_t \<times> (u32 \<times> u32) option) \<times> kstate" where
  "osKernelGetInfo kernelId version id_buf id_size s =
     (if \<not> version \<or> id_buf = 0 \<or> id_size = 0 then ((osError, None), s)
      else let (ret, m) = memcpy_s id_buf id_size kernelId 14 (byteMem s); s = s\<lparr>byteMem := m\<rparr>
           in if ret = EOK then ((osOK, Some (1, 1)), s) else ((osError, None), s))"

subsection \<open>Threads\<close>

text \<open>The attributes that osThreadNew reads; \<open>thr_priority\<close> is the field priority.\<close>

record osThreadAttr_t =
  thr_name :: u32
  attr_bits :: u32
  stack_mem :: u32
  stack_size :: u32
  thr_priority :: i32

definition osThreadNew_param :: "u32 \<Rightarrow> u32 \<Rightarrow> u32 \<Rightarrow> osThreadAttr_t \<Rightarrow> TSK_INIT_PARAM_S" where
  "osThreadNew_param cmsisTask func argument attr =
     \<lparr>pfnTaskEntry = func, usTaskPrio = ucast (LOS_PRIORITY (thr_priority attr)), uwArg = argument,
      stackAddr = (if stack_mem attr \<noteq> 0 \<and> stack_size attr \<noteq> 0 then stack_mem attr else 0),
      uwStackSize = (if stack_size attr \<noteq> 0 then stack_size attr else LOSCFG_BASE_CORE_TSK_DEFAULT_STACK_SIZE),
      pcName = (if thr_name attr \<noteq> 0 then thr_name attr else cmsisTask),
      uwResved = (if attr_bits attr = osThreadJoinable then LOS_TASK_ATTR_JOINABLE else 0)\<rparr>"

text \<open>\<open>cmsisTask\<close> is the address of the name a task gets when the caller gives none.\<close>

definition osThreadNew ::
  "u32 \<Rightarrow> u32 \<Rightarrow> u32 \<Rightarrow> osThreadAttr_t option \<Rightarrow> kstate \<Rightarrow> (nat option \<times> kstate) option" where
  "osThreadNew cmsisTask func argument attr s =
     (if os_int_active s \<or> func = 0 then Some (None, s)
      else let attr = (case attr of
                 None \<Rightarrow> \<lparr>thr_name = 0, attr_bits = 0, stack_mem = 0, stack_size = 0, thr_priority = osPriorityNormal\<rparr>
               | Some a \<Rightarrow> a);
               stTskInitParam = osThreadNew_param cmsisTask func argument attr
           in if \<not> ISVALID_LOS_PRIORITY (usTaskPrio stTskInitParam) then Some (None, s)
              else do {
                ((ret, tid), s) \<leftarrow> LOS_TaskCreate True (Some stTskInitParam) s;
                if ret \<noteq> LOS_OK then Some (None, s)
                else do { tid \<leftarrow> tid; Some (Some (OS_TCB_FROM_TID tid), s) }
              })"

definition osThreadGetName :: "nat option \<Rightarrow> kstate \<Rightarrow> u32" where
  "osThreadGetName thread_id s = (case thread_id of None \<Rightarrow> 0 | Some t \<Rightarrow> if os_int_active s then 0 else taskName (tcb s t))"

definition osThreadGetId :: "kstate \<Rightarrow> nat option" where
  "osThreadGetId s = runTask s"

definition osThreadGetArgument :: "kstate \<Rightarrow> u32" where
  "osThreadGetArgument s =
     (if os_int_active s then 0 else case osThreadGetId s of None \<Rightarrow> 0 | Some t \<Rightarrow> arg (tcb s t))"

definition osThreadGetState :: "nat option \<Rightarrow> kstate \<Rightarrow> osThreadState_t" where
  "osThreadGetState thread_id s = (case thread_id of
     None \<Rightarrow> osThreadError
   | Some t \<Rightarrow>
       if os_int_active s then osThreadError
       else if status s t AND OS_TASK_STATUS_RUNNING \<noteq> 0 then osThreadRunning
       else if status s t AND OS_TASK_STATUS_READY \<noteq> 0 then osThreadReady
       else if status s t AND (OS_TASK_STATUS_DELAY OR OS_TASK_STATUS_PEND OR OS_TASK_STATUS_SUSPEND OR OS_TASK_STATUS_PEND_TIME) \<noteq> 0
       then osThreadBlocked
       else if status s t AND OS_TASK_STATUS_UNUSED \<noteq> 0 then osThreadInactive
       else osThreadError)"

definition osThreadGetStackSize :: "nat option \<Rightarrow> kstate \<Rightarrow> u32" where
  "osThreadGetStackSize thread_id s = (case thread_id of None \<Rightarrow> 0 | Some t \<Rightarrow> if os_int_active s then 0 else stackSize (tcb s t))"

partial_function (option) water_mark_loop :: "u32 \<Rightarrow> u32 \<Rightarrow> kstate \<Rightarrow> u32 option" where
  "water_mark_loop ptopOfStack count s = do {
     v \<leftarrow> stackMem s ptopOfStack;
     if v = OS_TASK_STACK_INIT then water_mark_loop (ptopOfStack + 4) (count + 1) s else Some count
   }"

definition osTaskStackWaterMarkGet :: "u32 \<Rightarrow> kstate \<Rightarrow> u32 option" where
  "osTaskStackWaterMarkGet tid s =
     (if tid > of_nat LOSCFG_BASE_CORE_TSK_LIMIT then Some 0
      else let t = OS_TCB_FROM_TID tid
           in if OS_TASK_STATUS_UNUSED AND status s t \<noteq> 0 then Some 0
              else do { count \<leftarrow> water_mark_loop (topOfStack (tcb s t) + 4) 0 s; Some (count * 4) })"

definition osThreadGetStackSpace :: "nat option \<Rightarrow> kstate \<Rightarrow> u32 option" where
  "osThreadGetStackSpace thread_id s = (case thread_id of
     None \<Rightarrow> Some 0
   | Some t \<Rightarrow> if os_int_active s then Some 0 else osTaskStackWaterMarkGet (taskID (tcb s t)) s)"

definition osThreadSetPriority :: "nat option \<Rightarrow> i32 \<Rightarrow> kstate \<Rightarrow> (osStatus_t \<times> kstate) option" where
  "osThreadSetPriority thread_id prio s =
     (if os_int_active s then Some (osErrorISR, s)
      else case thread_id of
          None \<Rightarrow> Some (osErrorParameter, s)
        | Some t \<Rightarrow>
            let prio = ucast (LOS_PRIORITY prio)
            in if \<not> ISVALID_LOS_PRIORITY prio then Some (osErrorParameter, s)
               else do {
                 (ret, s) \<leftarrow> LOS_TaskPriSet (taskID (tcb s t)) prio s;
                 Some (if ret \<in> {LOS_ERRNO_TSK_PRIOR_ERROR, LOS_ERRNO_TSK_OPERATE_SYSTEM_TASK, LOS_ERRNO_TSK_ID_INVALID}
                       then osErrorParameter
                       else if ret = LOS_ERRNO_TSK_NOT_CREATED then osErrorResource else osOK, s)
               })"

definition osThreadGetPriority :: "nat option \<Rightarrow> kstate \<Rightarrow> i32" where
  "osThreadGetPriority thread_id s = (case thread_id of
     None \<Rightarrow> osPriorityError
   | Some t \<Rightarrow>
       if os_int_active s then osPriorityError
       else let ret = LOS_TaskPriGet (taskID (tcb s t)) s
            in if ret = ucast OS_INVALID \<or> ret > OS_TASK_PRIORITY_LOWEST then osPriorityError else CMSIS_PRIORITY ret)"

definition osThreadYield :: "kstate \<Rightarrow> (osStatus_t \<times> kstate) option" where
  "osThreadYield s =
     (if os_int_active s then Some (osErrorISR, s)
      else do { (ret, s) \<leftarrow> LOS_TaskYield s; Some (if ret = LOS_OK then osOK else osError, s) })"

definition osThreadSuspend :: "nat option \<Rightarrow> kstate \<Rightarrow> (osStatus_t \<times> kstate) option" where
  "osThreadSuspend thread_id s =
     (if os_int_active s then Some (osErrorISR, s)
      else case thread_id of
          None \<Rightarrow> Some (osErrorParameter, s)
        | Some t \<Rightarrow> do {
            (ret, s) \<leftarrow> LOS_TaskSuspend (taskID (tcb s t)) s;
            Some (if ret \<in> {LOS_ERRNO_TSK_OPERATE_IDLE, LOS_ERRNO_TSK_SUSPEND_SWTMR_NOT_ALLOWED, LOS_ERRNO_TSK_ID_INVALID}
                  then osErrorParameter
                  else if ret \<in> {LOS_ERRNO_TSK_NOT_CREATED, LOS_ERRNO_TSK_ALREADY_SUSPENDED, LOS_ERRNO_TSK_SUSPEND_LOCKED}
                  then osErrorResource else osOK, s)
          })"

definition osThreadResume :: "nat option \<Rightarrow> kstate \<Rightarrow> (osStatus_t \<times> kstate) option" where
  "osThreadResume thread_id s =
     (if os_int_active s then Some (osErrorISR, s)
      else case thread_id of
          None \<Rightarrow> Some (osErrorParameter, s)
        | Some t \<Rightarrow> do {
            (ret, s) \<leftarrow> LOS_TaskResume (taskID (tcb s t)) s;
            Some (if ret = LOS_ERRNO_TSK_ID_INVALID then osErrorParameter
                  else if ret \<in> {LOS_ERRNO_TSK_NOT_CREATED, LOS_ERRNO_TSK_NOT_SUSPENDED} then osErrorResource else osOK, s)
          })"

text \<open>How osThreadDetach and osThreadJoin translate an answer.\<close>

definition join_status :: "u32 \<Rightarrow> osStatus_t" where
  "join_status ret =
     (if ret = LOS_ERRNO_TSK_NOT_ALLOW_IN_INT then osErrorISR else if ret \<noteq> LOS_OK then osErrorResource else osOK)"

definition osThreadDetach :: "nat option \<Rightarrow> kstate \<Rightarrow> ((osStatus_t, nat) ans \<times> kstate) option" where
  "osThreadDetach thread_id s = (case thread_id of
     None \<Rightarrow> Some (Done osErrorParameter, s)
   | Some t \<Rightarrow> answer join_status (LOS_TaskDetach (taskID (tcb s t)) s))"

definition osThreadJoin :: "nat option \<Rightarrow> kstate \<Rightarrow> ((osStatus_t, nat) ans \<times> kstate) option" where
  "osThreadJoin thread_id s = (case thread_id of
     None \<Rightarrow> Some (Done osErrorParameter, s)
   | Some t \<Rightarrow> answer join_status (LOS_TaskJoin (taskID (tcb s t)) s))"

definition osThreadJoin_resume :: "nat \<Rightarrow> kstate \<Rightarrow> (osStatus_t \<times> kstate) option" where
  "osThreadJoin_resume t s = do { ((ret, _), s) \<leftarrow> LOS_TaskJoin_resume t s; Some (join_status ret, s) }"

definition osThreadTerminate :: "nat option \<Rightarrow> kstate \<Rightarrow> (osStatus_t \<times> kstate) option" where
  "osThreadTerminate thread_id s =
     (if os_int_active s then Some (osErrorISR, s)
      else case thread_id of
          None \<Rightarrow> Some (osErrorParameter, s)
        | Some t \<Rightarrow> do {
            (ret, s) \<leftarrow> LOS_TaskDelete (taskID (tcb s t)) s;
            Some (if ret \<in> {LOS_ERRNO_TSK_OPERATE_IDLE, LOS_ERRNO_TSK_SUSPEND_SWTMR_NOT_ALLOWED, LOS_ERRNO_TSK_ID_INVALID}
                  then osErrorParameter
                  else if ret = LOS_ERRNO_TSK_NOT_CREATED then osErrorResource else osOK, s)
          })"

definition osThreadGetCount :: "kstate \<Rightarrow> u32" where
  "osThreadGetCount s =
     (if os_int_active s then 0
      else of_nat (length (filter (\<lambda>index. status s index AND OS_TASK_STATUS_UNUSED = 0) [0..<Suc LOSCFG_BASE_CORE_TSK_LIMIT])))"

text \<open>The state in which the processor goes on; the calling thread does not.\<close>

definition osThreadExit :: "kstate \<Rightarrow> kstate option" where
  "osThreadExit s = do { (_, s) \<leftarrow> LOS_TaskDelete (LOS_CurTaskIDGet s) s; Some s }"

text \<open>Before the kernel runs, osDelay calls HalDelay, which does nothing unless the board replaces it.\<close>

definition osDelay :: "osKernelState_t \<Rightarrow> u32 \<Rightarrow> kstate \<Rightarrow> (osStatus_t \<times> kstate) option" where
  "osDelay g_kernelState ticks s =
     (if os_int_active s then Some (osErrorISR, s)
      else if ticks = 0 then Some (osErrorParameter, s)
      else if osKernelGetState g_kernelState s \<noteq> osKernelRunning then Some (osOK, s)
      else do { (ret, s) \<leftarrow> LOS_TaskDelay ticks s; Some (if ret = LOS_OK then osOK else osError, s) })"

definition osDelayUntil :: "u32 \<Rightarrow> kstate \<Rightarrow> (osStatus_t \<times> kstate) option" where
  "osDelayUntil ticks s = do {
     (tickCount, s) \<leftarrow> osKernelGetTickCount s;
     if os_int_active s then Some (osErrorISR, s)
     else if ticks < tickCount then Some (osError, s)
     else do { (ret, s) \<leftarrow> LOS_TaskDelay (ticks - tickCount) s; Some (if ret = LOS_OK then osOK else osError, s) }
   }"

subsection \<open>Timers\<close>

text \<open>\<open>type\<close> is the number of an osTimerType_t: 0 for osTimerOnce, 1 for osTimerPeriodic.\<close>

definition osTimerNew :: "u32 \<Rightarrow> u32 \<Rightarrow> u32 \<Rightarrow> kstate \<Rightarrow> nat option \<times> kstate" where
  "osTimerNew func type argument s =
     (if func = 0 \<or> os_int_active s then (None, s)
      else if type \<noteq> 0 \<and> type \<noteq> 1 then (None, s)
      else let mode = (if type = 0 then LOS_SWTMR_MODE_NO_SELFDELETE else LOS_SWTMR_MODE_PERIOD)
           in case LOS_SwtmrCreate 1 mode func True argument s of
                ((ret, swtmrId), s) \<Rightarrow> (if ret \<noteq> LOS_OK then None else map_option OS_SWT_FROM_SID swtmrId, s))"

definition timer_status :: "u32 \<Rightarrow> osStatus_t" where
  "timer_status ret =
     (if ret = LOS_OK then osOK else if ret = LOS_ERRNO_SWTMR_ID_INVALID then osErrorParameter else osErrorResource)"

definition osTimerStart :: "nat option \<Rightarrow> u32 \<Rightarrow> kstate \<Rightarrow> (osStatus_t \<times> kstate) option" where
  "osTimerStart timer_id ticks s =
     (if os_int_active s then Some (osErrorISR, s)
      else case timer_id of
          None \<Rightarrow> Some (osErrorParameter, s)
        | Some i \<Rightarrow>
            if ticks = 0 then Some (osErrorParameter, s)
            else do {
              let s = upd_swt i (\<lambda>c. c\<lparr>uwInterval := ticks\<rparr>) s;
              (ret, s) \<leftarrow> LOS_SwtmrStart (usTimerID (swt s i)) s;
              Some (timer_status ret, s)
            })"

definition osTimerStop :: "nat option \<Rightarrow> kstate \<Rightarrow> (osStatus_t \<times> kstate) option" where
  "osTimerStop timer_id s =
     (if os_int_active s then Some (osErrorISR, s)
      else case timer_id of
          None \<Rightarrow> Some (osErrorParameter, s)
        | Some i \<Rightarrow> do { (ret, s) \<leftarrow> LOS_SwtmrStop (usTimerID (swt s i)) s; Some (timer_status ret, s) })"

text \<open>In an interrupt the error number, as an unsigned integer, is the answer.\<close>

definition osTimerIsRunning :: "nat option \<Rightarrow> kstate \<Rightarrow> u32" where
  "osTimerIsRunning timer_id s =
     (if os_int_active s then - 6
      else case timer_id of None \<Rightarrow> 0 | Some i \<Rightarrow> if ucState (swt s i) = OS_SWTMR_STATUS_TICKING then 1 else 0)"

definition osTimerDelete :: "nat option \<Rightarrow> kstate \<Rightarrow> (osStatus_t \<times> kstate) option" where
  "osTimerDelete timer_id s =
     (if os_int_active s then Some (osErrorISR, s)
      else case timer_id of
          None \<Rightarrow> Some (osErrorParameter, s)
        | Some i \<Rightarrow> do { (ret, s) \<leftarrow> LOS_SwtmrDelete (usTimerID (swt s i)) s; Some (timer_status ret, s) })"

subsection \<open>Event flags\<close>

text \<open>The control block lies at the address that malloc returned.\<close>

definition osEventFlagsNew :: "kstate \<Rightarrow> evref option \<times> kstate" where
  "osEventFlagsNew s =
     (if os_int_active s then (None, s)
      else let (pstEventCB, s) = LOS_MemAlloc s
           in if pstEventCB = 0 then (None, s)
              else let (ret, s) = LOS_EventInit (Some (EvCB (unat pstEventCB))) s
                   in if ret = LOS_OK then (Some (EvCB (unat pstEventCB)), s) else (None, LOS_MemFree pstEventCB s))"

definition osEventFlagsSet :: "evref option \<Rightarrow> u32 \<Rightarrow> kstate \<Rightarrow> (u32 \<times> kstate) option" where
  "osEventFlagsSet ef_id flags s = (case ef_id of
     None \<Rightarrow> Some (osFlagsErrorParameter, s)
   | Some e \<Rightarrow> do {
       (ret, s) \<leftarrow> LOS_EventWrite ef_id flags s;
       Some (if ret = LOS_OK then uwEventID s e else osFlagsErrorResource, s)
     })"

definition osEventFlagsClear :: "evref option \<Rightarrow> u32 \<Rightarrow> kstate \<Rightarrow> u32 \<times> kstate" where
  "osEventFlagsClear ef_id flags s = (case ef_id of
     None \<Rightarrow> (osFlagsErrorParameter, s)
   | Some e \<Rightarrow>
       let rflags = uwEventID s e; (ret, s) = LOS_EventClear ef_id (NOT flags) s
       in (if ret = LOS_OK then rflags else osFlagsErrorResource, s))"

definition osEventFlagsGet :: "evref option \<Rightarrow> kstate \<Rightarrow> u32" where
  "osEventFlagsGet ef_id s = (case ef_id of None \<Rightarrow> 0 | Some e \<Rightarrow> uwEventID s e)"

definition flags_mode :: "u32 \<Rightarrow> u32" where
  "flags_mode options =
     (if options AND osFlagsWaitAll = osFlagsWaitAll then LOS_WAITMODE_AND else LOS_WAITMODE_OR) OR
     (if options AND osFlagsNoClear = osFlagsNoClear then 0 else LOS_WAITMODE_CLR)"

definition flags_answer :: "u32 \<Rightarrow> u32" where
  "flags_answer ret =
     (if ret \<in> {LOS_ERRNO_EVENT_PTR_NULL, LOS_ERRNO_EVENT_EVENTMASK_INVALID, LOS_ERRNO_EVENT_FLAGS_INVALID, LOS_ERRNO_EVENT_SETBIT_INVALID}
      then osFlagsErrorParameter
      else if ret \<in> {LOS_ERRNO_EVENT_READ_IN_INTERRUPT, LOS_ERRNO_EVENT_READ_IN_LOCK} then osFlagsErrorResource
      else if ret = LOS_ERRNO_EVENT_READ_TIMEOUT then osFlagsErrorTimeout
      else ret)"

definition osEventFlagsWait ::
  "evref option \<Rightarrow> u32 \<Rightarrow> u32 \<Rightarrow> u32 \<Rightarrow> kstate \<Rightarrow> ((u32, event_wait) ans \<times> kstate) option" where
  "osEventFlagsWait ef_id flags options timeout s =
     (if os_int_active s \<and> timeout \<noteq> 0 then Some (Done osFlagsErrorParameter, s)
      else if options > (osFlagsWaitAny OR osFlagsWaitAll OR osFlagsNoClear) then Some (Done osFlagsErrorParameter, s)
      else answer flags_answer (LOS_EventRead ef_id flags (flags_mode options) timeout s))"

definition osEventFlagsWait_resume :: "event_wait \<Rightarrow> kstate \<Rightarrow> u32 \<times> kstate" where
  "osEventFlagsWait_resume w s = (case LOS_EventRead_resume w s of (ret, s) \<Rightarrow> (flags_answer ret, s))"

text \<open>The address of a control block; those embedded in task control blocks have none here.\<close>

definition ev_addr :: "evref \<Rightarrow> u32" where
  "ev_addr e = (case e of EvCB a \<Rightarrow> of_nat a | EvTask t \<Rightarrow> 0)"

text \<open>The block goes back to the heap whatever LOS_EventDestroy answered; LOS_MemFree always returns LOS_OK.\<close>

definition osEventFlagsDelete :: "evref option \<Rightarrow> kstate \<Rightarrow> osStatus_t \<times> kstate" where
  "osEventFlagsDelete ef_id s =
     (if os_int_active s then (osErrorISR, s)
      else let (ret, s) = LOS_EventDestroy ef_id s
           in (if ret \<noteq> LOS_OK then osErrorParameter else osOK,
               LOS_MemFree (case ef_id of None \<Rightarrow> 0 | Some e \<Rightarrow> ev_addr e) s))"

subsection \<open>Mutexes\<close>

definition osMutexNew :: "kstate \<Rightarrow> (nat option \<times> kstate) option" where
  "osMutexNew s =
     (if os_int_active s then Some (None, s)
      else do {
        ((ret, muxId), s) \<leftarrow> LOS_MuxCreate True s;
        Some (if ret = LOS_OK then map_option unat muxId else None, s)
      })"

definition mutex_status :: "u32 \<Rightarrow> osStatus_t" where
  "mutex_status ret =
     (if ret = LOS_OK then osOK
      else if ret = LOS_ERRNO_MUX_INVALID then osErrorParameter
      else if ret = LOS_ERRNO_MUX_TIMEOUT then osErrorTimeout
      else osErrorResource)"

definition osMutexAcquire :: "nat option \<Rightarrow> u32 \<Rightarrow> kstate \<Rightarrow> ((osStatus_t, nat) ans \<times> kstate) option" where
  "osMutexAcquire mutex_id timeout s = (case mutex_id of
     None \<Rightarrow> Some (Done osErrorParameter, s)
   | Some i \<Rightarrow>
       if os_int_active s then Some (Done osErrorISR, s)
       else answer mutex_status (LOS_MuxPend (muxID (mux s i)) timeout s))"

definition osMutexAcquire_resume :: "nat \<Rightarrow> kstate \<Rightarrow> osStatus_t \<times> kstate" where
  "osMutexAcquire_resume t s = (case LOS_MuxPend_resume t s of (ret, s) \<Rightarrow> (mutex_status ret, s))"

definition osMutexRelease :: "nat option \<Rightarrow> kstate \<Rightarrow> (osStatus_t \<times> kstate) option" where
  "osMutexRelease mutex_id s = (case mutex_id of
     None \<Rightarrow> Some (osErrorParameter, s)
   | Some i \<Rightarrow>
       if os_int_active s then Some (osErrorISR, s)
       else do {
         (ret, s) \<leftarrow> LOS_MuxPost (muxID (mux s i)) s;
         Some (if ret = LOS_OK then osOK else if ret = LOS_ERRNO_MUX_INVALID then osErrorParameter else osErrorResource, s)
       })"

definition osMutexGetOwner :: "nat option \<Rightarrow> kstate \<Rightarrow> nat option" where
  "osMutexGetOwner mutex_id s =
     (if os_int_active s then None else case mutex_id of None \<Rightarrow> None | Some i \<Rightarrow> owner (mux s i))"

definition osMutexDelete :: "nat option \<Rightarrow> kstate \<Rightarrow> (osStatus_t \<times> kstate) option" where
  "osMutexDelete mutex_id s =
     (if os_int_active s then Some (osErrorISR, s)
      else case mutex_id of
          None \<Rightarrow> Some (osErrorParameter, s)
        | Some i \<Rightarrow> do {
            (ret, s) \<leftarrow> LOS_MuxDelete (muxID (mux s i)) s;
            Some (if ret = LOS_OK then osOK else if ret = LOS_ERRNO_MUX_INVALID then osErrorParameter else osErrorResource, s)
          })"

subsection \<open>Semaphores\<close>

definition osSemaphoreNew :: "u32 \<Rightarrow> u32 \<Rightarrow> kstate \<Rightarrow> (nat option \<times> kstate) option" where
  "osSemaphoreNew max_count initial_count s =
     (if initial_count > max_count \<or> max_count > ucast OS_SEM_COUNTING_MAX_COUNT \<or> max_count = 0 \<or> os_int_active s
      then Some (None, s)
      else do {
        ((ret, semId), s) \<leftarrow> (if max_count = 1 then LOS_BinarySemCreate (ucast initial_count) True s
                               else LOS_SemCreate (ucast initial_count) True s);
        Some (if ret = LOS_OK then map_option unat semId else None, s)
      })"

definition semaphore_status :: "u32 \<Rightarrow> osStatus_t" where
  "semaphore_status ret =
     (if ret = LOS_OK then osOK
      else if ret = LOS_ERRNO_SEM_INVALID then osErrorParameter
      else if ret = LOS_ERRNO_SEM_TIMEOUT then osErrorTimeout
      else osErrorResource)"

definition osSemaphoreAcquire :: "nat option \<Rightarrow> u32 \<Rightarrow> kstate \<Rightarrow> ((osStatus_t, nat) ans \<times> kstate) option" where
  "osSemaphoreAcquire semaphore_id timeout s = (case semaphore_id of
     None \<Rightarrow> Some (Done osErrorParameter, s)
   | Some i \<Rightarrow>
       if os_int_active s \<and> timeout \<noteq> 0 then Some (Done osErrorParameter, s)
       else answer semaphore_status (LOS_SemPend (ucast (semID (sem s i))) timeout s))"

definition osSemaphoreAcquire_resume :: "nat \<Rightarrow> kstate \<Rightarrow> osStatus_t \<times> kstate" where
  "osSemaphoreAcquire_resume t s = (case LOS_SemPend_resume t s of (ret, s) \<Rightarrow> (semaphore_status ret, s))"

definition osSemaphoreRelease :: "nat option \<Rightarrow> kstate \<Rightarrow> (osStatus_t \<times> kstate) option" where
  "osSemaphoreRelease semaphore_id s = (case semaphore_id of
     None \<Rightarrow> Some (osErrorParameter, s)
   | Some i \<Rightarrow> do {
       (ret, s) \<leftarrow> LOS_SemPost (ucast (semID (sem s i))) s;
       Some (if ret = LOS_OK then osOK else if ret = LOS_ERRNO_SEM_INVALID then osErrorParameter else osErrorResource, s)
     })"

definition osSemaphoreGetCount :: "nat option \<Rightarrow> kstate \<Rightarrow> u32" where
  "osSemaphoreGetCount semaphore_id s = (case semaphore_id of
     None \<Rightarrow> 0 | Some i \<Rightarrow> if semStat (sem s i) = 0 then 0 else ucast (semCount (sem s i)))"

definition osSemaphoreDelete :: "nat option \<Rightarrow> kstate \<Rightarrow> (osStatus_t \<times> kstate) option" where
  "osSemaphoreDelete semaphore_id s =
     (if os_int_active s then Some (osErrorISR, s)
      else case semaphore_id of
          None \<Rightarrow> Some (osErrorParameter, s)
        | Some i \<Rightarrow> do {
            (ret, s) \<leftarrow> LOS_SemDelete (ucast (semID (sem s i))) s;
            Some (if ret = LOS_OK then osOK else if ret = LOS_ERRNO_SEM_INVALID then osErrorParameter else osErrorResource, s)
          })"

subsection \<open>Message queues\<close>

text \<open>\<open>name\<close> is the name of the attributes, 0 without them; static queues are compiled out.\<close>

definition osMessageQueueNew :: "u32 \<Rightarrow> u32 \<Rightarrow> u32 \<Rightarrow> kstate \<Rightarrow> (nat option \<times> kstate) option" where
  "osMessageQueueNew msg_count msg_size name s =
     (if msg_count = 0 \<or> msg_size = 0 \<or> os_int_active s then Some (None, s)
      else do {
        ((ret, queueId), s) \<leftarrow> LOS_QueueCreate name (ucast msg_count) True 0 (ucast msg_size) s;
        Some (if ret = LOS_OK then map_option OsGetQueueHandle queueId else None, s)
      })"

definition queue_status :: "u32 \<Rightarrow> osStatus_t" where
  "queue_status ret =
     (if ret = LOS_OK then osOK
      else if ret = LOS_ERRNO_QUEUE_INVALID \<or> ret = LOS_ERRNO_QUEUE_NOT_CREATE then osErrorParameter
      else if ret = LOS_ERRNO_QUEUE_TIMEOUT then osErrorTimeout
      else osErrorResource)"

text \<open>\<open>rw\<close> is True for OS_QUEUE_WRITE; \<open>msg_ptr\<close> is an address.\<close>

definition osMessageQueueOp :: "nat option \<Rightarrow> u32 \<Rightarrow> u32 \<Rightarrow> bool \<Rightarrow> kstate \<Rightarrow> ((osStatus_t, qwait) ans \<times> kstate) option" where
  "osMessageQueueOp mq_id msg_ptr timeout rw s = (case mq_id of
     None \<Rightarrow> Some (Done osErrorParameter, s)
   | Some i \<Rightarrow>
       if msg_ptr = 0 \<or> os_int_active s \<and> timeout \<noteq> 0 then Some (Done osErrorParameter, s)
       else let bufferSize = ucast (queueSize (que s i)) - 4
            in answer queue_status
                 (if rw then LOS_QueueWriteCopy (ucast (queueID (que s i))) (Buf msg_ptr) bufferSize timeout s
                  else map_option (\<lambda>(r, _, s). (r, s)) (LOS_QueueReadCopy (ucast (queueID (que s i))) msg_ptr (Some bufferSize) timeout s)))"

definition osMessageQueueOp_resume :: "qwait \<Rightarrow> kstate \<Rightarrow> (osStatus_t \<times> kstate) option" where
  "osMessageQueueOp_resume w s = do { (ret, _, s) \<leftarrow> OsQueueOperate_resume w s; Some (queue_status ret, s) }"

definition osMessageQueuePut :: "nat option \<Rightarrow> u32 \<Rightarrow> u32 \<Rightarrow> kstate \<Rightarrow> ((osStatus_t, qwait) ans \<times> kstate) option" where
  "osMessageQueuePut mq_id msg_ptr timeout s = osMessageQueueOp mq_id msg_ptr timeout True s"

definition osMessageQueueGet :: "nat option \<Rightarrow> u32 \<Rightarrow> u32 \<Rightarrow> kstate \<Rightarrow> ((osStatus_t, qwait) ans \<times> kstate) option" where
  "osMessageQueueGet mq_id msg_ptr timeout s = osMessageQueueOp mq_id msg_ptr timeout False s"

datatype QueueAttribute = ATTR_CAPACITY | ATTR_MSGSIZE | ATTR_COUNT | ATTR_SPACE

definition osMessageQueueGetAttr :: "nat option \<Rightarrow> QueueAttribute \<Rightarrow> kstate \<Rightarrow> u16" where
  "osMessageQueueGetAttr mq_id attr s = (case mq_id of
     None \<Rightarrow> 0
   | Some i \<Rightarrow>
       if queueState (que s i) = OS_QUEUE_UNUSED then 0
       else case attr of
           ATTR_CAPACITY \<Rightarrow> queueLen (que s i)
         | ATTR_MSGSIZE \<Rightarrow> queueSize (que s i) - 4
         | ATTR_COUNT \<Rightarrow> readableCnt (que s i)
         | ATTR_SPACE \<Rightarrow> writableCnt (que s i))"

definition osMessageQueueGetCapacity :: "nat option \<Rightarrow> kstate \<Rightarrow> u32" where
  "osMessageQueueGetCapacity mq_id s = ucast (osMessageQueueGetAttr mq_id ATTR_CAPACITY s)"

definition osMessageQueueGetMsgSize :: "nat option \<Rightarrow> kstate \<Rightarrow> u32" where
  "osMessageQueueGetMsgSize mq_id s = ucast (osMessageQueueGetAttr mq_id ATTR_MSGSIZE s)"

definition osMessageQueueGetCount :: "nat option \<Rightarrow> kstate \<Rightarrow> u32" where
  "osMessageQueueGetCount mq_id s = ucast (osMessageQueueGetAttr mq_id ATTR_COUNT s)"

definition osMessageQueueGetSpace :: "nat option \<Rightarrow> kstate \<Rightarrow> u32" where
  "osMessageQueueGetSpace mq_id s = ucast (osMessageQueueGetAttr mq_id ATTR_SPACE s)"

definition osMessageQueueDelete :: "nat option \<Rightarrow> kstate \<Rightarrow> (osStatus_t \<times> kstate) option" where
  "osMessageQueueDelete mq_id s = (case mq_id of
     None \<Rightarrow> Some (osErrorParameter, s)
   | Some i \<Rightarrow>
       if os_int_active s then Some (osErrorISR, s)
       else do {
         (ret, s) \<leftarrow> LOS_QueueDelete (ucast (queueID (que s i))) s;
         Some (if ret = LOS_OK then osOK
               else if ret = LOS_ERRNO_QUEUE_NOT_FOUND \<or> ret = LOS_ERRNO_QUEUE_NOT_CREATE then osErrorParameter
               else osErrorResource, s)
       })"

definition osMessageQueueGetName :: "nat option \<Rightarrow> kstate \<Rightarrow> u32" where
  "osMessageQueueGetName mq_id s = (case mq_id of None \<Rightarrow> 0 | Some i \<Rightarrow> queueName (que s i))"

subsection \<open>Memory pools\<close>

text \<open>
  A MemPoolCB is 32 bytes of \<open>byteMem\<close>: LOS_MEMBOX_INFO, poolBase, poolSize,
  status and name.  Writing through a NULL pointer does not return.
\<close>

abbreviation (input) MP_ALLOC :: u32 where "MP_ALLOC \<equiv> 1"
abbreviation (input) MD_ALLOC :: u32 where "MD_ALLOC \<equiv> 2"
abbreviation (input) MEM_POOL_VALID :: u32 where "MEM_POOL_VALID \<equiv> 0xFFEEFF00"
abbreviation (input) sizeof_MemPoolCB :: u32 where "sizeof_MemPoolCB \<equiv> 32"

abbreviation poolBase :: "memory \<Rightarrow> u32 \<Rightarrow> u32" where "poolBase m mp \<equiv> rd32 m (mp + 16)"
abbreviation poolSize :: "memory \<Rightarrow> u32 \<Rightarrow> u32" where "poolSize m mp \<equiv> rd32 m (mp + 20)"
abbreviation pool_status :: "memory \<Rightarrow> u32 \<Rightarrow> u32" where "pool_status m mp \<equiv> rd32 m (mp + 24)"
abbreviation pool_name :: "memory \<Rightarrow> u32 \<Rightarrow> u32" where "pool_name m mp \<equiv> rd32 m (mp + 28)"

definition pool_valid :: "memory \<Rightarrow> u32 \<Rightarrow> bool" where
  "pool_valid m mp \<longleftrightarrow> pool_status m mp AND MEM_POOL_VALID = MEM_POOL_VALID"

record osMemoryPoolAttr_t =
  mpa_name :: u32
  cb_mem :: u32
  cb_size :: u32
  mp_mem :: u32
  mp_size :: u32

definition set_node :: "u32 \<Rightarrow> u32 \<Rightarrow> memory \<Rightarrow> memory option" where
  "set_node node v m = (if node = 0 then None else Some (wr32 node v m))"

primrec pool_link_loop :: "nat \<Rightarrow> u32 \<Rightarrow> u32 \<Rightarrow> memory \<Rightarrow> (u32 \<times> memory) option" where
  "pool_link_loop 0 node block_size m = Some (node, m)"
| "pool_link_loop (Suc k) node block_size m = do {
     m \<leftarrow> set_node node (node + block_size) m;
     pool_link_loop k (rd32 m node) block_size m
   }"

text \<open>The rest of osMemoryPoolNew, once the control block and the region of the pool are there.\<close>

definition pool_set_up :: "u32 \<Rightarrow> u32 \<Rightarrow> u32 \<Rightarrow> u32 \<Rightarrow> u32 \<Rightarrow> memory \<Rightarrow> memory option" where
  "pool_set_up mp block_count block_size sz name m = do {
     let m = wr32 (mp + 20) sz m;
     let m = wr32 (mp + 28) name m;
     let m = wr32 (mp + 8) 0 m;
     let m = wr32 (mp + 4) block_count m;
     let m = wr32 mp block_size m;
     let node = poolBase m mp;
     let m = wr32 (mp + 12) node m;
     (node, m) \<leftarrow> pool_link_loop (unat (block_count - 1)) node block_size m;
     m \<leftarrow> set_node node 0 m;
     Some (wr32 (mp + 24) (pool_status m mp OR MEM_POOL_VALID) m)
   }"

definition osMemoryPoolNew :: "u32 \<Rightarrow> u32 \<Rightarrow> osMemoryPoolAttr_t option \<Rightarrow> kstate \<Rightarrow> (u32 \<times> kstate) option" where
  "osMemoryPoolNew block_count block_size attr s =
     (if os_int_active s then Some (0, s)
      else if block_count = 0 \<or> block_size = 0 then Some (0, s)
      else let sz = block_count * block_size;
               memCB = (case attr of None \<Rightarrow> False | Some a \<Rightarrow> cb_mem a \<noteq> 0 \<and> cb_size a \<ge> sizeof_MemPoolCB);
               memMP = (case attr of None \<Rightarrow> False | Some a \<Rightarrow> mp_mem a \<noteq> 0 \<and> mp_mem a AND 3 = 0 \<and> mp_size a \<ge> sz);
               name = (case attr of None \<Rightarrow> 0 | Some a \<Rightarrow> mpa_name a);
               (mp, s) = (if memCB then (cb_mem (the attr), s) else LOS_MemAlloc s)
           in if mp = 0 then Some (0, s)
              else let s = s\<lparr>byteMem := wr32 (mp + 24) (if memCB then 0 else MP_ALLOC) (byteMem s)\<rparr>;
                       (base, s) = (if memMP then (mp_mem (the attr), s) else LOS_MemAlloc s);
                       s = s\<lparr>byteMem := wr32 (mp + 16) base (byteMem s)\<rparr>
                   in if \<not> memMP \<and> base = 0 \<and> \<not> memCB then Some (0, LOS_MemFree mp s)
                      else do {
                        let m = (if memMP then byteMem s else wr32 (mp + 24) (pool_status (byteMem s) mp OR MD_ALLOC) (byteMem s));
                        m \<leftarrow> pool_set_up mp block_count block_size sz name m;
                        Some (mp, s\<lparr>byteMem := m\<rparr>)
                      })"

definition osMemoryPoolAlloc :: "u32 \<Rightarrow> kstate \<Rightarrow> u32 \<times> kstate" where
  "osMemoryPoolAlloc mp_id s =
     (let m = byteMem s; node = stFreeList m mp_id
      in if mp_id = 0 \<or> \<not> pool_valid m mp_id then (0, s)
         else if node = 0 then (node, s)
         else let m = wr32 (mp_id + 12) (rd32 m node) m; m = wr32 (mp_id + 8) (uwBlkCnt m mp_id + 1) m
              in (node, s\<lparr>byteMem := m\<rparr>))"

definition osMemoryPoolFree :: "u32 \<Rightarrow> u32 \<Rightarrow> kstate \<Rightarrow> osStatus_t \<times> kstate" where
  "osMemoryPoolFree mp_id block s =
     (let m = byteMem s
      in if mp_id = 0 \<or> block = 0 then (osErrorParameter, s)
         else if \<not> pool_valid m mp_id then (osErrorResource, s)
         else if block < poolBase m mp_id \<or> block \<ge> poolBase m mp_id + poolSize m mp_id then (osErrorParameter, s)
         else let nodeTmp = stFreeList m mp_id; m = wr32 (mp_id + 12) block m; m = wr32 block nodeTmp m;
                  m = wr32 (mp_id + 8) (uwBlkCnt m mp_id - 1) m
              in (osOK, s\<lparr>byteMem := m\<rparr>))"

definition osMemoryPoolDelete :: "u32 \<Rightarrow> kstate \<Rightarrow> osStatus_t \<times> kstate" where
  "osMemoryPoolDelete mp_id s =
     (if os_int_active s then (osErrorISR, s)
      else if mp_id = 0 then (osErrorParameter, s)
      else if \<not> pool_valid (byteMem s) mp_id then (osErrorResource, s)
      else let s = (if pool_status (byteMem s) mp_id AND MD_ALLOC \<noteq> 0
                    then let s = LOS_MemFree (poolBase (byteMem s) mp_id) s in s\<lparr>byteMem := wr32 (mp_id + 16) 0 (byteMem s)\<rparr>
                    else s);
               m = wr32 (mp_id + 28) 0 (byteMem s); m = wr32 (mp_id + 24) (pool_status m mp_id AND NOT MEM_POOL_VALID) m;
               s = s\<lparr>byteMem := m\<rparr>
           in (osOK, if pool_status m mp_id AND MP_ALLOC \<noteq> 0 then LOS_MemFree mp_id s else s))"

definition osMemoryPoolGetCapacity :: "u32 \<Rightarrow> kstate \<Rightarrow> u32" where
  "osMemoryPoolGetCapacity mp_id s = (if mp_id = 0 \<or> \<not> pool_valid (byteMem s) mp_id then 0 else uwBlkNum (byteMem s) mp_id)"

definition osMemoryPoolGetBlockSize :: "u32 \<Rightarrow> kstate \<Rightarrow> u32" where
  "osMemoryPoolGetBlockSize mp_id s = (if mp_id = 0 \<or> \<not> pool_valid (byteMem s) mp_id then 0 else uwBlkSize (byteMem s) mp_id)"

definition osMemoryPoolGetCount :: "u32 \<Rightarrow> kstate \<Rightarrow> u32" where
  "osMemoryPoolGetCount mp_id s = (if mp_id = 0 \<or> \<not> pool_valid (byteMem s) mp_id then 0 else uwBlkCnt (byteMem s) mp_id)"

definition osMemoryPoolGetSpace :: "u32 \<Rightarrow> kstate \<Rightarrow> u32" where
  "osMemoryPoolGetSpace mp_id s =
     (if mp_id = 0 \<or> \<not> pool_valid (byteMem s) mp_id then 0 else uwBlkNum (byteMem s) mp_id - uwBlkCnt (byteMem s) mp_id)"

definition osMemoryPoolGetName :: "u32 \<Rightarrow> kstate \<Rightarrow> u32" where
  "osMemoryPoolGetName mp_id s =
     (if mp_id = 0 \<or> os_int_active s \<or> \<not> pool_valid (byteMem s) mp_id then 0 else pool_name (byteMem s) mp_id)"

subsection \<open>Thread flags\<close>

text \<open>The flags of a thread are the event control block in its task control block.\<close>

definition osThreadFlagsSet :: "nat option \<Rightarrow> u32 \<Rightarrow> kstate \<Rightarrow> (u32 \<times> kstate) option" where
  "osThreadFlagsSet thread_id flags s = (case thread_id of
     None \<Rightarrow> Some (osFlagsErrorParameter, s)
   | Some t \<Rightarrow> do {
       let eventSave = uwEventID s (EvTask t);
       (ret, s) \<leftarrow> LOS_EventWrite (Some (EvTask t)) flags s;
       Some (if ret = LOS_OK then eventSave OR flags
             else if ret = LOS_ERRNO_EVENT_SETBIT_INVALID then osFlagsErrorParameter
             else osFlagsErrorResource, s)
     })"

definition osThreadFlagsClear :: "u32 \<Rightarrow> kstate \<Rightarrow> (u32 \<times> kstate) option" where
  "osThreadFlagsClear flags s =
     (if os_int_active s then Some (osFlagsErrorUnknown, s)
      else do {
        run \<leftarrow> runTask s;
        let saveFlags = uwEventID s (EvTask run);
        let (ret, s) = LOS_EventClear (Some (EvTask run)) (NOT flags) s;
        Some (if ret = LOS_OK then saveFlags else osFlagsErrorResource, s)
      })"

definition osThreadFlagsGet :: "kstate \<Rightarrow> u32 option" where
  "osThreadFlagsGet s =
     (if os_int_active s then Some osFlagsErrorUnknown else map_option (\<lambda>run. uwEventID s (EvTask run)) (runTask s))"

text \<open>The end of osThreadFlagsWait, from the answer of LOS_EventRead on.\<close>

definition thread_flags_answer :: "nat \<Rightarrow> u32 \<Rightarrow> kstate \<Rightarrow> u32" where
  "thread_flags_answer run ret s =
     (if ret AND LOS_ERRTYPE_ERROR = 0 then uwEventID s (EvTask run) OR ret
      else if ret \<in> {LOS_ERRNO_EVENT_PTR_NULL, LOS_ERRNO_EVENT_SETBIT_INVALID, LOS_ERRNO_EVENT_EVENTMASK_INVALID, LOS_ERRNO_EVENT_FLAGS_INVALID}
      then osFlagsErrorParameter
      else if ret = LOS_ERRNO_EVENT_READ_TIMEOUT then osFlagsErrorTimeout
      else osFlagsErrorResource)"

definition osThreadFlagsWait :: "u32 \<Rightarrow> u32 \<Rightarrow> u32 \<Rightarrow> kstate \<Rightarrow> ((u32, event_wait) ans \<times> kstate) option" where
  "osThreadFlagsWait flags options timeout s =
     (if os_int_active s then Some (Done osFlagsErrorUnknown, s)
      else if options > (osFlagsWaitAny OR osFlagsWaitAll OR osFlagsNoClear) then Some (Done osFlagsErrorParameter, s)
      else do {
        run \<leftarrow> runTask s;
        (r, s) \<leftarrow> LOS_EventRead (Some (EvTask run)) flags (flags_mode options) timeout s;
        Some (case r of Ret ret \<Rightarrow> Done (thread_flags_answer run ret s) | Wait w \<Rightarrow> Blocked w, s)
      })"

text \<open>A thread waits only for its own flags, so the task in \<open>w\<close> is the one that goes on.\<close>

definition osThreadFlagsWait_resume :: "event_wait \<Rightarrow> kstate \<Rightarrow> u32 \<times> kstate" where
  "osThreadFlagsWait_resume w s = (case LOS_EventRead_resume w s of
     (ret, s) \<Rightarrow> (thread_flags_answer (snd (snd (snd w))) ret s, s))"

end
