(* ===== verification/LosCmsisInv.thy ===== *)
theory LosCmsisInv
  imports LosCmsis LosStart
begin

text \<open>
  What the CMSIS functions do to the kernel: a call is refused and changes nothing,
  or it is exactly one call of the kernel, which \<open>kcall\<close> names.  So applications
  that use them are among those that LosSystem is about.
\<close>

datatype ocall =
    KernelLock | KernelUnlock | KernelRestoreLock i32
  | ThreadSetPriority "nat option" i32 | ThreadYield | ThreadSuspend "nat option" | ThreadResume "nat option" | Delay u32
  | EventFlagsSet "evref option" u32 | EventFlagsClear "evref option" u32 | EventFlagsWait "evref option" u32 u32 u32
  | MutexNew | MutexAcquire "nat option" u32 | MutexRelease "nat option" | MutexDelete "nat option"
  | SemaphoreNew u32 u32 | SemaphoreAcquire "nat option" u32 | SemaphoreRelease "nat option" | SemaphoreDelete "nat option"
  | MessageQueuePut "nat option" u32 u32 | MessageQueueGet "nat option" u32 u32
  | ThreadFlagsSet "nat option" u32 | ThreadFlagsClear u32 | ThreadFlagsWait u32 u32 u32

text \<open>The state after a call and, if it blocked, what the kernel has still to do; the answer itself is left out.\<close>

definition odone :: "('a \<times> kstate) option \<Rightarrow> (cont option \<times> kstate) option" where
  "odone = map_option (\<lambda>(_, s). (None, s))"

definition oans :: "('k \<Rightarrow> cont) \<Rightarrow> (('a, 'k) ans \<times> kstate) option \<Rightarrow> (cont option \<times> kstate) option" where
  "oans K = map_option (\<lambda>(r, s). (case r of Done _ \<Rightarrow> None | Blocked k \<Rightarrow> Some (K k), s))"

fun oexec :: "osKernelState_t \<Rightarrow> ocall \<Rightarrow> kstate \<Rightarrow> (cont option \<times> kstate) option" where
  "oexec g KernelLock s = odone (Some (osKernelLock s))"
| "oexec g KernelUnlock s = odone (osKernelUnlock s)"
| "oexec g (KernelRestoreLock lock) s = odone (osKernelRestoreLock lock s)"
| "oexec g (ThreadSetPriority t p) s = odone (osThreadSetPriority t p s)"
| "oexec g ThreadYield s = odone (osThreadYield s)"
| "oexec g (ThreadSuspend t) s = odone (osThreadSuspend t s)"
| "oexec g (ThreadResume t) s = odone (osThreadResume t s)"
| "oexec g (Delay ticks) s = odone (osDelay g ticks s)"
| "oexec g (EventFlagsSet e flags) s = odone (osEventFlagsSet e flags s)"
| "oexec g (EventFlagsClear e flags) s = odone (Some (osEventFlagsClear e flags s))"
| "oexec g (EventFlagsWait e flags options timeout) s = oans KEvent (osEventFlagsWait e flags options timeout s)"
| "oexec g MutexNew s = odone (osMutexNew s)"
| "oexec g (MutexAcquire i timeout) s = oans KMux (osMutexAcquire i timeout s)"
| "oexec g (MutexRelease i) s = odone (osMutexRelease i s)"
| "oexec g (MutexDelete i) s = odone (osMutexDelete i s)"
| "oexec g (SemaphoreNew mx n) s = odone (osSemaphoreNew mx n s)"
| "oexec g (SemaphoreAcquire i timeout) s = oans KSem (osSemaphoreAcquire i timeout s)"
| "oexec g (SemaphoreRelease i) s = odone (osSemaphoreRelease i s)"
| "oexec g (SemaphoreDelete i) s = odone (osSemaphoreDelete i s)"
| "oexec g (MessageQueuePut i a timeout) s = oans KQueue (osMessageQueuePut i a timeout s)"
| "oexec g (MessageQueueGet i a timeout) s = oans KQueue (osMessageQueueGet i a timeout s)"
| "oexec g (ThreadFlagsSet t flags) s = odone (osThreadFlagsSet t flags s)"
| "oexec g (ThreadFlagsClear flags) s = odone (osThreadFlagsClear flags s)"
| "oexec g (ThreadFlagsWait flags options timeout) s = oans KEvent (osThreadFlagsWait flags options timeout s)"

text \<open>The call of the kernel that a call of the interface makes, if any.\<close>

fun kcall :: "osKernelState_t \<Rightarrow> ocall \<Rightarrow> kstate \<Rightarrow> call option" where
  "kcall g KernelLock s = (if os_int_active s \<or> \<not> g_taskScheduled s \<or> g_losTaskLock s > 0 then None else Some TaskLock)"
| "kcall g KernelUnlock s = (if os_int_active s \<or> \<not> g_taskScheduled s \<or> g_losTaskLock s = 0 then None else Some TaskUnlock)"
| "kcall g (KernelRestoreLock lock) s =
     (if os_int_active s \<or> \<not> g_taskScheduled s then None
      else if lock = 0 then Some TaskUnlock else if lock = 1 then Some TaskLock else None)"
| "kcall g (ThreadSetPriority t p) s =
     (case t of None \<Rightarrow> None | Some t \<Rightarrow>
        if os_int_active s \<or> \<not> ISVALID_LOS_PRIORITY (ucast (LOS_PRIORITY p)) then None
        else Some (TaskPriSet (taskID (tcb s t)) (ucast (LOS_PRIORITY p))))"
| "kcall g ThreadYield s = (if os_int_active s then None else Some TaskYield)"
| "kcall g (ThreadSuspend t) s = (if os_int_active s then None else map_option (\<lambda>t. TaskSuspend (taskID (tcb s t))) t)"
| "kcall g (ThreadResume t) s = (if os_int_active s then None else map_option (\<lambda>t. TaskResume (taskID (tcb s t))) t)"
| "kcall g (Delay ticks) s =
     (if os_int_active s \<or> ticks = 0 \<or> osKernelGetState g s \<noteq> osKernelRunning then None else Some (TaskDelay ticks))"
| "kcall g (EventFlagsSet e flags) s = map_option (\<lambda>e. EventWrite e flags) e"
| "kcall g (EventFlagsClear e flags) s = map_option (\<lambda>e. EventClear e (NOT flags)) e"
| "kcall g (EventFlagsWait e flags options timeout) s =
     (if os_int_active s \<and> timeout \<noteq> 0 \<or> options > 3 then None
      else map_option (\<lambda>e. EventRead e flags (flags_mode options) timeout) e)"
| "kcall g MutexNew s = (if os_int_active s then None else Some MuxCreate)"
| "kcall g (MutexAcquire i timeout) s = (if os_int_active s then None else map_option (\<lambda>i. MuxPend (muxID (mux s i)) timeout) i)"
| "kcall g (MutexRelease i) s = (if os_int_active s then None else map_option (\<lambda>i. MuxPost (muxID (mux s i))) i)"
| "kcall g (MutexDelete i) s = (if os_int_active s then None else map_option (\<lambda>i. MuxDelete (muxID (mux s i))) i)"
| "kcall g (SemaphoreNew mx n) s =
     (if n > mx \<or> mx > 0xFFFF \<or> mx = 0 \<or> os_int_active s then None
      else if mx = 1 then Some (BinarySemCreate (ucast n)) else Some (SemCreate (ucast n)))"
| "kcall g (SemaphoreAcquire i timeout) s =
     (if os_int_active s \<and> timeout \<noteq> 0 then None else map_option (\<lambda>i. SemPend (ucast (semID (sem s i))) timeout) i)"
| "kcall g (SemaphoreRelease i) s = map_option (\<lambda>i. SemPost (ucast (semID (sem s i)))) i"
| "kcall g (SemaphoreDelete i) s = (if os_int_active s then None else map_option (\<lambda>i. SemDelete (ucast (semID (sem s i)))) i)"
| "kcall g (MessageQueuePut i a timeout) s =
     (if a = 0 \<or> os_int_active s \<and> timeout \<noteq> 0 then None
      else map_option (\<lambda>i. QueueWrite (ucast (queueID (que s i))) a (ucast (queueSize (que s i)) - 4) timeout) i)"
| "kcall g (MessageQueueGet i a timeout) s =
     (if a = 0 \<or> os_int_active s \<and> timeout \<noteq> 0 then None
      else map_option (\<lambda>i. QueueRead (ucast (queueID (que s i))) a (ucast (queueSize (que s i)) - 4) timeout) i)"
| "kcall g (ThreadFlagsSet t flags) s = map_option (\<lambda>t. EventWrite (EvTask t) flags) t"
| "kcall g (ThreadFlagsClear flags) s = (if os_int_active s then None else map_option (\<lambda>r. EventClear (EvTask r) (NOT flags)) (runTask s))"
| "kcall g (ThreadFlagsWait flags options timeout) s =
     (if os_int_active s \<or> options > 3 then None
      else map_option (\<lambda>r. EventRead (EvTask r) flags (flags_mode options) timeout) (runTask s))"

definition kdone :: "(cont res \<times> kstate) option \<Rightarrow> (cont option \<times> kstate) option" where
  "kdone = map_option (\<lambda>(r, s). (case r of Ret _ \<Rightarrow> None | Wait w \<Rightarrow> Some w, s))"

lemma kdone_simps:
  "kdone (ret x) = map_option (\<lambda>(_, s). (None, s)) x"
  "kdone (cont K y) = map_option (\<lambda>(r, s). (case r of Ret _ \<Rightarrow> None | Wait k \<Rightarrow> Some (K k), s)) y"
  "oans K (answer f y) = map_option (\<lambda>(r, s). (case r of Ret _ \<Rightarrow> None | Wait k \<Rightarrow> Some (K k), s)) y"
  by (auto simp: kdone_def ret_def cont_def oans_def answer_def option.map_comp comp_def split: res.splits
    intro!: option.map_cong0)

lemma or3: "osFlagsWaitAny OR osFlagsWaitAll OR osFlagsNoClear = 3" by simp

lemma odone_simps:
  "odone None = None" "odone (Some x) = Some (None, snd x)" "oans K (Some (Done v, s)) = Some (None, s)"
  by (simp_all add: odone_def oans_def case_prod_unfold)

lemma odone_bind:
  "odone (Option.bind y (\<lambda>(r, s). Some (f r s, s))) = map_option (\<lambda>(_, s). (None, s)) y"
  by (cases y) (auto simp: odone_def)

lemmas os_defs = osKernelLock_def osKernelUnlock_def osKernelRestoreLock_def osThreadSetPriority_def osThreadYield_def
  osThreadSuspend_def osThreadResume_def osDelay_def osEventFlagsSet_def osEventFlagsClear_def osEventFlagsWait_def
  osMutexNew_def osMutexAcquire_def osMutexRelease_def osMutexDelete_def osSemaphoreNew_def osSemaphoreAcquire_def
  osSemaphoreRelease_def osSemaphoreDelete_def osMessageQueuePut_def osMessageQueueGet_def osMessageQueueOp_def
  osThreadFlagsSet_def osThreadFlagsClear_def osThreadFlagsWait_def

lemma odone_more:
  "odone (Option.bind x (\<lambda>s. if P s then Some (a, s) else Some (b, s))) = kdone (map_option (Pair (Ret c)) x)"
  "kdone (Some (Ret c, s)) = Some (None, s)"
  by (cases x; simp add: odone_def kdone_def)+

lemma oans_more:
  "oans K (Option.bind x (\<lambda>(r, s). Some (case r of Ret c \<Rightarrow> Done (f c s) | Wait k \<Rightarrow> Blocked k, s))) =
     map_option (\<lambda>(r, s). (case r of Ret _ \<Rightarrow> None | Wait k \<Rightarrow> Some (K k), s)) x"
  by (cases x) (auto simp: oans_def split: res.splits)

lemma cmsis_one_call:
  assumes "runTask s \<noteq> None"
  shows "oexec g c s = (case kcall g c s of None \<Rightarrow> Some (None, s) | Some k \<Rightarrow> kdone (exec k s))"
proof -
  have u: "g_losTaskLock s \<noteq> 0 \<longleftrightarrow> 0 < g_losTaskLock s" by (rule word_neq_0_conv)
  obtain r where r: "runTask s = Some r" using assms by blast
  show ?thesis
  proof (cases c)
    case KernelUnlock
    then show ?thesis using u by (auto simp: os_defs odone_simps odone_bind odone_more)
  next
    case (EventFlagsClear e flags)
    then show ?thesis by (cases e) (auto simp: os_defs odone_simps odone_bind kdone_simps LOS_EventClear_def)
  next
    case (EventFlagsWait e flags options timeout)
    then show ?thesis
      by (cases e) (auto simp: os_defs odone_simps odone_bind kdone_simps LOS_EventRead_def OsEventReadParamCheck_def)
  next
    case MutexNew
    then show ?thesis by (cases "LOS_MuxCreate True s") (auto simp: os_defs odone_simps odone_bind kdone_simps odone_def)
  next
    case (SemaphoreNew mx n)
    then show ?thesis
      by (cases "LOS_SemCreate (ucast n) True s"; cases "LOS_BinarySemCreate (ucast n) True s")
        (auto simp: os_defs odone_simps odone_bind kdone_simps odone_def)
  next
    case (ThreadFlagsClear flags)
    then show ?thesis by (auto simp: os_defs odone_simps odone_bind kdone_simps LOS_EventClear_def r)
  next
    case (ThreadFlagsWait flags options timeout)
    then show ?thesis by (auto simp: os_defs odone_simps odone_bind kdone_simps oans_more r)
  qed (simp_all add: os_defs odone_simps odone_bind odone_more kdone_simps Let_def split: option.split)
qed

subsection \<open>Applications that use the interface\<close>

fun oresume :: "cont \<Rightarrow> kstate \<Rightarrow> kstate option" where
  "oresume (KSem t) s = Some (snd (osSemaphoreAcquire_resume t s))"
| "oresume (KMux t) s = Some (snd (osMutexAcquire_resume t s))"
| "oresume (KEvent w) s = Some (snd (osEventFlagsWait_resume w s))"
| "oresume (KQueue w) s = map_option snd (osMessageQueueOp_resume w s)"

lemma oresume_eq: "oresume w s = map_option snd (resume w s)" "snd (osThreadFlagsWait_resume e s) = snd (osEventFlagsWait_resume e s)"
proof -
  show "oresume w s = map_option snd (resume w s)"
  proof (cases w)
    case (KQueue q)
    then show ?thesis by (cases "OsQueueOperate_resume q s") (auto simp: osMessageQueueOp_resume_def)
  qed (simp_all add: osSemaphoreAcquire_resume_def osMutexAcquire_resume_def osEventFlagsWait_resume_def case_prod_unfold)
qed (simp add: osThreadFlagsWait_resume_def osEventFlagsWait_resume_def case_prod_unfold)

definition oallowed :: "evref set \<Rightarrow> osKernelState_t \<Rightarrow> kstate \<Rightarrow> ocall \<Rightarrow> bool" where
  "oallowed E g s c \<longleftrightarrow> (case kcall g c s of None \<Rightarrow> True | Some k \<Rightarrow> allowed E s k)"

inductive ostep :: "evref set \<Rightarrow> osKernelState_t \<Rightarrow> sys \<Rightarrow> sys \<Rightarrow> bool" for E g where
  oreturns: "\<lbrakk> runTask s = Some r; k r = None; taskID (tcb s r) \<noteq> g_idleTaskID s; oallowed E g s c; oexec g c s = Some (None, s') \<rbrakk> \<Longrightarrow>
     ostep E g (s, k) (s', k)"
| oblocks: "\<lbrakk> runTask s = Some r; k r = None; taskID (tcb s r) \<noteq> g_idleTaskID s; oallowed E g s c; oexec g c s = Some (Some w, s') \<rbrakk> \<Longrightarrow>
     ostep E g (s, k) (s', k(r \<mapsto> w))"
| ogoes_on: "\<lbrakk> runTask s = Some r; k r = Some w; oresume w s = Some s' \<rbrakk> \<Longrightarrow> ostep E g (s, k) (s', k(r := None))"
| oticks: "OsTickHandler None s = Some s' \<Longrightarrow> ostep E g (s, k) (s', k)"

inductive osteps :: "evref set \<Rightarrow> osKernelState_t \<Rightarrow> nat \<Rightarrow> sys \<Rightarrow> sys \<Rightarrow> bool" for E g where
  onone: "osteps E g 0 x x"
| omore: "osteps E g m x y \<Longrightarrow> ostep E g y z \<Longrightarrow> osteps E g (Suc m) x z"

lemma kdone_cases:
  shows "kdone x = Some (None, s') \<longleftrightarrow> (\<exists>v. x = Some (Ret v, s'))" "kdone x = Some (Some w, s') \<longleftrightarrow> x = Some (Wait w, s')"
proof -
  show "kdone x = Some (None, s') \<longleftrightarrow> (\<exists>v. x = Some (Ret v, s'))"
    by (cases x) (auto simp: kdone_def split: res.splits)
  show "kdone x = Some (Some w, s') \<longleftrightarrow> x = Some (Wait w, s')"
    by (cases x) (auto simp: kdone_def split: res.splits)
qed

lemma sys_inv_later: "sys_inv E (Suc n) x L \<Longrightarrow> sys_inv E n x L"
  using core_later by (simp add: sys_inv_def)

lemma ostep_is_step: "ostep E g x y \<Longrightarrow> step E x y \<or> y = x"
proof (induction rule: ostep.induct)
  case (oreturns s r k c s')
  then have "oexec g c s = (case kcall g c s of None \<Rightarrow> Some (None, s) | Some k \<Rightarrow> kdone (exec k s))" by (simp add: cmsis_one_call)
  with oreturns show ?case by (auto simp: oallowed_def kdone_cases split: option.splits intro: step.returns)
next
  case (oblocks s r k c w s')
  then have "oexec g c s = (case kcall g c s of None \<Rightarrow> Some (None, s) | Some k \<Rightarrow> kdone (exec k s))" by (simp add: cmsis_one_call)
  with oblocks show ?case by (auto simp: oallowed_def kdone_cases split: option.splits intro: step.blocks)
next
  case (ogoes_on s r k w s')
  then show ?case by (auto simp: oresume_eq intro: step.goes_on)
qed (auto intro: step.ticks)

lemma osteps_keep: "osteps E g m x y \<Longrightarrow> sys_inv E (2 * m + n) x L \<Longrightarrow> \<exists>L'. sys_inv E n y L'"
proof (induction arbitrary: n rule: osteps.induct)
  case (omore m x y z)
  obtain L' where "sys_inv E (Suc (Suc n)) y L'" using omore.IH [of "Suc (Suc n)"] omore.prems by auto
  with ostep_is_step [OF omore.hyps(2)] show ?case using step_keeps sys_inv_later by blast
qed auto

end
