(* ===== verification/LosCmsisPool.thy ===== *)
theory LosCmsisPool
  imports LosCmsis
begin

text \<open>
  The memory pools of the CMSIS interface.  A pool consists of the eight words of
  its control block and of the first words of its blocks, which are the links of
  the free list; \<open>adr\<close> gives the address of each of these cells.  When the region is
  large enough and apart from the control block, no two cells overlap, so a word
  written to one is read from it only.
\<close>

datatype cell = Hd nat | Bk nat

record pool_at =
  p_cb :: u32
  p_base :: u32
  p_size :: nat
  p_num :: nat

primrec adr :: "pool_at \<Rightarrow> cell \<Rightarrow> u32" where
  "adr P (Hd i) = p_cb P + of_nat (4 * i)"
| "adr P (Bk k) = p_base P + of_nat (p_size P * k)"

primrec cell_ok :: "pool_at \<Rightarrow> cell \<Rightarrow> bool" where
  "cell_ok P (Hd i) = (i < 8)"
| "cell_ok P (Bk k) = (k < p_num P)"

definition pool_room :: "pool_at \<Rightarrow> bool" where
  "pool_room P \<longleftrightarrow> p_cb P \<noteq> 0 \<and> p_base P \<noteq> 0 \<and> 4 \<le> p_size P \<and> 0 < p_num P \<and>
     unat (p_cb P) + 32 \<le> 2 ^ 32 \<and> unat (p_base P) + p_size P * p_num P < 2 ^ 32 \<and>
     (unat (p_cb P) + 32 \<le> unat (p_base P) \<or> unat (p_base P) + p_size P * p_num P \<le> unat (p_cb P))"

lemma disj32_unat:
  assumes "unat a + 4 \<le> unat b" "unat b + 4 \<le> 2 ^ 32"
  shows "disj32 a b" "disj32 b a"
proof -
  show "disj32 a b"
    using assms unfolding disj32_def by (simp add: word_le_nat_alt unat_sub_if' word_size) linarith
  then show "disj32 b a" by (simp add: disj32_sym)
qed

lemma adr_unat:
  assumes G: "pool_room P"
  shows "i < 8 \<Longrightarrow> unat (adr P (Hd i)) = unat (p_cb P) + 4 * i"
    "k < p_num P \<Longrightarrow> unat (adr P (Bk k)) = unat (p_base P) + p_size P * k"
    "k < p_num P \<Longrightarrow> unat (p_base P) + p_size P * k + p_size P \<le> unat (p_base P) + p_size P * p_num P"
proof -
  show 1: "unat (p_base P) + p_size P * k + p_size P \<le> unat (p_base P) + p_size P * p_num P" if "k < p_num P" for k
    using mult_le_mono2 [of "k + 1" "p_num P" "p_size P"] that by simp
  show "unat (adr P (Hd i)) = unat (p_cb P) + 4 * i" if "i < 8"
  proof -
    have "unat (p_cb P) + 4 * i < 2 ^ 32" using G that unfolding pool_room_def by linarith
    from unat_add_nat [OF this] show ?thesis by simp
  qed
  show "unat (adr P (Bk k)) = unat (p_base P) + p_size P * k" if "k < p_num P"
  proof -
    have "unat (p_base P) + p_size P * k < 2 ^ 32" using G 1 [OF that] unfolding pool_room_def by linarith
    from unat_add_nat [OF this] show ?thesis by simp
  qed
qed

lemma cells_disj:
  assumes G: "pool_room P" and c: "cell_ok P c" "cell_ok P c'" "c \<noteq> c'"
  shows "disj32 (adr P c) (adr P c')"
proof -
  have B: "unat (adr P (Bk j)) + 4 \<le> unat (adr P (Bk k)) \<and> unat (adr P (Bk k)) + 4 \<le> 2 ^ 32" if "j < k" "k < p_num P" for j k
  proof -
    have "p_size P * j + p_size P \<le> p_size P * k" using mult_le_mono2 [of "j + 1" k "p_size P"] that(1) by simp
    then show ?thesis using adr_unat(2,3) [OF G, of k] adr_unat(2) [OF G, of j] that G unfolding pool_room_def by linarith
  qed
  have H: "unat (adr P (Hd j)) + 4 \<le> unat (adr P (Hd k)) \<and> unat (adr P (Hd k)) + 4 \<le> 2 ^ 32" if "j < k" "k < 8" for j k
    using adr_unat(1) [OF G, of k] adr_unat(1) [OF G, of j] that G unfolding pool_room_def by linarith
  have M: "disj32 (adr P (Hd i)) (adr P (Bk k))" if "i < 8" "k < p_num P" for i k
  proof (cases "unat (p_cb P) + 32 \<le> unat (p_base P)")
    case True
    then have "unat (adr P (Hd i)) + 4 \<le> unat (adr P (Bk k))" "unat (adr P (Bk k)) + 4 \<le> 2 ^ 32"
      using adr_unat(1) [OF G that(1)] adr_unat(2,3) [OF G that(2)] that G unfolding pool_room_def by linarith+
    then show ?thesis by (rule disj32_unat(1))
  next
    case False
    then have "unat (adr P (Bk k)) + 4 \<le> unat (adr P (Hd i))" "unat (adr P (Hd i)) + 4 \<le> 2 ^ 32"
      using adr_unat(1) [OF G that(1)] adr_unat(2,3) [OF G that(2)] that G unfolding pool_room_def by linarith+
    then show ?thesis by (rule disj32_unat(2))
  qed
  show ?thesis
  proof (cases c; cases c')
    fix i k assume "c = Hd i" "c' = Hd k"
    then show ?thesis using c H [of i k] H [of k i] disj32_unat by (cases "i < k") auto
  next
    fix i k assume "c = Bk i" "c' = Bk k"
    then show ?thesis using c B [of i k] B [of k i] disj32_unat by (cases "i < k") auto
  next
    fix i k assume "c = Hd i" "c' = Bk k"
    then show ?thesis using c M by simp
  next
    fix i k assume "c = Bk k" "c' = Hd i"
    then show ?thesis using c M [of i k] by (simp add: disj32_sym)
  qed
qed

lemma cell_read:
  assumes "pool_room P" "cell_ok P c" "cell_ok P c'"
  shows "rd32 (wr32 (adr P c) v m) (adr P c') = (if c = c' then v else rd32 m (adr P c'))"
  using cells_disj [OF assms(1,3,2)] by (cases "c = c'") simp_all

declare adr.simps [simp del]

text \<open>
  \<open>cpool m P fs\<close>: memory holds the valid pool \<open>P\<close>, whose free blocks are \<open>fs\<close> in
  the order of the free list.
\<close>

definition cpool :: "memory \<Rightarrow> pool_at \<Rightarrow> nat list \<Rightarrow> bool" where
  "cpool m P fs \<longleftrightarrow> pool_room P \<and> unat (rd32 m (adr P (Hd 0))) = p_size P \<and> unat (rd32 m (adr P (Hd 1))) = p_num P \<and>
     unat (rd32 m (adr P (Hd 2))) + length fs = p_num P \<and> rd32 m (adr P (Hd 4)) = p_base P \<and>
     unat (rd32 m (adr P (Hd 5))) = p_size P * p_num P \<and> rd32 m (adr P (Hd 6)) AND MEM_POOL_VALID = MEM_POOL_VALID \<and>
     distinct fs \<and> (\<forall>k \<in> set fs. k < p_num P) \<and> chain m (adr P (Hd 3)) (map (\<lambda>k. adr P (Bk k)) fs)"

lemma hd_adr:
  "adr P (Hd 0) = p_cb P" "adr P (Hd 1) = p_cb P + 4" "adr P (Hd 2) = p_cb P + 8" "adr P (Hd 3) = p_cb P + 12"
  "adr P (Hd 4) = p_cb P + 16" "adr P (Hd 5) = p_cb P + 20" "adr P (Hd 6) = p_cb P + 24" "adr P (Hd 7) = p_cb P + 28"
  by (simp_all add: adr.simps)

lemma blk_ne0: "pool_room P \<Longrightarrow> k < p_num P \<Longrightarrow> adr P (Bk k) \<noteq> 0"
proof -
  assume a: "pool_room P" "k < p_num P"
  have "0 < unat (p_base P)" using a(1) by (simp add: pool_room_def unat_gt_0)
  then have "unat (adr P (Bk k)) \<noteq> 0" using adr_unat(2) [OF a] by linarith
  then show ?thesis by (metis unat_0)
qed

lemma cpool_D:
  assumes "cpool m P fs"
  shows "pool_room P" "unat (rd32 m (adr P (Hd 0))) = p_size P" "unat (rd32 m (adr P (Hd 1))) = p_num P"
    "unat (rd32 m (adr P (Hd 2))) + length fs = p_num P" "rd32 m (adr P (Hd 4)) = p_base P"
    "unat (rd32 m (adr P (Hd 5))) = p_size P * p_num P" "rd32 m (adr P (Hd 6)) AND MEM_POOL_VALID = MEM_POOL_VALID"
    "distinct fs" "k \<in> set fs \<Longrightarrow> k < p_num P" "chain m (adr P (Hd 3)) (map (\<lambda>k. adr P (Bk k)) fs)"
    "p_num P < 2 ^ 32" "p_cb P \<noteq> 0" "pool_valid m (p_cb P)"
proof -
  have G: "pool_room P" using assms by (simp add: cpool_def)
  have "1 * p_num P \<le> p_size P * p_num P" using G by (intro mult_right_mono) (simp_all add: pool_room_def)
  then show "p_num P < 2 ^ 32" using G unfolding pool_room_def by linarith
qed (use assms hd_adr(7) [of P] in \<open>simp_all add: cpool_def pool_room_def pool_valid_def\<close>)

text \<open>Writes to cells other than the links of free blocks leave the free list alone.\<close>

lemma chain_cells:
  assumes "pool_room P" "cell_ok P c" "\<And>k. k \<in> set fs \<Longrightarrow> k < p_num P \<and> c \<noteq> Bk k" "cell_ok P a" "c \<noteq> a"
  shows "chain (wr32 (adr P c) v m) (adr P a) (map (\<lambda>k. adr P (Bk k)) fs) = chain m (adr P a) (map (\<lambda>k. adr P (Bk k)) fs)"
proof (rule chain_cong)
  show "rd32 (wr32 (adr P c) v m) (adr P a) = rd32 m (adr P a)" using cell_read [OF assms(1,2,4)] assms(5) by simp
  fix n assume "n \<in> set (map (\<lambda>k. adr P (Bk k)) fs)"
  then obtain k where k: "k \<in> set fs" "n = adr P (Bk k)" by auto
  then have "cell_ok P (Bk k)" "c \<noteq> Bk k" using assms(3) by auto
  then show "rd32 (wr32 (adr P c) v m) n = rd32 m n" unfolding k(2) using cell_read [OF assms(1,2)] by simp
qed

lemma pool_alloc_law:
  assumes C: "cpool (byteMem s) P (k # fs)"
  obtains m where "osMemoryPoolAlloc (p_cb P) s = (adr P (Bk k), s\<lparr>byteMem := m\<rparr>)" "cpool m P fs"
proof -
  note D = cpool_D [OF C]
  have k: "cell_ok P (Bk k)" "k \<notin> set fs" "\<And>j. j \<in> set fs \<Longrightarrow> j < p_num P" "distinct fs"
    using D(8) D(9) by auto
  have H: "cell_ok P (Hd i)" if "i < 8" for i using that by simp
  note rd = cell_read [OF D(1)]
  let ?m = "byteMem s"
  have f: "rd32 ?m (adr P (Hd 3)) = adr P (Bk k)" "chain ?m (adr P (Bk k)) (map (\<lambda>k. adr P (Bk k)) fs)"
    using D(10) by (simp_all)
  define m1 where "m1 = wr32 (adr P (Hd 3)) (rd32 ?m (adr P (Bk k))) ?m"
  define m2 where "m2 = wr32 (adr P (Hd 2)) (rd32 m1 (adr P (Hd 2)) + 1) m1"
  have O: "osMemoryPoolAlloc (p_cb P) s = (adr P (Bk k), s\<lparr>byteMem := m2\<rparr>)"
    using f(1) D(12,13) blk_ne0 [OF D(1), of k] k(1) unfolding osMemoryPoolAlloc_def m1_def m2_def hd_adr
    by (simp add: Let_def)
  have c1: "chain m1 (adr P (Bk k)) (map (\<lambda>k. adr P (Bk k)) fs)"
    unfolding m1_def by (subst chain_cells [OF D(1) H]) (use f(2) k in \<open>simp_all\<close>)
  have "rd32 m1 (adr P (Hd 3)) = rd32 m1 (adr P (Bk k))" using rd H k(1) by (simp add: m1_def)
  then have "chain m1 (adr P (Hd 3)) (map (\<lambda>k. adr P (Bk k)) fs)" using c1 chain_cong [of m1 "adr P (Hd 3)" m1 "adr P (Bk k)"] by simp
  then have c2: "chain m2 (adr P (Hd 3)) (map (\<lambda>k. adr P (Bk k)) fs)"
    unfolding m2_def by (subst chain_cells [OF D(1) H]) (use k H in \<open>simp_all\<close>)
  have r: "rd32 m2 (adr P (Hd i)) = rd32 ?m (adr P (Hd i))" if "i < 8" "i \<noteq> 2" "i \<noteq> 3" for i
    using that H by (simp add: m2_def m1_def rd)
  have "rd32 m2 (adr P (Hd 2)) = rd32 ?m (adr P (Hd 2)) + 1" using H by (simp add: m2_def m1_def rd)
  moreover have "unat (rd32 ?m (adr P (Hd 2)) + 1) = unat (rd32 ?m (adr P (Hd 2))) + 1"
    using D(4,11) by (simp add: unat_word_ariths)
  ultimately have "cpool m2 P fs"
    using D r c2 k by (simp add: cpool_def)
  then show thesis by (rule that [OF O])
qed

lemma pool_alloc_empty: "cpool (byteMem s) P [] \<Longrightarrow> osMemoryPoolAlloc (p_cb P) s = (0, s)"
  using cpool_D [of "byteMem s" P "[]"] by (simp add: osMemoryPoolAlloc_def Let_def hd_adr)

lemma pool_free_law:
  assumes C: "cpool (byteMem s) P fs" and k: "k < p_num P" "k \<notin> set fs"
  obtains m where "osMemoryPoolFree (p_cb P) (adr P (Bk k)) s = (osOK, s\<lparr>byteMem := m\<rparr>)" "cpool m P (k # fs)"
proof -
  note D = cpool_D [OF C] and G = cpool_D(1) [OF C]
  have K: "cell_ok P (Bk k)" using k(1) by simp
  have H: "cell_ok P (Hd i)" if "i < 8" for i using that by simp
  note rd = cell_read [OF G]
  let ?m = "byteMem s" and ?b = "adr P (Bk k)"
  define m1 where "m1 = wr32 (adr P (Hd 3)) ?b ?m"
  define m2 where "m2 = wr32 ?b (rd32 ?m (adr P (Hd 3))) m1"
  define m3 where "m3 = wr32 (adr P (Hd 2)) (rd32 m2 (adr P (Hd 2)) - 1) m2"
  have u: "unat ?b = unat (p_base P) + p_size P * k" "unat (p_base P) + p_size P * k + p_size P \<le> unat (p_base P) + p_size P * p_num P"
    using adr_unat(2,3) [OF G k(1)] by simp_all
  have e: "unat (p_base P + rd32 ?m (adr P (Hd 5))) = unat (p_base P) + p_size P * p_num P"
    using G D(6) by (simp add: unat_word_ariths pool_room_def)
  have "unat ?b < unat (p_base P + rd32 ?m (adr P (Hd 5)))" using u e G unfolding pool_room_def by linarith
  moreover have "unat (p_base P) \<le> unat ?b" using u by linarith
  ultimately have in_pool: "\<not> ?b < p_base P" "\<not> ?b \<ge> p_base P + rd32 ?m (adr P (Hd 5))"
    by (simp_all add: word_less_nat_alt word_le_nat_alt)
  have O: "osMemoryPoolFree (p_cb P) ?b s = (osOK, s\<lparr>byteMem := m3\<rparr>)"
    using D(5,12,13) in_pool blk_ne0 [OF G k(1)] unfolding osMemoryPoolFree_def m1_def m2_def m3_def hd_adr
    by (simp add: Let_def)
  have f: "j < p_num P \<and> Bk k \<noteq> Bk j" if "j \<in> set fs" for j using D(9) [OF that] k(2) that by auto
  have "rd32 m2 ?b = rd32 ?m (adr P (Hd 3))" by (simp add: m2_def)
  moreover have "rd32 m2 (adr P (Bk j)) = rd32 ?m (adr P (Bk j))" if "j \<in> set fs" for j
    using f [OF that] K H by (simp add: m2_def m1_def rd)
  ultimately have "chain m2 ?b (map (\<lambda>k. adr P (Bk k)) fs)" using D(10) by (subst chain_cong [of m2 ?b ?m "adr P (Hd 3)"]) auto
  moreover have "rd32 m2 (adr P (Hd 3)) = ?b" using K H by (simp add: m2_def m1_def rd)
  ultimately have "chain m2 (adr P (Hd 3)) (map (\<lambda>k. adr P (Bk k)) (k # fs))" using blk_ne0 [OF G k(1)] by simp
  then have c3: "chain m3 (adr P (Hd 3)) (map (\<lambda>k. adr P (Bk k)) (k # fs))"
    unfolding m3_def by (subst chain_cells [OF G H]) (use f k(1) in auto)
  have r: "rd32 m3 (adr P (Hd i)) = rd32 ?m (adr P (Hd i))" if "i < 8" "i \<noteq> 2" "i \<noteq> 3" for i
    using that H K by (simp add: m3_def m2_def m1_def rd)
  have cnt: "rd32 m3 (adr P (Hd 2)) = rd32 ?m (adr P (Hd 2)) - 1" using H K by (simp add: m3_def m2_def m1_def rd)
  have "set (k # fs) \<subseteq> {..<p_num P}" "distinct (k # fs)" using D(8,9) k by auto
  then have "length (k # fs) \<le> p_num P" using card_mono [of "{..<p_num P}" "set (k # fs)"] by (simp add: distinct_card)
  then have "0 < unat (rd32 ?m (adr P (Hd 2)))" using D(4) by simp
  then have "unat (rd32 ?m (adr P (Hd 2)) - 1) = unat (rd32 ?m (adr P (Hd 2))) - 1" by (rule unat_pred32)
  then have "cpool m3 P (k # fs)"
    using D r c3 k cnt \<open>0 < unat (rd32 ?m (adr P (Hd 2)))\<close> by (simp add: cpool_def)
  then show thesis by (rule that [OF O])
qed

lemma link_blocks:
  assumes G: "pool_room P" and i: "i + j < p_num P"
  shows "\<exists>m'. pool_link_loop j (adr P (Bk i)) (of_nat (p_size P)) m = Some (adr P (Bk (i + j)), m') \<and>
    (\<forall>c. cell_ok P c \<longrightarrow> rd32 m' (adr P c) =
       (case c of Hd _ \<Rightarrow> rd32 m (adr P c) | Bk x \<Rightarrow> if i \<le> x \<and> x < i + j then adr P (Bk (Suc x)) else rd32 m (adr P c)))"
  using i
proof (induction j arbitrary: i m)
  case 0
  then show ?case by (auto split: cell.split)
next
  case (Suc j)
  have K: "cell_ok P (Bk i)" "i < p_num P" using Suc.prems by simp_all
  let ?m = "wr32 (adr P (Bk i)) (adr P (Bk (Suc i))) m"
  have e: "adr P (Bk i) + of_nat (p_size P) = adr P (Bk (Suc i))" by (simp add: adr.simps algebra_simps)
  have s: "set_node (adr P (Bk i)) (adr P (Bk i) + of_nat (p_size P)) m = Some ?m"
    using blk_ne0 [OF G K(2)] by (simp add: set_node_def e)
  obtain m' where m': "pool_link_loop j (adr P (Bk (Suc i))) (of_nat (p_size P)) ?m = Some (adr P (Bk (Suc i + j)), m')"
    "\<forall>c. cell_ok P c \<longrightarrow> rd32 m' (adr P c) =
       (case c of Hd _ \<Rightarrow> rd32 ?m (adr P c) | Bk x \<Rightarrow> if Suc i \<le> x \<and> x < Suc i + j then adr P (Bk (Suc x)) else rd32 ?m (adr P c))"
    using Suc.IH [of "Suc i" ?m] Suc.prems by auto
  have "rd32 m' (adr P c) = (case c of Hd _ \<Rightarrow> rd32 m (adr P c)
      | Bk x \<Rightarrow> if i \<le> x \<and> x < i + Suc j then adr P (Bk (Suc x)) else rd32 m (adr P c))" if c: "cell_ok P c" for c
    using m'(2) [rule_format, OF c] cell_read [OF G K(1) c] by (auto split: cell.splits simp: not_less_eq_eq [symmetric] dest: le_antisym)
  then show ?case using m'(1) s by simp
qed

lemma linked_chain:
  assumes "i + j < p_num P" "pool_room P" "\<And>x. i \<le> x \<Longrightarrow> x < i + j \<Longrightarrow> rd32 m (adr P (Bk x)) = adr P (Bk (Suc x))"
    "rd32 m (adr P (Bk (i + j))) = 0" "rd32 m a = adr P (Bk i)"
  shows "chain m a (map (\<lambda>k. adr P (Bk k)) [i..<Suc (i + j)])"
  using assms
proof (induction j arbitrary: i a)
  case 0
  then show ?case using blk_ne0 [of P i] by simp
next
  case (Suc j)
  have "chain m (adr P (Bk i)) (map (\<lambda>k. adr P (Bk k)) [Suc i..<Suc (Suc i + j)])"
    by (rule Suc.IH) (use Suc.prems in simp_all)
  then show ?case using Suc.prems blk_ne0 [of P i] by (simp add: upt_conv_Cons del: upt_Suc)
qed

lemma pool_set_up_law:
  assumes G: "pool_room P" and b: "rd32 m (adr P (Hd 4)) = p_base P"
    and v: "unat c = p_num P" "unat z = p_size P" "unat sz = p_size P * p_num P"
  obtains m' where "pool_set_up (p_cb P) c z sz name m = Some m'" "cpool m' P [0..<p_num P]"
    "\<And>i. i = 4 \<or> i = 6 \<Longrightarrow> rd32 m' (adr P (Hd i)) = (if i = 6 then rd32 m (adr P (Hd 6)) OR MEM_POOL_VALID else p_base P)"
proof -
  have H: "cell_ok P (Hd i)" if "i < 8" for i using that by simp
  note rd = cell_read [OF G]
  define m1 where "m1 = wr32 (adr P (Hd 0)) z (wr32 (adr P (Hd 1)) c (wr32 (adr P (Hd 2)) 0
    (wr32 (adr P (Hd 7)) name (wr32 (adr P (Hd 5)) sz m))))"
  define m2 where "m2 = wr32 (adr P (Hd 3)) (rd32 m1 (adr P (Hd 4))) m1"
  have b1: "rd32 m1 (adr P (Hd 4)) = adr P (Bk 0)" using b H by (simp add: m1_def rd) (simp add: adr.simps)
  have p: "0 < p_num P" using G by (simp add: pool_room_def)
  have n: "unat (c - 1) = p_num P - 1" using p v(1) unat_pred32 [of c] by simp
  have z: "of_nat (p_size P) = z" using v(2) [symmetric] by simp
  obtain m3 where 3: "pool_link_loop (p_num P - 1) (adr P (Bk 0)) z m2 = Some (adr P (Bk (p_num P - 1)), m3)"
    and r3: "\<And>d. cell_ok P d \<Longrightarrow> rd32 m3 (adr P d) =
       (case d of Hd _ \<Rightarrow> rd32 m2 (adr P d) | Bk x \<Rightarrow> if 0 \<le> x \<and> x < 0 + (p_num P - 1) then adr P (Bk (Suc x)) else rd32 m2 (adr P d))"
    using link_blocks [OF G, of 0 "p_num P - 1" m2] p unfolding z by auto
  have L: "cell_ok P (Bk (p_num P - 1))" "p_num P - 1 < p_num P" using p by simp_all
  define m4 where "m4 = wr32 (adr P (Bk (p_num P - 1))) 0 m3"
  define m5 where "m5 = wr32 (adr P (Hd 6)) (rd32 m4 (adr P (Hd 6)) OR MEM_POOL_VALID) m4"
  have O: "pool_set_up (p_cb P) c z sz name m = Some m5"
    using 3 b1 blk_ne0 [OF G L(2)] unfolding pool_set_up_def m5_def m4_def m2_def m1_def hd_adr n
    by (simp add: Let_def set_node_def)
  have h: "rd32 m5 (adr P (Hd i)) = (if i = 6 then rd32 m2 (adr P (Hd 6)) OR MEM_POOL_VALID else rd32 m2 (adr P (Hd i)))" if "i < 8" for i
    using that H L by (simp add: m5_def m4_def rd r3)
  have k: "rd32 m5 (adr P (Bk x)) = (if x < p_num P - 1 then adr P (Bk (Suc x)) else 0)" if "x < p_num P" for x
    using that H [of 6] L r3 [of "Bk x"] by (auto simp: m5_def m4_def rd)
  have m2: "rd32 m2 (adr P (Hd i)) = (if i = 0 then z else if i = 1 then c else if i = 2 then 0 else if i = 3 then adr P (Bk 0)
      else if i = 5 then sz else if i = 7 then name else rd32 m (adr P (Hd i)))" if "i < 8" for i
    using that H b1 by (simp add: m2_def rd) (simp add: m1_def rd)
  have "chain m5 (adr P (Hd 3)) (map (\<lambda>k. adr P (Bk k)) [0..<Suc (0 + (p_num P - 1))])"
    by (rule linked_chain [OF _ G]) (use p k h m2 in auto)
  then have "chain m5 (adr P (Hd 3)) (map (\<lambda>k. adr P (Bk k)) [0..<p_num P])" using p by simp
  then have "cpool m5 P [0..<p_num P]"
    using G v b h m2 by (simp add: cpool_def bit.conj_disj_distrib2 and.assoc or.commute)
  then show thesis by (rule that [OF O]) (use h m2 b in auto)
qed

text \<open>A pool whose control block and region both come from malloc.\<close>

lemma pool_new_law:
  assumes G: "pool_room P" and ms: "mallocs s = p_cb P # p_base P # ms" and i: "\<not> os_int_active s"
    and v: "unat c = p_num P" "unat z = p_size P"
  obtains m where "osMemoryPoolNew c z None s = Some (p_cb P, s\<lparr>mallocs := ms, byteMem := m\<rparr>)" "cpool m P [0..<p_num P]"
    "rd32 m (adr P (Hd 6)) = MP_ALLOC OR MD_ALLOC OR MEM_POOL_VALID"
proof -
  have H: "cell_ok P (Hd i)" if "i < 8" for i using that by simp
  note rd = cell_read [OF G]
  have nz: "c \<noteq> 0" "z \<noteq> 0" "p_cb P \<noteq> 0" "p_base P \<noteq> 0" using G v by (auto simp: pool_room_def)
  have sz: "unat (c * z) = p_size P * p_num P"
    using G v by (simp add: unat_word_ariths pool_room_def mult.commute)
  define m1 where "m1 = wr32 (adr P (Hd 6)) MP_ALLOC (byteMem s)"
  define m2 where "m2 = wr32 (adr P (Hd 4)) (p_base P) m1"
  define m3 where "m3 = wr32 (adr P (Hd 6)) (rd32 m2 (adr P (Hd 6)) OR MD_ALLOC) m2"
  have b: "rd32 m3 (adr P (Hd 4)) = p_base P" "rd32 m3 (adr P (Hd 6)) = MP_ALLOC OR MD_ALLOC"
    using H by (simp_all add: m3_def m2_def m1_def rd)
  obtain m where m: "pool_set_up (p_cb P) c z (c * z) 0 m3 = Some m" "cpool m P [0..<p_num P]"
    and st: "\<And>i. i = 4 \<or> i = 6 \<Longrightarrow> rd32 m (adr P (Hd i)) = (if i = 6 then rd32 m3 (adr P (Hd 6)) OR MEM_POOL_VALID else p_base P)"
    by (rule pool_set_up_law [OF G b(1) v sz]) (rule that; assumption)
  have "osMemoryPoolNew c z None s = Some (p_cb P, s\<lparr>mallocs := ms, byteMem := m\<rparr>)"
    using i nz ms m(1) unfolding osMemoryPoolNew_def m3_def m2_def m1_def hd_adr
    by (simp add: Let_def LOS_MemAlloc_def)
  then show thesis by (rule that [OF _ m(2)]) (use st [of 6] b(2) in simp)
qed

end
