(* ===== verification/PropCmsis.thy ===== *)
theory PropCmsis
  imports LosCmsisInv LosCmsisPool LosDemo
begin

text \<open>
  The properties of the CMSIS interface: applications that use it, its lock
  functions and its memory pools.
\<close>



text \<open>
  C33.  osKernelLock returns the state of the lock for a later osKernelRestoreLock.
  If the scheduler was not locked, the pair leaves it unlocked and the
  invariants hold.  If it was locked, osKernelLock does not count the lock again but
  osKernelRestoreLock does: the count is one higher than before, and the
  osKernelUnlock that should end the outer lock answers osError and leaves the
  scheduler locked.
\<close>

theorem cmsis_lock_restore:
  assumes "core_inv E (Suc (Suc n)) s L" "g_losTaskLock s \<noteq> 0xFFFF"
  shows "(g_losTaskLock s = 0 \<longrightarrow> (\<exists>s2 L2. osKernelLock s = (KERNEL_UNLOCKED, LOS_TaskLock s) \<and>
       osKernelRestoreLock KERNEL_UNLOCKED (LOS_TaskLock s) = Some (KERNEL_UNLOCKED, s2) \<and>
       g_losTaskLock s2 = 0 \<and> core_inv E n s2 L2)) \<and>
    (g_losTaskLock s \<noteq> 0 \<longrightarrow> osKernelLock s = (KERNEL_LOCKED, s) \<and>
       (\<exists>s2. osKernelRestoreLock KERNEL_LOCKED s = Some (KERNEL_LOCKED, s2) \<and> g_losTaskLock s2 = g_losTaskLock s + 1 \<and>
          osKernelUnlock s2 = Some (int_osError, s)))"
proof (intro conjI impI)
  note D = core_D [OF assms(1)]
  {
    assume z: "g_losTaskLock s = 0"
    have "served E (Suc n) s (LOS_TaskLock s)" by (rule task_lock_served(1) [OF assms(1)])
    then obtain L1 where L1: "core_inv E (Suc n) (LOS_TaskLock s) L1" by (auto simp: served_def)
    obtain s2 where 2: "LOS_TaskUnlock (LOS_TaskLock s) = Some s2" "served E n (LOS_TaskLock s) s2"
      using task_lock_served(2) [OF L1] by blast
    obtain s2' where "LOS_TaskUnlock (LOS_TaskLock s) = Some s2'"
      "g_losTaskLock s2' = (if g_losTaskLock (LOS_TaskLock s) > 0 then g_losTaskLock (LOS_TaskLock s) - 1 else g_losTaskLock (LOS_TaskLock s))"
      by (rule task_unlock_law [OF core_D(1) [OF L1]]) (rule that; assumption)
    then have "g_losTaskLock s2 = 0" using 2(1) z by (simp add: LOS_TaskLock_def split: if_splits)
    then show "\<exists>s2 L2. osKernelLock s = (KERNEL_UNLOCKED, LOS_TaskLock s) \<and>
       osKernelRestoreLock KERNEL_UNLOCKED (LOS_TaskLock s) = Some (KERNEL_UNLOCKED, s2) \<and> g_losTaskLock s2 = 0 \<and> core_inv E n s2 L2"
      using 2 D(9,11) z by (auto simp: osKernelLock_def osKernelRestoreLock_def LOS_TaskLock_def served_def)
  next
    assume z: "g_losTaskLock s \<noteq> 0"
    have "0 < g_losTaskLock s" "0 < g_losTaskLock s + 1" using z assms(2) by (auto simp: word_neq_0_conv [symmetric] eq_neg_iff_add_eq_0 [symmetric])
    then show "osKernelLock s = (KERNEL_LOCKED, s)"
      "\<exists>s2. osKernelRestoreLock KERNEL_LOCKED s = Some (KERNEL_LOCKED, s2) \<and> g_losTaskLock s2 = g_losTaskLock s + 1 \<and>
          osKernelUnlock s2 = Some (int_osError, s)"
      using D(9,11) z by (auto simp: osKernelLock_def osKernelRestoreLock_def osKernelUnlock_def LOS_TaskLock_def LOS_TaskUnlock_def Let_def)
  }
qed

theorem cmsis_lock_restore_witness:
  "osKernelLock demo = (KERNEL_UNLOCKED, LOS_TaskLock demo) \<and>
    osKernelLock (LOS_TaskLock demo) = (KERNEL_LOCKED, LOS_TaskLock demo) \<and>
    (\<exists>s2. osKernelRestoreLock KERNEL_LOCKED (LOS_TaskLock demo) = Some (KERNEL_LOCKED, s2) \<and> g_losTaskLock s2 = 2 \<and>
       osKernelUnlock s2 = Some (int_osError, LOS_TaskLock demo))"
proof -
  have C: "core_inv {EvCB 0} (Suc (Suc 0)) demo demoL" by (rule demo_core) simp
  have "core_inv {EvCB 0} (Suc (Suc (Suc 0))) demo demoL" by (rule demo_core) simp
  from task_lock_served(1) [OF this] obtain L1 where "core_inv {EvCB 0} (Suc (Suc 0)) (LOS_TaskLock demo) L1" by (auto simp: served_def)
  from cmsis_lock_restore [OF this] cmsis_lock_restore [OF C] show ?thesis by (auto simp: LOS_TaskLock_def)
qed

text \<open>
  C32.  Memory pools.  osMemoryPoolNew with room for the control block and the blocks
  returns a pool in which every block is free.  osMemoryPoolAlloc takes the first
  free block of a pool, and osMemoryPoolFree of that block makes it the first free
  one again; the other blocks and the numbers of the pool stay as they are.  When
  no block is free, osMemoryPoolAlloc returns NULL and changes nothing.
\<close>

theorem cmsis_pool:
  assumes "pool_room P" "mallocs s = p_cb P # p_base P # ms" "\<not> os_int_active s" "unat c = p_num P" "unat z = p_size P"
  shows "(\<exists>s1. osMemoryPoolNew c z None s = Some (p_cb P, s1) \<and> mallocs s1 = ms \<and> cpool (byteMem s1) P [0..<p_num P] \<and>
      osMemoryPoolGetCapacity (p_cb P) s1 = c \<and> osMemoryPoolGetBlockSize (p_cb P) s1 = z \<and> osMemoryPoolGetSpace (p_cb P) s1 = c) \<and>
    (\<forall>s2 k fs. cpool (byteMem s2) P (k # fs) \<longrightarrow>
      (\<exists>s3 s4. osMemoryPoolAlloc (p_cb P) s2 = (adr P (Bk k), s3) \<and> cpool (byteMem s3) P fs \<and>
         osMemoryPoolFree (p_cb P) (adr P (Bk k)) s3 = (osOK, s4) \<and> cpool (byteMem s4) P (k # fs))) \<and>
    (\<forall>s2. cpool (byteMem s2) P [] \<longrightarrow> osMemoryPoolAlloc (p_cb P) s2 = (0, s2))"
proof (intro conjI allI impI)
  obtain m where m: "osMemoryPoolNew c z None s = Some (p_cb P, s\<lparr>mallocs := ms, byteMem := m\<rparr>)" "cpool m P [0..<p_num P]"
    by (rule pool_new_law [OF assms])
  note D = cpool_D [OF m(2), unfolded hd_adr]
  have "uwBlkNum m (p_cb P) = c" "uwBlkSize m (p_cb P) = z" "uwBlkCnt m (p_cb P) = 0"
    using D(2-4) assms(4,5) by (simp_all add: word_unat_eq_iff)
  then show "\<exists>s1. osMemoryPoolNew c z None s = Some (p_cb P, s1) \<and> mallocs s1 = ms \<and> cpool (byteMem s1) P [0..<p_num P] \<and>
      osMemoryPoolGetCapacity (p_cb P) s1 = c \<and> osMemoryPoolGetBlockSize (p_cb P) s1 = z \<and> osMemoryPoolGetSpace (p_cb P) s1 = c"
    using m D(12,13) by (simp add: osMemoryPoolGetCapacity_def osMemoryPoolGetBlockSize_def osMemoryPoolGetSpace_def)
next
  fix s2 :: kstate and k fs assume C: "cpool (byteMem s2) P (k # fs)"
  obtain m3 where 3: "osMemoryPoolAlloc (p_cb P) s2 = (adr P (Bk k), s2\<lparr>byteMem := m3\<rparr>)" "cpool m3 P fs"
    by (rule pool_alloc_law [OF C])
  then have "cpool (byteMem (s2\<lparr>byteMem := m3\<rparr>)) P fs" "k < p_num P" "k \<notin> set fs" using cpool_D(8,9) [OF C] by simp_all
  from pool_free_law [OF this] obtain m4
    where "osMemoryPoolFree (p_cb P) (adr P (Bk k)) (s2\<lparr>byteMem := m3\<rparr>) = (osOK, s2\<lparr>byteMem := m4\<rparr>)" "cpool m4 P (k # fs)" by auto
  then show "\<exists>s3 s4. osMemoryPoolAlloc (p_cb P) s2 = (adr P (Bk k), s3) \<and> cpool (byteMem s3) P fs \<and>
      osMemoryPoolFree (p_cb P) (adr P (Bk k)) s3 = (osOK, s4) \<and> cpool (byteMem s4) P (k # fs)"
    using 3 by (intro exI [of _ "s2\<lparr>byteMem := m3\<rparr>"] exI [of _ "s2\<lparr>byteMem := m4\<rparr>"]) simp
qed (rule pool_alloc_empty)

theorem cmsis_pool_witness:
  "\<exists>s1 s2 s3. osMemoryPoolNew 4 16 None demo = Some (0x20000000, s1) \<and> osMemoryPoolGetSpace 0x20000000 s1 = 4 \<and>
     osMemoryPoolAlloc 0x20000000 s1 = (0x20001000, s2) \<and> osMemoryPoolFree 0x20000000 0x20001000 s2 = (osOK, s3)"
proof -
  let ?P = "\<lparr>p_cb = 0x20000000, p_base = 0x20001000, p_size = 16, p_num = 4\<rparr>"
  have h: "pool_room ?P" "mallocs demo = p_cb ?P # p_base ?P # []" "\<not> os_int_active demo" "unat (4 :: u32) = p_num ?P" "unat (16 :: u32) = p_size ?P"
    by (simp_all add: pool_room_def)
  note T = cmsis_pool [OF h]
  obtain s1 where 1: "osMemoryPoolNew 4 16 None demo = Some (p_cb ?P, s1)" "cpool (byteMem s1) ?P [0..<p_num ?P]"
    "osMemoryPoolGetSpace (p_cb ?P) s1 = 4" using T by blast
  have "[0..<p_num ?P] = 0 # [1, 2, 3]" by (simp add: upt_rec)
  then obtain s2 s3 where "osMemoryPoolAlloc (p_cb ?P) s1 = (adr ?P (Bk 0), s2)" "osMemoryPoolFree (p_cb ?P) (adr ?P (Bk 0)) s2 = (osOK, s3)"
    using T 1(2) by metis
  moreover have "adr ?P (Bk 0) = 0x20001000" by (simp add: adr.simps)
  ultimately show ?thesis using 1 by auto
qed

end
