(* ===== verification/PropSched.thy ===== *)
theory PropSched
  imports LosDemo
begin

text \<open>
  The properties of the scheduler and of time: what runs after a call of the
  scheduler or a tick, the timeout list, and the operations that block, wake,
  suspend, resume, end and re-prioritise a task.
\<close>



text \<open>
  C6.  A tick that scans the timeout list (no time slice was pending) wakes
  exactly the tasks whose timeout has passed: none of them is delayed or waiting
  afterwards, a task that was waiting for an object is marked as timed out and is
  in no wait list any more, each is ready or running unless suspended, the other
  tasks keep their status but for ready and running, and every wait list keeps
  its other members in order.  The tick returns, the invariant holds, and the
  best task runs unless scheduling is locked.
\<close>

theorem tick_wakes_due:
  assumes "kinv (Suc (Suc n)) s L" "g_taskScheduled s" "g_schedResponseID s = OS_INVALID"
    and "D = {t. delayed s t \<and> responseTime s (NSort t) \<le> now_of (OsUpdateSysTimeBase (tk s))}"
  shows "\<exists>s' L'. OsTickHandler None s = Some s' \<and> kinv n s' L' \<and>
    (g_losTaskLock s = 0 \<longrightarrow> (\<exists>new. runTask s' = Some new \<and> top_of s' new \<and> \<not> blocked (status s' new))) \<and>
    (\<forall>u \<in> D. \<not> is_pend (status s' u) \<and> \<not> is_delay (status s' u) \<and>
       (is_timeout (status s' u) \<longleftrightarrow> is_pend (status s u) \<or> is_timeout (status s u)) \<and>
       (is_ready (status s' u) \<or> is_suspend (status s u) \<or> runTask s' = Some u)) \<and>
    (\<forall>u k. u \<notin> D \<longrightarrow> k \<noteq> 2 \<longrightarrow> k \<noteq> 4 \<longrightarrow> bit (status s' u) k = bit (status s u) k) \<and>
    (\<forall>q. wait_head q \<longrightarrow> L' q = map_option (filter (\<lambda>x. x \<notin> NPend ` D)) (L q))"
proof -
  have S: "sched_inv s L" and ok: "sys_ok (Suc (Suc n)) s" using assms(1) by (simp_all add: kinv_def)
  have D: "tick_due (now_of (OsUpdateSysTimeBase (tk s))) s = D" using assms(3,4) by (simp add: tick_due_def due_def)
  have w: "wait_head q \<Longrightarrow> \<not> is_pri q \<and> q \<noteq> NTaskSort" for q by (cases q) auto
  show ?thesis
    by (rule tick_law [OF S ok assms(2)], unfold D, intro exI conjI) (auto simp: kinv_def strips_def dest: w)
qed

theorem tick_wakes_due_witness:
  "\<exists>s' L'. OsTickHandler None (demo\<lparr>g_schedResponseID := OS_INVALID\<rparr>) = Some s' \<and> kinv 1 s' L' \<and>
    (g_losTaskLock (demo\<lparr>g_schedResponseID := OS_INVALID\<rparr>) = 0 \<longrightarrow>
       (\<exists>new. runTask s' = Some new \<and> top_of s' new \<and> \<not> blocked (status s' new))) \<and>
    (\<forall>u \<in> {6}. \<not> is_pend (status s' u) \<and> \<not> is_delay (status s' u) \<and>
       (is_timeout (status s' u) \<longleftrightarrow> is_pend (status (demo\<lparr>g_schedResponseID := OS_INVALID\<rparr>) u) \<or>
          is_timeout (status (demo\<lparr>g_schedResponseID := OS_INVALID\<rparr>) u)) \<and>
       (is_ready (status s' u) \<or> is_suspend (status (demo\<lparr>g_schedResponseID := OS_INVALID\<rparr>) u) \<or> runTask s' = Some u)) \<and>
    (\<forall>u k. u \<notin> {6} \<longrightarrow> k \<noteq> 2 \<longrightarrow> k \<noteq> 4 \<longrightarrow>
       bit (status s' u) k = bit (status (demo\<lparr>g_schedResponseID := OS_INVALID\<rparr>) u) k) \<and>
    (\<forall>q. wait_head q \<longrightarrow> L' q = map_option (filter (\<lambda>x. x \<notin> NPend ` {6})) (demoL q))"
proof (rule tick_wakes_due)
  show "kinv (Suc (Suc 1)) (demo\<lparr>g_schedResponseID := OS_INVALID\<rparr>) demoL"
    by (rule kinv_cong [OF demo_kinv]) simp_all
  show "{6} = {t. delayed (demo\<lparr>g_schedResponseID := OS_INVALID\<rparr>) t \<and>
      responseTime (demo\<lparr>g_schedResponseID := OS_INVALID\<rparr>) (NSort t) \<le>
        now_of (OsUpdateSysTimeBase (tk (demo\<lparr>g_schedResponseID := OS_INVALID\<rparr>)))}"
    by (auto simp: delayed_def demo_status_def flag_simps demo_now)
qed simp_all

text \<open>
  Inserting a timeout keeps the timeout list in the order of the response
  times: OsAddNode2SortLink returns, the new node is put at one place among the
  old ones, whose order does not change, the list is sorted if it was, and no
  other list changes.
\<close>

lemma sort_link_sorted:
  assumes "dl_rep (dl s) L" "L q = Some xs" "n \<notin> covered L" "\<forall>x \<in> set xs. is_sort x"
  shows "\<exists>h as bs. OsAddNode2SortLink q n s = Some (s\<lparr>dl := h\<rparr>) \<and> xs = as @ bs \<and> dl_rep h (L(q \<mapsto> as @ n # bs)) \<and>
    (sorted (map (responseTime s) xs) \<longrightarrow> sorted (map (responseTime s) (as @ n # bs)))"
proof -
  obtain h where h: "OsAddNode2SortLink q n s = Some (s\<lparr>dl := h\<rparr>)" "dl_rep h (L(q \<mapsto> sort_ins (responseTime s) n xs))"
    by (rule OsAddNode2SortLink_law [OF assms]) (rule that; assumption)
  obtain as bs where e: "xs = as @ bs" "sort_ins (responseTime s) n xs = as @ n # bs" using sort_ins_split by blast
  show ?thesis
    by (rule exI [of _ h], rule exI [of _ as], rule exI [of _ bs])
      (use h e sorted_sort_ins [of "responseTime s" xs n] in simp)
qed

text \<open>
  C26.  The clock: reading the cycle counter gives the current time, which lies
  at or after every earlier reading, and the deadline of a wait of any number of
  ticks is computed without wrapping and never equals the mark of an idle node.
\<close>

theorem deadline_exact:
  assumes "tick_ok n k"
  shows "\<exists>now k'. LOS_SysCycleGet k = Some (now, k') \<and> g_oldTickTimerBase k \<le> now \<and> tick_ok n k' \<and>
    unat (now + OS_SYS_TICK_TO_CYCLE ticks k') = unat now + unat ticks * unat (g_sysClock k) div 100 \<and>
    now + OS_SYS_TICK_TO_CYCLE ticks k' \<noteq> OS_SORT_LINK_INVALID_TIME"
proof -
  let ?k = "k\<lparr>g_oldTickTimerBase := now_of k\<rparr>"
  have t: "tick_ok n ?k" by (rule tick_ok_read [OF assms])
  have "g_oldTickTimerBase k \<le> now_of k" using assms by (simp add: tick_ok_def)
  then show ?thesis
    using sys_cycle_law [OF assms] t deadline_nat [OF t, of ticks] deadline_valid [OF t, of ticks] by simp
qed

theorem deadline_exact_witness:
  "\<exists>now k'. LOS_SysCycleGet demo_tick = Some (now, k') \<and> g_oldTickTimerBase demo_tick \<le> now \<and> tick_ok 3 k' \<and>
    unat (now + OS_SYS_TICK_TO_CYCLE 100 k') = unat now + unat (100 :: u32) * unat (g_sysClock demo_tick) div 100 \<and>
    now + OS_SYS_TICK_TO_CYCLE 100 k' \<noteq> OS_SORT_LINK_INVALID_TIME"
  by (rule deadline_exact) (simp add: tick_ok_def demo_tick_def now_of_def)



end
