(* ===== verification/PropIpc.thy ===== *)
theory PropIpc
  imports LosDemo
begin

text \<open>
  The properties of the communication objects: semaphores and mutexes refine
  their abstract behaviour, events lose no reader, queues are first-in first-out
  rings whose credits are never lost.
\<close>

subsection \<open>Semaphores\<close>

text \<open>
  C11.  LOS\_SemPost on a semaphore in use does what the abstract semaphore does:
  at the limit it reports an overflow, otherwise it hands the unit to the task
  that has waited longest, or counts it when nobody waits.  The call returns, the
  invariants hold, and the other semaphores are untouched.
\<close>

theorem sem_post_refines:
  assumes "kinv (Suc n) s L" "sem_inv s L" "unat h < LOSCFG_BASE_IPC_SEM_LIMIT" "semStat (sem s (unat h)) \<noteq> OS_SEM_UNUSED"
  shows "\<exists>r a s' L'. sem_post_spec (sem_abs s L (unat h)) = (r, a) \<and> LOS_SemPost h s = Some (r, s') \<and>
    kinv n s' L' \<and> sem_inv s' L' \<and> sem_abs s' L' (unat h) = a \<and> (\<forall>j. j \<noteq> unat h \<longrightarrow> sem_abs s' L' j = sem_abs s L j)"
  by (rule sem_post_law [OF assms], cases "sem_post_spec (sem_abs s L (unat h))") auto

theorem sem_post_refines_witness:
  "\<exists>r a s' L'. sem_post_spec (sem_abs demo demoL (unat (0 :: u32))) = (r, a) \<and> LOS_SemPost 0 demo = Some (r, s') \<and>
    kinv 1 s' L' \<and> sem_inv s' L' \<and> sem_abs s' L' (unat (0 :: u32)) = a \<and>
    (\<forall>j. j \<noteq> unat (0 :: u32) \<longrightarrow> sem_abs s' L' j = sem_abs demo demoL j)"
  by (rule sem_post_refines [OF demo_kinv demo_sem_inv]) (simp_all add: demo_sem_def)

text \<open>
  C12.  LOS\_SemPend by a task that may block takes a unit if there is one,
  reports that there is none if it may not wait, and otherwise puts the caller at
  the end of the waiting tasks and lets the best other task run.
\<close>

theorem sem_pend_refines:
  assumes "kinv (Suc n) s L" "sem_inv s L" "unat h < LOSCFG_BASE_IPC_SEM_LIMIT" "OsSemValidCheck (unat h) s = Some LOS_OK"
    "runTask s = Some t" "\<not> blocked (status s t)" "taskID (tcb s t) \<noteq> g_idleTaskID s" "g_taskScheduled s"
  shows "\<exists>r a s' L'. sem_pend_spec t timeout (sem_abs s L (unat h)) = (r, a) \<and> LOS_SemPend h timeout s = Some (r, s') \<and>
    kinv n s' L' \<and> sem_inv s' L' \<and> sem_abs s' L' (unat h) = a \<and> (\<forall>j. j \<noteq> unat h \<longrightarrow> sem_abs s' L' j = sem_abs s L j) \<and>
    (r = Wait t \<longrightarrow> is_pend (status s' t) \<and> (\<exists>new. runTask s' = Some new \<and> new \<noteq> t \<and> top_of s' new))"
  by (rule sem_pend_law [OF assms, of timeout], cases "sem_pend_spec t timeout (sem_abs s L (unat h))") auto

theorem sem_pend_refines_witness:
  "\<exists>r a s' L'. sem_pend_spec 1 7 (sem_abs demo demoL (unat (0 :: u32))) = (r, a) \<and> LOS_SemPend 0 7 demo = Some (r, s') \<and>
    kinv 1 s' L' \<and> sem_inv s' L' \<and> sem_abs s' L' (unat (0 :: u32)) = a \<and>
    (\<forall>j. j \<noteq> unat (0 :: u32) \<longrightarrow> sem_abs s' L' j = sem_abs demo demoL j) \<and>
    (r = Wait 1 \<longrightarrow> is_pend (status s' 1) \<and> (\<exists>new. runTask s' = Some new \<and> new \<noteq> 1 \<and> top_of s' new))"
  by (rule sem_pend_refines [OF demo_kinv demo_sem_inv])
    (simp_all add: demo_sem_def OsSemValidCheck_def demo_status_def blocked_def flag_simps)

text \<open>
  Creating a semaphore takes the first unused control block, gives it the
  count and the limit and no waiting task; deleting it puts the block back in
  front, so that the pool is the same as before and the block is unused again.
\<close>

lemma sem_create_delete:
  assumes "kinv n s L" "sem_inv s L" "L NUnusedSem = Some (NSem i # us)" "count \<le> maxCount"
  shows "\<exists>s1 L1 s2. OsSemCreate count maxCount True s = Some ((LOS_OK, Some (of_nat i)), s1) \<and> kinv n s1 L1 \<and> sem_inv s1 L1 \<and>
    sem_abs s1 L1 i = (unat count, unat maxCount, []) \<and> semStat (sem s1 i) \<noteq> OS_SEM_UNUSED \<and> L1 NUnusedSem = Some us \<and>
    LOS_SemDelete (of_nat i) s1 = Some (LOS_OK, s2) \<and>
    kinv n s2 (L1(NSem i := None, NUnusedSem \<mapsto> NSem i # us)) \<and> sem_inv s2 (L1(NSem i := None, NUnusedSem \<mapsto> NSem i # us)) \<and>
    semStat (sem s2 i) = OS_SEM_UNUSED"
proof -
  let ?L = "L(NUnusedSem \<mapsto> us, NSem i \<mapsto> [])"
  obtain s1 where 1: "OsSemCreate count maxCount True s = Some ((LOS_OK, Some (of_nat i)), s1)" "kinv n s1 ?L" "sem_inv s1 ?L"
    "sem_abs s1 ?L i = (unat count, unat maxCount, [])" "semStat (sem s1 i) = OS_SEM_USED"
    by (rule sem_create_law [OF assms]) (rule that; assumption)
  have i: "i < LOSCFG_BASE_IPC_SEM_LIMIT" by (rule sem_unused_first [OF assms(2,3)])
  then have u: "unat (of_nat i :: u32) = i" by (simp add: unat_of_nat)
  have p: "unat (of_nat i :: u32) < LOSCFG_BASE_IPC_SEM_LIMIT" "semStat (sem s1 (unat (of_nat i :: u32))) \<noteq> OS_SEM_UNUSED"
    "?L (NSem (unat (of_nat i :: u32))) = Some []" "?L NUnusedSem = Some us" using i 1(5) by (simp_all add: u)
  obtain s2 where "LOS_SemDelete (of_nat i) s1 = Some (LOS_OK, s2)" "kinv n s2 (?L(NSem i := None, NUnusedSem \<mapsto> NSem i # us))"
    "sem_inv s2 (?L(NSem i := None, NUnusedSem \<mapsto> NSem i # us))" "semStat (sem s2 i) = OS_SEM_UNUSED"
    by (rule sem_delete_law [OF 1(2,3) p]) (unfold u, rule that; assumption)
  with 1 show ?thesis by (intro exI [of _ s1] exI [of _ ?L] exI [of _ s2]) simp
qed

subsection \<open>Mutexes\<close>

text \<open>
  C9.  LOS\_MuxPend: a free mutex goes to the caller, the owner nests, and
  another task waits at the end of the list or is told that the mutex is busy.
  When it waits, the owner runs at the better of the two priorities (priority
  inheritance) and no other priority changes.
\<close>

theorem mux_pend_refines:
  assumes "kinv (Suc n) s L" "mux_inv s L" "unat h < LOSCFG_BASE_IPC_MUX_LIMIT" "OsMuxValidCheck (unat h) s = Some LOS_OK"
    "runTask s = Some t" "\<not> blocked (status s t)" "taskID (tcb s t) \<noteq> g_idleTaskID s" "g_taskScheduled s"
    "unat (muxCount (mux s (unat h))) < 65535"
  shows "\<exists>r a s' L'. mux_pend_spec t timeout (mux_abs s L (unat h)) = (r, a) \<and> LOS_MuxPend h timeout s = Some (r, s') \<and>
    kinv n s' L' \<and> mux_inv s' L' \<and> mux_abs s' L' (unat h) = a \<and> (\<forall>j. j \<noteq> unat h \<longrightarrow> mux_abs s' L' j = mux_abs s L j) \<and>
    (\<forall>u. priority (tcb s' u) = (if r = Wait t \<and> owner (mux s (unat h)) = Some u
       then min (priority (tcb s u)) (priority (tcb s t)) else priority (tcb s u))) \<and>
    (r = Wait t \<longrightarrow> is_pend (status s' t) \<and> (\<exists>new. runTask s' = Some new \<and> new \<noteq> t \<and> top_of s' new))"
  by (rule mux_pend_law [OF assms, of timeout], cases "mux_pend_spec t timeout (mux_abs s L (unat h))") auto

theorem mux_pend_refines_witness:
  "\<exists>r a s' L'. mux_pend_spec 1 9 (mux_abs demo demoL (unat (1 :: u32))) = (r, a) \<and> LOS_MuxPend 1 9 demo = Some (r, s') \<and>
    kinv 1 s' L' \<and> mux_inv s' L' \<and> mux_abs s' L' (unat (1 :: u32)) = a \<and>
    (\<forall>j. j \<noteq> unat (1 :: u32) \<longrightarrow> mux_abs s' L' j = mux_abs demo demoL j) \<and>
    (\<forall>u. priority (tcb s' u) = (if r = Wait 1 \<and> owner (mux demo (unat (1 :: u32))) = Some u
       then min (priority (tcb demo u)) (priority (tcb demo 1)) else priority (tcb demo u))) \<and>
    (r = Wait 1 \<longrightarrow> is_pend (status s' 1) \<and> (\<exists>new. runTask s' = Some new \<and> new \<noteq> 1 \<and> top_of s' new))"
  by (rule mux_pend_refines [OF demo_kinv demo_mux_inv])
    (simp_all add: demo_mux_def OsMuxValidCheck_def demo_status_def blocked_def flag_simps)

text \<open>
  C10.  LOS\_MuxPost: only the owner can post; a nested hold is counted down; the
  last post restores the priority the owner had and hands the mutex to the task
  that has waited longest, or frees it.
\<close>

theorem mux_post_refines:
  assumes "kinv (Suc n) s L" "mux_inv s L" "unat h < LOSCFG_BASE_IPC_MUX_LIMIT" "muxStat (mux s (unat h)) \<noteq> OS_MUX_UNUSED"
    "\<not> os_int_active s" "runTask s = Some t"
  shows "\<exists>r a s' L'. mux_post_spec t (mux_abs s L (unat h)) = (r, a) \<and> LOS_MuxPost h s = Some (r, s') \<and>
    kinv n s' L' \<and> mux_inv s' L' \<and> mux_abs s' L' (unat h) = a \<and> (\<forall>j. j \<noteq> unat h \<longrightarrow> mux_abs s' L' j = mux_abs s L j) \<and>
    (\<forall>u. priority (tcb s' u) = (if u = t \<and> owner (mux s (unat h)) = Some t \<and> muxCount (mux s (unat h)) = 1
       then mux_priority (mux s (unat h)) else priority (tcb s u)))"
  by (rule mux_post_law [OF assms], cases "mux_post_spec t (mux_abs s L (unat h))") auto

theorem mux_post_refines_witness:
  "\<exists>r a s' L'. mux_post_spec 1 (mux_abs demo demoL (unat (0 :: u32))) = (r, a) \<and> LOS_MuxPost 0 demo = Some (r, s') \<and>
    kinv 1 s' L' \<and> mux_inv s' L' \<and> mux_abs s' L' (unat (0 :: u32)) = a \<and>
    (\<forall>j. j \<noteq> unat (0 :: u32) \<longrightarrow> mux_abs s' L' j = mux_abs demo demoL j) \<and>
    (\<forall>u. priority (tcb s' u) = (if u = 1 \<and> owner (mux demo (unat (0 :: u32))) = Some 1 \<and> muxCount (mux demo (unat (0 :: u32))) = 1
       then mux_priority (mux demo (unat (0 :: u32))) else priority (tcb demo u)))"
  by (rule mux_post_refines [OF demo_kinv demo_mux_inv]) (simp_all add: demo_mux_def)

subsection \<open>Events\<close>



text \<open>
  C14.  LOS\_EventRead with valid arguments, called by a task that may block:
  when the condition holds it returns the matching bits and, in clearing mode,
  takes them away; when it does not hold and the caller may wait, the caller
  sleeps at the end of the event's list and another task runs.
\<close>

theorem event_read_or_sleep:
  assumes "kinv (Suc n) s L" "event_inv e s L" "L (NEvent e) = Some xs" "OsEventReadParamCheck (Some e) msk mode s = LOS_OK"
    "\<not> os_int_active s" "runTask s = Some t" "status s t AND OS_TASK_FLAG_SYSTEM_TASK = 0"
    "\<not> blocked (status s t)" "taskID (tcb s t) \<noteq> g_idleTaskID s" "g_taskScheduled s" "g_losTaskLock s = 0" "timeOut \<noteq> 0"
  shows "\<exists>r s' L'. LOS_EventRead (Some e) msk mode timeOut s = Some (r, s') \<and> kinv n s' L' \<and> event_inv e s' L' \<and>
    (if event_holds (uwEventID s e) msk mode
     then r = Ret (uwEventID s e AND msk) \<and> L' = L \<and>
       uwEventID s' e = (if mode AND LOS_WAITMODE_CLR \<noteq> 0 then uwEventID s e AND NOT msk else uwEventID s e)
     else r = Wait (e, msk, mode, t) \<and> L' (NEvent e) = Some (xs @ [NPend t]) \<and> is_pend (status s' t) \<and>
       uwEventID s' = uwEventID s \<and> (\<exists>new. runTask s' = Some new \<and> new \<noteq> t \<and> top_of s' new))"
proof (cases "event_holds (uwEventID s e) msk mode")
  case True
  note now = event_read_now [OF assms(1,2,4-7) True]
  show ?thesis
    by (rule exI [of _ "Ret (uwEventID s e AND msk)"], rule exI [of _ "snd (event_poll e msk mode s)"], rule exI [of _ L])
      (use now True kinv_later [OF now(2)] in \<open>simp add: event_poll_state set_event_def\<close>)
next
  case False
  show ?thesis
    by (rule event_read_sleeps [OF assms(1-11) False assms(12)]) (use False in auto)
qed

theorem event_read_or_sleep_witness:
  "\<exists>r s' L'. LOS_EventRead (Some (EvCB 0)) 8 2 20 demo = Some (r, s') \<and> kinv 1 s' L' \<and> event_inv (EvCB 0) s' L' \<and>
    (if event_holds (uwEventID demo (EvCB 0)) 8 2
     then r = Ret (uwEventID demo (EvCB 0) AND 8) \<and> L' = demoL \<and>
       uwEventID s' (EvCB 0) = (if 2 AND LOS_WAITMODE_CLR \<noteq> 0 then uwEventID demo (EvCB 0) AND NOT 8 else uwEventID demo (EvCB 0))
     else r = Wait (EvCB 0, 8, 2, 1) \<and> L' (NEvent (EvCB 0)) = Some ([NPend 5] @ [NPend 1]) \<and> is_pend (status s' 1) \<and>
       uwEventID s' = uwEventID demo \<and> (\<exists>new. runTask s' = Some new \<and> new \<noteq> 1 \<and> top_of s' new))"
  by (rule event_read_or_sleep [OF demo_kinv demo_event_inv])
    (use list_first [OF demo_rep, of "NEvent (EvCB 0)" "[NPend 5]"] list_last [OF demo_rep, of "NEvent (EvCB 0)" "[NPend 5]"]
     in \<open>simp_all add: demoL_eq OsEventReadParamCheck_def demo_status_def blocked_def flag_simps\<close>)

subsection \<open>Queues\<close>

text \<open>
  C25.  What is written to a queue is what is read from it: after
  LOS\_QueueWriteCopy of a message into a queue that holds nothing and has no
  waiting task, LOS\_QueueReadCopy into another buffer gives back the message
  byte by byte, cut to the size of the buffer, with its length, and the queue is
  empty again.
\<close>

theorem queue_write_read:
  assumes "kinv (Suc (Suc n)) s L" "unat h = i" "i < LOSCFG_BASE_IPC_QUEUE_LIMIT" "queueState (que s i) \<noteq> OS_QUEUE_UNUSED"
    "queue_rep s i [] 0 0" "L (NQRead i) = Some []" "L (NQWrite i) = Some []"
    "apart a (unat k) (que s i)" "apart b (unat m) (que s i)"
    "0 < k" "unat k + 4 \<le> unat (queueSize (que s i))" "0 < m" "m < SECUREC_MEM_MAX_LEN" "0 < unat (queueLen (que s i))"
  shows "\<exists>s1 s2 m' L2. LOS_QueueWriteCopy h (Buf a) k LOS_NO_WAIT s = Some (Ret LOS_OK, s1) \<and>
    LOS_QueueReadCopy h b (Some m) LOS_NO_WAIT s1 = Some (Ret LOS_OK, Some m', s2) \<and> unat m' = min (unat m) (unat k) \<and>
    bytes (byteMem s2) b (unat m') = take (unat m') (bytes (byteMem s) a (unat k)) \<and>
    kinv n s2 L2 \<and> queue_rep s2 i [] 0 0"
proof -
  let ?x = "bytes (byteMem s) a (unat k)"
  have w: "writableCnt (que s i) \<noteq> 0" using assms(5,14) by (auto simp: queue_rep_def)
  have t3: "(3 :: u32) = 1 \<or> (3 :: u32) = 3" by simp
  obtain s1 L1 where 1: "OsQueueOperate h 3 (Buf a) k LOS_NO_WAIT s = Some (Ret LOS_OK, k, s1)" "kinv (Suc n) s1 L1"
    "queue_rep s1 i (if (3 :: u32) = WRITE_TAIL then [] @ [?x] else ?x # []) (if ([] :: node list) = [] then 0 else Suc 0) 0"
    "\<And>q'. plain q' \<Longrightarrow> L1 q' = (if q' = NQRead i then Some (tl []) else L q')"
    "queue_shape (que s1 i) = queue_shape (que s i)"
    by (rule queue_send_law [OF assms(1,5,4,8,10,11) t3 w assms(6,2), of LOS_NO_WAIT]) (rule that; assumption)
  have R: "queue_rep s1 i [?x] 0 0" using 1(3) by simp
  have rd: "readableCnt (que s1 i) \<noteq> 0" using R by (auto simp: queue_rep_def)
  have p: "plain (NQWrite i)" by (simp add: plain_def)
  have ws: "L1 (NQWrite i) = Some []" using 1(4) [OF p] assms(7) by simp
  have us: "queueState (que s1 i) \<noteq> OS_QUEUE_UNUSED" and ab: "apart b (unat m) (que s1 i)" using queue_shape_sel [OF 1(5)] assms by simp_all
  obtain m' s2 L2 where 2: "OsQueueOperate h 0 (Buf b) m LOS_NO_WAIT s1 = Some (Ret LOS_OK, m', s2)" "kinv n s2 L2"
    "unat m' = min (unat m) (length (hd [?x]))" "bytes (byteMem s2) b (unat m') = take (unat m') (hd [?x])"
    "queue_rep s2 i (tl [?x]) 0 (if ([] :: node list) = [] then 0 else Suc 0)"
    by (rule queue_receive_law [OF 1(2) R us ab assms(12,13) rd ws assms(2), of LOS_NO_WAIT]) (rule that; assumption)
  have c: "OsQueueWriteParameterCheck h (Buf a) k LOS_NO_WAIT s = LOS_OK"
    "OsQueueReadParameterCheck h (Buf b) (Some m) LOS_NO_WAIT s1 = LOS_OK"
    using assms by (auto simp: OsQueueWriteParameterCheck_def OsQueueReadParameterCheck_def apart_def)
  show ?thesis
    by (rule exI [of _ s1], rule exI [of _ s2], rule exI [of _ m'], rule exI [of _ L2])
      (use c 1(1) 2 in \<open>simp add: LOS_QueueWriteCopy_def LOS_QueueReadCopy_def OS_QUEUE_OPERATE_TYPE_def\<close>)
qed

theorem queue_write_read_witness:
  "\<exists>s1 s2 m' L2. LOS_QueueWriteCopy 0 (Buf 0x5000) 8 LOS_NO_WAIT demo = Some (Ret LOS_OK, s1) \<and>
    LOS_QueueReadCopy 0 0x6000 (Some 5) LOS_NO_WAIT s1 = Some (Ret LOS_OK, Some m', s2) \<and>
    unat m' = min (unat (5 :: u32)) (unat (8 :: u32)) \<and>
    bytes (byteMem s2) 0x6000 (unat m') = take (unat m') (bytes (byteMem demo) 0x5000 (unat (8 :: u32))) \<and>
    kinv 1 s2 L2 \<and> queue_rep s2 0 [] 0 0"
  by (rule queue_write_read [OF demo_kinv _ _ _ demo_queue_rep])
    (simp_all add: demoL_eq demo_queue_def apart_def ring_end_def)

text \<open>
  C7.  A write into a queue with a free node, at the tail or at the head, puts
  the bytes of the caller's buffer at that end of the sequence of messages.  If a
  reader sleeps, the first one is woken and the message is promised to it (it is
  not counted as readable), otherwise it is counted.  No byte outside the ring
  and no other queue changes, and the invariant holds.
\<close>

theorem queue_send_refines:
  assumes "kinv (Suc n) s L" "queue_rep s i q r w" "queueState (que s i) \<noteq> OS_QUEUE_UNUSED" "apart a (unat k) (que s i)"
    "0 < k" "unat k + 4 \<le> unat (queueSize (que s i))" "ty = 1 \<or> ty = 3" "writableCnt (que s i) \<noteq> 0"
    "L (NQRead i) = Some rs" "unat h = i"
  shows "\<exists>s' L'. OsQueueOperate h ty (Buf a) k timeOut s = Some (Ret LOS_OK, k, s') \<and> kinv n s' L' \<and>
    queue_rep s' i (if ty = 3 then q @ [bytes (byteMem s) a (unat k)] else bytes (byteMem s) a (unat k) # q)
      (if rs = [] then r else Suc r) w \<and>
    L' (NQRead i) = Some (tl rs) \<and> L' (NQWrite i) = L (NQWrite i) \<and> (\<forall>j. j \<noteq> i \<longrightarrow> que s' j = que s j) \<and>
    (\<forall>y. unat y < unat (queue_buf (que s i)) \<or> ring_end (que s i) \<le> unat y \<longrightarrow> byteMem s' y = byteMem s y)"
proof (rule queue_send_law [OF assms, of timeOut], goal_cases)
  case (1 s' L')
  have "plain (NQRead i)" "plain (NQWrite i)" by (simp_all add: plain_def)
  with 1 show ?case by (intro exI [of _ s'] exI [of _ L']) simp
qed

theorem queue_send_refines_witness:
  "\<exists>s' L'. OsQueueOperate 1 3 (Buf 0x5000) 8 0 demo = Some (Ret LOS_OK, 8, s') \<and> kinv 1 s' L' \<and>
    queue_rep s' 1 (if (3 :: u32) = 3 then [] @ [bytes (byteMem demo) 0x5000 (unat (8 :: u32))]
        else bytes (byteMem demo) 0x5000 (unat (8 :: u32)) # []) (if [NPend 7] = [] then 0 else Suc 0) 0 \<and>
    L' (NQRead 1) = Some (tl [NPend 7]) \<and> L' (NQWrite 1) = demoL (NQWrite 1) \<and> (\<forall>j. j \<noteq> 1 \<longrightarrow> que s' j = que demo j) \<and>
    (\<forall>y. unat y < unat (queue_buf (que demo 1)) \<or> ring_end (que demo 1) \<le> unat y \<longrightarrow> byteMem s' y = byteMem demo y)"
  by (rule queue_send_refines [OF demo_kinv demo_queue_rep])
    (simp_all add: demoL_eq demo_queue_def apart_def ring_end_def)

text \<open>
  C8.  A read from a queue with a readable message copies the first message,
  cut to the caller's buffer, and takes it from the sequence; the freed node is
  counted as writable or, if a writer sleeps, promised to the first one, which is
  woken.  Only bytes of the caller's buffer change.
\<close>

theorem queue_receive_refines:
  assumes "kinv (Suc n) s L" "queue_rep s i q r w" "queueState (que s i) \<noteq> OS_QUEUE_UNUSED" "apart a (unat k) (que s i)"
    "0 < k" "k < SECUREC_MEM_MAX_LEN" "readableCnt (que s i) \<noteq> 0" "L (NQWrite i) = Some ws" "unat h = i"
  shows "\<exists>k' s' L' x q'. q = x # q' \<and> OsQueueOperate h 0 (Buf a) k timeOut s = Some (Ret LOS_OK, k', s') \<and> kinv n s' L' \<and>
    unat k' = min (unat k) (length x) \<and> bytes (byteMem s') a (unat k') = take (unat k') x \<and>
    queue_rep s' i q' r (if ws = [] then w else Suc w) \<and> L' (NQWrite i) = Some (tl ws) \<and>
    (\<forall>y. \<not> y - a < k \<longrightarrow> byteMem s' y = byteMem s y)"
proof -
  obtain k' s' L' where 1: "OsQueueOperate h 0 (Buf a) k timeOut s = Some (Ret LOS_OK, k', s')" "kinv n s' L'"
    "q \<noteq> []" "unat k' = min (unat k) (length (hd q))" "bytes (byteMem s') a (unat k') = take (unat k') (hd q)"
    "queue_rep s' i (tl q) r (if ws = [] then w else Suc w)"
    "\<And>q'. plain q' \<Longrightarrow> L' q' = (if q' = NQWrite i then Some (tl ws) else L q')"
    "\<And>y. \<not> y - a < k \<Longrightarrow> byteMem s' y = byteMem s y"
    by (rule queue_receive_law [OF assms, of timeOut]) (rule that; assumption)
  have "q = hd q # tl q" using 1(3) by simp
  with 1 show ?thesis
    by (intro exI [of _ k'] exI [of _ s'] exI [of _ L'] exI [of _ "hd q"] exI [of _ "tl q"]) (simp add: plain_def)
qed

theorem queue_receive_refines_witness:
  "\<exists>k' s' L' x q'. [[7, 7, 7]] = x # q' \<and> OsQueueOperate 0 0 (Buf 0x6000) 8 0 demo_sent = Some (Ret LOS_OK, k', s') \<and> kinv 1 s' L' \<and>
    unat k' = min (unat (8 :: u32)) (length x) \<and> bytes (byteMem s') 0x6000 (unat k') = take (unat k') x \<and>
    queue_rep s' 0 q' 0 (if ([] :: node list) = [] then 0 else Suc 0) \<and> L' (NQWrite 0) = Some (tl []) \<and>
    (\<forall>y. \<not> y - 0x6000 < 8 \<longrightarrow> byteMem s' y = byteMem demo_sent y)"
  by (rule queue_receive_refines [OF demo_sent_kinv demo_sent_rep])
    (simp_all add: demoL_eq demo_sent_def demo_queue_def apart_def ring_end_def)

text \<open>
  C28.  A reader of an empty queue or a writer of a full one that may wait goes
  to sleep at the end of the queue's list for its direction, with a timeout unless
  it waits for ever; another task runs, and neither the queue nor its memory
  changes.
\<close>

theorem queue_blocks:
  assumes "kinv (Suc n) s L" "OsQueueOperateParamCheck (que s i) ty k = LOS_OK"
    "rw_cnt (OS_QUEUE_IS_WRITE ty) (que s i) = 0" "timeOut \<noteq> LOS_NO_WAIT" "unat h = i"
    "L (rw_list (OS_QUEUE_IS_WRITE ty) i) = Some xs" "runTask s = Some t" "\<not> blocked (status s t)"
    "taskID (tcb s t) \<noteq> g_idleTaskID s" "g_taskScheduled s" "g_losTaskLock s = 0"
  shows "\<exists>s' L'. OsQueueOperate h ty b k timeOut s =
      Some (Wait \<lparr>qw_queue = i, qw_type = ty, qw_addr = b, qw_size = k, qw_task = t\<rparr>, k, s') \<and> kinv n s' L' \<and>
    L' (rw_list (OS_QUEUE_IS_WRITE ty) i) = Some (xs @ [NPend t]) \<and>
    is_pend (status s' t) \<and> (is_pend_time (status s' t) \<longleftrightarrow> timeOut \<noteq> LOS_WAIT_FOREVER) \<and>
    (\<exists>new. runTask s' = Some new \<and> new \<noteq> t \<and> top_of s' new) \<and> g_allQueue s' = g_allQueue s \<and> byteMem s' = byteMem s"
proof (rule queue_sleep_law [OF assms, of b], goal_cases)
  case (1 s' L')
  have "plain (rw_list (OS_QUEUE_IS_WRITE ty) i)" by (simp add: plain_def rw_list_def)
  with 1 show ?case by (intro exI [of _ s'] exI [of _ L']) simp
qed

theorem queue_blocks_witness:
  "\<exists>s' L'. OsQueueOperate 0 0 (Buf 0x6000) 8 50 demo =
      Some (Wait \<lparr>qw_queue = 0, qw_type = 0, qw_addr = Buf 0x6000, qw_size = 8, qw_task = 1\<rparr>, 8, s') \<and> kinv 1 s' L' \<and>
    L' (rw_list (OS_QUEUE_IS_WRITE 0) 0) = Some ([] @ [NPend 1]) \<and>
    is_pend (status s' 1) \<and> (is_pend_time (status s' 1) \<longleftrightarrow> (50 :: u32) \<noteq> LOS_WAIT_FOREVER) \<and>
    (\<exists>new. runTask s' = Some new \<and> new \<noteq> 1 \<and> top_of s' new) \<and> g_allQueue s' = g_allQueue demo \<and> byteMem s' = byteMem demo"
  by (rule queue_blocks [OF demo_kinv])
    (simp_all add: demoL_eq demo_queue_def OsQueueOperateParamCheck_def OS_QUEUE_IS_WRITE_def rw_cnt_def rw_list_def
      demo_status_def blocked_def flag_simps)

text \<open>
  C30.  Creating a queue takes the first free control block and the memory that
  the allocator hands out, and gives an empty ring with room for the requested
  number of messages; deleting the empty queue returns the memory and puts the
  block back in front of the free ones.
\<close>

theorem queue_create_delete:
  assumes "kinv n s L" "queue_inv s L" "L NFreeQueue = Some (NQWrite i # us)" "len \<noteq> 0" "maxMsgSize \<noteq> 0"
    "maxMsgSize \<le> 0xFFFF - 4" "mallocs s = p # ps" "p \<noteq> 0" "unat p + unat len * (unat maxMsgSize + 4) \<le> 2 ^ 32"
  shows "\<exists>s1 L1 s2. LOS_QueueCreate name len True flags maxMsgSize s = Some ((LOS_OK, Some (of_nat i)), s1) \<and>
    kinv n s1 L1 \<and> queue_inv s1 L1 \<and> queue_rep s1 i [] 0 0 \<and> queueLen (que s1 i) = len \<and>
    unat (queueSize (que s1 i)) = unat maxMsgSize + 4 \<and> mallocs s1 = ps \<and>
    LOS_QueueDelete (of_nat i) s1 = Some (LOS_OK, s2) \<and> freed s2 = queue_buf (que s1 i) # freed s1 \<and>
    kinv n s2 (L1(NQWrite i := None, NFreeQueue \<mapsto> NQWrite i # us)) \<and>
    queue_inv s2 (L1(NQWrite i := None, NFreeQueue \<mapsto> NQWrite i # us))"
proof (rule queue_create_law [OF assms, of name flags], goal_cases)
  case (1 s1 L1)
  have i: "unat (of_nat i :: u32) = i" "i < LOSCFG_BASE_IPC_QUEUE_LIMIT"
    using queue_free_first(1) [OF assms(2,3)] by (simp_all add: unat_of_nat)
  have e: "queueState (que s1 i) \<noteq> OS_QUEUE_UNUSED" "L1 (NQRead i) = Some []" "L1 (NQWrite i) = Some []" "L1 (NQMem i) = Some []"
    "L1 NFreeQueue = Some us" using 1(5,6) by simp_all
  obtain s2 where "LOS_QueueDelete (of_nat i) s1 = Some (LOS_OK, s2)"
    "kinv n s2 (L1(NQWrite i := None, NFreeQueue \<mapsto> NQWrite i # us))"
    "queue_inv s2 (L1(NQWrite i := None, NFreeQueue \<mapsto> NQWrite i # us))" "freed s2 = queue_buf (que s1 i) # freed s1"
    by (rule queue_delete_law [OF 1(2,3) i e(1) 1(4) e(2-5)]) (rule that; assumption)
  with 1 show ?case by (intro exI [of _ s1] exI [of _ L1] exI [of _ s2]) simp
qed

theorem queue_create_delete_witness:
  "\<exists>s1 L1 s2. LOS_QueueCreate 0 4 True 0 16 demo = Some ((LOS_OK, Some (of_nat 2)), s1) \<and>
    kinv 1 s1 L1 \<and> queue_inv s1 L1 \<and> queue_rep s1 2 [] 0 0 \<and> queueLen (que s1 2) = 4 \<and>
    unat (queueSize (que s1 2)) = unat (16 :: u16) + 4 \<and> mallocs s1 = [0x20001000] \<and>
    LOS_QueueDelete (of_nat 2) s1 = Some (LOS_OK, s2) \<and> freed s2 = queue_buf (que s1 2) # freed s1 \<and>
    kinv 1 s2 (L1(NQWrite 2 := None, NFreeQueue \<mapsto> NQWrite 2 # map NQWrite [3..<24])) \<and>
    queue_inv s2 (L1(NQWrite 2 := None, NFreeQueue \<mapsto> NQWrite 2 # map NQWrite [3..<24]))"
  by (rule queue_create_delete [OF demo_kinv demo_queue_inv, where p = "0x20000000" and ps = "[0x20001000]"])
    (simp_all add: demoL_eq)

text \<open>
  C31.  A queue with no waiting task is still not deleted while a message or a
  node is promised to a task that has been woken and has not run: the call
  answers that the queue is being written and changes nothing.
\<close>

theorem queue_delete_refused:
  assumes "kinv n s L" "unat h = i" "i < LOSCFG_BASE_IPC_QUEUE_LIMIT" "queueState (que s i) \<noteq> OS_QUEUE_UNUSED"
    "queue_rep s i q r w" "0 < r + w" "L (NQRead i) = Some []" "L (NQWrite i) = Some []" "L (NQMem i) = Some []"
  shows "LOS_QueueDelete h s = Some (LOS_ERRNO_QUEUE_IN_TSKWRITE, s)"
  using assms by (rule queue_delete_promised)

theorem queue_delete_refused_witness:
  "LOS_QueueDelete 0 demo_promised = Some (LOS_ERRNO_QUEUE_IN_TSKWRITE, demo_promised)"
  by (rule queue_delete_refused [OF demo_promised_kinv [of 0] _ _ _ demo_promised_rep])
    (simp_all add: demoL_eq demo_promised_def demo_queue_def)

subsection \<open>A limit of the mutex\<close>

text \<open>
  C34.  The nesting count of a mutex has 16 bits and is not checked: the 65536th
  nested LOS\_MuxPend by the owner returns success and leaves the count at 0, with
  the owner still recorded.
\<close>

theorem mux_nesting_wraps:
  assumes "unat h < LOSCFG_BASE_IPC_MUX_LIMIT" "OsMuxValidCheck (unat h) s = Some LOS_OK" "runTask s = Some t"
    "owner (mux s (unat h)) = Some t" "muxCount (mux s (unat h)) = 0xFFFF"
  shows "\<exists>s'. LOS_MuxPend h timeout s = Some (Ret LOS_OK, s') \<and> muxCount (mux s' (unat h)) = 0 \<and> owner (mux s' (unat h)) = Some t"
  using assms by (rule mux_count_wraps)

theorem mux_nesting_wraps_witness:
  "\<exists>s'. LOS_MuxPend 0 0 (upd_mux 0 (\<lambda>c. c\<lparr>muxCount := 0xFFFF\<rparr>) demo) = Some (Ret LOS_OK, s') \<and>
    muxCount (mux s' (unat (0 :: u32))) = 0 \<and> owner (mux s' (unat (0 :: u32))) = Some 1"
  by (rule mux_nesting_wraps) (simp_all add: upd_mux_def demo_mux_def OsMuxValidCheck_def demo_status_def flag_simps)

end
