(* ===== verification/PropMem.thy ===== *)
theory PropMem
  imports LosDemo
begin

text \<open>
  The properties of the fixed-size memory pools and of the bounds checking
  library: no block is handed out twice, a double free is refused, and the
  copying functions write only into the destination buffer.
\<close>

subsection \<open>Memory pools\<close>

text \<open>
  C35.  LOS\_MemboxInit on a region that holds at least one block returns, and
  makes it a pool in which every block is free, in the order of their addresses;
  the blocks have the requested size rounded up to a multiple of four, plus the
  link word.
\<close>

theorem membox_init_pool:
  assumes "pool \<noteq> 0" "16 \<le> poolSize" "unat pool + unat poolSize \<le> 2 ^ 32" "blkSize \<noteq> 0" "unat blkSize + 8 \<le> 2 ^ 32"
    "sz = 4 * ((unat blkSize + 7) div 4)" "num = (unat poolSize - 16) div sz" "0 < num"
  shows "\<exists>m'. LOS_MemboxInit pool poolSize blkSize m = Some (LOS_OK, m') \<and> pool_rep m' pool sz num [0..<num]"
  by (rule membox_init_law [OF assms, of m]) blast

theorem membox_init_pool_witness:
  "\<exists>m'. LOS_MemboxInit 0x1000 64 10 (\<lambda>_. 0) = Some (LOS_OK, m') \<and> pool_rep m' 0x1000 16 3 [0..<3]"
  by (rule membox_init_pool) simp_all

text \<open>
  C36.  LOS\_MemboxAlloc takes the first free block, so the address it returns
  is that of no block in use, and returns NULL only when no block is free;
  LOS\_MemboxFree of that address puts the block back, and the pool is as before.
\<close>

theorem membox_alloc_free:
  assumes "pool_rep m pool sz num fs" "tid \<le> 25"
  shows "\<exists>a m1. LOS_MemboxAlloc tid pool m = (a, m1) \<and>
    (case fs of [] \<Rightarrow> a = 0 \<and> m1 = m
     | k # fs' \<Rightarrow> a = blk pool sz k + 4 \<and> pool_rep m1 pool sz num fs' \<and>
         (a \<noteq> 0 \<longrightarrow> (\<exists>m2. LOS_MemboxFree pool a m1 = (LOS_OK, m2) \<and> pool_rep m2 pool sz num fs)))"
proof (cases fs)
  case Nil
  then show ?thesis using membox_alloc_empty [of m pool sz num tid] assms(1) by simp
next
  case (Cons k fs')
  have R: "pool_rep m pool sz num (k # fs')" using assms(1) Cons by simp
  have k: "k < num" "k \<notin> set fs'" using pool_rep_D(4,5) [OF R] by auto
  obtain m1 where 1: "LOS_MemboxAlloc tid pool m = (blk pool sz k + 4, m1)" "pool_rep m1 pool sz num fs'"
    by (rule membox_alloc_law [OF R assms(2)]) (rule that; assumption)
  have "\<exists>m2. LOS_MemboxFree pool (blk pool sz k + 4) m1 = (LOS_OK, m2) \<and> pool_rep m2 pool sz num fs"
    if "blk pool sz k + 4 \<noteq> 0" using membox_free_law [OF 1(2) k that] Cons by metis
  with 1 Cons show ?thesis by simp
qed

theorem membox_alloc_free_witness:
  "\<exists>a m1. LOS_MemboxAlloc 1 0x1000 demo_pool = (a, m1) \<and>
    (case [0, 1, 2] of [] \<Rightarrow> a = 0 \<and> m1 = demo_pool
     | k # fs' \<Rightarrow> a = blk 0x1000 16 k + 4 \<and> pool_rep m1 0x1000 16 3 fs' \<and>
         (a \<noteq> 0 \<longrightarrow> (\<exists>m2. LOS_MemboxFree 0x1000 a m1 = (LOS_OK, m2) \<and> pool_rep m2 0x1000 16 3 [0, 1, 2])))"
  by (rule membox_alloc_free [OF demo_pool_rep]) simp

text \<open>
  C37.  LOS\_MemboxFree refuses, without changing memory, everything but the
  address of a block in use: a block that is already free, a pointer into the
  middle of a block and a pointer outside the pool.
\<close>

theorem membox_free_refuses:
  assumes "pool_rep m pool sz num fs" "pool_plain pool sz num" "\<forall>k < num. k \<notin> set fs \<longrightarrow> box \<noteq> blk pool sz k + 4"
  shows "LOS_MemboxFree pool box m = (LOS_NOK, m)"
  using membox_free_refused [OF assms(1,2)] assms(3) by blast

theorem membox_free_refuses_witness: "LOS_MemboxFree 0x1000 (blk 0x1000 16 1 + 4) demo_pool = (LOS_NOK, demo_pool)"
  by (rule membox_free_refuses [OF demo_pool_rep]) (auto simp: pool_plain_def blk_def less_Suc_eq numeral_3_eq_3)

subsection \<open>Checked copies\<close>

text \<open>
  C38.  memcpy\_s never writes outside the destination buffer, whatever its
  arguments; when it reports success the destination holds the bytes the source
  had; and it does report success for buffers at real addresses that do not
  overlap, when the bytes fit.
\<close>

theorem memcpy_s_safe:
  assumes "count \<noteq> 0" "dest \<noteq> src"
  shows "(\<forall>x. \<not> x - dest < destMax \<longrightarrow> snd (memcpy_s dest destMax src count m) x = m x) \<and>
    (fst (memcpy_s dest destMax src count m) = EOK \<longrightarrow> count \<le> destMax \<and>
       bytes (snd (memcpy_s dest destMax src count m)) dest (unat count) = bytes m src (unat count)) \<and>
    (dest \<noteq> 0 \<and> src \<noteq> 0 \<and> count \<le> destMax \<and> destMax \<le> SECUREC_MEM_MAX_LEN \<and>
       (below src (unat count) dest \<or> below dest (unat count) src) \<longrightarrow> fst (memcpy_s dest destMax src count m) = EOK)"
proof -
  have c: "0 < count" using assms(1) by (simp add: word_neq_0_conv)
  have "bytes (snd (memcpy_s dest destMax src count m)) dest (unat count) = bytes m src (unat count)"
    if ok: "fst (memcpy_s dest destMax src count m) = EOK"
  proof (rule bytes_cong)
    fix j assume j: "j < unat count"
    have "of_nat j < count" using j unat_lt [of count] by (simp add: word_less_nat_alt unat_of_nat)
    then show "snd (memcpy_s dest destMax src count m) (dest + of_nat j) = m (src + of_nat j)"
      using memcpy_s_ok(1) [OF ok c assms(2), of "dest + of_nat j"] by simp
  qed
  moreover have "count \<le> destMax" if ok: "fst (memcpy_s dest destMax src count m) = EOK"
    by (rule memcpy_s_ok(2) [OF ok c assms(2), of dest]) (use c in simp)
  ultimately show ?thesis using memcpy_s_frame memcpy_s_succeeds [OF _ _ _ _ c] by simp
qed

theorem memcpy_s_safe_witness:
  "snd (memcpy_s 0x100 8 0x200 4 (\<lambda>_. 9)) 0x108 = 9 \<and> fst (memcpy_s 0x100 8 0x200 4 (\<lambda>_. 9)) = EOK \<and>
   bytes (snd (memcpy_s 0x100 8 0x200 4 (\<lambda>_. 9))) 0x100 (unat (4 :: u32)) = bytes (\<lambda>_. 9) 0x200 (unat (4 :: u32))"
proof -
  have "\<not> 0x108 - 0x100 < (8 :: u32)" "below 0x100 (unat (4 :: u32)) 0x200" by (simp_all add: below_def)
  then show ?thesis using memcpy_s_safe [of 4 "0x100" "0x200" 8 "\<lambda>_. 9"] by simp
qed

text \<open>
  C39.  The two loops of SecUtilMemmove, which copy upwards or downwards, are
  equivalent to a copy through a buffer on every pair of regions that do not wrap
  around the address space, overlapping or not.
\<close>

theorem memmove_equiv:
  assumes "unat dst + unat n \<le> 2 ^ 32" "unat src + unat n \<le> 2 ^ 32"
  shows "SecUtilMemmove dst src n m = mem_copy dst src n m"
  using assms by (rule memmove_law)

theorem memmove_equiv_witness: "SecUtilMemmove 0x102 0x100 6 (\<lambda>a. ucast a) = mem_copy 0x102 0x100 6 (\<lambda>a. ucast a)"
  by (rule memmove_equiv) simp_all



text \<open>
  strncpy\_s: when it reports success, the destination holds at most
  \<open>count\<close> bytes of the source, up to its end if that comes first, followed by a
  terminator within the buffer; it never writes outside the buffer; and it
  succeeds on regions that do not overlap when the copied part fits.
\<close>

lemma strncpy_s_safe:
  "(\<forall>x. \<not> x - dest < destMax \<longrightarrow> snd (strncpy_s dest destMax src count m) x = m x) \<and>
   (fst (strncpy_s dest destMax src count m) = EOK \<longrightarrow>
     (\<exists>k. k < unat destMax \<and> k \<le> unat count \<and> (k = unat count \<or> m (src + of_nat k) = 0) \<and>
        cstr (snd (strncpy_s dest destMax src count m)) dest k \<and>
        bytes (snd (strncpy_s dest destMax src count m)) dest k = bytes m src k)) \<and>
   (dest \<noteq> 0 \<and> src \<noteq> 0 \<and> destMax \<le> SECUREC_STRING_MAX_LEN \<and> count \<le> SECUREC_STRING_MAX_LEN \<and> 0 < destMax \<and>
      (count < destMax \<or> (\<exists>n. cstr m src n \<and> n < unat destMax)) \<and>
      (below src (unat destMax) dest \<or> below dest (unat destMax) src) \<longrightarrow>
      fst (strncpy_s dest destMax src count m) = EOK)"
  using strncpy_s_frame strncpy_s_ok strncpy_s_succeeds by blast

end
