(* ===== verification/PropTask.thy ===== *)
theory PropTask
  imports LosDemo
begin

text \<open>
  The properties of the task calls: creating a task, deleting another task and
  oneself, collecting the result of a task, suspending and resuming, delaying,
  changing a priority and locking the scheduler.
\<close>

text \<open>
  C15.  LOS\_TaskCreate with acceptable parameters and memory for the stack: the
  control blocks of the tasks that ended are recycled first, the first free one is
  taken, its id is returned, and the task has the entry, argument and priority
  asked for.  Its stack starts with the magic word, and at its stack pointer lies
  the frame from which the first switch starts it, with the task's id as argument
  and OsTaskEntry as program counter.  The task is ready, or runs at once if it is
  the most urgent; no other task changes but in its status and times.
\<close>

theorem task_create:
  assumes "kinv (Suc n) s L" "spare_ok s L" "spares fs rs L" "rev rs @ fs = t # fs'"
    and "OsTaskInitParamCheck (Some p0) s = (LOS_OK, Some p)" "stack_given p s" "stack_apart p s"
  shows "\<exists>s' L' a. LOS_TaskCreate True (Some p0) s = Some ((LOS_OK, Some (of_nat t)), s') \<and> kinv n s' L' \<and> spares fs' [] L' \<and>
    priority (tcb s' t) = usTaskPrio p0 \<and> taskEntry (tcb s' t) = pfnTaskEntry p0 \<and> arg (tcb s' t) = uwArg p0 \<and>
    stackMem s' (topOfStack (tcb s' t)) = Some OS_TASK_MAGIC_WORD \<and> a = stackPointer (tcb s' t) \<and>
    stackMem s' (a + 36) = Some (of_nat t) \<and> stackMem s' (a + 60) = Some (text_addr s Sym_OsTaskEntry) \<and>
    (ready s' t \<or> runTask s' = Some t) \<and> \<not> blocked (status s' t) \<and>
    (g_taskScheduled s \<and> g_losTaskLock s = 0 \<longrightarrow> (\<exists>new. runTask s' = Some new \<and> top_of s' new)) \<and>
    (\<forall>u. u \<notin> set (t # rs) \<longrightarrow> ipc_core (tcb s' u) = ipc_core (tcb s u))"
proof -
  have p: "usTaskPrio p = usTaskPrio p0" "pfnTaskEntry p = pfnTaskEntry p0" "uwArg p = uwArg p0" "unat (usTaskPrio p) < 32"
    using assms(5) by (auto simp: OsTaskInitParamCheck_def Let_def word_le_nat_alt not_less split: if_splits)
  obtain s' L' where 1: "LOS_TaskCreate True (Some p0) s = Some ((LOS_OK, Some (of_nat t)), s')" "kinv n s' L'" "spares fs' [] L'"
    "taskID (tcb s' t) = of_nat t" "priority (tcb s' t) = usTaskPrio p" "taskEntry (tcb s' t) = pfnTaskEntry p"
    "arg (tcb s' t) = uwArg p" "topOfStack (tcb s' t) = stack_base p s" "stackSize (tcb s' t) = stack_len p"
    "stackPointer (tcb s' t) = frame_addr p s" "stackMem s' = new_stack p (of_nat t) s"
    "ready s' t \<or> runTask s' = Some t" "\<not> blocked (status s' t)"
    "g_taskScheduled s \<and> g_losTaskLock s = 0 \<longrightarrow> (\<exists>new. runTask s' = Some new \<and> top_of s' new)"
    and U: "\<And>u. u \<notin> set (t # rs) \<Longrightarrow> ipc_core (tcb s' u) = ipc_core (tcb s u)"
    by (rule task_create_law [OF assms(1-3,5-7) p(4) assms(4)]) (rule that; assumption)
  have f: "new_stack p (of_nat t) s (frame_addr p s + 36) = Some (of_nat t)"
    "new_stack p (of_nat t) s (frame_addr p s + 60) = Some (text_addr s Sym_OsTaskEntry)"
    using new_stack_frame [where i = 9 and p = p and tid = "of_nat t" and s = s]
      new_stack_frame [where i = 15 and p = p and tid = "of_nat t" and s = s]
    by (simp_all add: frame_words_def)
  show ?thesis
    by (rule exI [of _ s'], rule exI [of _ L'], rule exI [of _ "frame_addr p s"])
      (use 1 U p f new_stack_magic [OF assms(6)] in simp)
qed

theorem task_create_witness:
  "\<exists>s' L' a. LOS_TaskCreate True (Some demo_param) demo = Some ((LOS_OK, Some 10), s') \<and> kinv 1 s' L' \<and> spares [9] [] L' \<and>
    priority (tcb s' 10) = 7 \<and> taskEntry (tcb s' 10) = 0x100 \<and> arg (tcb s' 10) = 5 \<and>
    stackMem s' (topOfStack (tcb s' 10)) = Some OS_TASK_MAGIC_WORD \<and> a = stackPointer (tcb s' 10) \<and>
    stackMem s' (a + 36) = Some 10 \<and> stackMem s' (a + 60) = Some 0x300 \<and>
    (ready s' 10 \<or> runTask s' = Some 10) \<and> \<not> blocked (status s' 10) \<and>
    (\<exists>new. runTask s' = Some new \<and> top_of s' new) \<and> ipc_core (tcb s' 8) = ipc_core (demo_task 8)"
  using task_create [OF demo_kinv demo_spare_ok demo_spares _ demo_param_ok, of 1 10 "[9]"]
  by (auto simp: demo_param_def demo_def)

text \<open>
  C19.  OsRecycleFinishedTask always returns: it takes every control block out of
  the recycle list, frees the stack of each that owns one, and puts the blocks on
  the free list, the last one recycled first, so that each can be created again.
  No other control block changes.
\<close>

theorem recycle_terminates:
  assumes "kinv n s L" "L NRecycle = Some (map NPend ts)" "L NFreeTask = Some fs" "spare_ok s L"
  shows "\<exists>s' L'. OsRecycleFinishedTask s = Some s' \<and> kinv n s' L' \<and> spare_ok s' L' \<and>
    L' NRecycle = Some [] \<and> L' NFreeTask = Some (map NPend (rev ts) @ fs) \<and>
    freed s' = rev (filter (\<lambda>p. p \<noteq> 0) (map (\<lambda>t. own_stack (tcb s t)) ts)) @ freed s \<and>
    (\<forall>u. if u \<in> set ts then status s' u = OS_TASK_STATUS_UNUSED \<and> taskID (tcb s' u) = taskID (tcb s u)
         else tcb s' u = tcb s u)"
proof -
  let ?L = "fold free_lists ts (L(NRecycle \<mapsto> []))"
  from recycle_loop_law [OF assms(1,2,4)] obtain s' where 1: "OsRecycleFinishedTask s = Some s'" "kinv n s' ?L"
    "\<forall>u. tcb s' u = (if u \<in> set ts then free_tcb (tcb s u) else tcb s u)" "spare_ok s' ?L"
    "freed s' = rev (filter (\<lambda>p. p \<noteq> 0) (map (\<lambda>t. own_stack (tcb s t)) ts)) @ freed s" by blast
  have f: "(L(NRecycle \<mapsto> [])) NFreeTask \<noteq> None" using assms(3) by simp
  have "?L NRecycle = Some []" by (simp add: fold_free_sel)
  moreover have "?L NFreeTask = Some (map NPend (rev ts) @ fs)"
    using fold_free_sel(2) [of "L(NRecycle \<mapsto> [])", OF f, of ts] assms(3) by simp
  ultimately show ?thesis using 1 by (intro exI [of _ s'] exI [of _ ?L]) (simp add: free_tcb_def)
qed

theorem recycle_terminates_witness:
  "\<exists>s' L'. OsRecycleFinishedTask demo = Some s' \<and> kinv 1 s' L' \<and> spare_ok s' L' \<and>
    L' NRecycle = Some [] \<and> L' NFreeTask = Some [NPend 10, NPend 9] \<and> freed s' = [0x12800] \<and>
    status s' 10 = OS_TASK_STATUS_UNUSED \<and> taskID (tcb s' 10) = 10 \<and> tcb s' 8 = demo_task 8"
proof -
  have "own_stack (demo_task 10) = 0x12800" by (simp add: own_stack_def demo_bits)
  then show ?thesis
    using recycle_terminates [OF demo_kinv _ _ demo_spare_ok, of 1 "[10]" "[NPend 9]"]
    by (fastforce simp: demoL_eq split: if_splits)
qed

text \<open>
  C16.  LOS\_TaskDelete of a task that does not run returns with success: the task
  is out of every list, its stack goes back to the heap if the kernel allocated
  it, and a task that waits for its end is woken.  If the task can be joined it
  keeps its exit status and the id of the task that deleted it; if not, its
  control block is the first free one.
\<close>

theorem task_delete_other:
  assumes "kinv n s L" "deletable tid s" "t = OS_TCB_FROM_TID tid" "live_lists s L t" "\<not> is_running (status s t)"
  shows "\<exists>s' L'. LOS_TaskDelete tid s = Some (LOS_OK, s') \<and> kinv n s' L' \<and> runTask s' = runTask s \<and>
    freed s' = (if own_stack (tcb s t) = 0 then freed s else own_stack (tcb s t) # freed s) \<and>
    (\<forall>u. u \<noteq> t \<longrightarrow> ipc_core (tcb s' u) = ipc_core (tcb s u)) \<and>
    (\<forall>u. u \<noteq> t \<and> joiner L t \<noteq> Some u \<longrightarrow> status s' u = status s u) \<and>
    (\<forall>u. joiner L t = Some u \<longrightarrow>
       \<not> is_pend (status s' u) \<and> (is_ready (status s' u) \<or> is_suspend (status s u) \<or> is_running (status s u))) \<and>
    (if bit (status s t) 15
     then is_exit (status s' t) \<and> joinRetval (tcb s' t) = LOS_CurTaskIDGet s \<and> L' NFreeTask = L NFreeTask
     else status s' t = OS_TASK_STATUS_UNUSED \<and> L' NFreeTask = Some (NPend t # the (L NFreeTask)))"
proof -
  have "OsCheckTaskIDValid tid s = LOS_OK" using assms(2) by (simp add: deletable_def)
  then have i: "taskID (tcb s t) \<noteq> g_idleTaskID s" using not_idle [OF assms(1)] valid_id assms(3) by simp
  obtain s' L' where 1: "LOS_TaskDelete tid s = Some (LOS_OK, s')" "kinv n s' L'" "runTask s' = runTask s"
    "freed s' = (if own_stack (tcb s t) = 0 then freed s else own_stack (tcb s t) # freed s)"
    and U: "\<And>u. u \<noteq> t \<Longrightarrow> ipc_core (tcb s' u) = ipc_core (tcb s u)"
    and S: "\<And>u. u \<noteq> t \<Longrightarrow> joiner L t \<noteq> Some u \<Longrightarrow> status s' u = status s u"
    and J: "\<And>u. joiner L t = Some u \<Longrightarrow>
       \<not> is_pend (status s' u) \<and> (is_ready (status s' u) \<or> is_suspend (status s u) \<or> is_running (status s u))"
    and F: "\<not> bit (status s t) 15 \<Longrightarrow> status s' t = OS_TASK_STATUS_UNUSED \<and> taskID (tcb s' t) = taskID (tcb s t) \<and>
       L' NFreeTask = Some (NPend t # the (L NFreeTask))"
    and X: "bit (status s t) 15 \<Longrightarrow> is_exit (status s' t) \<and> \<not> is_unused (status s' t) \<and>
       joinRetval (tcb s' t) = LOS_CurTaskIDGet s \<and> L' NFreeTask = L NFreeTask \<and>
       loose L' t \<and> own_stack (tcb s' t) = 0 \<and> taskID (tcb s' t) = taskID (tcb s t) \<and> g_idleTaskID s' = g_idleTaskID s"
    by (rule delete_other_law [OF assms(1-4) i assms(5)]) (rule that; assumption)
  show ?thesis
    by (rule exI [of _ s'], rule exI [of _ L']) (use 1 U S J F X in auto)
qed

theorem task_delete_other_witness:
  "\<exists>s' L'. LOS_TaskDelete 8 demo = Some (LOS_OK, s') \<and> kinv 1 s' L' \<and> runTask s' = Some 1 \<and> freed s' = [0x12000] \<and>
    \<not> is_pend (status s' 11) \<and> is_ready (status s' 11) \<and> is_exit (status s' 8) \<and> joinRetval (tcb s' 8) = 1 \<and>
    status s' 4 = demo_status 4 \<and> L' NFreeTask = Some [NPend 9]"
proof -
  have "own_stack (demo_task 8) = 0x12000" by (simp add: own_stack_def demo_bits)
  moreover have "joiner demoL 8 = Some 11" by (simp add: joiner_def demoL_eq)
  ultimately show ?thesis
    using task_delete_other [OF demo_kinv demo_deletable(1) demo_deletable(3) [symmetric] demo_live(1), of 1]
    by (auto simp: demo_bits demoL_eq LOS_CurTaskIDGet_def)
qed

text \<open>
  C20.  Deleting a task that can be joined and collecting its result: after
  LOS\_TaskDelete has woken the task in LOS\_TaskJoin, the rest of the join
  returns success and the id of the task that deleted it, and the control block is
  free again; the stack is freed once, by the delete.
\<close>

theorem delete_then_join:
  assumes "kinv n s L" "deletable tid s" "t = OS_TCB_FROM_TID tid" "live_lists s L t" "\<not> is_running (status s t)"
    "bit (status s t) 15"
  shows "\<exists>s1 s2 L2. LOS_TaskDelete tid s = Some (LOS_OK, s1) \<and>
    LOS_TaskJoin_resume t s1 = Some ((LOS_OK, LOS_CurTaskIDGet s), s2) \<and> kinv n s2 L2 \<and>
    status s2 t = OS_TASK_STATUS_UNUSED \<and> L2 NFreeTask = Some (NPend t # the (L NFreeTask)) \<and>
    freed s2 = (if own_stack (tcb s t) = 0 then freed s else own_stack (tcb s t) # freed s)"
proof -
  have "OsCheckTaskIDValid tid s = LOS_OK" using assms(2) by (simp add: deletable_def)
  then have i: "taskID (tcb s t) \<noteq> g_idleTaskID s" using not_idle [OF assms(1)] valid_id assms(3) by simp
  have r: "runTask s \<noteq> Some t"
    using assms(5) sched_inv_run_ok [OF kinv_shape(5) [OF assms(1)]] by (auto simp: run_ok_def)
  obtain s1 L1 where 1: "LOS_TaskDelete tid s = Some (LOS_OK, s1)" "kinv n s1 L1" "runTask s1 = runTask s"
    "freed s1 = (if own_stack (tcb s t) = 0 then freed s else own_stack (tcb s t) # freed s)"
    and X: "bit (status s t) 15 \<Longrightarrow> is_exit (status s1 t) \<and> \<not> is_unused (status s1 t) \<and>
       joinRetval (tcb s1 t) = LOS_CurTaskIDGet s \<and> L1 NFreeTask = L NFreeTask \<and>
       loose L1 t \<and> own_stack (tcb s1 t) = 0 \<and> taskID (tcb s1 t) = taskID (tcb s t) \<and> g_idleTaskID s1 = g_idleTaskID s"
    by (rule delete_other_law [OF assms(1-4) i assms(5)]) (rule that; assumption)
  have j: "joinRetval (tcb s1 t) = LOS_CurTaskIDGet s" "L1 NFreeTask = L NFreeTask"
    "loose L1 t" "own_stack (tcb s1 t) = 0" "taskID (tcb s1 t) = taskID (tcb s t)" "g_idleTaskID s1 = g_idleTaskID s"
    using X assms(6) by blast+
  have r1: "runTask s1 \<noteq> Some t" "taskID (tcb s1 t) \<noteq> g_idleTaskID s1" using r i 1 j by simp_all
  obtain s2 where 2: "LOS_TaskJoin_resume t s1 = Some ((LOS_OK, joinRetval (tcb s1 t)), s2)"
    "kinv n s2 (free_lists t L1)" "status s2 t = OS_TASK_STATUS_UNUSED"
    "freed s2 = (if own_stack (tcb s1 t) = 0 then freed s1 else own_stack (tcb s1 t) # freed s1)"
    by (rule join_collect_law [OF 1(2) j(3) r1]) (rule that; assumption)
  have "free_lists t L1 NFreeTask = Some (NPend t # the (L NFreeTask))" using j(2) by (simp add: free_lists_def)
  with 1 2 j show ?thesis by (intro exI [of _ s1] exI [of _ s2] exI [of _ "free_lists t L1"]) simp
qed

theorem delete_then_join_witness:
  "\<exists>s1 s2 L2. LOS_TaskDelete 8 demo = Some (LOS_OK, s1) \<and> LOS_TaskJoin_resume 8 s1 = Some ((LOS_OK, 1), s2) \<and> kinv 1 s2 L2 \<and>
    status s2 8 = OS_TASK_STATUS_UNUSED \<and> L2 NFreeTask = Some [NPend 8, NPend 9] \<and> freed s2 = [0x12000]"
proof -
  have "own_stack (demo_task 8) = 0x12000" by (simp add: own_stack_def demo_bits)
  then show ?thesis
    using delete_then_join [OF demo_kinv demo_deletable(1) demo_deletable(3) [symmetric] demo_live(1), of 1]
    by (auto simp: demo_bits demoL_eq LOS_CurTaskIDGet_def)
qed



text \<open>
  C22.  Suspending and resuming a task that waits, sleeps or is ready: the task is
  out of the ready queue while suspended, whatever it waits for keeps it in its
  wait list, and after the resume every status flag other than ready and running
  is as before, it is ready again if it was, and if it was ready the best task
  runs.
\<close>

theorem suspend_resume:
  assumes "kinv (Suc n) s L" "suspendable tid s" "t = OS_TCB_FROM_TID tid" "\<not> pmMode s" "\<not> is_running (status s t)"
    "\<not> is_exit (status s t)" "runTask s = Some r" "taskID (tcb s r) \<noteq> tid" "g_taskScheduled s" "g_losTaskLock s = 0"
  shows "\<exists>s1 L1 s2 L2. LOS_TaskSuspend tid s = Some (LOS_OK, s1) \<and> kinv (Suc n) s1 L1 \<and>
    is_suspend (status s1 t) \<and> \<not> ready s1 t \<and> runTask s1 = Some r \<and> (\<forall>q. plain q \<longrightarrow> L1 q = L q) \<and>
    LOS_TaskResume tid s1 = Some (LOS_OK, s2) \<and> kinv n s2 L2 \<and> ikeep s s2 \<and> (\<forall>q. plain q \<longrightarrow> L2 q = L q) \<and>
    (\<forall>u k. k \<noteq> 2 \<longrightarrow> k \<noteq> 4 \<longrightarrow> bit (status s2 u) k = bit (status s u) k) \<and>
    (is_ready (status s t) \<longrightarrow> (is_ready (status s2 t) \<or> runTask s2 = Some t) \<and> (\<exists>new. runTask s2 = Some new \<and> top_of s2 new))"
proof -
  obtain s1 L1 where 1: "LOS_TaskSuspend tid s = Some (LOS_OK, s1)" "kinv (Suc n) s1 L1" "frame t s s1"
    and b1: "\<And>k. bit (status s1 t) k = (k = 1 \<or> (bit (status s t) k \<and> k \<noteq> 2))" and Q1: "\<And>q. \<not> is_pri q \<Longrightarrow> L1 q = L q"
    and K1: "ikeep s s1"
    by (rule suspend_other_law [OF assms(1-4,7,8)]) (rule that; assumption)
  have g: "g_taskScheduled s1" "g_losTaskLock s1 = 0" "g_taskMaxNum s1 = g_taskMaxNum s" "g_idleTaskID s1 = g_idleTaskID s"
    using ikeep_sel [OF K1] assms(9,10) by simp_all
  have v: "tid \<noteq> g_idleTaskID s" "tid < g_taskMaxNum s" "\<not> is_unused (status s t)" "\<not> is_suspend (status s t)"
    using assms(2,3) valid_id by (auto simp: suspendable_def Let_def)
  have d: "resumable tid s1"
    using v g assms(5,6) by (simp add: resumable_def OS_TASK_ID_CHECK_def Let_def assms(3) [symmetric] b1)
  obtain s2 L2 where 2: "LOS_TaskResume tid s1 = Some (LOS_OK, s2)" "kinv n s2 L2" "ikeep s1 s2"
    and b2: "\<And>u k. k \<noteq> 2 \<Longrightarrow> k \<noteq> 4 \<Longrightarrow> bit (status s2 u) k = (bit (status s1 u) k \<and> (u = t \<longrightarrow> k \<noteq> 1))"
    and r2: "\<not> is_pend (status s1 t) \<Longrightarrow> \<not> is_delay (status s1 t) \<Longrightarrow> g_taskScheduled s1 \<Longrightarrow> g_losTaskLock s1 = 0 \<Longrightarrow>
       \<exists>new. runTask s2 = Some new \<and> top_of s2 new"
    and Q2: "\<And>q. plain q \<Longrightarrow> L2 q = L1 q"
    and rd2: "\<not> is_pend (status s1 t) \<Longrightarrow> \<not> is_delay (status s1 t) \<Longrightarrow> is_ready (status s2 t) \<or> runTask s2 = Some t"
    by (rule task_resume_law [OF 1(2) d assms(3)]) (rule that; assumption)
  have rn: "is_ready (status s t) \<Longrightarrow> \<not> is_pend (status s1 t) \<and> \<not> is_delay (status s1 t)"
    using sched_inv_flags [OF kinv_shape(5) [OF assms(1)], of t] by (auto simp: flags_ok_def b1)
  have nr: "\<not> ready s1 t" "is_suspend (status s1 t)" "runTask s1 = Some r"
    using assms(7) frame_sel(1) [OF 1(3)] by (simp_all add: ready_def b1)
  have Q: "plain q \<Longrightarrow> L1 q = L q" for q using Q1 by (simp add: plain_def)
  have b: "bit (status s2 u) k = bit (status s u) k" if "k \<noteq> 2" "k \<noteq> 4" for u k
    using b2 [OF that] b1 [of k] v(4) that(1) frame_tcb [OF 1(3), of u] by (cases "u = t") auto
  show ?thesis
    by (rule exI [of _ s1], rule exI [of _ L1], rule exI [of _ s2], rule exI [of _ L2], intro conjI)
      (use 1(1,2) 2(1,2) nr Q Q2 b ikeep_trans [OF K1 2(3)] rn rd2 r2 g in auto)
qed

theorem suspend_resume_witness:
  "\<exists>s1 L1 s2 L2. LOS_TaskSuspend 4 demo = Some (LOS_OK, s1) \<and> kinv (Suc 1) s1 L1 \<and>
    is_suspend (status s1 4) \<and> \<not> ready s1 4 \<and> runTask s1 = Some 1 \<and> L1 (NSem 0) = demoL (NSem 0) \<and>
    LOS_TaskResume 4 s1 = Some (LOS_OK, s2) \<and> kinv 1 s2 L2 \<and> ikeep demo s2 \<and> L2 (NSem 0) = demoL (NSem 0) \<and>
    (is_ready (status s2 4) \<or> runTask s2 = Some 4) \<and> (\<exists>new. runTask s2 = Some new \<and> top_of s2 new)"
proof -
  have c: "suspendable 4 demo" "4 = OS_TCB_FROM_TID 4" "\<not> pmMode demo" "\<not> is_running (status demo 4)" "\<not> is_exit (status demo 4)"
    "runTask demo = Some 1" "taskID (tcb demo 1) \<noteq> 4" "g_taskScheduled demo" "g_losTaskLock demo = 0"
    by (simp_all add: suspendable_def OsCheckTaskIDValid_def demo_deletable Let_def demo_bits word_le_nat_alt)
  have k: "kinv (Suc 1) demo demoL" by (rule demo_kinv) simp
  have "plain (NSem 0)" "is_ready (status demo 4)" by (simp_all add: plain_def demo_bits)
  with suspend_resume [OF k c] show ?thesis by blast
qed

text \<open>
  C18.  LOS\_TaskDelay for a positive number of ticks: the caller stops running,
  the best other task runs, and the caller's deadline is exactly the current
  cycle count plus that many tick periods, with no wrap-around.  A timer tick that
  scans the timeout list at or after the deadline makes the task ready again, or
  runs it; a tick before the deadline leaves it asleep.
\<close>

theorem delay_deadline:
  assumes "kinv (Suc (Suc (Suc n))) s L" "runTask s = Some r" "\<not> blocked (status s r)" "taskID (tcb s r) \<noteq> g_idleTaskID s"
    "\<not> bit (status s r) 12" "\<not> os_int_active s" "g_losTaskLock s = 0" "g_taskScheduled s" "tick \<noteq> 0"
  shows "\<exists>s1 L1 d. LOS_TaskDelay tick s = Some (LOS_OK, s1) \<and> kinv (Suc (Suc n)) s1 L1 \<and>
    (\<exists>new. runTask s1 = Some new \<and> new \<noteq> r \<and> top_of s1 new) \<and> is_delay (status s1 r) \<and> NSort r \<in> set (the (L1 NTaskSort)) \<and>
    responseTime s1 (NSort r) = d \<and> unat d = unat (now_of (tk s)) + unat tick * unat (g_sysClock (tk s)) div 100 \<and>
    (g_schedResponseID s1 = OS_INVALID \<longrightarrow> (\<exists>s2 L2. OsTickHandler None s1 = Some s2 \<and> kinv n s2 L2 \<and>
       (if d \<le> now_of (OsUpdateSysTimeBase (tk s1))
        then \<not> is_delay (status s2 r) \<and> (is_ready (status s2 r) \<or> runTask s2 = Some r)
        else is_delay (status s2 r))))"
proof -
  let ?d = "now_of (tk s) + OS_SYS_TICK_TO_CYCLE tick (tk s)"
  obtain s1 L1 new where 1: "LOS_TaskDelay tick s = Some (LOS_OK, s1)" "kinv (Suc (Suc n)) s1 L1"
    "runTask s1 = Some new" "new \<noteq> r" "top_of s1 new" "is_delay (status s1 r)" "\<not> is_running (status s1 r)"
    "mem L1 NTaskSort (NSort r)" "responseTime s1 (NSort r) = ?d"
    and b: "\<And>u k. k \<noteq> 2 \<Longrightarrow> k \<noteq> 4 \<Longrightarrow> bit (status s1 u) k = (u = r \<and> k = 5 \<or> bit (status s u) k)" and K: "ikeep s s1"
    by (rule task_delay_law [OF assms]) (rule that; assumption)
  have t: "tick_ok (Suc (Suc (Suc n))) (tk s)" using assms(1) by (simp add: kinv_def sys_ok_def)
  have m: "NSort r \<in> set (the (L1 NTaskSort))" using 1(8) by (auto simp: mem_def)
  have on: "g_taskScheduled s1" using ikeep_sel [OF K] assms(8) by simp
  have dl: "delayed s1 r" using 1(6,7) by (simp add: delayed_def)
  have ns: "\<not> is_suspend (status s1 r)" using b [of 1 r] assms(3) by (simp add: blocked_def)
  note S = kinv_shape(5,6) [OF 1(2)]
  have T: "\<exists>s2 L2. OsTickHandler None s1 = Some s2 \<and> kinv n s2 L2 \<and>
     (if ?d \<le> now_of (OsUpdateSysTimeBase (tk s1))
      then \<not> is_delay (status s2 r) \<and> (is_ready (status s2 r) \<or> runTask s2 = Some r) else is_delay (status s2 r))"
    if i: "g_schedResponseID s1 = OS_INVALID"
  proof -
    have D: "r \<in> tick_due (now_of (OsUpdateSysTimeBase (tk s1))) s1 \<longleftrightarrow> ?d \<le> now_of (OsUpdateSysTimeBase (tk s1))"
      using i dl 1(9) by (simp add: tick_due_def due_def)
    obtain s2 L2 where 2: "OsTickHandler None s1 = Some s2" "sched_inv s2 L2" "sys_ok n s2"
      and w: "\<And>u. u \<in> tick_due (now_of (OsUpdateSysTimeBase (tk s1))) s1 \<Longrightarrow>
       \<not> is_pend (status s2 u) \<and> \<not> is_delay (status s2 u) \<and> \<not> is_pend_time (status s2 u) \<and>
       (is_timeout (status s2 u) \<longleftrightarrow> is_pend (status s1 u) \<or> is_timeout (status s1 u)) \<and>
       (is_ready (status s2 u) \<or> is_suspend (status s1 u) \<or> runTask s2 = Some u)"
      and o: "\<And>u k. u \<notin> tick_due (now_of (OsUpdateSysTimeBase (tk s1))) s1 \<Longrightarrow> k \<noteq> 2 \<Longrightarrow> k \<noteq> 4 \<Longrightarrow>
       bit (status s2 u) k = bit (status s1 u) k"
      by (rule tick_law [OF S on]) (rule that; assumption)
    show ?thesis
      by (rule exI [of _ s2], rule exI [of _ L2]) (use 2 w [of r] o [of r 5] D ns 1(6) in \<open>simp add: kinv_def\<close>)
  qed
  show ?thesis
    by (rule exI [of _ s1], rule exI [of _ L1], rule exI [of _ ?d], intro conjI)
      (use 1 m T deadline_nat(1) [OF t, of tick] in simp_all)
qed

theorem delay_deadline_witness:
  "\<exists>s1 L1 d. LOS_TaskDelay 10 demo = Some (LOS_OK, s1) \<and> kinv (Suc (Suc 1)) s1 L1 \<and>
    (\<exists>new. runTask s1 = Some new \<and> new \<noteq> 1 \<and> top_of s1 new) \<and> is_delay (status s1 1) \<and> NSort 1 \<in> set (the (L1 NTaskSort)) \<and>
    responseTime s1 (NSort 1) = d \<and> unat d = 2501500"
proof -
  have c: "runTask demo = Some 1" "\<not> blocked (status demo 1)" "taskID (tcb demo 1) \<noteq> g_idleTaskID demo"
    "\<not> bit (status demo 1) 12" "\<not> os_int_active demo" "g_losTaskLock demo = 0" "g_taskScheduled demo" "(10 :: u32) \<noteq> 0"
    by (simp_all add: blocked_def demo_bits)
  have k: "kinv (Suc (Suc (Suc 1))) demo demoL" by (rule demo_kinv) simp
  have "unat (now_of (tk demo)) + unat (10 :: u32) * unat (g_sysClock (tk demo)) div 100 = 2501500"
    by (simp add: demo_tick_def now_of_def)
  with delay_deadline [OF k c] show ?thesis by metis
qed

text \<open>
  C23.  LOS\_TaskPriSet changes the priority of a task and nothing else of it or of
  any other task but who runs: LOS\_TaskPriGet then returns the new priority.  If
  the task is ready or runs, the best task under the new priorities runs
  afterwards; a task that waits keeps its place in its wait list.
\<close>

theorem priority_set_get:
  assumes "kinv (Suc n) s L" "t = OS_TCB_FROM_TID tid" "prio \<le> OS_TASK_PRIORITY_LOWEST" "tid \<noteq> g_idleTaskID s"
    "\<not> (cfg_swtmr s \<and> tid = g_swtmrTaskID s)" "OS_TASK_ID_CHECK tid s" "\<not> is_unused (status s t)" "\<not> bit (status s t) 12"
  shows "\<exists>s' L'. LOS_TaskPriSet tid prio s = Some (LOS_OK, s') \<and> kinv n s' L' \<and> LOS_TaskPriGet tid s' = prio \<and>
    (\<forall>u. ipc_core (tcb s' u) = ipc_core (if u = t then (tcb s t)\<lparr>priority := prio\<rparr> else tcb s u)) \<and>
    (\<forall>q. plain q \<longrightarrow> L' q = L q) \<and>
    (if is_ready (status s t) \<or> is_running (status s t)
     then g_taskScheduled s \<and> g_losTaskLock s = 0 \<longrightarrow> (\<exists>new. runTask s' = Some new \<and> top_of s' new)
     else runTask s' = runTask s)"
proof -
  obtain s' L' where 1: "LOS_TaskPriSet tid prio s = Some (LOS_OK, s')" "kinv n s' L'" "ikeep (set_prio t prio s) s'"
    and b: "\<And>u k. k \<noteq> 2 \<Longrightarrow> k \<noteq> 4 \<Longrightarrow> bit (status s' u) k = bit (status s u) k" and Q: "\<And>q. plain q \<Longrightarrow> L' q = L q"
    and R: "is_ready (status s t) \<or> is_running (status s t) \<Longrightarrow> g_taskScheduled s \<Longrightarrow> g_losTaskLock s = 0 \<Longrightarrow>
       \<exists>new. runTask s' = Some new \<and> top_of s' new"
    and N: "\<not> (is_ready (status s t) \<or> is_running (status s t)) \<Longrightarrow> runTask s' = runTask s"
    by (rule task_priset_law [OF assms]) (rule that; assumption)
  have c: "ipc_core (tcb s' u) = ipc_core (if u = t then (tcb s t)\<lparr>priority := prio\<rparr> else tcb s u)" for u
    using ikeep_tcb [OF 1(3), of u] by (simp add: upd_tcb_def)
  have "priority (tcb s' t) = prio" using c [of t] by (auto dest: arg_cong [where f = priority] simp: ipc_core_def)
  moreover have "\<not> is_unused (status s' t)" using b [of 0 t] assms(7) by simp
  moreover have "OS_TASK_ID_CHECK tid s'"
    using assms(6) ikeep_sel [OF 1(3)] by (simp add: OS_TASK_ID_CHECK_def upd_tcb_def)
  ultimately have G: "LOS_TaskPriGet tid s' = prio" using assms(2) by (simp add: LOS_TaskPriGet_def flag_simps)
  show ?thesis by (rule exI [of _ s'], rule exI [of _ L']) (use 1(1,2) G c Q R N in auto)
qed

theorem priority_set_get_witness:
  "\<exists>s' L'. LOS_TaskPriSet 4 3 demo = Some (LOS_OK, s') \<and> kinv 1 s' L' \<and> LOS_TaskPriGet 4 s' = 3 \<and>
    ipc_core (tcb s' 8) = ipc_core (demo_task 8) \<and> (\<exists>new. runTask s' = Some new \<and> top_of s' new)"
proof -
  have c: "4 = OS_TCB_FROM_TID 4" "(3 :: u16) \<le> OS_TASK_PRIORITY_LOWEST" "4 \<noteq> g_idleTaskID demo"
    "\<not> (cfg_swtmr demo \<and> 4 = g_swtmrTaskID demo)" "OS_TASK_ID_CHECK 4 demo" "\<not> is_unused (status demo 4)" "\<not> bit (status demo 4) 12"
    by (simp_all add: demo_deletable OS_TASK_ID_CHECK_def demo_bits)
  have k: "kinv (Suc 1) demo demoL" by (rule demo_kinv) simp
  have d: "is_ready (status demo 4)" "g_taskScheduled demo" "g_losTaskLock demo = 0" "tcb demo = demo_task" "(8 :: nat) \<noteq> 4"
    by (simp_all add: demo_bits)
  obtain s' L' where 1: "LOS_TaskPriSet 4 3 demo = Some (LOS_OK, s')" "kinv 1 s' L'" "LOS_TaskPriGet 4 s' = 3"
    "\<forall>u. ipc_core (tcb s' u) = ipc_core (if u = 4 then (tcb demo 4)\<lparr>priority := 3\<rparr> else tcb demo u)"
    "\<exists>new. runTask s' = Some new \<and> top_of s' new"
    using priority_set_get [OF k c] d(1-3) by auto
  then show ?thesis using spec [OF 1(4), of 8] d(4) by auto
qed



text \<open>
  C21.  LOS\_TaskJoin on a task that can be joined and has not ended blocks the
  caller without a timeout: it is the one task in the target's join list, the best
  other task runs, and no other wait list changes.  LOS\_TaskDelete of the target
  is what wakes it.
\<close>

theorem join_blocks:
  assumes "kinv (Suc n) s L" "OsCheckTaskIDValid tid s = LOS_OK" "t = OS_TCB_FROM_TID tid"
    "runTask s = Some r" "taskID (tcb s r) \<noteq> tid" "\<not> blocked (status s r)" "taskID (tcb s r) \<noteq> g_idleTaskID s"
    "\<not> os_int_active s" "g_losTaskLock s = 0" "g_taskScheduled s"
    "\<not> is_unused (status s t)" "\<not> is_exit (status s t)" "bit (status s t) 15" "L (NJoin t) = Some []"
  shows "\<exists>s' L' new. LOS_TaskJoin tid s = Some (Wait t, s') \<and> kinv n s' L' \<and> ikeep s s' \<and> joiner L' t = Some r \<and>
    is_pend (status s' r) \<and> \<not> is_pend_time (status s' r) \<and> runTask s' = Some new \<and> new \<noteq> r \<and> top_of s' new \<and>
    (\<forall>q. plain q \<longrightarrow> L' q = (if q = NJoin t then Some [NPend r] else L q))"
proof -
  obtain s' L' new where 1: "LOS_TaskJoin tid s = Some (Wait t, s')" "kinv n s' L'" "ikeep s s'" "joiner L' t = Some r"
    "is_pend (status s' r)" "\<not> is_pend_time (status s' r)" "runTask s' = Some new" "new \<noteq> r" "top_of s' new"
    and Q: "\<And>q. plain q \<Longrightarrow> L' q = (if q = NJoin t then Some [NPend r] else L q)"
    by (rule join_wait_law [OF assms]) (rule that; assumption)
  show ?thesis by (rule exI [of _ s'], rule exI [of _ L'], rule exI [of _ new]) (use 1 Q in simp)
qed

theorem join_blocks_witness:
  "\<exists>s' L' new. LOS_TaskJoin 4 demo = Some (Wait 4, s') \<and> kinv 1 s' L' \<and> ikeep demo s' \<and> joiner L' 4 = Some 1 \<and>
    is_pend (status s' 1) \<and> \<not> is_pend_time (status s' 1) \<and> runTask s' = Some new \<and> new \<noteq> 1 \<and> top_of s' new"
proof -
  have c: "OsCheckTaskIDValid 4 demo = LOS_OK" "4 = OS_TCB_FROM_TID 4"
    "runTask demo = Some 1" "taskID (tcb demo 1) \<noteq> 4" "\<not> blocked (status demo 1)" "taskID (tcb demo 1) \<noteq> g_idleTaskID demo"
    "\<not> os_int_active demo" "g_losTaskLock demo = 0" "g_taskScheduled demo"
    "\<not> is_unused (status demo 4)" "\<not> is_exit (status demo 4)" "bit (status demo 4) 15" "demoL (NJoin 4) = Some []"
    by (simp_all add: OsCheckTaskIDValid_def demo_deletable demo_bits blocked_def demoL_eq word_le_nat_alt)
  have k: "kinv (Suc 1) demo demoL" by (rule demo_kinv) simp
  from join_blocks [OF k c] show ?thesis by blast
qed

end
