(* ===== verification/Spec2Isabelle.thy ===== *)
theory Spec2Isabelle
  imports PropSystem PropCmsis PropSched PropIpc PropMem PropTask
begin

text \<open>
  A verification library for the LiteOS-M kernel as rehosted in this repository.
  File names below are relative to src/.

  \<^bold>\<open>The program and its parts.\<close>  LiteOS-M is a real-time kernel for one processor.
  The scheduler (kernel/src/los_sched.c) keeps tasks in ready queues by priority, a
  timeout list sorted by response time (kernel/src/los_sortlink.c) and one wait list
  per communication object; all of them are the circular doubly linked lists of
  utils/los_list.h.  Semaphores, mutexes, events and message queues (los_sem.c,
  los_mux.c, los_event.c, los_queue.c) block their callers with OsSchedTaskWait and
  wake them with OsSchedTaskWake; the timer interrupt (los_tick.c) ends waits whose
  time is over; task services (los_task.c) create, delete, suspend, resume, delay and
  join tasks; los_init.c starts everything.  Above the kernel is the CMSIS-RTOS2
  interface, kal/cmsis/cmsis_liteos2.c.  In this repository the context switch and the
  interrupt lock are replaced by those of sub/LiteOS_RTOS_FE.c, which drive host
  threads, and the configuration is that of the board under sub/.

  \<^bold>\<open>How the code is modelled.\<close>  A C function is a function on the record \<open>kstate\<close>
  (LosState), which has the global variables, the control block tables, the link
  pointers of all lists, the stacks, the byte memory and the clock.  A function that
  may dereference NULL, divide by zero, fail an assertion or loop forever returns an
  option, and \<open>None\<close> is that it does not return; most theorems about such a function
  say that it does.  Integers are words of the width they have in C, so sums and
  counters wrap.  An out parameter is a part of the result, and a pointer that may be
  NULL is an option or a truth value.  A call that blocks is cut where it calls
  LOS_Schedule: the first part answers \<open>Ret\<close> with a code or \<open>Wait\<close> with what the
  rest of the call needs, and a function with the suffix \<open>_resume\<close> is the rest.  The
  invariants have a second argument \<open>L\<close>, which gives the contents of every list; the
  pointers are required to represent it (\<open>dl_rep\<close>).

  \<^bold>\<open>Theories.\<close>
  \<^item> LosPrelude: integer types, collections of rewrite rules, flag tests, the CLZ
    instruction, facts on lists and options.
  \<^item> LosList: utils/los_list.h on a heap of pointers.  Locale \<open>node_lists\<close>: what
    insertion and deletion do to the represented lists, and the first-in first-out law.
  \<^item> LosTick: los_tick.c, los_tick.h and arch/arm/cortex-m4/gcc/los_timer.c.
  \<^item> LosState: the control blocks of kernel/include and the global variables.
  \<^item> LosSortlink: los_sortlink.c; insertion keeps the timeout list sorted and returns.
  \<^item> LosSched: los_sched.c and the task switch.  LosSchedInv: the invariant
    \<open>sched_inv\<close> (each task is in exactly the lists its status names, the bitmap tells
    which queues are not empty, the timeout list is sorted) and that the operations
    keep it.  LosSwitch: the choice of the next task, the switch and the tick.
  \<^item> LosKernel: \<open>kinv n\<close>, the scheduler invariant together with a clock that can
    count \<open>n\<close> more timer periods, and locale \<open>wait_queues\<close>, the contract through
    which the communication objects use the scheduler.
  \<^item> LosPool: locale \<open>cb_pool\<close>, free lists of control blocks.
  \<^item> LosSem, LosMux, LosEvent, LosQueue: the communication objects.  Each has an
    invariant and laws for every branch of its functions; semaphores, mutexes and
    queues refine abstract objects (a count or waiters, an owner with a nesting depth
    and waiters, a bounded sequence of messages).  Locale \<open>node_content\<close> in LosQueue
    covers queues of copies and queues of pointers alike.
  \<^item> LosTask: los_task.c and the stack frame of arch/arm/cortex-m4/gcc/los_context.c;
    LosTaskInv: its laws.
  \<^item> LosSecurec, LosStr: memory and string functions of
    third_party_bounds_checking_function.  LosMembox: kernel/src/mm/los_membox.c, the
    pools of blocks of one size.
  \<^item> LosSwtmr: software timers, los_swtmr.c.
  \<^item> LosBoot: OsTaskInit, OsIdleTaskCreate, LOS_KernelInit and the start of the first
    task.  LosStart: what they establish, with locale \<open>init_loop\<close> for the loops that
    link the control blocks of a table into its free list.
  \<^item> LosSystem: the calls of the kernel as a datatype, \<open>step\<close> and \<open>steps\<close> for
    their interleaving with ticks, and \<open>core_inv\<close>, all invariants together, which
    every call keeps.
  \<^item> LosCmsis: cmsis_liteos2.c; LosCmsisInv: a CMSIS call is refused or is one call of
    the kernel, so that applications are covered by LosSystem; LosCmsisPool: its
    memory pools.
  \<^item> LosDemo: a system in operation and a machine after reset, on which the theorems
    are applied.  PropSystem, PropCmsis, PropSched, PropIpc, PropTask,
    PropMem and this theory: the properties.

  \<^bold>\<open>What the properties say.\<close>  Whole system: whatever sequence of calls and ticks
  happens, all invariants hold again, a task that is not blocked runs, and no call
  gets stuck (PropSystem, PropCmsis); LOS_KernelInit, the creation of a task and
  LOS_Start lead from reset to such a state.  Scheduler: after a call of the scheduler
  the first task of the highest priority runs; a tick wakes exactly the tasks that are
  due, with the flag of a timeout.  Objects: refinement of the abstract object, waiters
  served in order, priority inheritance and its end, no lost event, messages read in
  the order they were written.  Tasks: the state and the stack of a created task, what
  deletion, joining, delay, suspension, priority changes and the scheduler lock do.
  Memory: pools hand out every block once, and the copying
  functions write only to their destination.

  \<^bold>\<open>Bounds, fuel and hypotheses.\<close>  There is no fuel: loops that follow pointers are
  partial functions, and the laws show that they return.  The clock is a 64-bit count
  of cycles that must not pass half of its range (\<open>tick_ok\<close>), because the code
  compares and adds times without checks; the number \<open>n\<close> of the invariants says for
  how many timer periods this is sure, and one event uses two at most.  The tables
  have the sizes of the configuration: 24 tasks and one more, 48 semaphores, 24
  mutexes, 24 queues, 48 software timers, 32 priorities.  \<open>allowed\<close> says how calls must be
  used: event control blocks were initialised, a mutex is not locked 65536 times over
  (the counter would wrap), a task that has ended is not resumed.  \<open>reset_ok\<close>
  describes memory after reset, and \<open>app_param_ok\<close> the parameters of the first
  application task.  The answers of malloc are a list in the state, and the
  addresses of C functions a function in it: both are arbitrary, and 0 is a failure.
  Software timers are off on the board (\<open>cfg_swtmr\<close>), and the runs of PropSystem are
  without them.  Interrupts are locked in every modelled call, so calls and ticks are
  atomic with respect to each other.

  \<^bold>\<open>Not modelled.\<close>
  \<^item> The host back end of sub/, which creates threads, sends signals and sets timers of
    the operating system; the registers of interrupt controller, MPU and fault
    handling and the assembly code: no state of the kernel.
  \<^item> LOS_TickTimerRegister (another timer driver) and the busy waits LOS_UDelay and
    LOS_MDelay, which only read the clock; LOS_Panic and LOS_Reboot, which do not return.
  \<^item> The allocator of kernel/src/mm/los_memoey.c: this repository compiles
    LOS_MemAlloc as malloc, and the pool is never allocated from.
  \<^item> Debug output, hooks, CPU usage statistics, power management, dynamic loading,
    file systems, network and the other components that are off in the
    configuration; osTimerExtNew, which is compiled out.
  \<^item> The POSIX interface kal/posix, which is not compiled for the board and is mostly the C library's.
  \<^item> Formatted input and output and wide characters of the bounds checking library.
  \<^item> Device drivers, boards, third-party packages, services above the kernel and tests.
\<close>

text \<open>
  C29.  A wait list is first-in first-out: nodes appended to a list with
  LOS\_ListTailInsert and then removed from its front with LOS\_ListDelete come
  out behind the nodes that were there, in the order they were appended; every
  pointer operation returns, and all other lists of the heap are untouched.
\<close>

theorem wait_list_fifo:
  assumes "dl_rep h L" "L q = Some xs" "distinct ns" "set ns \<inter> covered L = {}"
  shows "\<exists>h' h''. insert_all LOS_ListTailInsert q ns h = Some h' \<and>
           drain list_front LOS_ListDelete (length (xs @ ns)) q h' = Some (xs @ ns, h'') \<and>
           dl_rep h'' (L(q \<mapsto> []))"
  using assms by (rule dlq.fifo_law)

theorem wait_list_fifo_witness:
  "\<exists>h' h''. insert_all LOS_ListTailInsert 0 [1, 2 :: nat]
       (LOS_ListInit 0 \<lparr>pstPrev = \<lambda>_. None, pstNext = \<lambda>_. None\<rparr>) = Some h' \<and>
     drain list_front LOS_ListDelete (length ([] @ [1, 2 :: nat])) 0 h' = Some ([] @ [1, 2], h'') \<and>
     dl_rep h'' ([0 \<mapsto> []](0 \<mapsto> []))"
proof (rule wait_list_fifo)
  show "dl_rep (LOS_ListInit 0 \<lparr>pstPrev = \<lambda>_. None, pstNext = \<lambda>_. None\<rparr>) [0 :: nat \<mapsto> []]"
    by (simp add: dl_rep_def dll_def LOS_ListInit_def)
  show "set [1, 2 :: nat] \<inter> covered [0 \<mapsto> []] = {}"
    by (auto simp: covered_def split: if_splits)
qed simp_all

end
